(* ===== verification/Melon_Prelude.thy ===== *)
theory Melon_Prelude
  imports Main "HOL-Library.Word"
begin

text \<open>
  Shared ground of the melonOS development.

  \<^item> The result type of kernel code: \<open>Inl\<close> a fault, \<open>Inr\<close> a value.  A call of
    \<open>panic\<close> (kernel/err.c) never returns, so it is a fault that no caller can catch; a
    loop that spins for ever and an access outside an object are faults as well.
  \<^item> Machine words of i386: \<open>u8\<close>, \<open>u16\<close>, \<open>u32\<close>, \<open>u64\<close>.
  \<^item> The byte memory the kernel sees through its direct map, with the little-endian
    32-bit accesses that C's \<open>*(uint32_t *)p\<close> compiles to.
\<close>

unbundle bit_operations_syntax

section \<open>Machine words\<close>

type_synonym u8 = "8 word"
type_synonym u16 = "16 word"
type_synonym u32 = "32 word"
type_synonym u64 = "64 word"

named_theorems word_nat \<open>reading 32-bit arithmetic as arithmetic on natural numbers\<close>

lemma unat_lt32: "unat (x :: u32) < 4294967296"
  using unsigned_less [of x] by simp

lemma unat_lt8: "unat (x :: u8) < 256"
  using unsigned_less [of x] by simp

lemma unat_le32: "unat (x :: u32) \<le> 4294967295"
  using unat_lt32 [of x] by linarith

lemma unat_add32 [word_nat]: "unat (a + b :: u32) = (unat a + unat b) mod 4294967296"
  by (simp add: unat_word_ariths)

lemma unat_sub32 [word_nat]:
  "unat (a - b :: u32) =
     (if unat b \<le> unat a then unat a - unat b else unat a + 4294967296 - unat b)"
  by (simp add: unat_sub_if')

lemma unat_of_nat32 [word_nat]: "unat (of_nat n :: u32) = n mod 4294967296"
  by (simp add: unat_of_nat)

lemma word32_eq_iff: "a = b \<longleftrightarrow> unat a = unat (b :: u32)"
  by (simp add: word_unat_eq_iff)

lemma word32_le_iff: "a \<le> b \<longleftrightarrow> unat a \<le> unat (b :: u32)"
  by (rule word_le_nat_alt)

lemma word32_less_iff: "a < b \<longleftrightarrow> unat a < unat (b :: u32)"
  by (rule word_less_nat_alt)

lemmas word32_cmp = word32_eq_iff word32_le_iff word32_less_iff

text \<open>The distance from \<open>p\<close> to \<open>a\<close> measured upwards, modulo the address space.\<close>

lemma unat_diff_Suc:
  fixes a p :: u32
  assumes "a \<noteq> p"
  shows "unat (a - p) = Suc (unat (a - (p + 1)))"
proof -
  have "a - p \<noteq> 0" using assms by simp
  then have "unat (a - p) = Suc (unat (a - p - 1))"
    using unat_minus_one [of "a - p"] unat_gt_0 [of "a - p"] by simp
  then show ?thesis by (simp add: algebra_simps)
qed

lemma unat_neg_1 [simp]: "unat (- 1 :: u32) = 4294967295"
  by (simp add: unat_eq_nat_uint uint_word_ariths)

lemma unat_minus1: "unat (p - (p + 1) :: u32) = 4294967295"
  by simp

section \<open>Results of kernel code\<close>

text \<open>
  \<open>Panic msg\<close> is the call \<open>panic(msg)\<close>; \<open>Hang\<close> is a loop with no way out;
  \<open>OutOfBounds\<close> is an access past the end (or before the start) of an array.
\<close>

datatype fault = Panic string | Hang | OutOfBounds

type_synonym 'a res = "fault + 'a"

definition rbind :: "'a res \<Rightarrow> ('a \<Rightarrow> 'b res) \<Rightarrow> 'b res" where
  "rbind r k = (case r of Inl e \<Rightarrow> Inl e | Inr x \<Rightarrow> k x)"

named_theorems res_iff \<open>inversion of a sequence of calls that returned\<close>

lemma rbind_simps [simp]:
  "rbind (Inl e) k = Inl e"
  "rbind (Inr x) k = k x"
  by (simp_all add: rbind_def)

lemma rbind_Inr_iff [res_iff]: "rbind r k = Inr y \<longleftrightarrow> (\<exists>x. r = Inr x \<and> k x = Inr y)"
  by (cases r) auto

lemma rbind_Inl_iff [res_iff]:
  "rbind r k = Inl e \<longleftrightarrow> r = Inl e \<or> (\<exists>x. r = Inr x \<and> k x = Inl e)"
  by (cases r) auto

lemma rbind_cong [fundef_cong]:
  "r = r' \<Longrightarrow> (\<And>x. r' = Inr x \<Longrightarrow> k x = k' x) \<Longrightarrow> rbind r k = rbind r' k'"
  by (cases r') auto

lemma rbind_assoc: "rbind (rbind r f) g = rbind r (\<lambda>x. rbind (f x) g)"
  by (cases r) auto

lemma if_Inr_iff [res_iff]:
  "(if c then Inl e else r) = Inr y \<longleftrightarrow> \<not> c \<and> r = Inr y"
  by simp

section \<open>Byte memory\<close>

type_synonym mem = "u32 \<Rightarrow> u8"

definition load32 :: "mem \<Rightarrow> u32 \<Rightarrow> u32" where
  "load32 m a =
     ucast (m a) OR push_bit 8 (ucast (m (a + 1)))
       OR push_bit 16 (ucast (m (a + 2))) OR push_bit 24 (ucast (m (a + 3)))"

definition store32 :: "mem \<Rightarrow> u32 \<Rightarrow> u32 \<Rightarrow> mem" where
  "store32 m a v =
     m(a := ucast v, a + 1 := ucast (drop_bit 8 v),
       a + 2 := ucast (drop_bit 16 v), a + 3 := ucast (drop_bit 24 v))"

definition aligned4 :: "u32 \<Rightarrow> bool" where
  "aligned4 a \<longleftrightarrow> unat a mod 4 = 0"

lemma load_store_same_bytes:
  "ucast (ucast v :: u8) OR push_bit 8 (ucast (ucast (drop_bit 8 v) :: u8))
     OR push_bit 16 (ucast (ucast (drop_bit 16 v) :: u8))
     OR push_bit 24 (ucast (ucast (drop_bit 24 v) :: u8)) = (v :: u32)"
proof (rule bit_eqI)
  fix n
  assume "possible_bit TYPE(32 word) n"
  then have n: "n < 32" by (simp add: possible_bit_def)
  consider "n < 8" | "8 \<le> n" "n < 16" | "16 \<le> n" "n < 24" | "24 \<le> n" by linarith
  then show "bit (ucast (ucast v :: u8) OR push_bit 8 (ucast (ucast (drop_bit 8 v) :: u8))
     OR push_bit 16 (ucast (ucast (drop_bit 16 v) :: u8))
     OR push_bit 24 (ucast (ucast (drop_bit 24 v) :: u8)) :: u32) n = bit v n"
    using n by cases (auto simp: bit_simps)
qed

lemma plus_neq_small:
  fixes a :: u32
  shows "a + 1 \<noteq> a" "a + 2 \<noteq> a" "a + 3 \<noteq> a"
    "a + 2 \<noteq> a + 1" "a + 3 \<noteq> a + 1" "a + 3 \<noteq> a + 2"
  by simp_all

lemma load_store_same [simp]: "load32 (store32 m a v) a = v"
  using plus_neq_small [of a] load_store_same_bytes [of v]
  by (simp add: load32_def store32_def)

lemma aligned4_offset_inj:
  assumes "aligned4 a" "aligned4 b" "i < 4" "j < 4" "a + of_nat i = b + of_nat j"
  shows "a = b"
proof -
  have "(unat a + i) mod 4294967296 = (unat b + j) mod 4294967296"
    using arg_cong [OF assms(5), of unat] assms(3,4)
    by (simp add: unat_add32 unat_of_nat32)
  moreover have "unat a mod 4 = 0" "unat b mod 4 = 0"
    using assms(1,2) by (simp_all add: aligned4_def)
  moreover have "unat a + i < 4294967296" "unat b + j < 4294967296"
    using \<open>unat a mod 4 = 0\<close> \<open>unat b mod 4 = 0\<close> assms(3,4) unat_lt32 [of a] unat_lt32 [of b]
    by presburger+
  ultimately have "unat a + i = unat b + j" by simp
  then have "unat a = unat b"
    using \<open>unat a mod 4 = 0\<close> \<open>unat b mod 4 = 0\<close> assms(3,4) by presburger
  then show ?thesis by (simp add: word32_eq_iff)
qed

lemma store32_other_byte:
  assumes "x \<noteq> a" "x \<noteq> a + 1" "x \<noteq> a + 2" "x \<noteq> a + 3"
  shows "store32 m a v x = m x"
  using assms by (simp add: store32_def)

lemma load_store_other:
  assumes "aligned4 a" "aligned4 b" "a \<noteq> b"
  shows "load32 (store32 m a v) b = load32 m b"
proof -
  have d: "b + of_nat j \<noteq> a + of_nat i" if "i < 4" "j < 4" for i j
    using aligned4_offset_inj [OF assms(1,2), of i j] that assms(3) by metis
  have "store32 m a v (b + of_nat j) = m (b + of_nat j)" if "j < 4" for j
    using d [of 0 j] d [of 1 j] d [of 2 j] d [of 3 j] that
    by (intro store32_other_byte) auto
  from this [of 0] this [of 1] this [of 2] this [of 3] show ?thesis
    by (simp add: load32_def)
qed

lemma load_store [simp]:
  "aligned4 a \<Longrightarrow> aligned4 b \<Longrightarrow>
     load32 (store32 m a v) b = (if a = b then v else load32 m b)"
  by (simp add: load_store_other)

lemma load32_cong:
  "(\<And>i. i < 4 \<Longrightarrow> m (a + of_nat i) = m' (a + of_nat i)) \<Longrightarrow> load32 m a = load32 m' a"
proof -
  assume eq: "\<And>i. i < 4 \<Longrightarrow> m (a + of_nat i) = m' (a + of_nat i)"
  from eq [of 0] eq [of 1] eq [of 2] eq [of 3] show ?thesis by (simp add: load32_def)
qed

end
