(* ===== verification/Lib_String.thy ===== *)
theory Lib_String
  imports Melon_Prelude
begin

text \<open>
  lib/string.c: the memory and string routines the kernel and the user library link
  against.  Every routine works on the byte memory, with pointers as 32-bit words, so that
  overlap and writes past the end of a buffer are visible.  Loops over a byte count
  (\<open>while (n--)\<close>) are structural recursion on the count; loops that look for the
  terminating NUL may run for ever on memory without one and are
  \<^theory_text>\<open>partial_function (option)\<close>, \<open>None\<close> meaning that they do not return.
  \<open>char\<close> is signed on i386, so differences of characters are taken with \<open>sint\<close>.
\<close>

section \<open>The routines\<close>

fun memcmp_loop :: "mem \<Rightarrow> u32 \<Rightarrow> u32 \<Rightarrow> nat \<Rightarrow> int" where
  "memcmp_loop m s1 s2 0 = 0"
| "memcmp_loop m s1 s2 (Suc n) =
     (if m s1 \<noteq> m s2 then sint (m s1) - sint (m s2) else memcmp_loop m (s1 + 1) (s2 + 1) n)"

definition memcmp :: "mem \<Rightarrow> u32 \<Rightarrow> u32 \<Rightarrow> u32 \<Rightarrow> int" where
  "memcmp m v1 v2 n = memcmp_loop m v1 v2 (unat n)"

fun copy_up :: "mem \<Rightarrow> u32 \<Rightarrow> u32 \<Rightarrow> nat \<Rightarrow> mem" where
  "copy_up m d s 0 = m"
| "copy_up m d s (Suc n) = copy_up (m(d := m s)) (d + 1) (s + 1) n"

fun copy_down :: "mem \<Rightarrow> u32 \<Rightarrow> u32 \<Rightarrow> nat \<Rightarrow> mem" where
  "copy_down m d s 0 = m"
| "copy_down m d s (Suc n) = copy_down (m(d := m s)) (d - 1) (s - 1) n"

definition memmove :: "mem \<Rightarrow> u32 \<Rightarrow> u32 \<Rightarrow> u32 \<Rightarrow> mem" where
  "memmove m dest src n =
     (if src < dest \<and> src + n > dest
      then copy_down m (dest + (n - 1)) (src + (n - 1)) (unat n)
      else copy_up m dest src (unat n))"

definition memcpy :: "mem \<Rightarrow> u32 \<Rightarrow> u32 \<Rightarrow> u32 \<Rightarrow> mem" where
  "memcpy m dest src n = copy_up m dest src (unat n)"

fun memset_loop :: "mem \<Rightarrow> u32 \<Rightarrow> u8 \<Rightarrow> nat \<Rightarrow> mem" where
  "memset_loop m p c 0 = m"
| "memset_loop m p c (Suc n) = memset_loop (m(p := c)) (p + 1) c n"

definition memset :: "mem \<Rightarrow> u32 \<Rightarrow> u32 \<Rightarrow> u32 \<Rightarrow> mem" where
  "memset m tgt v n = memset_loop m tgt (ucast v AND 0xff) (unat n)"

partial_function (option) strlen_from :: "mem \<Rightarrow> u32 \<Rightarrow> u32 \<Rightarrow> u32 option" where
  "strlen_from m s n = (if m (s + n) \<noteq> 0 then strlen_from m s (n + 1) else Some n)"

definition strlen :: "mem \<Rightarrow> u32 \<Rightarrow> u32 option" where
  "strlen m s = strlen_from m s 0"

fun strncmp_loop :: "mem \<Rightarrow> u32 \<Rightarrow> u32 \<Rightarrow> nat \<Rightarrow> int" where
  "strncmp_loop m s1 s2 0 = 0"
| "strncmp_loop m s1 s2 (Suc n) =
     (if m s1 \<noteq> 0 \<and> m s2 \<noteq> 0 \<and> m s1 = m s2
      then strncmp_loop m (s1 + 1) (s2 + 1) n
      else sint (m s1) - sint (m s2))"

definition strncmp :: "mem \<Rightarrow> u32 \<Rightarrow> u32 \<Rightarrow> u32 \<Rightarrow> int" where
  "strncmp m s1 s2 n = strncmp_loop m s1 s2 (unat n)"

text \<open>
  The inner loop of \<open>strncpy\<close> is \<open>while (--n) *d = 0;\<close>: the counter is decremented
  before it is tested, and \<open>d\<close> does not move.
\<close>

function strncpy_pad :: "mem \<Rightarrow> u32 \<Rightarrow> u32 \<Rightarrow> mem" where
  "strncpy_pad m d n = (if n - 1 \<noteq> 0 then strncpy_pad (m(d := 0)) d (n - 1) else m)"
  by pat_completeness auto
termination
proof (relation "measure (\<lambda>(m, d, n). if n = 0 then 4294967296 else unat n)")
  fix m :: mem and d n :: u32
  assume "n - 1 \<noteq> 0"
  show "((m(d := 0), d, n - 1), m, d, n)
          \<in> measure (\<lambda>(m, d, n). if n = 0 then 4294967296 else unat n)"
  proof (cases "n = 0")
    case True
    then have "n - 1 \<noteq> 0" by simp
    with True show ?thesis using unat_lt32 [of "n - 1"]
      by (simp only: in_measure prod.case simp_thms if_True if_False)
  next
    case False
    then have "unat (n - 1) < unat n" by (rule measure_unat)
    with False \<open>n - 1 \<noteq> 0\<close> show ?thesis
      by (simp only: in_measure prod.case simp_thms if_True if_False)
  qed
qed simp

declare strncpy_pad.simps [simp del]

fun strncpy_loop :: "mem \<Rightarrow> u32 \<Rightarrow> u32 \<Rightarrow> nat \<Rightarrow> mem" where
  "strncpy_loop m d s 0 = m"
| "strncpy_loop m d s (Suc n) =
     (if m s = 0 then strncpy_pad (m(d := 0)) (d + 1) (of_nat n)
      else strncpy_loop (m(d := m s)) (d + 1) (s + 1) n)"

definition strncpy :: "mem \<Rightarrow> u32 \<Rightarrow> u32 \<Rightarrow> u32 \<Rightarrow> mem" where
  "strncpy m dest src n = strncpy_loop m dest src (unat n)"

definition swap_bytes :: "mem \<Rightarrow> u32 \<Rightarrow> u32 \<Rightarrow> mem" where
  "swap_bytes m b e = m(b := m e, e := m b)"

function rev_loop :: "mem \<Rightarrow> u32 \<Rightarrow> u32 \<Rightarrow> mem" where
  "rev_loop m b e =
     (if sint (e - b) \<ge> 1 then rev_loop (swap_bytes m b e) (b + 1) (e - 1) else m)"
  by pat_completeness auto
termination
proof (relation "measure (\<lambda>(m, b, e). nat (sint (e - b)))")
  fix m :: mem and b e :: u32
  assume a: "1 \<le> sint (e - b)"
  have "sint (e - b) < 2147483648" using sint_lt [of "e - b"] by simp
  have "e - 1 - (b + 1) = (e - b) - 2" by simp
  moreover have "sint (e - b - 2) = sint (e - b) - 2"
    using a \<open>sint (e - b) < 2147483648\<close>
    by (simp add: sint_word_ariths signed_take_bit_int_eq_self)
  ultimately show "((swap_bytes m b e, b + 1, e - 1), m, b, e)
      \<in> measure (\<lambda>(m, b, e). nat (sint (e - b)))"
    using a by simp
qed simp

declare rev_loop.simps [simp del]

definition strrev :: "mem \<Rightarrow> u32 \<Rightarrow> mem option" where
  "strrev m s =
     (case strlen_from m s 0 of None \<Rightarrow> None | Some n \<Rightarrow> Some (rev_loop m s (s + n - 1)))"

partial_function (option) spn_inner :: "mem \<Rightarrow> u8 \<Rightarrow> u32 \<Rightarrow> bool \<Rightarrow> bool option" where
  "spn_inner m ch a c =
     (if m a = 0 then Some False
      else if c \<and> ch \<noteq> m a then Some True
      else if \<not> c \<and> ch = m a then Some True
      else spn_inner m ch (a + 1) c)"

partial_function (option) spn_loop :: "mem \<Rightarrow> u32 \<Rightarrow> u32 \<Rightarrow> bool \<Rightarrow> u32 \<Rightarrow> u32 option" where
  "spn_loop m s accept c n =
     (if m s = 0 then Some n
      else (case spn_inner m (m s) accept c of
              None \<Rightarrow> None
            | Some b \<Rightarrow> if b then spn_loop m (s + 1) accept c (n + 1) else Some n))"

definition spn_helper :: "mem \<Rightarrow> u32 \<Rightarrow> u32 \<Rightarrow> bool \<Rightarrow> u32 option" where
  "spn_helper m s accept c = (if m accept = 0 then Some 0 else spn_loop m s accept c 0)"

definition strspn :: "mem \<Rightarrow> u32 \<Rightarrow> u32 \<Rightarrow> u32 option" where
  "strspn m s accept = spn_helper m s accept False"

definition strcspn :: "mem \<Rightarrow> u32 \<Rightarrow> u32 \<Rightarrow> u32 option" where
  "strcspn m s accept = spn_helper m s accept True"

text \<open>
  \<open>strtok_r\<close> returns the token (\<open>0\<close> when there is none), the new value of
  \<open>*saveptr\<close> and the memory, in which the delimiter that ended the token is now NUL.
\<close>

definition strtok_r :: "mem \<Rightarrow> u32 \<Rightarrow> u32 \<Rightarrow> u32 \<Rightarrow> (u32 \<times> u32 \<times> mem) option" where
  "strtok_r m str delim saveptr =
     (if m delim = 0 then Some (0, saveptr, m)
      else (case (if str = 0 then Some saveptr
                  else map_option (\<lambda>k. str + k) (strspn m str delim)) of
              None \<Rightarrow> None
            | Some s \<Rightarrow>
                if m s = 0 then Some (0, s, m)
                else (case strcspn m s delim of
                        None \<Rightarrow> None
                      | Some k \<Rightarrow>
                          (let e = s + k in
                             if m e = 0 then Some (s, e, m)
                             else Some (s, e + 1, m(e := 0))))))"

text \<open>\<open>strtok\<close>: its static variable \<open>old\<close> is an argument and part of the result.\<close>

definition strtok :: "mem \<Rightarrow> u32 \<Rightarrow> u32 \<Rightarrow> u32 \<Rightarrow> (u32 \<times> u32 \<times> mem) option" where
  "strtok m str delim old = strtok_r m str delim old"

partial_function (option) pbrk_inner :: "mem \<Rightarrow> u8 \<Rightarrow> u32 \<Rightarrow> bool option" where
  "pbrk_inner m ch k =
     (if m k = 0 then Some False else if ch = m k then Some True else pbrk_inner m ch (k + 1))"

partial_function (option) pbrk_loop :: "mem \<Rightarrow> u32 \<Rightarrow> u32 \<Rightarrow> u32 option" where
  "pbrk_loop m s keys =
     (if m s = 0 then Some 0
      else (case pbrk_inner m (m s) keys of
              None \<Rightarrow> None
            | Some b \<Rightarrow> if b then Some s else pbrk_loop m (s + 1) keys))"

definition strpbrk :: "mem \<Rightarrow> u32 \<Rightarrow> u32 \<Rightarrow> u32 option" where
  "strpbrk m s keys =
     (if s = 0 then Some 0 else if keys = 0 then Some 0 else pbrk_loop m s keys)"

fun strncat_loop :: "mem \<Rightarrow> u32 \<Rightarrow> u32 \<Rightarrow> nat \<Rightarrow> mem" where
  "strncat_loop m p src 0 = m(p := 0)"
| "strncat_loop m p src (Suc n) =
     (if m src \<noteq> 0 then strncat_loop (m(p := m src)) (p + 1) (src + 1) n else m(p := 0))"

definition strncat :: "mem \<Rightarrow> u32 \<Rightarrow> u32 \<Rightarrow> u32 \<Rightarrow> mem option" where
  "strncat m dst src n =
     (case strlen_from m dst 0 of
        None \<Rightarrow> None | Some k \<Rightarrow> Some (strncat_loop m (dst + k) src (unat n)))"

text \<open>
  \<open>strchr\<close> builds the two-byte key string \<open>b\<close> on its stack; \<open>b\<close> is the address of
  that array.
\<close>

definition strchr :: "mem \<Rightarrow> u32 \<Rightarrow> u32 \<Rightarrow> u32 \<Rightarrow> u32 option" where
  "strchr m b s chr = strpbrk (m(b := ucast chr, b + 1 := 0)) s b"

section \<open>C strings in memory\<close>

text \<open>
  \<open>cstr m s xs\<close>: at address \<open>s\<close> the memory holds the NUL-free bytes \<open>xs\<close> and then a
  NUL.
\<close>

fun cstr :: "mem \<Rightarrow> u32 \<Rightarrow> u8 list \<Rightarrow> bool" where
  "cstr m s [] \<longleftrightarrow> m s = 0"
| "cstr m s (x # xs) \<longleftrightarrow> m s = x \<and> x \<noteq> 0 \<and> cstr m (s + 1) xs"

section \<open>Memory blocks\<close>

lemma copy_up_apply:
  "n \<le> 4294967296 \<Longrightarrow> d = s \<or> n \<le> unat (d - s) \<Longrightarrow>
     copy_up m d s n a = (if unat (a - d) < n then m (s + (a - d)) else m a)"
proof (induction n arbitrary: m d s)
  case 0
  then show ?case by simp
next
  case (Suc n)
  let ?m = "m(d := m s)"
  have "copy_up m d s (Suc n) a =
      (if unat (a - (d + 1)) < n then ?m (s + (a - d)) else ?m a)"
  proof -
    have e: "d + 1 - (s + 1) = d - s" "s + 1 + (a - (d + 1)) = s + (a - d)" by simp_all
    have "n \<le> 4294967296" "d + 1 = s + 1 \<or> n \<le> unat (d + 1 - (s + 1))"
      using Suc.prems unfolding e by auto
    from Suc.IH [OF this, of ?m] show ?thesis by (simp only: copy_up.simps e)
  qed
  also have "\<dots> = (if unat (a - d) < Suc n then m (s + (a - d)) else m a)"
  proof (cases "a = d")
    case True
    then show ?thesis using Suc.prems(1) by (simp add: unat_minus1)
  next
    case False
    moreover have "s + (a - d) \<noteq> d" if "unat (a - d) < Suc n"
    proof
      assume "s + (a - d) = d"
      then have "a - d = d - s" by (simp add: algebra_simps)
      with that Suc.prems(2) False show False by auto
    qed
    ultimately show ?thesis using unat_diff_Suc [of a d] by auto
  qed
  finally show ?case .
qed

lemma copy_down_apply:
  "n \<le> 4294967296 \<Longrightarrow> d = s \<or> n \<le> unat (s - d) \<Longrightarrow>
     copy_down m d s n a = (if unat (d - a) < n then m (s - (d - a)) else m a)"
proof (induction n arbitrary: m d s)
  case 0
  then show ?case by simp
next
  case (Suc n)
  let ?m = "m(d := m s)"
  have "copy_down m d s (Suc n) a =
      (if unat (d - 1 - a) < n then ?m (s - (d - a)) else ?m a)"
  proof -
    have e: "s - 1 - (d - 1) = s - d" "s - 1 - (d - 1 - a) = s - (d - a)" by simp_all
    have "n \<le> 4294967296" "d - 1 = s - 1 \<or> n \<le> unat (s - 1 - (d - 1))"
      using Suc.prems unfolding e by auto
    from Suc.IH [OF this, of ?m] show ?thesis by (simp only: copy_down.simps e)
  qed
  also have "\<dots> = (if unat (d - a) < Suc n then m (s - (d - a)) else m a)"
  proof (cases "a = d")
    case True
    then show ?thesis using Suc.prems(1) unat_minus1 [of "d - 1"] by simp
  next
    case False
    moreover have "s - (d - a) \<noteq> d" if "unat (d - a) < Suc n"
    proof
      assume "s - (d - a) = d"
      then have "d - a = s - d" by (simp add: algebra_simps)
      with that Suc.prems(2) False show False by auto
    qed
    moreover have "unat (d - a) = Suc (unat (d - 1 - a))"
      using unat_diff_Suc [of d a] False by (simp add: algebra_simps)
    ultimately show ?thesis by auto
  qed
  finally show ?case .
qed

lemma in_block_iff:
  fixes a p :: u32
  assumes "unat p + n \<le> 4294967296"
  shows "unat (a - p) < n \<longleftrightarrow> unat p \<le> unat a \<and> unat a < unat p + n"
  using assms unat_lt32 [of a] by (auto simp: unat_sub32)

lemma unat_mirror_less:
  fixes n x :: u32
  assumes "0 < unat n"
  shows "unat (n - 1 - x) < unat n \<longleftrightarrow> unat x < unat n"
proof -
  have "unat (n - 1) = unat n - 1" using assms by (simp add: unat_minus_one unat_gt_0)
  then show ?thesis using assms unat_lt32 [of x] by (simp add: unat_sub32) linarith
qed

lemma memmove_apply:
  assumes d: "unat dest + unat n \<le> 4294967296" and s: "unat src + unat n < 4294967296"
  shows "memmove m dest src n a =
    (if unat (a - dest) < unat n then m (src + (a - dest)) else m a)"
proof (cases "src < dest \<and> src + n > dest")
  case True
  then have n: "0 < unat n" and lt: "unat src < unat dest"
    by (auto simp: word32_less_iff unat_gt_0)
  have sd: "unat n \<le> unat (src - dest)"
    using d lt by (simp add: unat_sub32)
  have dd: "dest + (n - 1) - a = (n - 1) - (a - dest)" by (simp add: algebra_simps)
  have "unat (dest + (n - 1) - a) < unat n \<longleftrightarrow> unat (a - dest) < unat n"
    unfolding dd using n by (rule unat_mirror_less)
  moreover have "copy_down m (dest + (n - 1)) (src + (n - 1)) (unat n) a =
      (if unat (dest + (n - 1) - a) < unat n
       then m (src + (n - 1) - (dest + (n - 1) - a)) else m a)"
    using sd by (intro copy_down_apply) (auto simp: unat_lt32 less_imp_le)
  ultimately show ?thesis using True by (simp add: memmove_def algebra_simps)
next
  case False
  have "dest = src \<or> unat n \<le> unat (dest - src)"
    using False s d by (auto simp: word32_cmp unat_add32 unat_sub32)
  then have "copy_up m dest src (unat n) a =
      (if unat (a - dest) < unat n then m (src + (a - dest)) else m a)"
    by (intro copy_up_apply) (auto simp: unat_lt32 less_imp_le)
  with False show ?thesis by (auto simp: memmove_def)
qed

lemma memset_loop_apply:
  "n \<le> 4294967296 \<Longrightarrow> memset_loop m p c n a = (if unat (a - p) < n then c else m a)"
proof (induction n arbitrary: m p)
  case 0
  then show ?case by simp
next
  case (Suc n)
  then show ?case
    using unat_diff_Suc [of a p] by (cases "a = p") (auto simp: unat_minus1)
qed

lemma memset_apply:
  "memset m p v n a = (if unat (a - p) < unat n then ucast v AND 0xff else m a)"
  by (simp add: memset_def memset_loop_apply unat_lt32 less_imp_le)

section \<open>Strings\<close>

lemma cstr_iff:
  "cstr m s xs \<longleftrightarrow>
     (\<forall>i < length xs. m (s + of_nat i) = xs ! i \<and> xs ! i \<noteq> 0) \<and> m (s + of_nat (length xs)) = 0"
proof (induction xs arbitrary: s)
  case Nil
  then show ?case by simp
next
  case (Cons x xs)
  show ?case
    unfolding cstr.simps Cons.IH list.size
    by (auto simp: less_Suc_eq_0_disj add.assoc nth_Cons')
qed

lemma cstr_append:
  "cstr m s (xs @ ys) \<longleftrightarrow>
     (\<forall>i < length xs. m (s + of_nat i) = xs ! i \<and> xs ! i \<noteq> 0) \<and> cstr m (s + of_nat (length xs)) ys"
proof (induction xs arbitrary: s)
  case Nil
  then show ?case by simp
next
  case (Cons x xs)
  show ?case
    unfolding append_Cons cstr.simps Cons.IH list.size
    by (auto simp: less_Suc_eq_0_disj add.assoc nth_Cons')
qed

lemma cstr_NUL_free: "cstr m s xs \<Longrightarrow> 0 \<notin> set xs"
  by (induction xs arbitrary: s) auto

lemma strlen_from_cstr: "cstr m (s + n) xs \<Longrightarrow> strlen_from m s n = Some (n + of_nat (length xs))"
proof (induction xs arbitrary: n)
  case Nil
  then show ?case by (subst strlen_from.simps) simp
next
  case (Cons x xs)
  then show ?case by (subst strlen_from.simps) (simp add: add.assoc)
qed

lemma strlen_cstr: "cstr m s xs \<Longrightarrow> strlen m s = Some (of_nat (length xs))"
  using strlen_from_cstr [of m s 0 xs] by (simp add: strlen_def)

lemma sint_inj_iff: "sint a = sint b \<longleftrightarrow> a = (b :: u8)"
  by (metis signed_word_eqI)

lemma sint_0_iff: "sint a = 0 \<longleftrightarrow> a = (0 :: u8)"
  using sint_inj_iff [of a 0] by simp

lemma sint_of_nat32: "k < 2147483648 \<Longrightarrow> sint (of_nat k :: u32) = int k"
  by (simp add: signed_of_nat signed_take_bit_int_eq_self)

lemma strncmp_loop_cstr:
  "cstr m s1 xs \<Longrightarrow> cstr m s2 ys \<Longrightarrow> strncmp_loop m s1 s2 n = 0 \<longleftrightarrow> take n xs = take n ys"
proof (induction n arbitrary: s1 s2 xs ys)
  case 0
  then show ?case by simp
next
  case (Suc n)
  then show ?case
    by (cases xs; cases ys) (auto simp: sint_inj_iff sint_0_iff)
qed

lemma rev_loop_apply:
  "k < 2147483648 \<Longrightarrow>
     rev_loop m b (b + of_nat k - 1) a =
       (if unat (a - b) < k then m (b + of_nat k - 1 - (a - b)) else m a)"
proof (induction k arbitrary: m b rule: less_induct)
  case (less k)
  let ?e = "b + of_nat k - 1 :: u32"
  have sk: "sint (?e - b) = int k - 1"
    using less.prems by (simp add: sint_word_ariths sint_of_nat32 signed_take_bit_int_eq_self)
  show ?case
  proof (cases "k \<ge> 2")
    case False
    then have "k = 0 \<or> k = 1" by linarith
    then show ?thesis using sk
      by (subst rev_loop.simps) (auto simp: unat_eq_zero)
  next
    case True
    let ?m = "swap_bytes m b ?e"
    have e1: "?e - 1 = b + 1 + of_nat (k - 2) - 1"
      using True by (simp add: of_nat_diff algebra_simps)
    have e2: "b + 1 + of_nat (k - 2) - 1 - (a - (b + 1)) = ?e - (a - b)"
      using True by (simp add: of_nat_diff algebra_simps)
    have IH: "rev_loop ?m (b + 1) (?e - 1) a =
        (if unat (a - (b + 1)) < k - 2 then ?m (?e - (a - b)) else ?m a)"
      using less.IH [of "k - 2" ?m "b + 1"] True less.prems unfolding e1 e2 by simp
    have step: "rev_loop m b ?e a = rev_loop ?m (b + 1) (?e - 1) a"
      using sk True by (subst rev_loop.simps) simp
    have ue: "unat (?e - b) = k - 1"
      using True less.prems by (simp add: unat_of_nat32 unat_sub32 word_nat)
    have ne: "?e \<noteq> b" using ue True by auto
    show ?thesis
    proof (cases "a = b")
      case True
      then show ?thesis
        using step IH \<open>k \<ge> 2\<close> ne less.prems by (auto simp: swap_bytes_def)
    next
      case False
      have ua: "unat (a - b) = Suc (unat (a - (b + 1)))" by (rule unat_diff_Suc [OF False])
      have ea: "a = ?e \<longleftrightarrow> unat (a - b) = k - 1"
        using ue by (metis diff_add_cancel word_unat_eq_iff)
      have "?e - (a - b) \<noteq> b \<and> ?e - (a - b) \<noteq> ?e" if "unat (a - (b + 1)) < k - 2"
        using that ua ea False by (auto simp: algebra_simps)
      then show ?thesis
        using step IH ua ea False \<open>k \<ge> 2\<close> ne by (auto simp: swap_bytes_def)
    qed
  qed
qed

lemma strrev_apply:
  assumes "cstr m s xs" "length xs < 2147483648"
  shows "\<exists>m'. strrev m s = Some m' \<and> cstr m' s (rev xs) \<and>
    (\<forall>a. length xs \<le> unat (a - s) \<longrightarrow> m' a = m a)"
proof -
  let ?k = "length xs" and ?m' = "rev_loop m s (s + of_nat (length xs) - 1)"
  have ap: "?m' a = (if unat (a - s) < ?k then m (s + of_nat ?k - 1 - (a - s)) else m a)" for a
    by (rule rev_loop_apply [OF assms(2)])
  have "?m' (s + of_nat i) = rev xs ! i \<and> rev xs ! i \<noteq> 0" if "i < ?k" for i
  proof -
    have "unat (of_nat i :: u32) = i" using that assms(2) by (simp add: unat_of_nat32)
    moreover have "s + of_nat ?k - 1 - of_nat i = s + of_nat (?k - Suc i)"
      using that by (simp add: of_nat_diff algebra_simps)
    ultimately have "?m' (s + of_nat i) = m (s + of_nat (?k - Suc i))"
      using that ap [of "s + of_nat i"] by (metis add_diff_cancel_left')
    then show ?thesis using that assms(1) by (simp add: cstr_iff rev_nth del: of_nat_diff)
  qed
  moreover have "?m' (s + of_nat ?k) = 0"
    using ap [of "s + of_nat ?k"] assms by (simp add: cstr_iff unat_of_nat32)
  ultimately have "cstr ?m' s (rev xs)" by (simp add: cstr_iff)
  moreover have "strrev m s = Some ?m'"
    using strlen_from_cstr [of m s 0 xs] assms(1) by (simp add: strrev_def)
  ultimately show ?thesis using ap by auto
qed

lemma strncpy_pad_eq: "strncpy_pad m d n = (if n = 1 then m else m(d := 0))"
proof (induction m d n rule: strncpy_pad.induct)
  case (1 m d n)
  show ?case
  proof (cases "n - 1 = 0")
    case True
    then show ?thesis by (subst strncpy_pad.simps) simp
  next
    case False
    then show ?thesis using "1.IH"
      by (subst strncpy_pad.simps) (simp del: fun_upd_apply)
  qed
qed

text \<open>
  What \<open>strncpy\<close> leaves in memory when the source is shorter than the limit: the
  string, its NUL, and one more NUL right behind it, unless the limit is the length plus
  two.  The rest of the destination keeps its old bytes.
\<close>

lemma strncpy_loop_short:
  assumes "cstr m s xs" "length xs < n" "n \<le> 4294967295"
    and "\<forall>j \<le> length xs. length xs < unat (s + of_nat j - d)"
  shows "strncpy_loop m d s n a =
    (if unat (a - d) < length xs then m (s + (a - d))
     else if unat (a - d) = length xs \<or> unat (a - d) = Suc (length xs) \<and> n \<noteq> length xs + 2 then 0
     else m a)"
  using assms
proof (induction xs arbitrary: m d s n)
  case Nil
  then obtain k where n: "n = Suc k" by (cases n) auto
  have ua: "unat (a - d) = Suc (unat (a - (d + 1)))" if "a \<noteq> d"
    using unat_diff_Suc [OF that] .
  have a1: "a = d + 1 \<longleftrightarrow> unat (a - (d + 1)) = 0" by (auto simp: unat_eq_zero)
  have k1: "(of_nat k :: u32) = 1 \<longleftrightarrow> k = 1"
    using Nil.prems(3) n by (auto simp: word32_eq_iff unat_of_nat32)
  show ?case
    using Nil.prems n ua a1 k1 by (cases "a = d") (auto simp: strncpy_pad_eq)
next
  case (Cons x xs)
  then obtain k where n: "n = Suc k" by (cases n) auto
  let ?m = "m(d := m s)"
  have far: "s + of_nat j \<noteq> d" if "j \<le> Suc (length xs)" for j
  proof
    assume "s + of_nat j = d"
    with Cons.prems(4) that show False by (auto dest: spec [of _ j])
  qed
  have "?m (s + 1 + of_nat j) = m (s + 1 + of_nat j)" if "j \<le> length xs" for j
    using far [of "Suc j"] that by (simp add: add.assoc)
  moreover have "cstr m (s + 1) xs" using Cons.prems(1) by simp
  ultimately have c: "cstr ?m (s + 1) xs"
    unfolding cstr_iff by (metis le_refl less_imp_le)
  have far': "\<forall>j \<le> length xs. length xs < unat (s + 1 + of_nat j - (d + 1))"
  proof (intro allI impI)
    fix j assume "j \<le> length xs"
    then have "j \<le> length (x # xs)" by simp
    with Cons.prems(4) have "length (x # xs) < unat (s + of_nat j - d)" by blast
    then have "length xs < unat (s + of_nat j - d)" by simp
    then show "length xs < unat (s + 1 + of_nat j - (d + 1))" by (simp add: algebra_simps)
  qed
  have IH: "strncpy_loop ?m (d + 1) (s + 1) k a =
    (if unat (a - (d + 1)) < length xs then ?m (s + 1 + (a - (d + 1)))
     else if unat (a - (d + 1)) = length xs
       \<or> unat (a - (d + 1)) = Suc (length xs) \<and> k \<noteq> length xs + 2 then 0
     else ?m a)"
  proof -
    have "length xs < k" "k \<le> 4294967295" using Cons.prems(2,3) n by simp_all
    then show ?thesis by (intro Cons.IH c far')
  qed
  have e: "s + 1 + (a - (d + 1)) = s + (a - d)" by simp
  have nz: "m s \<noteq> 0" using Cons.prems(1) by auto
  have step: "strncpy_loop m d s n a = strncpy_loop ?m (d + 1) (s + 1) k a"
    using nz n by simp
  show ?case
  proof (cases "a = d")
    case True
    have "Suc (length xs) < 4294967295" using Cons.prems(2,3) by simp
    then show ?thesis using True step IH by simp
  next
    case False
    have "s + (a - d) \<noteq> d" if "unat (a - d) \<le> length xs"
      using far [of "unat (a - d)"] that by simp
    then show ?thesis
      unfolding step IH e using unat_diff_Suc [OF False] False n by auto
  qed
qed

section \<open>Spans and tokens\<close>

lemma spn_inner_accept:
  "cstr m a as \<Longrightarrow> spn_inner m ch a False = Some (ch \<in> set as)"
proof (induction as arbitrary: a)
  case Nil
  then show ?case by (subst spn_inner.simps) simp
next
  case (Cons x as)
  then show ?case by (subst spn_inner.simps) auto
qed

lemma spn_inner_reject:
  "cstr m a as \<Longrightarrow> spn_inner m ch a True = Some (\<exists>x \<in> set as. ch \<noteq> x)"
proof (induction as arbitrary: a)
  case Nil
  then show ?case by (subst spn_inner.simps) simp
next
  case (Cons x as)
  then show ?case by (subst spn_inner.simps) auto
qed

lemma spn_loop_count:
  assumes inner: "\<And>ch. spn_inner m ch a c = Some (P ch)"
  shows "cstr m s xs \<Longrightarrow> spn_loop m s a c n = Some (n + of_nat (length (takeWhile P xs)))"
proof (induction xs arbitrary: s n)
  case Nil
  then show ?case by (subst spn_loop.simps) simp
next
  case (Cons x xs)
  then show ?case by (subst spn_loop.simps) (simp add: inner add.assoc)
qed

lemma strspn_cstr:
  assumes "cstr m s xs" "cstr m a as" "as \<noteq> []"
  shows "strspn m s a = Some (of_nat (length (takeWhile (\<lambda>x. x \<in> set as) xs)))"
proof -
  have "m a \<noteq> 0" using assms(2,3) by (cases as) auto
  then show ?thesis
    using spn_loop_count [OF spn_inner_accept [OF assms(2)] assms(1), of 0]
    by (simp add: strspn_def spn_helper_def)
qed

lemma strcspn_cstr:
  assumes "cstr m s xs" "cstr m a as" "as \<noteq> []"
  shows "strcspn m s a = Some (of_nat (length (takeWhile (\<lambda>x. \<exists>d \<in> set as. x \<noteq> d) xs)))"
proof -
  have "m a \<noteq> 0" using assms(2,3) by (cases as) auto
  then show ?thesis
    using spn_loop_count [OF spn_inner_reject [OF assms(2)] assms(1), of 0]
    by (simp add: strcspn_def spn_helper_def)
qed

lemma cstr_drop: "cstr m s xs \<Longrightarrow> k \<le> length xs \<Longrightarrow> cstr m (s + of_nat k) (drop k xs)"
  using cstr_append [of m s "take k xs" "drop k xs"] by simp

lemma cstr_upd_other:
  "cstr m s xs \<Longrightarrow> (\<forall>i \<le> length xs. s + of_nat i \<noteq> e) \<Longrightarrow> cstr (m(e := v)) s xs"
  by (auto simp: cstr_iff)

text \<open>Cutting a string at position \<open>k\<close> leaves two strings: what \<open>strtok_r\<close> relies on.\<close>

lemma cstr_cut:
  assumes "cstr m s (xs @ d # ys)" "length xs + length ys + 1 < 4294967296"
  shows "cstr (m(s + of_nat (length xs) := 0)) s xs"
    "cstr (m(s + of_nat (length xs) := 0)) (s + of_nat (length xs) + 1) ys"
proof -
  let ?k = "length xs"
  have ne: "(of_nat i :: u32) \<noteq> of_nat j" if "i < j" "j < 4294967296" for i j
    using that by (auto simp: word32_eq_iff unat_of_nat32)
  have "cstr m (s + of_nat ?k + 1) ys" and
    pre: "\<forall>i < ?k. m (s + of_nat i) = xs ! i \<and> xs ! i \<noteq> 0"
    using assms(1) by (simp_all add: cstr_append)
  moreover have "s + of_nat ?k + 1 + of_nat i \<noteq> s + of_nat ?k" if "i \<le> length ys" for i
    using ne [of 0 "Suc i"] that assms(2) by (simp add: add.assoc)
  ultimately show "cstr (m(s + of_nat ?k := 0)) (s + of_nat ?k + 1) ys"
    by (intro cstr_upd_other) auto
  show "cstr (m(s + of_nat ?k := 0)) s xs"
    using pre ne assms(2) by (auto simp: cstr_iff)
qed

lemma takeWhile_dropWhile_Cons:
  "dropWhile P xs = y # ys \<Longrightarrow> xs = takeWhile P xs @ y # ys"
  using takeWhile_dropWhile_id [of P xs] by simp

lemma strtok_r_continue:
  assumes "cstr m p xs" "xs \<noteq> []" "cstr m delim [d]" "length xs < 4294967295"
  defines "tok \<equiv> takeWhile (\<lambda>x. x \<noteq> d) xs"
  shows "\<exists>save m'. strtok_r m 0 delim p = Some (p, save, m') \<and> cstr m' p tok \<and>
     cstr m' save (tl (dropWhile (\<lambda>x. x \<noteq> d) xs)) \<and>
     save = p + of_nat (length tok) + (if d \<in> set xs then 1 else 0)"
proof -
  have k: "strcspn m p delim = Some (of_nat (length tok))"
    using strcspn_cstr [OF assms(1,3)] by (simp add: tok_def)
  have mp: "m p \<noteq> 0" using assms(1,2) by (cases xs) auto
  have md: "m delim \<noteq> 0" using assms(3) by simp
  let ?e = "p + of_nat (length tok)"
  show ?thesis
  proof (cases "dropWhile (\<lambda>x. x \<noteq> d) xs")
    case Nil
    then have "tok = xs" "d \<notin> set xs" by (auto simp: tok_def dropWhile_eq_Nil_conv)
    moreover have "m ?e = 0" using assms(1) \<open>tok = xs\<close> by (simp add: cstr_iff)
    moreover have "tl (dropWhile (\<lambda>x. x \<noteq> d) xs) = []" unfolding Nil by simp
    ultimately show ?thesis
      using k mp md assms(1) by (auto simp: strtok_r_def Let_def)
  next
    case (Cons y ys)
    then have xs: "xs = tok @ y # ys" by (simp add: tok_def takeWhile_dropWhile_Cons)
    have "y = d" using hd_dropWhile [of "\<lambda>x. x \<noteq> d" xs] Cons by auto
    have "m ?e \<noteq> 0" using assms(1) xs by (simp add: cstr_append)
    moreover have "cstr (m(?e := 0)) p tok" "cstr (m(?e := 0)) (?e + 1) ys"
      using cstr_cut [of m p tok y ys] assms(1,4) xs by simp_all
    ultimately show ?thesis
      using Cons k mp md xs \<open>y = d\<close> by (auto simp: strtok_r_def Let_def)
  qed
qed

lemma strtok_r_first:
  assumes "cstr m s xs" "s \<noteq> 0" "cstr m delim [d]"
  defines "ys \<equiv> dropWhile (\<lambda>x. x = d) xs" and "p \<equiv> s + of_nat (length (takeWhile (\<lambda>x. x = d) xs))"
  shows "strtok_r m s delim save = strtok_r m 0 delim p" "cstr m p ys"
proof -
  have k: "strspn m s delim = Some (of_nat (length (takeWhile (\<lambda>x. x = d) xs)))"
    using strspn_cstr [OF assms(1,3)] by simp
  have "m delim \<noteq> 0" using assms(3) by simp
  with k assms(2) show "strtok_r m s delim save = strtok_r m 0 delim p"
    by (simp add: strtok_r_def p_def)
  show "cstr m p ys"
    using cstr_drop [OF assms(1), of "length (takeWhile (\<lambda>x. x = d) xs)"]
    by (simp add: p_def ys_def dropWhile_eq_drop length_takeWhile_le)
qed

section \<open>Properties\<close>

text \<open>C24: \<open>memmove\<close> copies correctly whether or not the blocks overlap: after
  \<open>memmove(dest, src, n)\<close> every byte of the destination block holds the byte the source
  block held \<^emph>\<open>before\<close> the call, and every other byte of memory is unchanged (for blocks
  that do not wrap around the end of the address space).\<close>

theorem memmove_correct:
  assumes "unat dest + unat n \<le> 2 ^ 32" "unat src + unat n < 2 ^ 32"
  shows "memmove m dest src n a =
    (if unat dest \<le> unat a \<and> unat a < unat dest + unat n
     then m (src + (a - dest)) else m a)"
proof -
  have d: "unat dest + unat n \<le> 4294967296" and s: "unat src + unat n < 4294967296"
    using assms by simp_all
  show ?thesis
    unfolding memmove_apply [OF d s] in_block_iff [OF d] ..
qed

theorem memmove_correct_witness:
  "memmove (\<lambda>a. ucast a) 0x1002 0x1000 4 0x1005 = 0x03 \<and>
   memmove (\<lambda>a. ucast a) 0x1002 0x1000 4 0x1006 = 0x06"
proof -
  let ?m = "\<lambda>a :: u32. ucast a :: u8"
  have h: "unat (0x1002 :: u32) + unat (4 :: u32) \<le> 2 ^ 32"
    "unat (0x1000 :: u32) + unat (4 :: u32) < 2 ^ 32" by simp_all
  show ?thesis
    using memmove_correct [OF h, of ?m "0x1005"] memmove_correct [OF h, of ?m "0x1006"] by simp
qed

text \<open>\<open>strrev\<close> terminates on every NUL-terminated string shorter than 2 GiB,
  reverses it in place, and touches no byte outside it.\<close>

theorem strrev_correct:
  assumes "cstr m s xs" "length xs < 2 ^ 31"
  shows "\<exists>m'. strrev m s = Some m' \<and> cstr m' s (rev xs) \<and>
    (\<forall>a. length xs \<le> unat (a - s) \<longrightarrow> m' a = m a)"
  using strrev_apply [of m s xs] assms by simp

theorem strrev_correct_witness:
  "\<exists>m'. strrev ((\<lambda>_. 0)(0x100 := 97, 0x101 := 98, 0x102 := 99)) 0x100 = Some m' \<and>
     cstr m' 0x100 [99, 98, 97]"
proof -
  let ?m = "(\<lambda>_. 0)(0x100 := 97, 0x101 := 98, 0x102 := 99) :: mem"
  have "cstr ?m 0x100 [97, 98, 99]" by simp
  from strrev_correct [OF this] show ?thesis by auto
qed

text \<open>\<open>strncpy\<close> writes one byte past an exactly fitting destination.  When the source
  string together with its NUL fills the \<open>n\<close> bytes of the destination, the inner loop
  \<open>while (--n) *d = 0\<close> starts from \<open>n = 0\<close>, wraps around, and clears the byte at
  \<open>dest + n\<close>.\<close>

theorem strncpy_writes_past_end:
  assumes "cstr m src xs" "unat n = length xs + 1"
    and "\<forall>j \<le> length xs. length xs < unat (src + of_nat j - dest)"
  shows "strncpy m dest src n (dest + n) = 0"
proof -
  have n: "length xs < unat n" "unat n \<le> 4294967295" using assms(2) unat_le32 [of n] by auto
  show ?thesis
    using strncpy_loop_short [OF assms(1) n assms(3), of "dest + n"] assms(2)
    by (simp add: strncpy_def)
qed

theorem strncpy_writes_past_end_witness:
  "strncpy ((\<lambda>_. 0xff)(0x100 := 97, 0x101 := 98, 0x102 := 0)) 0x200 0x100 3 0x203 = 0"
proof -
  let ?m = "(\<lambda>_. 0xff)(0x100 := 97, 0x101 := 98, 0x102 := 0) :: mem"
  have c: "cstr ?m 0x100 [97, 98]" by simp
  have "\<forall>j \<le> length [97, 98 :: u8]. length [97, 98 :: u8] < unat (0x100 + of_nat j - 0x200 :: u32)"
  proof (intro allI impI)
    fix j
    assume "j \<le> length [97, 98 :: u8]"
    then have "j = 0 \<or> j = 1 \<or> j = 2" by auto
    then show "length [97, 98 :: u8] < unat (0x100 + of_nat j - 0x200 :: u32)"
      by (elim disjE) (simp_all add: unat_sub32)
  qed
  from strncpy_writes_past_end [OF c _ this, of 3] show ?thesis by simp
qed

text \<open>with a one-character delimiter \<open>d\<close>, as every caller in the kernel uses it, the
  first call of \<open>strtok_r\<close> on a string skips the leading delimiters, returns the longest
  delimiter-free token as a NUL-terminated string in place, and leaves in \<open>saveptr\<close> the
  string behind the delimiter that ended the token.\<close>

theorem strtok_r_token:
  assumes "cstr m s xs" "s \<noteq> 0" "cstr m delim [d]" "length xs < 2 ^ 32 - 1"
    and "dropWhile (\<lambda>x. x = d) xs = ys" "ys \<noteq> []"
  shows "\<exists>tok save' m'. strtok_r m s delim save = Some (tok, save', m') \<and>
    cstr m' tok (takeWhile (\<lambda>x. x \<noteq> d) ys) \<and>
    cstr m' save' (tl (dropWhile (\<lambda>x. x \<noteq> d) ys))"
proof -
  have "length ys < 4294967295"
    using assms(4,5) length_dropWhile_le [of "\<lambda>x. x = d" xs] by simp
  with strtok_r_first [OF assms(1-3)] strtok_r_continue [OF _ assms(6,3)] assms(5)
  show ?thesis by fastforce
qed

theorem strtok_r_token_witness:
  "\<exists>tok save' m'. strtok_r ((\<lambda>_. 0)(0x100 := 47, 0x101 := 97, 0x102 := 47, 0x103 := 98, 0x200 := 47))
     0x100 0x200 0 = Some (tok, save', m') \<and> cstr m' tok [97] \<and> cstr m' save' [98]"
proof -
  let ?m = "(\<lambda>_. 0)(0x100 := 47, 0x101 := 97, 0x102 := 47, 0x103 := 98, 0x200 := 47) :: mem"
  have "cstr ?m 0x100 [47, 97, 47, 98]" "cstr ?m 0x200 [47]" by simp_all
  from strtok_r_token [OF this(1) _ this(2), of "[97, 47, 98]" 0] show ?thesis by simp
qed

text \<open>\<open>strcspn\<close> does not look for the delimiters when there are two different ones:
  its inner loop accepts a character as soon as it differs from \<^emph>\<open>one\<close> of them, so the
  whole string is counted, whatever it contains.\<close>

theorem strcspn_two_delims:
  assumes "cstr m s xs" "cstr m a as" "d1 \<in> set as" "d2 \<in> set as" "d1 \<noteq> d2"
  shows "strcspn m s a = Some (of_nat (length xs))"
proof -
  have "(\<lambda>x. \<exists>d \<in> set as. x \<noteq> d) = (\<lambda>_. True)" using assms(3-5) by metis
  moreover have "as \<noteq> []" using assms(3) by auto
  ultimately show ?thesis
    using strcspn_cstr [OF assms(1,2)] by (simp add: takeWhile_eq_all_conv [THEN iffD2])
qed

theorem strcspn_two_delims_witness:
  "strcspn ((\<lambda>_. 0)(0x100 := 97, 0x101 := 32, 0x102 := 98, 0x200 := 32, 0x201 := 59)) 0x100 0x200
     = Some 3"
proof -
  let ?m = "(\<lambda>_. 0)(0x100 := 97, 0x101 := 32, 0x102 := 98, 0x200 := 32, 0x201 := 59) :: mem"
  have "cstr ?m 0x100 [97, 32, 98]" "cstr ?m 0x200 [32, 59]" by simp_all
  from strcspn_two_delims [OF this, of 32 59] show ?thesis by simp
qed

end
