(* ===== verification/Mmu.thy ===== *)
theory Mmu
  imports Melon_Prelude
begin

text \<open>
  i386/mem.h and i386/mmu.h: the address-space layout, the fields of page directory and
  page table entries, and the helpers that take a virtual address apart.
  \<open>uintptr_t\<close>, \<open>size_t\<close> and \<open>int\<close> arguments are all 32-bit words here: the code
  converts between them freely and the helpers only use operations on which signed and
  unsigned arithmetic agree.
\<close>

section \<open>Layout and flags\<close>

abbreviation (input) EXTMEM :: u32 where "EXTMEM \<equiv> 0x100000"
abbreviation (input) PHYSTOP :: u32 where "PHYSTOP \<equiv> 0x20000000"
abbreviation (input) DEV_SPACE :: u32 where "DEV_SPACE \<equiv> 0xFE000000"
abbreviation (input) KERN_BASE :: u32 where "KERN_BASE \<equiv> 0x80000000"
abbreviation (input) KERN_LINK :: u32 where "KERN_LINK \<equiv> KERN_BASE + EXTMEM"
abbreviation (input) PAGE_SZ :: u32 where "PAGE_SZ \<equiv> 0x1000"

definition KA2P :: "u32 \<Rightarrow> u32" where "KA2P addr = addr - KERN_BASE"
definition P2KA :: "u32 \<Rightarrow> u32" where "P2KA addr = addr + KERN_BASE"

abbreviation (input) PTE_P :: u32 where "PTE_P \<equiv> 0x01"
abbreviation (input) PTE_W :: u32 where "PTE_W \<equiv> 0x02"
abbreviation (input) PTE_U :: u32 where "PTE_U \<equiv> 0x04"
abbreviation (input) PTE_D :: u32 where "PTE_D \<equiv> 0x20"
abbreviation (input) PDE_P :: u32 where "PDE_P \<equiv> PTE_P"
abbreviation (input) PDE_W :: u32 where "PDE_W \<equiv> PTE_W"
abbreviation (input) PDE_U :: u32 where "PDE_U \<equiv> PTE_U"
abbreviation (input) NPDES :: nat where "NPDES \<equiv> 1024"
abbreviation (input) NPTES :: nat where "NPTES \<equiv> 1024"
abbreviation (input) PT_IDX_SHIFT :: nat where "PT_IDX_SHIFT \<equiv> 12"
abbreviation (input) PD_IDX_SHIFT :: nat where "PD_IDX_SHIFT \<equiv> 22"

section \<open>Taking addresses apart\<close>

definition vaddr_offset :: "u32 \<Rightarrow> u32" where
  "vaddr_offset vaddr = vaddr AND 0xfff"

definition page_directory_idx :: "u32 \<Rightarrow> u32" where
  "page_directory_idx vaddr = drop_bit PD_IDX_SHIFT vaddr AND 0x3FF"

definition page_table_idx :: "u32 \<Rightarrow> u32" where
  "page_table_idx vaddr = drop_bit PT_IDX_SHIFT vaddr AND 0x3FF"

definition page_alignup :: "u32 \<Rightarrow> u32" where
  "page_alignup sz = (sz + PAGE_SZ - 1) AND NOT (PAGE_SZ - 1)"

definition page_aligndown :: "u32 \<Rightarrow> u32" where
  "page_aligndown addr = addr AND NOT (PAGE_SZ - 1)"

definition pte_addr :: "u32 \<Rightarrow> u32" where
  "pte_addr pte = pte AND NOT 0xFFF"

definition pte_flags :: "u32 \<Rightarrow> u32" where
  "pte_flags pte = pte AND 0xFFF"

definition page_addr :: "u32 \<Rightarrow> u32 \<Rightarrow> u32 \<Rightarrow> u32" where
  "page_addr pde pte offset = push_bit PD_IDX_SHIFT pde OR push_bit PT_IDX_SHIFT pte OR offset"

section \<open>Arithmetic of pages\<close>

lemma KA2P_P2KA [simp]: "KA2P (P2KA a) = a" "P2KA (KA2P a) = a"
  by (simp_all add: KA2P_def P2KA_def)

lemma mask12: "(0xFFF :: u32) = mask 12" and mask10: "(0x3FF :: u32) = mask 10"
  by (simp_all add: mask_eq_exp_minus_1)

lemma and_not_FFF: "(a :: u32) AND NOT 0xFFF = push_bit 12 (drop_bit 12 a)"
  unfolding mask12 by (rule bit_word_eqI) (auto simp: bit_simps)

lemma unat_and_not_FFF [word_nat]: "unat ((a :: u32) AND NOT 0xFFF) = unat a div 4096 * 4096"
proof -
  have "unat a div 4096 * 4096 < 4294967296" using unat_lt32 [of a] by linarith
  then show ?thesis
    unfolding and_not_FFF
    by (simp add: push_bit_eq_mult unat_word_ariths unat_drop_bit_eq drop_bit_eq_div)
qed

lemma unat_and_neg4096 [word_nat]: "unat ((a :: u32) AND - 4096) = unat a div 4096 * 4096"
  using unat_and_not_FFF [of a] by simp

lemma unat_and_FFF [word_nat]: "unat ((a :: u32) AND 0xFFF) = unat a mod 4096"
proof -
  have "a AND 0xFFF = a mod 4096"
    unfolding mask12 by (simp add: take_bit_eq_mask [symmetric] take_bit_eq_mod)
  then show ?thesis by (simp add: unat_mod)
qed

lemma unat_and_3FF [word_nat]: "unat ((a :: u32) AND 0x3FF) = unat a mod 1024"
proof -
  have "a AND 0x3FF = a mod 1024"
    unfolding mask10 by (simp add: take_bit_eq_mask [symmetric] take_bit_eq_mod)
  then show ?thesis by (simp add: unat_mod)
qed

lemma unat_page_aligndown [word_nat]: "unat (page_aligndown a) = unat a div 4096 * 4096"
  by (simp add: page_aligndown_def unat_and_neg4096)

lemma unat_pte_addr [word_nat]: "unat (pte_addr a) = unat a div 4096 * 4096"
  by (simp add: pte_addr_def unat_and_neg4096)

lemma unat_pte_flags [word_nat]: "unat (pte_flags a) = unat a mod 4096"
  by (simp add: pte_flags_def unat_and_FFF)

lemma unat_vaddr_offset [word_nat]: "unat (vaddr_offset a) = unat a mod 4096"
  by (simp add: vaddr_offset_def unat_and_FFF)

lemma unat_page_directory_idx [word_nat]: "unat (page_directory_idx a) = unat a div 4194304"
proof -
  have "unat a div 4194304 < 1024" using unat_lt32 [of a] by linarith
  then show ?thesis
    by (simp add: page_directory_idx_def unat_and_3FF drop_bit_eq_div unat_div)
qed

lemma unat_page_table_idx [word_nat]: "unat (page_table_idx a) = unat a div 4096 mod 1024"
  by (simp add: page_table_idx_def unat_and_3FF drop_bit_eq_div unat_div)

lemma page_alignup_eq: "page_alignup sz = page_aligndown (sz + 4095)"
  by (simp add: page_alignup_def page_aligndown_def algebra_simps)

lemma unat_page_alignup:
  assumes "unat sz \<le> 4294963200"
  shows "unat (page_alignup sz) = (unat sz + 4095) div 4096 * 4096"
  using assms by (simp add: page_alignup_eq word_nat)

lemma pte_addr_or_flags: "pte_addr pte OR pte_flags pte = pte"
  unfolding pte_addr_def pte_flags_def by (rule bit_word_eqI) (auto simp: bit_simps)

section \<open>Properties\<close>

text \<open>splitting a virtual address into directory index, table index and offset and
  putting the parts together with \<open>page_addr\<close> gives the address back; both indices stay
  below 1024 and the offset below 4096, so the three fields never overlap.\<close>

theorem page_addr_split:
  "page_addr (page_directory_idx va) (page_table_idx va) (vaddr_offset va) = va \<and>
   unat (page_directory_idx va) < NPDES \<and> unat (page_table_idx va) < NPTES \<and>
   unat (vaddr_offset va) < unat PAGE_SZ"
proof -
  have "page_addr (page_directory_idx va) (page_table_idx va) (vaddr_offset va) = va"
    unfolding page_addr_def page_directory_idx_def page_table_idx_def vaddr_offset_def mask10 mask12
  proof (rule bit_word_eqI)
    fix n
    assume "n < LENGTH(32)"
    then consider "n < 12" | "12 \<le> n" "n < 22" | "22 \<le> n" "n < 32" by fastforce
    then show "bit (push_bit 22 (drop_bit 22 va AND mask 10) OR
        push_bit 12 (drop_bit 12 va AND mask 10) OR va AND mask 12) n = bit va n"
      by cases (auto simp: bit_simps)
  qed
  moreover have "unat va div 4194304 < 1024" using unat_lt32 [of va] by linarith
  ultimately show ?thesis by (simp add: word_nat)
qed

text \<open>\<open>page_alignup\<close> rounds up to the next page boundary and \<open>page_aligndown\<close> down
  to the previous one, for every size up to the last page of the address space; above
  that \<open>page_alignup\<close> wraps around to 0.\<close>

theorem page_align_bounds:
  "unat (page_aligndown a) \<le> unat a \<and> unat a < unat (page_aligndown a) + 4096 \<and>
   page_aligndown a mod PAGE_SZ = 0 \<and> page_alignup a mod PAGE_SZ = 0 \<and>
   (if unat a \<le> 0xFFFFF000
    then unat a \<le> unat (page_alignup a) \<and> unat (page_alignup a) < unat a + 4096
    else page_alignup a = 0)"
proof -
  have "(if unat a \<le> 0xFFFFF000
    then unat a \<le> unat (page_alignup a) \<and> unat (page_alignup a) < unat a + 4096
    else page_alignup a = 0)"
  proof (cases "unat a \<le> 0xFFFFF000")
    case True
    then show ?thesis by (simp add: unat_page_alignup) linarith
  next
    case False
    then have "(unat a + 4095) mod 4294967296 = unat a + 4095 - 4294967296"
      using unat_lt32 [of a] by (simp add: mod_if)
    moreover have "unat a + 4095 - 4294967296 < 4096" using unat_lt32 [of a] by linarith
    ultimately have "unat (page_alignup a) = 0" by (simp add: page_alignup_eq word_nat)
    with False show ?thesis by (simp add: unat_eq_zero)
  qed
  moreover have al: "page_aligndown b mod PAGE_SZ = 0" for b
    by (simp add: word32_eq_iff unat_mod word_nat)
  moreover have "page_alignup a mod PAGE_SZ = 0" unfolding page_alignup_eq by (rule al)
  moreover have "unat (page_aligndown a) \<le> unat a \<and> unat a < unat (page_aligndown a) + 4096"
    by (simp add: word_nat)
  ultimately show ?thesis by blast
qed

end
