(* ===== verification/Palloc.thy ===== *)
theory Palloc
  imports Mmu
begin

text \<open>
  kernel/memory/palloc.c: the physical page allocator, a LIFO free list threaded through
  the free pages themselves.  The machine record holds the memory as the kernel sees it
  (kernel virtual addresses), the list head \<open>kernel_mem.freelist\<close>, and the addresses of
  the linker symbols \<open>end\<close> and \<open>data\<close>, which never change.  The client interface of the
  allocator is the locale \<open>page_allocator\<close>; the paging code relies on nothing else.
\<close>

section \<open>State and operations\<close>

record machine =
  ram :: mem
  freelist :: u32
  sym_end :: u32
  sym_data :: u32

definition palloc :: "machine \<Rightarrow> u32 \<times> machine" where
  "palloc s =
     (let r = freelist s in
        if r \<noteq> 0 then (r, s\<lparr>freelist := load32 (ram s) r\<rparr>) else (r, s))"

definition pfree :: "u32 \<Rightarrow> machine \<Rightarrow> machine res" where
  "pfree v s =
     (if KA2P v \<ge> PHYSTOP then Inl (Panic ''pfree, physical address exceeds PHYSTOP'')
      else if v < sym_end s then Inl (Panic ''pfree, invalid virtual address'')
      else if v mod PAGE_SZ \<noteq> 0 then Inl (Panic ''pfree, address not on page boundry'')
      else Inr (s\<lparr>ram := store32 (ram s) v (freelist s), freelist := v\<rparr>))"

lemma pfree_below_PHYSTOP: "pfree v s = Inr t \<Longrightarrow> unat v < 0xA0000000"
  by (auto simp: pfree_def KA2P_def word32_cmp word_nat split: if_splits)

function pfree_range :: "u32 \<Rightarrow> u32 \<Rightarrow> machine \<Rightarrow> machine res" where
  "pfree_range p vend s =
     (if p + PAGE_SZ \<le> vend
      then rbind (pfree p s) (\<lambda>s. pfree_range (p + PAGE_SZ) vend s) else Inr s)"
  by pat_completeness auto
termination
proof (relation "measure (\<lambda>(p, vend, s). unat (vend - p))")
  fix p vend :: u32 and s t :: machine
  assume "p + PAGE_SZ \<le> vend" "pfree p s = Inr t"
  then show "((p + PAGE_SZ, vend, t), p, vend, s) \<in> measure (\<lambda>(p, vend, s). unat (vend - p))"
    using pfree_below_PHYSTOP [of p s t] by (simp add: word32_cmp word_nat)
qed simp

declare pfree_range.simps [simp del]

definition palloc_init :: "u32 \<Rightarrow> u32 \<Rightarrow> machine \<Rightarrow> machine res" where
  "palloc_init vstart vend s = pfree_range vstart vend s"

partial_function (option) count_runs :: "mem \<Rightarrow> u32 \<Rightarrow> nat \<Rightarrow> nat option" where
  "count_runs m p n = (if p \<noteq> 0 then count_runs m (load32 m p) (Suc n) else Some n)"

definition pmem_report :: "machine \<Rightarrow> nat option" where
  "pmem_report s = count_runs (ram s) (freelist s) 0"

section \<open>The free list as a list of pages\<close>

fun run_list :: "mem \<Rightarrow> u32 \<Rightarrow> u32 list \<Rightarrow> bool" where
  "run_list m p [] \<longleftrightarrow> p = 0"
| "run_list m p (x # xs) \<longleftrightarrow> p = x \<and> x \<noteq> 0 \<and> run_list m (load32 m x) xs"

definition page_ok :: "machine \<Rightarrow> u32 \<Rightarrow> bool" where
  "page_ok s p \<longleftrightarrow> KA2P p < PHYSTOP \<and> sym_end s \<le> p \<and> p mod PAGE_SZ = 0"

definition free_pages :: "machine \<Rightarrow> u32 list \<Rightarrow> bool" where
  "free_pages s ps \<longleftrightarrow>
     run_list (ram s) (freelist s) ps \<and> distinct ps \<and> (\<forall>p \<in> set ps. page_ok s p)"

lemma unat_page_ok:
  "page_ok s p \<Longrightarrow> 0x80000000 \<le> unat p \<and> unat p < 0xA0000000 \<and> unat p mod 4096 = 0"
proof -
  assume a: "page_ok s p"
  have "unat p mod 4096 = 0"
    using a by (simp add: page_ok_def word32_eq_iff unat_mod)
  moreover have "0x80000000 \<le> unat p \<and> unat p < 0xA0000000"
    using a unat_lt32 [of p] by (auto simp: page_ok_def KA2P_def word32_cmp word_nat split: if_splits)
  ultimately show ?thesis by simp
qed

lemma page_ok_nonzero: "page_ok s p \<Longrightarrow> p \<noteq> 0"
  using unat_page_ok [of s p] by auto

lemma page_ok_aligned4: "page_ok s p \<Longrightarrow> aligned4 p"
  using unat_page_ok [of s p] mod_mod_cancel [of 4 4096 "unat p"] by (simp add: aligned4_def)

lemma page_ok_cong [simp]:
  "page_ok (s\<lparr>ram := m\<rparr>) = page_ok s" "page_ok (s\<lparr>freelist := f\<rparr>) = page_ok s"
  by (simp_all add: page_ok_def fun_eq_iff)

lemma pfree_ok: "page_ok s v \<Longrightarrow> pfree v s = Inr (s\<lparr>ram := store32 (ram s) v (freelist s), freelist := v\<rparr>)"
  by (auto simp: pfree_def page_ok_def)

lemma pfree_Inr_iff:
  "pfree v s = Inr t \<longleftrightarrow>
     page_ok s v \<and> t = s\<lparr>ram := store32 (ram s) v (freelist s), freelist := v\<rparr>"
  by (auto simp: pfree_def page_ok_def not_le)

lemma run_list_mem_cong:
  "(\<And>x. x \<in> set xs \<Longrightarrow> load32 m' x = load32 m x) \<Longrightarrow> run_list m' p xs = run_list m p xs"
  by (induction xs arbitrary: p) auto

lemma run_list_store:
  assumes "run_list m p xs" "v \<notin> set xs" "aligned4 v" "\<forall>x \<in> set xs. aligned4 x"
  shows "run_list (store32 m v w) p xs"
  using assms run_list_mem_cong [of xs "store32 m v w" m p]
  by (metis load_store_other)

lemma palloc_free_pages_Nil: "free_pages s [] \<Longrightarrow> palloc s = (0, s)"
  by (simp add: free_pages_def palloc_def Let_def)

lemma palloc_free_pages_Cons:
  "free_pages s (p # ps) \<Longrightarrow>
     palloc s = (p, s\<lparr>freelist := load32 (ram s) p\<rparr>) \<and>
     free_pages (s\<lparr>freelist := load32 (ram s) p\<rparr>) ps"
  by (auto simp: free_pages_def palloc_def Let_def)

lemma pfree_free_pages:
  assumes "free_pages s ps" "page_ok s v" "v \<notin> set ps"
  shows "free_pages (s\<lparr>ram := store32 (ram s) v (freelist s), freelist := v\<rparr>) (v # ps)"
proof -
  have "\<forall>x \<in> set ps. aligned4 x"
    using assms(1) by (auto simp: free_pages_def intro: page_ok_aligned4)
  then have "run_list (store32 (ram s) v (freelist s)) (freelist s) ps"
    using assms run_list_store [of "ram s" "freelist s" ps v "freelist s"]
    by (simp add: free_pages_def page_ok_aligned4)
  then show ?thesis using assms page_ok_nonzero [of s v] by (simp add: free_pages_def)
qed

lemma run_list_unique: "run_list m p xs \<Longrightarrow> run_list m p ys \<Longrightarrow> xs = ys"
proof (induction xs arbitrary: p ys)
  case Nil
  then show ?case by (cases ys) auto
next
  case (Cons x xs)
  then show ?case by (cases ys) auto
qed

lemma free_pages_unique: "free_pages s ps \<Longrightarrow> free_pages s qs \<Longrightarrow> ps = qs"
  by (auto simp: free_pages_def intro: run_list_unique)

lemma count_runs_list: "run_list m p xs \<Longrightarrow> count_runs m p n = Some (n + length xs)"
proof (induction xs arbitrary: p n)
  case Nil
  then show ?case by (subst count_runs.simps) simp
next
  case (Cons x xs)
  then show ?case by (subst count_runs.simps) simp
qed

section \<open>The allocator's interface\<close>

text \<open>
  What the clients (paging, process stacks, pipes) may rely on: allocation pops the head
  of an abstract list of pages, freeing pushes a good page that is not free already.
\<close>

locale page_allocator =
  fixes alloc :: "'s \<Rightarrow> 'p \<times> 's"
    and free :: "'p \<Rightarrow> 's \<Rightarrow> fault + 's"
    and rep :: "'s \<Rightarrow> 'p list \<Rightarrow> bool"
    and good :: "'s \<Rightarrow> 'p \<Rightarrow> bool"
    and null :: 'p
  assumes alloc_empty: "rep s [] \<Longrightarrow> alloc s = (null, s)"
    and alloc_head: "rep s (p # ps) \<Longrightarrow> \<exists>t. alloc s = (p, t) \<and> rep t ps \<and> good t = good s"
    and free_push: "rep s ps \<Longrightarrow> good s p \<Longrightarrow> p \<notin> set ps \<Longrightarrow>
      \<exists>t. free p s = Inr t \<and> rep t (p # ps) \<and> good t = good s"
    and rep_good: "rep s ps \<Longrightarrow> p \<in> set ps \<Longrightarrow> good s p \<and> p \<noteq> null"
    and rep_distinct: "rep s ps \<Longrightarrow> distinct ps"
begin

lemma alloc_null_iff: "rep s ps \<Longrightarrow> fst (alloc s) = null \<longleftrightarrow> ps = []"
proof (cases ps)
  case Nil
  assume "rep s ps"
  with Nil show ?thesis using alloc_empty [of s] by simp
next
  case (Cons p qs)
  assume r: "rep s ps"
  then obtain t where "alloc s = (p, t)" using alloc_head [of s p qs] Cons by auto
  moreover have "p \<noteq> null" using rep_good [OF r, of p] Cons by simp
  ultimately show ?thesis using Cons by simp
qed

lemma free_then_alloc:
  assumes "rep s ps" "good s p" "p \<notin> set ps" "free p s = Inr t"
  shows "\<exists>u. alloc t = (p, u) \<and> rep u ps"
  using free_push [OF assms(1-3)] assms(4) alloc_head by fastforce

lemma alloc_then_free:
  assumes "rep s ps" "ps \<noteq> []" "alloc s = (p, t)"
  shows "p \<in> set ps \<and> good s p \<and> (\<exists>u. free p t = Inr u \<and> rep u ps)"
proof -
  obtain q qs where ps: "ps = q # qs" using assms(2) by (cases ps) auto
  then obtain t' where t': "alloc s = (q, t')" "rep t' qs" "good t' = good s"
    using alloc_head [of s q qs] assms(1) by auto
  then have "p = q" "t = t'" using assms(3) by auto
  moreover have "good s q" "q \<notin> set qs"
    using rep_good [OF assms(1), of q] rep_distinct [OF assms(1)] ps by auto
  ultimately show ?thesis using free_push [OF t'(2), of q] t'(3) ps by auto
qed

lemma alloc_twice_distinct:
  assumes "rep s ps" "alloc s = (p, t)" "alloc t = (q, u)" "q \<noteq> null"
  shows "p \<noteq> q"
proof (cases ps)
  case Nil
  then show ?thesis using alloc_empty [of s] assms by auto
next
  case (Cons x xs)
  then have x: "x = p" "rep t xs" using alloc_head [of s x xs] assms(1,2) by auto
  show ?thesis
  proof (cases xs)
    case Nil
    then show ?thesis using alloc_empty [of t] x(2) assms(3,4) by auto
  next
    case (Cons y ys)
    then have "y = q" using alloc_head [of t y ys] x(2) assms(3) by auto
    then show ?thesis using rep_distinct [OF assms(1)] \<open>ps = x # xs\<close> Cons x(1) by auto
  qed
qed

end

interpretation pa: page_allocator palloc pfree free_pages page_ok 0
proof (unfold_locales, goal_cases)
  case (1 s) then show ?case by (rule palloc_free_pages_Nil)
next
  case (2 s p ps) then show ?case using palloc_free_pages_Cons [of s p ps] by auto
next
  case (3 s ps p) then show ?case using pfree_free_pages [of s ps p] by (simp add: pfree_ok)
next
  case (4 s ps p) then show ?case using page_ok_nonzero [of s p] by (auto simp: free_pages_def)
next
  case (5 s ps) then show ?case by (simp add: free_pages_def)
qed

section \<open>Freeing a range\<close>

fun range_pages :: "u32 \<Rightarrow> nat \<Rightarrow> u32 list" where
  "range_pages p 0 = []"
| "range_pages p (Suc n) = range_pages (p + PAGE_SZ) n @ [p]"

lemma pfree_range_done: "\<not> p + PAGE_SZ \<le> vend \<Longrightarrow> pfree_range p vend s = Inr s"
  by (subst pfree_range.simps) simp

lemma pfree_range_step:
  "p + PAGE_SZ \<le> vend \<Longrightarrow>
     pfree_range p vend s = rbind (pfree p s) (pfree_range (p + PAGE_SZ) vend)"
  by (subst pfree_range.simps) simp

lemma range_pages_set:
  assumes "unat p + n * 4096 < 4294967296" "q \<in> set (range_pages p n)"
  shows "unat p \<le> unat q \<and> unat q < unat p + n * 4096 \<and> unat q mod 4096 = unat p mod 4096"
  using assms
proof (induction n arbitrary: p)
  case 0
  then show ?case by simp
next
  case (Suc n)
  have u: "unat (p + PAGE_SZ) = unat p + 4096" using Suc.prems(1) by (simp add: word_nat)
  show ?case
  proof (cases "q = p")
    case False
    then have "q \<in> set (range_pages (p + PAGE_SZ) n)" using Suc.prems(2) by simp
    then show ?thesis using Suc.IH [of "p + PAGE_SZ"] Suc.prems(1) u by simp
  qed simp
qed

lemma pfree_range_frees:
  assumes "unat vend = unat p + n * 4096 + r" "r < 4096"
    and "free_pages s ps" "set ps \<inter> set (range_pages p n) = {}"
    and "\<forall>q \<in> set (range_pages p n). page_ok s q" "unat vend \<le> 0xA0000000"
  shows "\<exists>t. pfree_range p vend s = Inr t \<and> free_pages t (range_pages p n @ ps) \<and>
     sym_end t = sym_end s \<and> page_ok t = page_ok s"
  using assms
proof (induction n arbitrary: p s ps)
  case 0
  then have "\<not> p + PAGE_SZ \<le> vend" by (simp add: word32_cmp word_nat)
  with 0 show ?case by (simp add: pfree_range_done)
next
  case (Suc n)
  have u: "unat (p + PAGE_SZ) = unat p + 4096"
    using Suc.prems(1,6) by (simp add: word_nat)
  let ?s = "s\<lparr>ram := store32 (ram s) p (freelist s), freelist := p\<rparr>"
  have "p \<notin> set (range_pages (p + PAGE_SZ) n)"
    using range_pages_set [of "p + PAGE_SZ" n p] u Suc.prems(1,6) by fastforce
  moreover have "page_ok s p" "p \<notin> set ps" using Suc.prems(4,5) by auto
  moreover from this have "free_pages ?s (p # ps)"
    using pfree_free_pages [of s ps p] Suc.prems(3) by simp
  moreover have "p + PAGE_SZ \<le> vend" using u Suc.prems(1) by (simp add: word32_cmp)
  ultimately show ?case
    using Suc.IH [of "p + PAGE_SZ" ?s "p # ps"] Suc.prems u
    by (auto simp: pfree_range_step pfree_ok)
qed

section \<open>Properties\<close>

definition machine0 :: machine where
  "machine0 = \<lparr>ram = (\<lambda>_. 0), freelist = 0, sym_end = 0x80110000, sym_data = 0x80108000\<rparr>"

text \<open>C14: the free list threaded through the pages is a stack.  Whatever list of pages it
  holds, \<open>palloc\<close> returns the null pointer and changes nothing when the list is empty, and
  otherwise pops its head; \<open>pfree\<close> of a valid page that is not free already pushes it; and
  a freed page is the next one handed out, leaving the list as it was.\<close>

theorem palloc_pfree_stack:
  assumes "free_pages s ps"
  shows "(case ps of [] \<Rightarrow> palloc s = (0, s)
      | p # qs \<Rightarrow> fst (palloc s) = p \<and> p \<noteq> 0 \<and> free_pages (snd (palloc s)) qs) \<and>
    (page_ok s v \<and> v \<notin> set ps \<longrightarrow>
      (\<exists>t u. pfree v s = Inr t \<and> free_pages t (v # ps) \<and> palloc t = (v, u) \<and> free_pages u ps))"
proof (intro conjI impI)
  show "(case ps of [] \<Rightarrow> palloc s = (0, s)
      | p # qs \<Rightarrow> fst (palloc s) = p \<and> p \<noteq> 0 \<and> free_pages (snd (palloc s)) qs)"
    using assms pa.alloc_empty [of s] pa.alloc_head [of s] pa.rep_good [OF assms]
    by (cases ps) force+
  show "\<exists>t u. pfree v s = Inr t \<and> free_pages t (v # ps) \<and> palloc t = (v, u) \<and> free_pages u ps"
    if "page_ok s v \<and> v \<notin> set ps"
    using pa.free_push [OF assms] pa.free_then_alloc [OF assms] that by blast
qed

theorem palloc_pfree_stack_witness:
  "\<exists>t u. pfree 0x80200000 machine0 = Inr t \<and> free_pages t [0x80200000] \<and>
     palloc t = (0x80200000, u) \<and> free_pages u []"
proof -
  have "free_pages machine0 []" "page_ok machine0 0x80200000"
    by (simp_all add: free_pages_def machine0_def page_ok_def KA2P_def)
  then show ?thesis using palloc_pfree_stack [of machine0 "[]" "0x80200000"] by simp
qed

text \<open>C15: \<open>palloc_init\<close> of a range that starts on a page boundary above the kernel image
  and ends at or below the top of physical memory returns, with exactly the whole pages of
  the range on the free list, the highest first, and \<open>pmem_report\<close> counts them: a tail
  shorter than a page is left out and no page is entered twice.\<close>

theorem palloc_init_frees_range:
  assumes "free_pages s []" "sym_end s \<le> vstart" "vstart mod PAGE_SZ = 0"
    and "P2KA 0 \<le> vstart" "vstart \<le> vend" "vend \<le> P2KA PHYSTOP"
  shows "\<exists>t. palloc_init vstart vend s = Inr t \<and>
    free_pages t (range_pages vstart (unat (vend - vstart) div 4096)) \<and>
    pmem_report t = Some (unat (vend - vstart) div 4096)"
proof -
  let ?n = "unat (vend - vstart) div 4096"
  have le: "0x80000000 \<le> unat vstart" "unat vstart \<le> unat vend" "unat vend \<le> 0xA0000000"
    using assms(4-6) by (simp_all add: P2KA_def word32_cmp)
  then have n: "unat vend = unat vstart + ?n * 4096 + unat (vend - vstart) mod 4096"
    by (simp add: word_nat)
  have al: "unat vstart mod 4096 = 0" using assms(3) by (simp add: word32_eq_iff unat_mod)
  have ok: "page_ok s q" if "q \<in> set (range_pages vstart ?n)" for q
  proof -
    have q: "unat vstart \<le> unat q" "unat q < unat vend" "unat q mod 4096 = 0"
      using range_pages_set [OF _ that] n le al by fastforce+
    then have "q mod PAGE_SZ = 0" by (simp add: word32_eq_iff unat_mod)
    moreover have "KA2P q < PHYSTOP" "sym_end s \<le> q"
      using q le assms(2) by (simp_all add: KA2P_def word32_cmp word_nat)
    ultimately show ?thesis by (simp add: page_ok_def)
  qed
  obtain t where t: "palloc_init vstart vend s = Inr t" "free_pages t (range_pages vstart ?n)"
    using pfree_range_frees [OF n _ assms(1)] ok le by (auto simp: palloc_init_def)
  have "length (range_pages p k) = k" for p k
    by (induction p k rule: range_pages.induct) simp_all
  then have "pmem_report t = Some ?n"
    using t(2) count_runs_list [of "ram t"] by (auto simp: pmem_report_def free_pages_def)
  with t show ?thesis by blast
qed

theorem palloc_init_frees_range_witness:
  "\<exists>t. palloc_init 0x80110000 0x80112800 machine0 = Inr t \<and>
    free_pages t [0x80111000, 0x80110000] \<and> pmem_report t = Some 2"
proof -
  have "free_pages machine0 []" by (simp add: free_pages_def machine0_def)
  moreover have "range_pages 0x80110000 (Suc (Suc 0)) = [0x80111000, 0x80110000]" by simp
  moreover have "sym_end machine0 \<le> 0x80110000" by (simp add: machine0_def)
  ultimately show ?thesis
    using palloc_init_frees_range [of machine0 "0x80110000" "0x80112800"]
    by (simp add: P2KA_def eval_nat_numeral(2) [symmetric] numeral_2_eq_2 [symmetric])
qed

end
