(* ===== verification/Pgtbl.thy ===== *)
theory Pgtbl
  imports Lib_String Palloc "HOL-Library.Sublist"
begin

text \<open>
  kernel/memory/pgtbl.c: two-level page tables held in the machine's memory.  A page
  directory is the kernel address of its page; its entries and the entries of its page
  tables are 32-bit words of that memory, so the model reads and writes them through
  \<open>load32\<close> and \<open>store32\<close>.  \<open>pte_at\<close> is the walk of the processor's MMU; the lemmas say
  what \<open>walk\<close>, \<open>map_pages\<close> and \<open>unmap_pages\<close> do to it.
\<close>

section \<open>Operations\<close>

record vmap =
  virt :: u32
  pstart :: u32
  pend :: u32
  perm :: u32

definition get_pde :: "u32 \<Rightarrow> u32 \<Rightarrow> u32" where
  "get_pde pgdir vaddr = pgdir + 4 * page_directory_idx vaddr"

definition get_pt :: "mem \<Rightarrow> u32 \<Rightarrow> u32 \<Rightarrow> u32" where
  "get_pt m pgdir vaddr = P2KA (pte_addr (load32 m (get_pde pgdir vaddr)))"

definition get_pt1 :: "mem \<Rightarrow> u32 \<Rightarrow> u32" where
  "get_pt1 m pde = P2KA (pte_addr (load32 m pde))"

definition get_pte :: "mem \<Rightarrow> u32 \<Rightarrow> u32 \<Rightarrow> u32" where
  "get_pte m pgdir vaddr = get_pt m pgdir vaddr + 4 * page_table_idx vaddr"

definition get_pte1 :: "mem \<Rightarrow> u32 \<Rightarrow> u32 \<Rightarrow> u32" where
  "get_pte1 m pde vaddr = get_pt1 m pde + 4 * page_table_idx vaddr"

definition walk :: "u32 \<Rightarrow> u32 \<Rightarrow> machine \<Rightarrow> u32 \<times> machine" where
  "walk pgdir vaddr s =
     (let pde = get_pde pgdir vaddr in
      if load32 (ram s) pde AND PDE_P \<noteq> 0 then (get_pte1 (ram s) pde vaddr, s)
      else let (pt, s) = palloc s in
        if pt = 0 then (0, s)
        else let m = memset (ram s) pt 0 PAGE_SZ;
                 m = store32 m pde (KA2P (pt OR PDE_P OR PDE_W OR PDE_U))
             in (get_pte1 m pde vaddr, s\<lparr>ram := m\<rparr>))"

text \<open>
  The loop of \<open>map_pages\<close> compares with \<open>!=\<close>: it would never meet a \<open>vend\<close> that is not a
  whole number of pages away.  The check before the loop excludes that.
\<close>

function map_loop :: "u32 \<Rightarrow> u32 \<Rightarrow> u32 \<Rightarrow> u32 \<Rightarrow> u32 \<Rightarrow> machine \<Rightarrow> (bool \<times> machine) res" where
  "map_loop pgdir pm vstart vend ps s =
     (if vstart = vend then Inr (True, s)
      else if (vend - vstart) mod PAGE_SZ \<noteq> 0 then Inl Hang
      else let (pte, s) = walk pgdir vstart s in
        if pte = 0 then Inr (False, s)
        else if load32 (ram s) pte AND PTE_P \<noteq> 0 then Inl (Panic ''map_pages: remap'')
        else map_loop pgdir pm (vstart + PAGE_SZ) vend (ps + PAGE_SZ)
               (s\<lparr>ram := store32 (ram s) pte (ps OR PTE_P OR pm)\<rparr>))"
  by pat_completeness auto
termination
proof (relation "measure (\<lambda>(pgdir, pm, vstart, vend, ps, s). unat (vend - vstart))", goal_cases)
  case (2 pgdir pm vstart vend ps s x pte t)
  have "vend - vstart \<noteq> 0" using 2(1) by simp
  then have "0 < unat (vend - vstart)" using unat_gt_0 [of "vend - vstart"] by blast
  moreover have "unat (vend - vstart) mod 4096 = 0"
    using 2(2) by (simp add: word32_eq_iff unat_mod)
  ultimately have "4096 \<le> unat (vend - vstart)" by (auto simp: mod_eq_0_iff_dvd dvd_imp_le)
  then have "unat (vend - vstart - 4096) < unat (vend - vstart)"
    unfolding unat_sub32 [of "vend - vstart" 4096] by simp
  moreover have "vend - vstart - 4096 = vend - (vstart + PAGE_SZ)" by (simp add: algebra_simps)
  ultimately show ?case by simp
qed simp

declare map_loop.simps [simp del]

definition map_pages :: "u32 \<Rightarrow> vmap \<Rightarrow> machine \<Rightarrow> (bool \<times> machine) res" where
  "map_pages pgdir k s =
     (let size = pend k - pstart k;
          vstart = page_aligndown (virt k);
          vend = page_aligndown (virt k + size)
      in if vstart mod PAGE_SZ > 0 \<or> vend mod PAGE_SZ > 0
         then Inl (Panic ''map_pages: not on page boundry'')
         else map_loop pgdir (perm k) vstart vend (pstart k) s)"

text \<open>
  One round of the loop of \<open>unmap_pages\<close>; the label \<open>clear\<close> is reached on every path that
  does not panic.
\<close>

definition unmap_page :: "u32 \<Rightarrow> u32 \<Rightarrow> bool \<Rightarrow> machine \<Rightarrow> machine res" where
  "unmap_page pgdir a free s =
     (let pte = get_pte (ram s) pgdir a in
      if pte = 0 then Inl (Panic ''unmap_pages: get_pte'')
      else
        let v = load32 (ram s) pte;
            addr = pte_addr v
        in rbind
            (if v AND PTE_P = 0 then Inr s
             else if addr \<ge> PHYSTOP \<or> P2KA addr < sym_end s then Inr s
             else if free then pfree (P2KA addr) s else Inr s)
            (\<lambda>s. Inr (s\<lparr>ram := store32 (ram s) pte 0\<rparr>)))"

text \<open>
  \<open>a += PAGE_SZ\<close> wraps past the last page only when \<open>vend\<close> is not a multiple of the page
  size; the loop would then never end.
\<close>

function unmap_loop :: "u32 \<Rightarrow> u32 \<Rightarrow> u32 \<Rightarrow> bool \<Rightarrow> machine \<Rightarrow> machine res" where
  "unmap_loop pgdir a vend free s =
     (if a < vend
      then rbind (unmap_page pgdir a free s)
             (\<lambda>s. if a + PAGE_SZ < a then Inl Hang
                  else unmap_loop pgdir (a + PAGE_SZ) vend free s)
      else Inr s)"
  by pat_completeness auto
termination
proof (relation "measure (\<lambda>(pgdir, a, vend, free, s). unat vend - unat a)", goal_cases)
  case (2 pgdir a vend free s t)
  have "a + PAGE_SZ \<noteq> a" by simp
  then have "unat (a + PAGE_SZ) > unat a"
    using 2(3) unfolding word32_cmp by linarith
  with 2(1) show ?case by (simp add: word32_less_iff)
qed simp

declare unmap_loop.simps [simp del]

definition unmap_pages :: "u32 \<Rightarrow> u32 \<Rightarrow> u32 \<Rightarrow> bool \<Rightarrow> machine \<Rightarrow> machine res" where
  "unmap_pages pgdir vstart n free s =
     (let vend = vstart + n * PAGE_SZ in
      if vstart mod PAGE_SZ \<noteq> 0
      then Inl (Panic ''unmap_pages: virtual address is not aligned'')
      else unmap_loop pgdir vstart vend free s)"

definition set_pte_flag :: "u32 \<Rightarrow> u32 \<Rightarrow> u32 \<Rightarrow> machine \<Rightarrow> machine res" where
  "set_pte_flag pgdir vaddr flag s =
     (if flag \<noteq> PTE_P \<and> flag \<noteq> PTE_W \<and> flag \<noteq> PTE_U \<and> flag \<noteq> PTE_D
      then Inl (Panic ''set_pte_flag: unknown flag'')
      else let pte = get_pte (ram s) pgdir vaddr in
        if pte = 0 then Inl (Panic ''set_pte_flag'')
        else Inr (s\<lparr>ram := store32 (ram s) pte (load32 (ram s) pte OR flag)\<rparr>))"

definition clear_pte_flag :: "u32 \<Rightarrow> u32 \<Rightarrow> u32 \<Rightarrow> machine \<Rightarrow> machine res" where
  "clear_pte_flag pgdir vaddr flag s =
     (if flag \<noteq> PTE_P \<and> flag \<noteq> PTE_W \<and> flag \<noteq> PTE_U \<and> flag \<noteq> PTE_D
      then Inl (Panic ''clear_pte_flag: unknown flag'')
      else let pte = get_pte (ram s) pgdir vaddr in
        if pte = 0 then Inl (Panic ''clear_pte_flag'')
        else Inr (s\<lparr>ram := store32 (ram s) pte (load32 (ram s) pte AND NOT flag)\<rparr>))"

section \<open>Entries of a page\<close>

definition page_aligned :: "u32 \<Rightarrow> bool" where
  "page_aligned p \<longleftrightarrow> unat p mod 4096 = 0"

lemma page_ok_aligned: "page_ok s p \<Longrightarrow> page_aligned p"
  using unat_page_ok [of s p] by (simp add: page_aligned_def)

lemma page_aligned_ex:
  assumes "page_aligned p"
  obtains k where "unat p = 4096 * k" "k < 1048576"
proof -
  obtain k where "unat p = 4096 * k"
    using assms by (auto simp: page_aligned_def mod_eq_0_iff_dvd elim: dvdE)
  moreover from this have "k < 1048576" using unat_lt32 [of p] by linarith
  ultimately show ?thesis by (rule that)
qed

lemma page_aligned_max: "page_aligned p \<Longrightarrow> unat p + 4096 \<le> 4294967296"
  by (elim page_aligned_ex) simp

lemma page_off:
  assumes "page_aligned p" "r < 4096"
  shows "(unat p + r) div 4096 = unat p div 4096"
  by (rule page_aligned_ex [OF assms(1)]) (simp add: assms(2))

lemma page_iff:
  assumes "page_aligned p"
  shows "unat p \<le> a \<and> a < unat p + 4096 \<longleftrightarrow> a div 4096 = unat p div 4096"
proof (rule page_aligned_ex [OF assms])
  fix k
  assume "unat p = 4096 * k"
  moreover have "a div 4096 = k \<longleftrightarrow> 4096 * k \<le> a \<and> a < 4096 * k + 4096"
    using div_mult_mod_eq [of a 4096] mod_less_divisor [of 4096 a] by auto
  ultimately show ?thesis by simp
qed

lemma unat_times4: "unat i < 1024 \<Longrightarrow> unat (4 * i :: u32) = 4 * unat i"
  by (simp add: unat_word_ariths)

lemma unat_entry:
  assumes "page_aligned p" "unat i < 1024"
  shows "unat (p + 4 * i :: u32) = unat p + 4 * unat i"
  using page_aligned_max [OF assms(1)] assms(2) by (simp add: unat_add32 unat_times4)

lemma entry_aligned4:
  assumes "page_aligned p" "unat i < 1024"
  shows "aligned4 (p + 4 * i)"
proof (rule page_aligned_ex [OF assms(1)])
  fix k
  assume "unat p = 4096 * k"
  then have "unat (p + 4 * i) = 4 * (1024 * k + unat i)" by (simp add: unat_entry [OF assms])
  then show ?thesis by (simp only: aligned4_def mod_mult_self1_is_0)
qed

lemma entry_page: "page_aligned p \<Longrightarrow> unat i < 1024 \<Longrightarrow> unat (p + 4 * i) div 4096 = unat p div 4096"
  by (simp add: unat_entry page_off)

lemma entry_byte_page:
  assumes "page_aligned p" "unat i < 1024" "k < 4"
  shows "unat (p + 4 * i + of_nat k) div 4096 = unat p div 4096"
proof -
  have "unat (p + 4 * i + of_nat k) = unat p + (4 * unat i + k)"
    using page_aligned_max [OF assms(1)] assms(2,3)
    by (simp add: unat_add32 [of _ "of_nat k"] unat_of_nat32 unat_entry assms(1))
  then show ?thesis using assms by (simp add: page_off del: unat_of_nat)
qed

lemma page_aligned_inj:
  "page_aligned p \<Longrightarrow> page_aligned q \<Longrightarrow> unat p div 4096 = unat q div 4096 \<Longrightarrow> p = q"
  unfolding page_aligned_def word32_eq_iff
  by (metis div_mult_mod_eq)

lemma entry_inj:
  assumes "page_aligned p" "page_aligned q" "unat i < 1024" "unat j < 1024"
  shows "p + 4 * i = q + 4 * j \<longleftrightarrow> p = q \<and> i = j"
proof
  assume e: "p + 4 * i = q + 4 * j"
  then have "p = q"
    using page_aligned_inj [OF assms(1,2)] entry_page [of p i] entry_page [of q j] assms by simp
  moreover have "unat p + 4 * unat i = unat q + 4 * unat j"
    using arg_cong [OF e, of unat] by (simp add: unat_entry assms)
  ultimately show "p = q \<and> i = j" by (simp add: word32_eq_iff)
qed simp

lemma load_store_entry:
  assumes "page_aligned p" "page_aligned q" "unat i < 1024" "unat j < 1024"
  shows "load32 (store32 m (p + 4 * i) v) (q + 4 * j) =
    (if p = q \<and> i = j then v else load32 m (q + 4 * j))"
  using assms by (simp add: entry_aligned4 entry_inj)

lemma store_entry_frame:
  assumes "page_aligned p" "unat i < 1024" "unat a div 4096 \<noteq> unat p div 4096"
  shows "store32 m (p + 4 * i) v a = m a"
proof -
  note pg = entry_byte_page [OF assms(1,2)]
  from pg [of 0] pg [of 1] pg [of 2] pg [of 3] assms(3) show ?thesis
    by (intro store32_other_byte) auto
qed

lemma memset_page_apply:
  assumes "page_aligned p"
  shows "memset m p 0 PAGE_SZ a = (if unat a div 4096 = unat p div 4096 then 0 else m a)"
proof -
  show ?thesis
    using page_aligned_max [OF assms] in_block_iff [of p 4096 a] page_iff [OF assms, of "unat a"]
    by (simp add: memset_apply)
qed

lemma load_memset_entry:
  assumes "page_aligned p" "page_aligned q" "unat i < 1024"
  shows "load32 (memset m p 0 PAGE_SZ) (q + 4 * i) = (if p = q then 0 else load32 m (q + 4 * i))"
proof -
  note pg = entry_byte_page [OF assms(2,3)]
  show ?thesis
  proof (cases "p = q")
    case True
    then show ?thesis
      using pg [of 0] pg [of 1] pg [of 2] pg [of 3]
      by (simp add: load32_def memset_page_apply assms)
  next
    case False
    then have "unat q div 4096 \<noteq> unat p div 4096" using page_aligned_inj assms by metis
    then show ?thesis
      using False pg by (auto intro!: load32_cong simp: memset_page_apply assms)
  qed
qed

lemma idx_bounds: "unat (page_directory_idx va) < 1024" "unat (page_table_idx va) < 1024"
  using unat_lt32 [of va] by (auto simp: word_nat intro: less_mult_imp_div_less)

section \<open>The processor's view of a page directory\<close>

definition pde_of :: "mem \<Rightarrow> u32 \<Rightarrow> u32 \<Rightarrow> u32" where
  "pde_of m pgdir i = load32 m (pgdir + 4 * i)"

definition has_table :: "mem \<Rightarrow> u32 \<Rightarrow> u32 \<Rightarrow> bool" where
  "has_table m pgdir i \<longleftrightarrow> pde_of m pgdir i AND PDE_P \<noteq> 0"

definition table_of :: "mem \<Rightarrow> u32 \<Rightarrow> u32 \<Rightarrow> u32" where
  "table_of m pgdir i = P2KA (pte_addr (pde_of m pgdir i))"

definition pte_at :: "mem \<Rightarrow> u32 \<Rightarrow> u32 \<Rightarrow> u32 option" where
  "pte_at m pgdir va =
     (if has_table m pgdir (page_directory_idx va)
      then let pte = load32 m (table_of m pgdir (page_directory_idx va) + 4 * page_table_idx va)
           in if pte AND PTE_P \<noteq> 0 then Some pte else None
      else None)"

text \<open>
  A page directory is well formed with respect to the list \<open>fs\<close> of free pages when it and
  its page tables lie in allocatable pages that are not free and are pairwise distinct, and
  an absent entry is 0, as \<open>memset\<close> leaves it.
\<close>

definition wf_pgdir :: "machine \<Rightarrow> u32 list \<Rightarrow> u32 \<Rightarrow> bool" where
  "wf_pgdir s fs pgdir \<longleftrightarrow>
     free_pages s fs \<and> page_ok s pgdir \<and> pgdir \<notin> set fs \<and>
     (\<forall>i. unat i < 1024 \<and> has_table (ram s) pgdir i \<longrightarrow>
        page_ok s (table_of (ram s) pgdir i) \<and> table_of (ram s) pgdir i \<notin> set fs \<and>
        table_of (ram s) pgdir i \<noteq> pgdir) \<and>
     (\<forall>i. unat i < 1024 \<and> \<not> has_table (ram s) pgdir i \<longrightarrow> pde_of (ram s) pgdir i = 0) \<and>
     (\<forall>i j. unat i < 1024 \<and> unat j < 1024 \<and> i \<noteq> j \<and> has_table (ram s) pgdir i \<and>
        has_table (ram s) pgdir j \<longrightarrow> table_of (ram s) pgdir i \<noteq> table_of (ram s) pgdir j)"

lemma wf_pgdirD:
  assumes "wf_pgdir s fs pgdir"
  shows "free_pages s fs" "page_ok s pgdir" "page_aligned pgdir" "pgdir \<notin> set fs"
  using assms page_ok_aligned by (auto simp: wf_pgdir_def)

lemma wf_pgdir_table:
  assumes "wf_pgdir s fs pgdir" "unat i < 1024" "has_table (ram s) pgdir i"
  shows "page_ok s (table_of (ram s) pgdir i)" "page_aligned (table_of (ram s) pgdir i)"
    "table_of (ram s) pgdir i \<notin> set fs" "table_of (ram s) pgdir i \<noteq> pgdir"
  using assms page_ok_aligned by (auto simp: wf_pgdir_def)

lemma wf_pgdir_absent:
  "wf_pgdir s fs pgdir \<Longrightarrow> unat i < 1024 \<Longrightarrow> \<not> has_table (ram s) pgdir i \<Longrightarrow> pde_of (ram s) pgdir i = 0"
  by (simp add: wf_pgdir_def)

lemma wf_pgdir_table_inj:
  assumes "wf_pgdir s fs pgdir" "unat i < 1024" "unat j < 1024"
    "has_table (ram s) pgdir i" "has_table (ram s) pgdir j"
    "table_of (ram s) pgdir i = table_of (ram s) pgdir j"
  shows "i = j"
  using assms by (auto simp: wf_pgdir_def)

lemma free_pages_cong:
  assumes "free_pages s fs" "\<And>p. p \<in> set fs \<Longrightarrow> load32 m p = load32 (ram s) p"
  shows "free_pages (s\<lparr>ram := m\<rparr>) fs"
  using assms run_list_mem_cong [of fs m "ram s" "freelist s"] by (auto simp: free_pages_def)

lemma page_as_entry: "load32 m p = load32 m (p + 4 * 0)"
  by simp

lemma same_page_iff:
  "unat va div 4096 = unat vb div 4096 \<longleftrightarrow>
     page_directory_idx va = page_directory_idx vb \<and> page_table_idx va = page_table_idx vb"
proof -
  have "unat v div 4194304 = unat v div 4096 div 1024" for v :: u32
    by (simp add: div_mult2_eq [symmetric])
  then show ?thesis
    unfolding word32_eq_iff unat_page_directory_idx unat_page_table_idx
    by (metis div_mult_mod_eq)
qed

lemma same_page_pte_at:
  "unat va div 4096 = unat vb div 4096 \<Longrightarrow> pte_at m pgdir va = pte_at m pgdir vb"
  unfolding same_page_iff pte_at_def by (elim conjE) (simp only:)

text \<open>
  The pages an operation on a directory may write: the directory, its tables and the free
  pages.  \<open>confined\<close> says that an operation wrote nothing else and took what it added to
  the directory from the free pages.
\<close>

definition own_page :: "mem \<Rightarrow> u32 list \<Rightarrow> u32 \<Rightarrow> u32 \<Rightarrow> bool" where
  "own_page m fs pgdir p \<longleftrightarrow>
     p = pgdir \<or> p \<in> set fs \<or> (\<exists>i. unat i < 1024 \<and> has_table m pgdir i \<and> p = table_of m pgdir i)"

definition confined :: "machine \<Rightarrow> u32 list \<Rightarrow> u32 \<Rightarrow> machine \<Rightarrow> u32 list \<Rightarrow> bool" where
  "confined s fs pgdir t fs' \<longleftrightarrow>
     (\<forall>p. own_page (ram t) fs' pgdir p \<longrightarrow> own_page (ram s) fs pgdir p) \<and>
     (\<forall>a. (\<forall>p. own_page (ram s) fs pgdir p \<longrightarrow> unat p div 4096 \<noteq> unat a div 4096) \<longrightarrow> ram t a = ram s a)"

lemma confined_refl [simp]: "confined s fs pgdir s fs"
  by (simp add: confined_def)

lemma confined_trans:
  "confined s fs pgdir t gs \<Longrightarrow> confined t gs pgdir u hs \<Longrightarrow> confined s fs pgdir u hs"
  by (simp add: confined_def)

section \<open>Writing an entry\<close>

lemma store_pte_tables:
  assumes "wf_pgdir s fs pgdir" "unat i < 1024" "has_table (ram s) pgdir i" "unat j < 1024"
    and "m = store32 (ram s) (table_of (ram s) pgdir i + 4 * j) w" "unat k < 1024"
  shows "has_table m pgdir k = has_table (ram s) pgdir k"
    "table_of m pgdir k = table_of (ram s) pgdir k"
    "pde_of m pgdir k = pde_of (ram s) pgdir k"
  using wf_pgdirD [OF assms(1)] wf_pgdir_table [OF assms(1-3)] assms(4-6)
  by (simp_all add: has_table_def table_of_def pde_of_def load_store_entry)

lemma store_pte_wf:
  assumes "wf_pgdir s fs pgdir" "unat i < 1024" "has_table (ram s) pgdir i" "unat j < 1024"
  shows "wf_pgdir (s\<lparr>ram := store32 (ram s) (table_of (ram s) pgdir i + 4 * j) w\<rparr>) fs pgdir"
proof -
  let ?m = "store32 (ram s) (table_of (ram s) pgdir i + 4 * j) w"
  have "load32 ?m p = load32 (ram s) p" if "p \<in> set fs" for p
  proof -
    have "page_aligned p" "p \<noteq> table_of (ram s) pgdir i"
      using wf_pgdirD(1) [OF assms(1)] wf_pgdir_table(3) [OF assms(1-3)] that
      by (auto simp: free_pages_def intro: page_ok_aligned)
    then show ?thesis
      using wf_pgdir_table(2) [OF assms(1-3)] assms(4)
        load_store_entry [of "table_of (ram s) pgdir i" p j 0 "ram s" w] by simp
  qed
  then have "free_pages (s\<lparr>ram := ?m\<rparr>) fs"
    using free_pages_cong wf_pgdirD(1) [OF assms(1)] by blast
  then show ?thesis
    using assms(1) store_pte_tables [OF assms refl]
    by (simp add: wf_pgdir_def cong: conj_cong)
qed

lemma store_pte_confined:
  assumes "wf_pgdir s fs pgdir" "unat i < 1024" "has_table (ram s) pgdir i" "unat j < 1024"
    and "t = s\<lparr>ram := store32 (ram s) (table_of (ram s) pgdir i + 4 * j) w\<rparr>"
  shows "confined s fs pgdir t fs"
proof -
  have "own_page (ram s) fs pgdir (table_of (ram s) pgdir i)"
    using assms(2,3) by (auto simp: own_page_def)
  moreover have "own_page (ram t) fs pgdir = own_page (ram s) fs pgdir"
    using store_pte_tables [OF assms(1-4) refl] by (auto simp: fun_eq_iff own_page_def assms(5))
  ultimately show ?thesis
    using store_entry_frame [OF wf_pgdir_table(2) [OF assms(1-3)] assms(4)]
    by (auto simp: confined_def assms(5))
qed

lemma store_pte_at:
  assumes "wf_pgdir s fs pgdir" "has_table (ram s) pgdir (page_directory_idx va)"
    and "m = store32 (ram s) (table_of (ram s) pgdir (page_directory_idx va) + 4 * page_table_idx va) w"
  shows "pte_at m pgdir vb =
    (if unat vb div 4096 = unat va div 4096 then (if w AND PTE_P \<noteq> 0 then Some w else None)
     else pte_at (ram s) pgdir vb)"
proof -
  let ?i = "page_directory_idx va" and ?k = "page_directory_idx vb"
  note tabs = store_pte_tables [OF assms(1) idx_bounds(1) assms(2) idx_bounds(2) assms(3) idx_bounds(1)]
  show ?thesis
  proof (cases "has_table (ram s) pgdir ?k")
    case True
    have "load32 m (table_of (ram s) pgdir ?k + 4 * page_table_idx vb) =
      (if ?k = ?i \<and> page_table_idx vb = page_table_idx va then w
       else load32 (ram s) (table_of (ram s) pgdir ?k + 4 * page_table_idx vb))"
      using load_store_entry [OF wf_pgdir_table(2) [OF assms(1) idx_bounds(1) assms(2)]
          wf_pgdir_table(2) [OF assms(1) idx_bounds(1) True] idx_bounds(2) idx_bounds(2)]
        wf_pgdir_table_inj [OF assms(1) idx_bounds(1) idx_bounds(1) assms(2) True]
      by (auto simp: assms(3))
    with True show ?thesis by (auto simp: pte_at_def tabs same_page_iff Let_def)
  next
    case False
    then show ?thesis using assms(2) by (auto simp: pte_at_def tabs same_page_iff)
  qed
qed

section \<open>Walking\<close>

lemma present_iff: "(w :: u32) AND 1 \<noteq> 0 \<longleftrightarrow> odd (unat w)"
proof -
  have "unat (w AND 1) = unat w mod 2" by (simp add: and_one_eq unat_mod)
  then show ?thesis unfolding word32_eq_iff by (simp add: odd_iff_mod_2_eq_one)
qed

lemma flag_bits_add:
  assumes "page_aligned p"
  shows "p OR PDE_P OR PDE_W OR PDE_U = p + 7"
proof -
  have "unat (p AND NOT 0xFFF) = unat p"
    unfolding unat_and_not_FFF using assms by (auto simp: page_aligned_def)
  then have p: "p AND NOT 0xFFF = p" by (simp add: word32_eq_iff)
  have "\<not> bit p n \<or> \<not> bit (7 :: u32) n" for n
  proof -
    have m: "(7 :: u32) = mask 3" by (simp add: mask_eq_exp_minus_1)
    have "\<not> bit (7 :: u32) n" if "n \<ge> 12" unfolding m using that by (simp add: bit_simps)
    moreover have "\<not> bit (p AND NOT (mask 12)) n" if "n < 12"
      using that by (simp add: bit_simps)
    ultimately show ?thesis using p unfolding mask12 by (cases "n < 12") auto
  qed
  then have "p + 7 = p OR 7" by (rule disjunctive_add)
  then show ?thesis by (simp add: or.assoc)
qed

lemma table_entry:
  assumes "page_ok s pt"
  shows "pte_addr (KA2P (pt OR PDE_P OR PDE_W OR PDE_U)) = KA2P pt"
    and "KA2P (pt OR PDE_P OR PDE_W OR PDE_U) AND PDE_P \<noteq> 0"
proof -
  obtain k where k: "unat pt = 4096 * k" "k < 1048576"
    using page_ok_aligned [OF assms] by (rule page_aligned_ex)
  have ge: "0x80000000 \<le> unat pt" "unat pt < 0xA0000000" using unat_page_ok [OF assms] by auto
  have "unat (pt + 7 - 0x80000000) = unat pt - 0x80000000 + 7" "unat (KA2P pt) = unat pt - 0x80000000"
    using ge by (simp_all add: KA2P_def word_nat)
  moreover have "unat pt - 0x80000000 = 4096 * (k - 524288)" using k ge by simp
  ultimately have u: "unat (KA2P (pt + 7)) = 4096 * (k - 524288) + 7"
    "unat (KA2P pt) = 4096 * (k - 524288)"
    by (simp_all add: KA2P_def)
  show "pte_addr (KA2P (pt OR PDE_P OR PDE_W OR PDE_U)) = KA2P pt"
    unfolding flag_bits_add [OF page_ok_aligned [OF assms]]
    by (simp add: word32_eq_iff unat_pte_addr u)
  have "odd (unat (KA2P (pt + 7)))" by (simp add: u)
  then show "KA2P (pt OR PDE_P OR PDE_W OR PDE_U) AND PDE_P \<noteq> 0"
    unfolding flag_bits_add [OF page_ok_aligned [OF assms]]
    by (simp add: present_iff)
qed

lemma get_pte_table:
  "get_pde pgdir va = pgdir + 4 * page_directory_idx va"
  "get_pte1 m (get_pde pgdir va) va = table_of m pgdir (page_directory_idx va) + 4 * page_table_idx va"
  "get_pte m pgdir va = table_of m pgdir (page_directory_idx va) + 4 * page_table_idx va"
  by (simp_all add: get_pde_def get_pte_def get_pt_def get_pte1_def get_pt1_def table_of_def pde_of_def)

lemma walk_present:
  "has_table (ram s) pgdir (page_directory_idx va) \<Longrightarrow>
     walk pgdir va s = (table_of (ram s) pgdir (page_directory_idx va) + 4 * page_table_idx va, s)"
  by (simp add: walk_def Let_def get_pte_table has_table_def pde_of_def table_of_def get_pte1_def get_pt1_def)

text \<open>The memory after \<open>walk\<close> hooked the fresh page \<open>pt\<close> into slot \<open>i\<close> of the directory.\<close>

definition hook_table :: "mem \<Rightarrow> u32 \<Rightarrow> u32 \<Rightarrow> u32 \<Rightarrow> mem" where
  "hook_table m pgdir i pt =
     store32 (memset m pt 0 PAGE_SZ) (pgdir + 4 * i) (KA2P (pt OR PDE_P OR PDE_W OR PDE_U))"

lemma hook_table_load:
  assumes "page_aligned pgdir" "page_aligned pt" "page_aligned q" "unat i < 1024" "unat j < 1024"
  shows "load32 (hook_table m pgdir i pt) (q + 4 * j) =
    (if q = pgdir \<and> j = i then KA2P (pt OR PDE_P OR PDE_W OR PDE_U)
     else if q = pt then 0 else load32 m (q + 4 * j))"
  using assms by (auto simp: hook_table_def load_store_entry load_memset_entry)

lemma hook_table_tables:
  assumes "page_aligned pgdir" "page_ok s pt" "pt \<noteq> pgdir" "unat i < 1024" "unat k < 1024"
  shows "has_table (hook_table m pgdir i pt) pgdir k \<longleftrightarrow> k = i \<or> has_table m pgdir k"
    "table_of (hook_table m pgdir i pt) pgdir k = (if k = i then pt else table_of m pgdir k)"
    "k \<noteq> i \<Longrightarrow> pde_of (hook_table m pgdir i pt) pgdir k = pde_of m pgdir k"
  using assms page_ok_aligned [OF assms(2)] table_entry [OF assms(2)]
  by (auto simp: has_table_def table_of_def pde_of_def hook_table_load)

lemma walk_absent:
  assumes "wf_pgdir s fs pgdir" "\<not> has_table (ram s) pgdir (page_directory_idx va)"
  shows "walk pgdir va s =
    (case fs of [] \<Rightarrow> (0, s)
     | pt # _ \<Rightarrow> (pt + 4 * page_table_idx va,
         s\<lparr>freelist := load32 (ram s) pt, ram := hook_table (ram s) pgdir (page_directory_idx va) pt\<rparr>))"
proof (cases fs)
  case Nil
  then show ?thesis
    using assms wf_pgdirD(1) [OF assms(1)] palloc_free_pages_Nil [of s]
    by (simp add: walk_def Let_def has_table_def pde_of_def get_pte_table)
next
  case (Cons pt fs')
  then have pt: "free_pages s (pt # fs')" "page_ok s pt" "pt \<noteq> pgdir"
    using wf_pgdirD [OF assms(1)] by (auto simp: free_pages_def)
  have "get_pte1 (hook_table (ram s) pgdir (page_directory_idx va) pt) (get_pde pgdir va) va =
      pt + 4 * page_table_idx va"
    using pt hook_table_tables(1,2) [OF wf_pgdirD(3) [OF assms(1)] pt(2,3) idx_bounds(1) idx_bounds(1), of _ va va]
    unfolding get_pte_table(2) by simp
  then show ?thesis
    using assms(2) Cons palloc_free_pages_Cons [OF pt(1)] page_ok_nonzero [OF pt(2)]
    by (simp add: walk_def Let_def has_table_def pde_of_def get_pte_table hook_table_def)
qed

lemma walk_absent_wf:
  assumes "wf_pgdir s (pt # fs) pgdir" "\<not> has_table (ram s) pgdir i" "unat i < 1024"
    and "t = s\<lparr>freelist := load32 (ram s) pt, ram := hook_table (ram s) pgdir i pt\<rparr>"
  shows "wf_pgdir t fs pgdir"
proof -
  note wf = wf_pgdirD [OF assms(1)]
  have pt: "page_ok s pt" "pt \<noteq> pgdir" "pt \<notin> set fs" "free_pages s (pt # fs)"
    using wf by (auto simp: free_pages_def)
  have "load32 (ram t) p = load32 (ram s) p" if "p \<in> set fs" for p
  proof -
    have "page_aligned p" "p \<noteq> pt" "p \<noteq> pgdir"
      using that pt wf by (auto simp: free_pages_def intro: page_ok_aligned)
    then show ?thesis
      using hook_table_load [OF wf(3) page_ok_aligned [OF pt(1)], of p i 0 "ram s"] assms(3,4) by simp
  qed
  then have "free_pages t fs"
    using free_pages_cong [of "s\<lparr>freelist := load32 (ram s) pt\<rparr>" fs "ram t"]
      palloc_free_pages_Cons [OF pt(4)] assms(4) by simp
  then show ?thesis
    using assms(1,2) pt hook_table_tables [OF wf(3) pt(1,2) assms(3)]
    by (auto simp: wf_pgdir_def assms(4))
qed

lemma walk_absent_confined:
  assumes "wf_pgdir s (pt # fs) pgdir" "unat i < 1024"
    and "t = s\<lparr>freelist := load32 (ram s) pt, ram := hook_table (ram s) pgdir i pt\<rparr>"
  shows "confined s (pt # fs) pgdir t fs"
proof -
  note wf = wf_pgdirD [OF assms(1)]
  have pt: "page_ok s pt" "pt \<noteq> pgdir" using wf by (auto simp: free_pages_def)
  have "own_page (ram t) fs pgdir p \<Longrightarrow> own_page (ram s) (pt # fs) pgdir p" for p
    using hook_table_tables [OF wf(3) pt assms(2)]
    by (auto simp: own_page_def assms(3) split: if_splits)
  moreover have "own_page (ram s) (pt # fs) pgdir pt" "own_page (ram s) (pt # fs) pgdir pgdir"
    by (simp_all add: own_page_def)
  moreover have "ram t a = ram s a"
    if "unat a div 4096 \<noteq> unat pt div 4096" "unat a div 4096 \<noteq> unat pgdir div 4096" for a
    using that store_entry_frame [OF wf(3) assms(2)] memset_page_apply [OF page_ok_aligned [OF pt(1)]]
    by (simp add: assms(3) hook_table_def)
  ultimately show ?thesis unfolding confined_def by metis
qed

lemma walk_absent_pte_at:
  assumes "wf_pgdir s (pt # fs) pgdir" "\<not> has_table (ram s) pgdir i" "unat i < 1024"
  shows "pte_at (hook_table (ram s) pgdir i pt) pgdir vb = pte_at (ram s) pgdir vb"
proof -
  let ?k = "page_directory_idx vb"
  note wf = wf_pgdirD [OF assms(1)]
  have pt: "page_ok s pt" "pt \<noteq> pgdir" using wf by (auto simp: free_pages_def)
  note tabs = hook_table_tables [OF wf(3) pt assms(3) idx_bounds(1)]
  note load = hook_table_load [OF wf(3) page_ok_aligned [OF pt(1)] _ assms(3) idx_bounds(2)]
  show ?thesis
  proof (cases "?k = i")
    case True
    then show ?thesis
      using assms(2) load [OF page_ok_aligned [OF pt(1)]] pt(2)
        hook_table_tables [OF wf(3) pt assms(3) assms(3)]
      by (simp add: pte_at_def)
  next
    case False
    show ?thesis
    proof (cases "has_table (ram s) pgdir ?k")
      case True
      then show ?thesis
        using False wf_pgdir_table [OF assms(1) idx_bounds(1) True] load
        by (simp add: pte_at_def tabs)
    qed (simp add: pte_at_def tabs False)
  qed
qed

text \<open>\<open>walk\<close> leaves the translation alone and returns the slot of the address, or null when
  a page table was needed and no page was left.\<close>

lemma walk_spec:
  assumes "wf_pgdir s fs pgdir" "walk pgdir va s = (p, t)"
  shows "(p = 0 \<and> t = s \<and> fs = []) \<or>
    (p \<noteq> 0 \<and> has_table (ram t) pgdir (page_directory_idx va) \<and>
     p = table_of (ram t) pgdir (page_directory_idx va) + 4 * page_table_idx va \<and>
     (\<exists>fs'. suffix fs' fs \<and> wf_pgdir t fs' pgdir \<and> confined s fs pgdir t fs') \<and> sym_end t = sym_end s \<and>
     pte_at (ram t) pgdir = pte_at (ram s) pgdir)"
proof -
  let ?i = "page_directory_idx va"
  have nz: "q + 4 * page_table_idx va \<noteq> 0" if "page_ok r q" for r q
    using unat_entry [OF page_ok_aligned [OF that] idx_bounds(2), of va] unat_page_ok [OF that]
    by auto
  show ?thesis
  proof (cases "has_table (ram s) pgdir ?i")
    case True
    then show ?thesis
      using assms nz [OF wf_pgdir_table(1) [OF assms(1) idx_bounds(1) True]] walk_present [OF True]
      by auto
  next
    case False
    show ?thesis
    proof (cases fs)
      case Nil
      then show ?thesis using walk_absent [OF assms(1) False] assms(2) by simp
    next
      case (Cons pt fs')
      then have pt: "page_ok s pt" "pt \<noteq> pgdir" and wf: "wf_pgdir s (pt # fs') pgdir"
        using wf_pgdirD [OF assms(1)] assms(1) by (auto simp: free_pages_def)
      have t: "p = pt + 4 * page_table_idx va"
        "t = s\<lparr>freelist := load32 (ram s) pt, ram := hook_table (ram s) pgdir ?i pt\<rparr>"
        using walk_absent [OF assms(1) False] assms(2) Cons by auto
      show ?thesis
        using t nz [OF pt(1)] walk_absent_wf [OF wf False idx_bounds(1) t(2)] Cons
          walk_absent_confined [OF wf idx_bounds(1) t(2)]
          walk_absent_pte_at [OF wf False idx_bounds(1)]
          hook_table_tables [OF wf_pgdirD(3) [OF wf] pt idx_bounds(1) idx_bounds(1)]
        by (auto simp: fun_eq_iff intro!: exI [of _ fs'] suffix_ConsI)
    qed
  qed
qed

section \<open>Mapping a range\<close>

text \<open>Address \<open>va\<close> lies in \<open>[vstart, vend)\<close>, counted upwards and around the top of the
  address space: the device mapping ends at address 0.\<close>

definition in_vrange :: "u32 \<Rightarrow> u32 \<Rightarrow> u32 \<Rightarrow> bool" where
  "in_vrange vstart vend va \<longleftrightarrow> unat (va - vstart) < unat (vend - vstart)"

lemma same_page_diff:
  assumes "page_aligned vstart"
  shows "unat va div 4096 = unat vstart div 4096 \<longleftrightarrow> unat (va - vstart) < 4096"
  using in_block_iff [OF page_aligned_max [OF assms], of va] page_iff [OF assms, of "unat va"] by simp

lemma diff_page: "(x - (v + PAGE_SZ) :: u32) = x - v - 4096"
  by (simp add: algebra_simps)

lemma in_vrange_step:
  assumes "page_aligned vstart" "4096 \<le> unat (vend - vstart)"
  shows "in_vrange vstart vend va \<longleftrightarrow>
      unat va div 4096 = unat vstart div 4096 \<or> in_vrange (vstart + PAGE_SZ) vend va"
    and "\<not> (unat va div 4096 = unat vstart div 4096 \<and> in_vrange (vstart + PAGE_SZ) vend va)"
proof -
  have "unat (va - vstart - 4096) =
      (if 4096 \<le> unat (va - vstart) then unat (va - vstart) - 4096
       else unat (va - vstart) + 4294967296 - 4096)"
    "unat (vend - vstart - 4096) = unat (vend - vstart) - 4096"
    using assms(2) unat_sub32 [of "va - vstart" 4096] unat_sub32 [of "vend - vstart" 4096] by auto
  then show "in_vrange vstart vend va \<longleftrightarrow>
      unat va div 4096 = unat vstart div 4096 \<or> in_vrange (vstart + PAGE_SZ) vend va"
    "\<not> (unat va div 4096 = unat vstart div 4096 \<and> in_vrange (vstart + PAGE_SZ) vend va)"
    using assms(2) unat_lt32 [of "vend - vstart"]
    unfolding in_vrange_def same_page_diff [OF assms(1)] diff_page by auto
qed

lemma aligndown_step:
  assumes "page_aligned vstart"
  shows "unat va div 4096 = unat vstart div 4096 \<Longrightarrow> page_aligndown (va - vstart) = 0"
    and "unat va div 4096 \<noteq> unat vstart div 4096 \<Longrightarrow>
      ps + page_aligndown (va - vstart) = ps + PAGE_SZ + page_aligndown (va - (vstart + PAGE_SZ))"
proof -
  assume "unat va div 4096 = unat vstart div 4096"
  then show "page_aligndown (va - vstart) = 0"
    unfolding same_page_diff [OF assms] by (simp add: word32_eq_iff unat_page_aligndown)
next
  let ?d = "va - vstart"
  assume "unat va div 4096 \<noteq> unat vstart div 4096"
  then have ge: "4096 \<le> unat ?d" unfolding same_page_diff [OF assms] by simp
  then have "unat (?d - 4096) = unat ?d - 4096" using unat_sub32 [of ?d 4096] by simp
  moreover have "(unat ?d - 4096) div 4096 * 4096 = unat ?d div 4096 * 4096 - 4096"
    using ge by (simp add: div_if [of "unat ?d"])
  moreover have "4096 \<le> unat ?d div 4096 * 4096" "unat ?d div 4096 * 4096 < 4294967296"
    using div_le_mono [OF ge, of 4096] unat_lt32 [of ?d] by simp_all
  ultimately have "page_aligndown ?d = PAGE_SZ + page_aligndown (?d - 4096)"
    by (simp add: word32_eq_iff unat_page_aligndown unat_add32)
  then show "ps + page_aligndown ?d = ps + PAGE_SZ + page_aligndown (va - (vstart + PAGE_SZ))"
    unfolding diff_page by (simp add: add.assoc)
qed

lemma page_aligned_next: "page_aligned v \<Longrightarrow> page_aligned (v + PAGE_SZ)"
  using mod_mod_cancel [of 4096 4294967296 "unat v + 4096"]
  by (simp add: page_aligned_def unat_add32)

lemma vrange_step_ge:
  assumes "vstart \<noteq> vend" "(vend - vstart) mod PAGE_SZ = 0"
  shows "4096 \<le> unat (vend - vstart)"
proof -
  have "vend - vstart \<noteq> 0" using assms(1) by simp
  then have "0 < unat (vend - vstart)" using unat_gt_0 [of "vend - vstart"] by blast
  moreover have "unat (vend - vstart) mod 4096 = 0"
    using assms(2) by (simp add: word32_eq_iff unat_mod)
  ultimately show ?thesis by (auto simp: mod_eq_0_iff_dvd dvd_imp_le)
qed

lemma vrange_step_mod:
  assumes "(vend - vstart) mod PAGE_SZ = 0" "4096 \<le> unat (vend - vstart)"
  shows "(vend - (vstart + PAGE_SZ)) mod PAGE_SZ = 0"
proof -
  have "unat (vend - vstart) mod 4096 = 0" using assms(1) by (simp add: word32_eq_iff unat_mod)
  then have "unat (vend - vstart - 4096) mod 4096 = 0"
    using assms(2) unat_sub32 [of "vend - vstart" 4096] by (simp add: le_mod_geq)
  then show ?thesis unfolding diff_page by (simp add: word32_eq_iff unat_mod)
qed

definition map_result ::
  "machine \<Rightarrow> u32 list \<Rightarrow> u32 \<Rightarrow> u32 \<Rightarrow> u32 \<Rightarrow> u32 \<Rightarrow> u32 \<Rightarrow> (bool \<times> machine) res \<Rightarrow> bool" where
  "map_result s fs pgdir pm vstart vend ps r \<longleftrightarrow>
     (case r of
        Inl e \<Rightarrow> e = Panic ''map_pages: remap'' \<and>
          (\<exists>va. in_vrange vstart vend va \<and> pte_at (ram s) pgdir va \<noteq> None)
      | Inr (ok, t) \<Rightarrow>
          (\<exists>fs'. suffix fs' fs \<and> wf_pgdir t fs' pgdir \<and> confined s fs pgdir t fs' \<and>
             sym_end t = sym_end s \<and> (ok \<or> fs' = [])) \<and>
          (\<forall>va. if in_vrange vstart vend va
             then ok \<longrightarrow> pte_at (ram s) pgdir va = None \<and>
                    pte_at (ram t) pgdir va = Some ((ps + page_aligndown (va - vstart)) OR PTE_P OR pm)
             else pte_at (ram t) pgdir va = pte_at (ram s) pgdir va))"

lemma or_present: "((a :: u32) OR 1 OR b) AND 1 \<noteq> 0"
proof
  assume "(a OR 1 OR b) AND 1 = 0"
  then have "\<not> bit ((a OR 1 OR b) AND 1) 0" by simp
  then show False by (simp add: bit_simps)
qed

lemma map_result_step:
  assumes "page_aligned vstart" "4096 \<le> unat (vend - vstart)" "suffix fs' fs \<and> confined s fs pgdir t fs'"
    and "sym_end t = sym_end s" "pte_at (ram s) pgdir vstart = None"
    and page: "\<And>va. pte_at (ram t) pgdir va =
      (if unat va div 4096 = unat vstart div 4096 then Some (ps OR PTE_P OR pm)
       else pte_at (ram s) pgdir va)"
    and IH: "map_result t fs' pgdir pm (vstart + PAGE_SZ) vend (ps + PAGE_SZ) r"
  shows "map_result s fs pgdir pm vstart vend ps r"
proof -
  note rng = in_vrange_step [OF assms(1,2)] and al = aligndown_step [OF assms(1)]
  have none: "pte_at (ram s) pgdir va = None" if "unat va div 4096 = unat vstart div 4096" for va
    using assms(5) same_page_pte_at [OF that] by simp
  show ?thesis
  proof (cases r)
    case (Inl e)
    with IH obtain va where va: "e = Panic ''map_pages: remap''"
      "in_vrange (vstart + PAGE_SZ) vend va" "pte_at (ram t) pgdir va \<noteq> None"
      by (auto simp: map_result_def)
    then have "pte_at (ram s) pgdir va \<noteq> None" using page [of va] rng(2) [of va] by auto
    with va rng(1) [of va] Inl show ?thesis by (auto simp: map_result_def)
  next
    case (Inr q)
    obtain ok u where q: "q = (ok, u)" by (cases q)
    from IH obtain fs'' where fs'': "suffix fs'' fs'" "wf_pgdir u fs'' pgdir"
      "sym_end u = sym_end t" "ok \<or> fs'' = []" "confined t fs' pgdir u fs''"
      by (auto simp: map_result_def Inr q)
    have IH': "if in_vrange (vstart + PAGE_SZ) vend va
       then ok \<longrightarrow> pte_at (ram t) pgdir va = None \<and> pte_at (ram u) pgdir va =
         Some ((ps + PAGE_SZ + page_aligndown (va - (vstart + PAGE_SZ))) OR PTE_P OR pm)
       else pte_at (ram u) pgdir va = pte_at (ram t) pgdir va" for va
      using IH by (auto simp: map_result_def Inr q)
    have "if in_vrange vstart vend va
       then ok \<longrightarrow> pte_at (ram s) pgdir va = None \<and>
         pte_at (ram u) pgdir va = Some ((ps + page_aligndown (va - vstart)) OR PTE_P OR pm)
       else pte_at (ram u) pgdir va = pte_at (ram s) pgdir va" for va
      using IH' [of va] rng [of va] page [of va] none [of va] al(1) [of va] al(2) [of va ps]
      by (cases "unat va div 4096 = unat vstart div 4096") (auto simp: add.assoc)
    moreover have "suffix fs'' fs" using fs''(1) assms(3) suffix_order.trans by blast
    moreover have "confined s fs pgdir u fs''" using confined_trans assms(3) fs''(5) by blast
    ultimately show ?thesis
      using fs''(2-4) assms(4) unfolding map_result_def Inr q by auto
  qed
qed

lemma map_loop_spec:
  assumes "wf_pgdir s fs pgdir" "page_aligned vstart" "(vend - vstart) mod PAGE_SZ = 0"
  shows "map_result s fs pgdir pm vstart vend ps (map_loop pgdir pm vstart vend ps s)"
  using assms
proof (induction pgdir pm vstart vend ps s arbitrary: fs rule: map_loop.induct)
  case (1 pgdir pm vstart vend ps s)
  show ?case
  proof (cases "vstart = vend")
    case True
    then show ?thesis
      using "1.prems" by (subst map_loop.simps) (auto simp: map_result_def in_vrange_def)
  next
    case False
    note ge = vrange_step_ge [OF False "1.prems"(3)]
    note rng = in_vrange_step [OF "1.prems"(2) ge] and al = aligndown_step [OF "1.prems"(2)]
    obtain pte t where w: "walk pgdir vstart s = (pte, t)" by (cases "walk pgdir vstart s")
    have unfold: "map_loop pgdir pm vstart vend ps s =
        (if pte = 0 then Inr (False, t)
         else if load32 (ram t) pte AND PTE_P \<noteq> 0 then Inl (Panic ''map_pages: remap'')
         else map_loop pgdir pm (vstart + PAGE_SZ) vend (ps + PAGE_SZ)
               (t\<lparr>ram := store32 (ram t) pte (ps OR PTE_P OR pm)\<rparr>))"
      using False "1.prems"(3) w by (subst map_loop.simps) simp
    show ?thesis
    proof (cases "pte = 0")
      case True
      then show ?thesis
        using walk_spec [OF "1.prems"(1) w] "1.prems"(1) unfolding unfold
        by (auto simp: map_result_def)
    next
      case nz: False
      then obtain fs' where fs': "suffix fs' fs" "wf_pgdir t fs' pgdir" "confined s fs pgdir t fs'"
        and tab: "has_table (ram t) pgdir (page_directory_idx vstart)"
        and pte: "pte = table_of (ram t) pgdir (page_directory_idx vstart) + 4 * page_table_idx vstart"
        and at: "pte_at (ram t) pgdir = pte_at (ram s) pgdir" and "sym_end t = sym_end s"
        using walk_spec [OF "1.prems"(1) w] by auto
      have here: "pte_at (ram s) pgdir vstart =
          (if load32 (ram t) pte AND PTE_P \<noteq> 0 then Some (load32 (ram t) pte) else None)"
        unfolding at [symmetric] by (simp add: pte_at_def tab pte Let_def)
      show ?thesis
      proof (cases "load32 (ram t) pte AND PTE_P \<noteq> 0")
        case True
        then show ?thesis
          using here rng(1) [of vstart] nz unfolding unfold
          by (auto simp: map_result_def)
      next
        case fresh: False
        let ?t = "t\<lparr>ram := store32 (ram t) pte (ps OR PTE_P OR pm)\<rparr>"
        note page = store_pte_at [OF fs'(2) tab, of "ram ?t" "ps OR PTE_P OR pm"]
        have "wf_pgdir ?t fs' pgdir"
          unfolding pte by (rule store_pte_wf [OF fs'(2) idx_bounds(1) tab idx_bounds(2)])
        then have IH: "map_result ?t fs' pgdir pm (vstart + PAGE_SZ) vend (ps + PAGE_SZ)
            (map_loop pgdir pm (vstart + PAGE_SZ) vend (ps + PAGE_SZ) ?t)"
          using "1.IH" [OF False _ w [symmetric] refl nz] "1.prems"(2,3) fresh
            page_aligned_next vrange_step_mod [OF "1.prems"(3) ge] by auto
        have "pte_at (ram ?t) pgdir va = (if unat va div 4096 = unat vstart div 4096
            then Some (ps OR PTE_P OR pm) else pte_at (ram s) pgdir va)" for va
          using page [of va] or_present [of ps pm] pte at by simp
        moreover have "confined s fs pgdir ?t fs'"
          using store_pte_confined [OF fs'(2) idx_bounds(1) tab idx_bounds(2) refl]
            confined_trans [OF fs'(3)] pte by blast
        ultimately show ?thesis
          using map_result_step [OF "1.prems"(2) ge _ _ _ _ IH] fs'(1) here fresh nz unfolding unfold
          by (simp add: \<open>sym_end t = sym_end s\<close>)
      qed
    qed
  qed
qed

lemma page_aligned_aligndown: "page_aligned (page_aligndown a)"
  by (simp add: page_aligned_def unat_page_aligndown)

lemma aligned_diff_mod:
  assumes "page_aligned a" "page_aligned b"
  shows "(a - b) mod PAGE_SZ = 0"
proof -
  have "(unat a - unat b) mod 4096 = 0" "(unat a + 4294967296 - unat b) mod 4096 = 0"
    using assms dvd_diff_nat [of 4096 "unat a" "unat b"]
      dvd_diff_nat [of 4096 "unat a + 4294967296" "unat b"]
    by (auto simp: page_aligned_def mod_eq_0_iff_dvd)
  then have "unat (a - b) mod 4096 = 0" unfolding unat_sub32 by simp
  then show ?thesis by (simp add: word32_eq_iff unat_mod)
qed

lemma map_pages_spec:
  assumes "wf_pgdir s fs pgdir"
  shows "map_result s fs pgdir (perm k) (page_aligndown (virt k))
    (page_aligndown (virt k + (pend k - pstart k))) (pstart k) (map_pages pgdir k s)"
proof -
  have al: "page_aligndown a mod PAGE_SZ = 0" for a
    by (simp add: word32_eq_iff unat_mod unat_page_aligndown)
  show ?thesis
    using map_loop_spec [OF assms page_aligned_aligndown
        aligned_diff_mod [OF page_aligned_aligndown page_aligned_aligndown]]
    by (simp add: map_pages_def Let_def al)
qed

section \<open>Unmapping user pages\<close>

text \<open>
  \<open>get_pte\<close> does not look at the present bit of the directory entry, so for an address
  without a page table \<open>unmap_pages\<close> works on the words of physical page 0.  They are
  harmless when none of them looks like a mapping of an allocatable page.
\<close>

definition page0_harmless :: "machine \<Rightarrow> bool" where
  "page0_harmless s \<longleftrightarrow>
     KERN_LINK \<le> sym_end s \<and>
     (\<forall>i. unat i < 1024 \<longrightarrow>
        (let w = load32 (ram s) (P2KA 0 + 4 * i) in
           w AND PTE_P = 0 \<or> pte_addr w \<ge> PHYSTOP \<or> P2KA (pte_addr w) < sym_end s))"

definition no_table_at :: "mem \<Rightarrow> u32 \<Rightarrow> u32 \<Rightarrow> bool" where
  "no_table_at m pgdir f \<longleftrightarrow> f \<noteq> pgdir \<and> (\<forall>i. unat i < 1024 \<and> has_table m pgdir i \<longrightarrow> f \<noteq> table_of m pgdir i)"

lemma own_page_iff: "own_page m fs pgdir p \<longleftrightarrow> p \<in> set fs \<or> \<not> no_table_at m pgdir p"
  by (auto simp: own_page_def no_table_at_def)

text \<open>
  An address space owns the allocatable frames its user part maps: they are not free, hold
  no table of the directory and no frame is mapped twice.
\<close>

definition user_frame :: "machine \<Rightarrow> u32 \<Rightarrow> u32 \<Rightarrow> u32 option" where
  "user_frame s pgdir va =
     (case pte_at (ram s) pgdir va of None \<Rightarrow> None
      | Some w \<Rightarrow> if pte_addr w \<ge> PHYSTOP \<or> P2KA (pte_addr w) < sym_end s then None
                 else Some (P2KA (pte_addr w)))"

definition wf_space :: "machine \<Rightarrow> u32 list \<Rightarrow> u32 \<Rightarrow> bool" where
  "wf_space s fs pgdir \<longleftrightarrow>
     wf_pgdir s fs pgdir \<and> page0_harmless s \<and>
     (\<forall>va f. va < KERN_BASE \<and> user_frame s pgdir va = Some f \<longrightarrow>
        f \<notin> set fs \<and> no_table_at (ram s) pgdir f) \<and>
     (\<forall>va vb f. va < KERN_BASE \<and> vb < KERN_BASE \<and> user_frame s pgdir va = Some f \<and>
        user_frame s pgdir vb = Some f \<longrightarrow> unat va div 4096 = unat vb div 4096)"

lemma wf_space_iff:
  "wf_space s fs pgdir \<longleftrightarrow>
     wf_pgdir s fs pgdir \<and> page0_harmless s \<and>
     (\<forall>va f. va < KERN_BASE \<and> user_frame s pgdir va = Some f \<longrightarrow> \<not> own_page (ram s) fs pgdir f) \<and>
     (\<forall>va vb f. va < KERN_BASE \<and> vb < KERN_BASE \<and> user_frame s pgdir va = Some f \<and>
        user_frame s pgdir vb = Some f \<longrightarrow> unat va div 4096 = unat vb div 4096)"
  by (simp add: wf_space_def own_page_iff)

lemma wf_spaceD:
  assumes "wf_space s fs pgdir"
  shows "wf_pgdir s fs pgdir" "page0_harmless s"
    "\<And>va f. va < KERN_BASE \<Longrightarrow> user_frame s pgdir va = Some f \<Longrightarrow> f \<notin> set fs \<and> no_table_at (ram s) pgdir f"
    "\<And>va vb f. va < KERN_BASE \<Longrightarrow> vb < KERN_BASE \<Longrightarrow> user_frame s pgdir va = Some f \<Longrightarrow>
        user_frame s pgdir vb = Some f \<Longrightarrow> unat va div 4096 = unat vb div 4096"
  using assms unfolding wf_space_def by blast+

lemma page_aligned_P2KA: "page_aligned (P2KA (pte_addr w))"
proof -
  have "pte_addr w mod 4096 = 0" by (simp add: word32_eq_iff unat_mod unat_pte_addr)
  have "unat (P2KA (pte_addr w)) mod 4096 = (unat w div 4096 * 4096 + 2147483648) mod 4096"
    using mod_mod_cancel [of 4096 4294967296 "unat w div 4096 * 4096 + 2147483648"]
    by (simp add: P2KA_def unat_add32 unat_pte_addr)
  also have "\<dots> = 0" using mod_mult_self3 [of "unat w div 4096" 4096 2147483648] by simp
  finally show ?thesis by (simp add: page_aligned_def)
qed

lemma page_aligned_mod: "page_aligned p \<longleftrightarrow> p mod PAGE_SZ = 0"
  by (simp add: page_aligned_def word32_eq_iff unat_mod)

lemma user_frame_ok: "user_frame s pgdir va = Some f \<Longrightarrow> page_ok s f"
  using page_aligned_P2KA [unfolded page_aligned_mod]
  by (auto simp: user_frame_def page_ok_def not_le not_less split: option.splits if_splits)

lemma page0_not_ok: "page0_harmless s \<Longrightarrow> page_ok s p \<Longrightarrow> p \<noteq> P2KA 0"
  by (auto simp: page0_harmless_def page_ok_def P2KA_def word32_cmp)

lemma page_aligned_page0: "page_aligned (P2KA 0)"
  by (simp add: page_aligned_def P2KA_def)

text \<open>Writing a page that is neither free nor part of the directory changes no translation.\<close>

lemma load_frame:
  assumes "page_aligned p" "unat i < 1024" "unat p div 4096 \<noteq> unat q div 4096"
    and "\<And>a. unat a div 4096 \<noteq> unat q div 4096 \<Longrightarrow> m a = m' a"
  shows "load32 m (p + 4 * i) = load32 m' (p + 4 * i)"
  using entry_byte_page [OF assms(1,2)] assms(3,4) by (intro load32_cong) metis

lemma frame_elsewhere:
  assumes "wf_pgdir s fs pgdir" "page_aligned q" "no_table_at (ram s) pgdir q"
    and m: "\<And>a. unat a div 4096 \<noteq> unat q div 4096 \<Longrightarrow> m a = ram s a"
  shows "\<And>i. unat i < 1024 \<Longrightarrow> pde_of m pgdir i = pde_of (ram s) pgdir i"
    "pte_at m pgdir = pte_at (ram s) pgdir"
    "q \<notin> set fs \<Longrightarrow> wf_pgdir (s\<lparr>ram := m\<rparr>) fs pgdir"
proof -
  have neq: "unat p div 4096 \<noteq> unat q div 4096" if "page_aligned p" "p \<noteq> q" for p
    using page_aligned_inj [OF that(1) assms(2)] that(2) by blast
  have load: "load32 m (p + 4 * i) = load32 (ram s) (p + 4 * i)"
    if "page_aligned p" "p \<noteq> q" "unat i < 1024" for p i
    using that neq m by (intro load_frame) auto
  have q: "q \<noteq> pgdir" using assms(3) by (simp add: no_table_at_def)
  show pde: "pde_of m pgdir i = pde_of (ram s) pgdir i" if "unat i < 1024" for i
    using load [of pgdir i] wf_pgdirD(3) [OF assms(1)] q that by (simp add: pde_of_def)
  then have tabs: "has_table m pgdir i = has_table (ram s) pgdir i"
    "table_of m pgdir i = table_of (ram s) pgdir i" if "unat i < 1024" for i
    using that by (simp_all add: has_table_def table_of_def)
  have "load32 m (table_of (ram s) pgdir i + 4 * k) = load32 (ram s) (table_of (ram s) pgdir i + 4 * k)"
    if "unat i < 1024" "unat k < 1024" "has_table (ram s) pgdir i" for i k
    using load wf_pgdir_table(2) [OF assms(1) that(1,3)] assms(3) that by (auto simp: no_table_at_def)
  then show "pte_at m pgdir = pte_at (ram s) pgdir"
    by (auto simp: fun_eq_iff pte_at_def tabs idx_bounds)
  show "wf_pgdir (s\<lparr>ram := m\<rparr>) fs pgdir" if nf: "q \<notin> set fs"
  proof -
    have "load32 m p = load32 (ram s) p" if "p \<in> set fs" for p
    proof -
      have "page_aligned p" "p \<noteq> q"
        using wf_pgdirD(1) [OF assms(1)] that nf by (auto simp: free_pages_def intro: page_ok_aligned)
      then show ?thesis using load [of p 0] by simp
    qed
    then have "free_pages (s\<lparr>ram := m\<rparr>) fs"
      using free_pages_cong wf_pgdirD(1) [OF assms(1)] by blast
    then show ?thesis using assms(1) tabs pde by (simp add: wf_pgdir_def cong: conj_cong)
  qed
qed

lemma store_elsewhere:
  assumes "wf_pgdir s fs pgdir" "page_aligned q" "unat j < 1024" "no_table_at (ram s) pgdir q"
    and "m = store32 (ram s) (q + 4 * j) w"
  shows "\<And>i. unat i < 1024 \<Longrightarrow> pde_of m pgdir i = pde_of (ram s) pgdir i"
    "pte_at m pgdir = pte_at (ram s) pgdir"
    "q \<notin> set fs \<Longrightarrow> wf_pgdir (s\<lparr>ram := m\<rparr>) fs pgdir"
  using frame_elsewhere [OF assms(1,2,4), of m] store_entry_frame [OF assms(2,3)] assms(5) by auto

lemma page0_harmless_store:
  assumes "page0_harmless s" "page_aligned q" "unat j < 1024" "w = 0 \<or> q \<noteq> P2KA 0"
  shows "page0_harmless (s\<lparr>ram := store32 (ram s) (q + 4 * j) w\<rparr>)"
  using assms load_store_entry [OF assms(2) page_aligned_page0 assms(3)]
  by (auto simp: page0_harmless_def Let_def)

lemma page0_harmless_freelist [simp]: "page0_harmless (s\<lparr>freelist := f\<rparr>) = page0_harmless s"
  by (simp add: page0_harmless_def)

lemma wf_space_remove:
  assumes "wf_space s fs pgdir" "wf_pgdir t fs' pgdir" "page0_harmless t" "va < KERN_BASE"
    and "\<And>i. unat i < 1024 \<Longrightarrow> pde_of (ram t) pgdir i = pde_of (ram s) pgdir i"
    and "\<And>vb. user_frame t pgdir vb =
      (if unat vb div 4096 = unat va div 4096 then None else user_frame s pgdir vb)"
    and "set fs' \<subseteq> set fs \<union> set_option (user_frame s pgdir va)"
  shows "wf_space t fs' pgdir"
proof -
  have nt: "no_table_at (ram t) pgdir = no_table_at (ram s) pgdir"
    using assms(5) by (auto simp: fun_eq_iff no_table_at_def has_table_def table_of_def)
  have "f \<notin> set fs' \<and> no_table_at (ram t) pgdir f"
    if "vb < KERN_BASE" "user_frame t pgdir vb = Some f" for vb f
  proof -
    have f: "user_frame s pgdir vb = Some f" "unat vb div 4096 \<noteq> unat va div 4096"
      using that(2) assms(6) [of vb] by (auto split: if_splits)
    then have "user_frame s pgdir va \<noteq> Some f"
      using wf_spaceD(4) [OF assms(1) that(1) assms(4) f(1)] by auto
    then show ?thesis
      using wf_spaceD(3) [OF assms(1) that(1) f(1)] assms(7) nt
      by (cases "user_frame s pgdir va") auto
  qed
  moreover have "unat vb div 4096 = unat vc div 4096"
    if "vb < KERN_BASE" "vc < KERN_BASE" "user_frame t pgdir vb = Some f" "user_frame t pgdir vc = Some f"
    for vb vc f
    using wf_spaceD(4) [OF assms(1) that(1,2)] that(3,4) assms(6) by (auto split: if_splits)
  ultimately show ?thesis using assms(2,3) unfolding wf_space_def by blast
qed

lemma entry_nonzero:
  assumes "page_aligned q" "unat q \<noteq> 0" "unat j < 1024"
  shows "q + 4 * j \<noteq> 0"
  using unat_entry [OF assms(1,3)] assms(2) by auto

lemma user_frame_cong:
  "pte_at (ram t) pgdir vb = pte_at (ram s) pgdir vb \<Longrightarrow> sym_end t = sym_end s \<Longrightarrow>
     user_frame t pgdir vb = user_frame s pgdir vb"
  by (simp add: user_frame_def split: option.split)

lemma user_frame_None: "pte_at (ram t) pgdir vb = None \<Longrightarrow> user_frame t pgdir vb = None"
  by (simp add: user_frame_def)

definition unmapped_page :: "machine \<Rightarrow> machine \<Rightarrow> u32 \<Rightarrow> u32 \<Rightarrow> bool" where
  "unmapped_page s t pgdir va \<longleftrightarrow>
     sym_end t = sym_end s \<and>
     (\<forall>i. unat i < 1024 \<longrightarrow> pde_of (ram t) pgdir i = pde_of (ram s) pgdir i) \<and>
     (\<forall>vb. pte_at (ram t) pgdir vb =
        (if unat vb div 4096 = unat va div 4096 then None else pte_at (ram s) pgdir vb))"

lemma unmapped_page_frame:
  "unmapped_page s t pgdir va \<Longrightarrow>
     user_frame t pgdir vb = (if unat vb div 4096 = unat va div 4096 then None else user_frame s pgdir vb)"
  by (auto simp: unmapped_page_def intro: user_frame_None user_frame_cong)

lemma unmap_page_no_table:
  assumes "wf_space s fs pgdir" "\<not> has_table (ram s) pgdir (page_directory_idx va)"
  shows "\<exists>t. unmap_page pgdir va free s = Inr t \<and> unmapped_page s t pgdir va \<and>
    wf_pgdir t fs pgdir \<and> page0_harmless t \<and> user_frame s pgdir va = None"
proof -
  note wf = wf_spaceD [OF assms(1)]
  let ?j = "page_table_idx va" and ?slot = "P2KA 0 + 4 * page_table_idx va"
  let ?t = "s\<lparr>ram := store32 (ram s) ?slot 0\<rparr>"
  have slot: "get_pte (ram s) pgdir va = ?slot"
    using wf_pgdir_absent [OF wf(1) idx_bounds(1) assms(2)] by (simp add: get_pte_table(3) table_of_def pte_addr_def)
  have "no_table_at (ram s) pgdir (P2KA 0)" "P2KA 0 \<notin> set fs"
    using page0_not_ok [OF wf(2)] wf_pgdirD [OF wf(1)] wf_pgdir_table(1) [OF wf(1)]
    unfolding no_table_at_def free_pages_def by metis+
  note st = store_elsewhere [OF wf(1) page_aligned_page0 idx_bounds(2) this(1) refl] this(2)
  have none: "pte_at (ram s) pgdir vb = None" if "unat vb div 4096 = unat va div 4096" for vb
    using assms(2) same_page_pte_at [OF that] by (simp add: pte_at_def)
  have "?slot \<noteq> 0" using entry_nonzero [OF page_aligned_page0 _ idx_bounds(2), of va] by (simp add: P2KA_def)
  moreover have "let w = load32 (ram s) ?slot in
      w AND PTE_P = 0 \<or> pte_addr w \<ge> PHYSTOP \<or> P2KA (pte_addr w) < sym_end s"
    using wf(2) idx_bounds(2) unfolding page0_harmless_def by blast
  ultimately have "unmap_page pgdir va free s = Inr ?t"
    unfolding unmap_page_def slot by (auto simp: Let_def)
  moreover have "unmapped_page s ?t pgdir va"
    using st(1,2) none by (auto simp: unmapped_page_def)
  moreover have "page0_harmless ?t"
    using page0_harmless_store [OF wf(2) page_aligned_page0 idx_bounds(2)] by simp
  ultimately show ?thesis
    using st(3,4) user_frame_None [OF none [of va]] by auto
qed

lemma unmap_page_table:
  assumes "wf_space s fs pgdir" "has_table (ram s) pgdir (page_directory_idx va)" "va < KERN_BASE"
  shows "\<exists>t. unmap_page pgdir va True s = Inr t \<and> unmapped_page s t pgdir va \<and>
    wf_pgdir t (case user_frame s pgdir va of None \<Rightarrow> fs | Some f \<Rightarrow> f # fs) pgdir \<and> page0_harmless t"
proof -
  note wf = wf_spaceD [OF assms(1)]
  let ?i = "page_directory_idx va" and ?j = "page_table_idx va"
  let ?tab = "table_of (ram s) pgdir ?i"
  let ?w = "load32 (ram s) (?tab + 4 * ?j)"
  note tab = wf_pgdir_table [OF wf(1) idx_bounds(1) assms(2)]
  have nz: "?tab + 4 * ?j \<noteq> 0"
    using entry_nonzero [OF tab(2) _ idx_bounds(2)] unat_page_ok [OF tab(1)] by auto
  have clear: "unmapped_page s t pgdir va \<and> wf_pgdir t gs pgdir \<and> page0_harmless t"
    if u: "wf_pgdir u gs pgdir" "page0_harmless u" "sym_end u = sym_end s"
      "\<And>i. unat i < 1024 \<Longrightarrow> pde_of (ram u) pgdir i = pde_of (ram s) pgdir i"
      "pte_at (ram u) pgdir = pte_at (ram s) pgdir"
      and t: "t = u\<lparr>ram := store32 (ram u) (?tab + 4 * ?j) 0\<rparr>" for u t gs
  proof -
    have tabs: "has_table (ram u) pgdir ?i" "table_of (ram u) pgdir ?i = ?tab"
      using assms(2) u(4) [OF idx_bounds(1), of va] by (auto simp: has_table_def table_of_def)
    have "unmapped_page s t pgdir va"
      using store_pte_at [OF u(1) tabs(1)] store_pte_tables [OF u(1) idx_bounds(1) tabs(1) idx_bounds(2) refl]
        load_store_entry [OF tab(2) wf_pgdirD(3) [OF u(1)] idx_bounds(2)] tab(4) u(3-5) tabs(2)
      by (auto simp: unmapped_page_def t pde_of_def)
    moreover have "wf_pgdir t gs pgdir"
      using store_pte_wf [OF u(1) idx_bounds(1) tabs(1) idx_bounds(2)] by (simp add: t tabs(2))
    moreover have "page0_harmless t"
      using page0_harmless_store [OF u(2) tab(2) idx_bounds(2)] by (simp add: t)
    ultimately show ?thesis by blast
  qed
  show ?thesis
  proof (cases "user_frame s pgdir va")
    case None
    then have "unmap_page pgdir va True s = Inr (s\<lparr>ram := store32 (ram s) (?tab + 4 * ?j) 0\<rparr>)"
      using assms(2) nz
      by (auto simp: unmap_page_def get_pte_table(3) user_frame_def pte_at_def Let_def split: if_splits)
    then show ?thesis using clear [OF wf(1,2) refl refl refl refl] None by auto
  next
    case (Some f)
    let ?u = "s\<lparr>ram := store32 (ram s) f (freelist s), freelist := f\<rparr>"
    have f: "page_ok s f" "f \<notin> set fs" "no_table_at (ram s) pgdir f"
      using user_frame_ok [OF Some] wf(3) [OF assms(3) Some] by auto
    have "unmap_page pgdir va True s = Inr (?u\<lparr>ram := store32 (ram ?u) (?tab + 4 * ?j) 0\<rparr>)"
      using assms(2) nz Some f(1)
      by (auto simp: unmap_page_def get_pte_table(3) user_frame_def pte_at_def Let_def pfree_ok
          split: if_splits)
    moreover note st = store_elsewhere [OF wf(1) page_ok_aligned [OF f(1)] _ f(3), of 0 "ram ?u" "freelist s"]
    have "wf_pgdir ?u (f # fs) pgdir"
    proof -
      have "free_pages ?u (f # fs)"
        using pfree_free_pages [OF wf_pgdirD(1) [OF wf(1)] f(1,2)] .
      moreover have "pde_of (ram ?u) pgdir i = pde_of (ram s) pgdir i"
        "has_table (ram ?u) pgdir i = has_table (ram s) pgdir i"
        "table_of (ram ?u) pgdir i = table_of (ram s) pgdir i" if "unat i < 1024" for i
        using st(1) [OF _ _ that] by (simp_all add: has_table_def table_of_def)
      ultimately show ?thesis
        using f(3) wf(1) by (simp add: wf_pgdir_def no_table_at_def cong: conj_cong) blast
    qed
    moreover have "page0_harmless ?u"
      using page0_harmless_store [OF wf(2) page_ok_aligned [OF f(1)], of 0 "freelist s"]
        page0_not_ok [OF wf(2) f(1)] by simp
    ultimately show ?thesis using clear [of ?u "f # fs"] st(1,2) Some by auto
  qed
qed

lemma unmap_page_spec:
  assumes "wf_space s fs pgdir" "va < KERN_BASE"
  shows "\<exists>t. unmap_page pgdir va True s = Inr t \<and> unmapped_page s t pgdir va \<and>
    wf_space t (case user_frame s pgdir va of None \<Rightarrow> fs | Some f \<Rightarrow> f # fs) pgdir"
proof -
  obtain t where t: "unmap_page pgdir va True s = Inr t" "unmapped_page s t pgdir va"
    "wf_pgdir t (case user_frame s pgdir va of None \<Rightarrow> fs | Some f \<Rightarrow> f # fs) pgdir" "page0_harmless t"
    using unmap_page_no_table [OF assms(1)] unmap_page_table [OF assms(1) _ assms(2)]
    by (cases "has_table (ram s) pgdir (page_directory_idx va)") fastforce+
  then have "wf_space t (case user_frame s pgdir va of None \<Rightarrow> fs | Some f \<Rightarrow> f # fs) pgdir"
    using unmapped_page_frame [OF t(2)]
    by (intro wf_space_remove [OF assms(1) t(3,4) assms(2)])
      (auto simp: unmapped_page_def split: option.splits)
  with t show ?thesis by blast
qed

text \<open>What is left of an address space after the pages of \<open>[a, vend)\<close> were taken out of it.\<close>

definition unmapped_range ::
  "machine \<Rightarrow> u32 list \<Rightarrow> u32 \<Rightarrow> u32 \<Rightarrow> u32 \<Rightarrow> machine \<Rightarrow> u32 list \<Rightarrow> bool" where
  "unmapped_range s fs pgdir a vend t fs' \<longleftrightarrow>
     wf_space t fs' pgdir \<and> sym_end t = sym_end s \<and>
     set fs' = set fs \<union> {f. \<exists>va. a \<le> va \<and> va < vend \<and> user_frame s pgdir va = Some f} \<and>
     (\<forall>i. unat i < 1024 \<longrightarrow> pde_of (ram t) pgdir i = pde_of (ram s) pgdir i) \<and>
     (\<forall>va. pte_at (ram t) pgdir va = (if a \<le> va \<and> va < vend then None else pte_at (ram s) pgdir va))"

lemma urange_step:
  assumes "page_aligned a" "page_aligned vend" "a < vend"
  shows "unat (a + PAGE_SZ) = unat a + 4096" "a + PAGE_SZ \<le> vend"
    "a \<le> va \<and> va < vend \<longleftrightarrow>
       unat va div 4096 = unat a div 4096 \<or> (a + PAGE_SZ \<le> va \<and> va < vend)"
    "unat va div 4096 = unat a div 4096 \<Longrightarrow> \<not> (a + PAGE_SZ \<le> va \<and> va < vend)"
proof -
  obtain k l where kl: "unat a = 4096 * k" "unat vend = 4096 * l" "l < 1048576"
    using assms(1,2) by (metis page_aligned_ex)
  then have "k < l" using assms(3) by (simp add: word32_less_iff)
  then have le: "unat a + 4096 \<le> unat vend" using kl by simp
  then show u: "unat (a + PAGE_SZ) = unat a + 4096"
    using unat_lt32 [of vend] by (simp add: unat_add32)
  show "a + PAGE_SZ \<le> vend" using u le by (simp add: word32_le_iff)
  show "a \<le> va \<and> va < vend \<longleftrightarrow>
       unat va div 4096 = unat a div 4096 \<or> (a + PAGE_SZ \<le> va \<and> va < vend)"
    "unat va div 4096 = unat a div 4096 \<Longrightarrow> \<not> (a + PAGE_SZ \<le> va \<and> va < vend)"
    unfolding page_iff [OF assms(1), symmetric] word32_cmp u using le by auto
qed

lemma unmap_loop_spec:
  assumes "wf_space s fs pgdir" "page_aligned a" "page_aligned vend" "a \<le> vend" "vend \<le> KERN_BASE"
  shows "\<exists>t fs'. unmap_loop pgdir a vend True s = Inr t \<and> unmapped_range s fs pgdir a vend t fs'"
  using assms
proof (induction pgdir a vend "True" s arbitrary: fs rule: unmap_loop.induct)
  case (1 pgdir a vend s)
  show ?case
  proof (cases "a < vend")
    case False
    then have "unmap_loop pgdir a vend True s = Inr s" by (subst unmap_loop.simps) simp
    moreover have "unmapped_range s fs pgdir a vend s fs"
      using "1.prems"(1) False by (auto simp: unmapped_range_def)
    ultimately show ?thesis by blast
  next
    case True
    note stp = urange_step [OF "1.prems"(2,3) True]
    have lt: "a < KERN_BASE" using True "1.prems"(5) by simp
    obtain t where t: "unmap_page pgdir a True s = Inr t" "unmapped_page s t pgdir a"
      "wf_space t (case user_frame s pgdir a of None \<Rightarrow> fs | Some f \<Rightarrow> f # fs) pgdir"
      using unmap_page_spec [OF "1.prems"(1) lt] by blast
    have nw: "\<not> a + PAGE_SZ < a" using stp(1) by (simp add: word32_less_iff)
    obtain u fs' where u: "unmap_loop pgdir (a + PAGE_SZ) vend True t = Inr u"
      "unmapped_range t (case user_frame s pgdir a of None \<Rightarrow> fs | Some f \<Rightarrow> f # fs) pgdir
         (a + PAGE_SZ) vend u fs'"
      using "1.hyps" [OF True t(1) nw t(3)] page_aligned_next [OF "1.prems"(2)] "1.prems"(3,5) stp(2)
      by blast
    have "unmap_loop pgdir a vend True s = Inr u"
      using True t(1) nw u(1) by (subst unmap_loop.simps) simp
    moreover have "unmapped_range s fs pgdir a vend u fs'"
    proof -
      have fr: "user_frame t pgdir va = (if unat va div 4096 = unat a div 4096 then None
          else user_frame s pgdir va)" for va
        by (rule unmapped_page_frame [OF t(2)])
      have same: "user_frame s pgdir va = user_frame s pgdir a" if "unat va div 4096 = unat a div 4096" for va
        using same_page_pte_at [OF that] by (simp add: user_frame_def)
      have "(\<exists>va. a \<le> va \<and> va < vend \<and> user_frame s pgdir va = Some f) \<longleftrightarrow>
          user_frame s pgdir a = Some f \<or>
          (\<exists>va. a + PAGE_SZ \<le> va \<and> va < vend \<and> user_frame t pgdir va = Some f)" for f
        using stp(3,4) fr same by (metis option.distinct(1))
      then show ?thesis
        using u(2) t(2) stp(3,4)
        by (auto simp: unmapped_range_def unmapped_page_def split: option.splits if_splits)
    qed
    ultimately show ?thesis by blast
  qed
qed

section \<open>Properties\<close>

lemma wf_pgdir_zero:
  assumes "free_pages s fs" "page_ok s pgdir" "pgdir \<notin> set fs"
    and "\<And>i. unat i < 1024 \<Longrightarrow> pde_of (ram s) pgdir i = 0"
  shows "wf_pgdir s fs pgdir" "pte_at (ram s) pgdir va = None"
  using assms idx_bounds by (auto simp: wf_pgdir_def has_table_def pte_at_def)

text \<open>C5: \<open>map_pages\<close> on a well-formed directory installs exactly the requested mapping.
  When it returns true, every address of the range (rounded to pages, counted around the top
  of the address space) was unmapped before and now translates to the matching page of
  \<open>[pstart, pend)\<close> with the requested permissions, every other address translates as before,
  and only the directory, its tables and formerly free pages were written.  It returns false
  only when the free list is used up, and the one panic it can raise is \<open>remap\<close>, when the
  range contains a mapped page.\<close>

theorem map_pages_translates:
  assumes "wf_pgdir s fs pgdir"
  shows "map_result s fs pgdir (perm k) (page_aligndown (virt k))
    (page_aligndown (virt k + (pend k - pstart k))) (pstart k) (map_pages pgdir k s)"
  by (rule map_pages_spec [OF assms])

theorem map_pages_translates_witness:
  "\<exists>s k. wf_pgdir s [0x80300000] 0x80200000 \<and> virt k = 0x1234 \<and>
     map_result s [0x80300000] 0x80200000 7 0x1000 0x3000 0x400000 (map_pages 0x80200000 k s)"
proof -
  let ?s = "machine0\<lparr>freelist := 0x80300000\<rparr>"
  let ?k = "\<lparr>virt = 0x1234, pstart = 0x400000, pend = 0x402000, perm = 7\<rparr>"
  have z: "load32 (ram ?s) a = 0" for a by (simp add: machine0_def load32_def)
  have "free_pages ?s [0x80300000]" "page_ok ?s 0x80200000"
    using z by (simp_all add: free_pages_def page_ok_def KA2P_def machine0_def)
  then have wf: "wf_pgdir ?s [0x80300000] 0x80200000"
    using z by (intro wf_pgdir_zero) (simp_all add: pde_of_def)
  have "map_result ?s [0x80300000] 0x80200000 7 0x1000 0x3000 0x400000 (map_pages 0x80200000 ?k ?s)"
    using map_pages_translates [OF wf, of ?k] by (simp add: page_aligndown_def)
  with wf show ?thesis by (intro exI [of _ ?s] exI [of _ ?k]) simp
qed

end
