(* ===== verification/Vmem.thy ===== *)
theory Vmem
  imports Pgtbl
begin

text \<open>
  kernel/memory/vmem.c: kernel and user address spaces.  A page directory is named by the
  kernel address of its page.  \<open>kmap\<close>, set up once by \<open>init_kmap\<close>, depends only on the
  linker symbol \<open>data\<close>; functions that write through an output parameter return its new
  value.  Sizes and the \<open>int\<close> results of \<open>uvm_allocate\<close> and \<open>uvm_deallocate\<close> stay 32-bit
  words.  The loops over \<open>[p, end)\<close> in steps of a page would wrap around for ends in the last
  page of the address space; that branch is the fault \<open>Hang\<close>.
\<close>

section \<open>Kernel memory\<close>

definition init_kmap :: "machine \<Rightarrow> vmap list" where
  "init_kmap s =
     [\<lparr>virt = KERN_BASE, pstart = 0, pend = EXTMEM, perm = PTE_W\<rparr>,
      \<lparr>virt = KERN_LINK, pstart = KA2P KERN_LINK, pend = KA2P (sym_data s), perm = 0\<rparr>,
      \<lparr>virt = sym_data s, pstart = KA2P (sym_data s), pend = PHYSTOP, perm = PTE_W\<rparr>,
      \<lparr>virt = DEV_SPACE, pstart = DEV_SPACE, pend = 0, perm = PTE_W\<rparr>]"

definition uva2ka :: "mem \<Rightarrow> u32 \<Rightarrow> u32 \<Rightarrow> u32" where
  "uva2ka m pgdir vaddr =
     (let pte = load32 m (get_pte m pgdir vaddr) in
      if pte AND PTE_P = 0 then 0
      else if pte AND PTE_U = 0 then 0
      else P2KA (pte_addr pte))"

definition uvm_deallocate :: "u32 \<Rightarrow> u32 \<Rightarrow> u32 \<Rightarrow> machine \<Rightarrow> (u32 \<times> machine) res" where
  "uvm_deallocate pgdir oldsz newsz s =
     (if oldsz < newsz then Inr (oldsz, s)
      else
        let newsz_a = page_alignup newsz;
            oldsz_a = page_alignup oldsz
        in rbind
            (if newsz_a < oldsz_a
             then unmap_pages pgdir newsz_a ((oldsz_a - newsz_a) div PAGE_SZ) True s
             else Inr s)
            (\<lambda>s. Inr (newsz, s)))"

fun free_tables :: "u32 \<Rightarrow> nat \<Rightarrow> nat \<Rightarrow> machine \<Rightarrow> machine res" where
  "free_tables pgdir i 0 s = Inr s"
| "free_tables pgdir i (Suc n) s =
     (let pde = load32 (ram s) (pgdir + 4 * of_nat i) in
      rbind (if pde AND PDE_P \<noteq> 0 then pfree (P2KA (pte_addr pde)) s else Inr s)
        (\<lambda>s. free_tables pgdir (Suc i) n s))"

definition vmfree :: "u32 \<Rightarrow> machine \<Rightarrow> machine res" where
  "vmfree pgdir s =
     (if pgdir = 0 then Inl (Panic ''vmfree'')
      else
        rbind (uvm_deallocate pgdir KERN_BASE 0 s) (\<lambda>(_, s).
        rbind (free_tables pgdir 0 NPDES s) (\<lambda>s.
        pfree pgdir s)))"

fun kvm_map :: "u32 \<Rightarrow> vmap list \<Rightarrow> machine \<Rightarrow> (bool \<times> machine) res" where
  "kvm_map pgdir [] s = Inr (True, s)"
| "kvm_map pgdir (k # ks) s =
     rbind (map_pages pgdir k s) (\<lambda>(ok, s).
       if ok then kvm_map pgdir ks s
       else rbind (vmfree pgdir s) (\<lambda>s. Inr (False, s)))"

definition kvm_allocate :: "vmap list \<Rightarrow> machine \<Rightarrow> (bool \<times> u32 \<times> machine) res" where
  "kvm_allocate kmap s =
     (if P2KA PHYSTOP > DEV_SPACE then Inl (Panic ''PHYSTOP is too high'')
      else
        let (pgdir, s) = palloc s in
        if pgdir = 0 then Inr (False, pgdir, s)
        else
          rbind (kvm_map pgdir kmap (s\<lparr>ram := memset (ram s) pgdir 0 PAGE_SZ\<rparr>)) (\<lambda>(ok, s).
          Inr (ok, pgdir, s)))"

record kvm =
  kernel_pgdir :: u32
  cr3 :: u32
  kvm_machine :: machine

definition kvm_switch :: "kvm \<Rightarrow> kvm" where
  "kvm_switch v = v\<lparr>cr3 := KA2P (kernel_pgdir v)\<rparr>"

definition kvm_init :: "kvm \<Rightarrow> kvm res" where
  "kvm_init v =
     rbind (kvm_allocate (init_kmap (kvm_machine v)) (kvm_machine v)) (\<lambda>(ok, pgdir, s).
       if \<not> ok then Inl (Panic ''kvm_init'')
       else Inr (kvm_switch (v\<lparr>kernel_pgdir := pgdir, kvm_machine := s\<rparr>)))"

section \<open>User memory\<close>

definition uvm_init1 :: "u32 \<Rightarrow> u32 \<Rightarrow> u32 \<Rightarrow> machine \<Rightarrow> machine res" where
  "uvm_init1 pgdir init sz s =
     (if sz > PAGE_SZ then Inl (Panic ''uvm_init: more than a page'')
      else
        let (mem, s) = palloc s in
        if mem = 0 then Inl (Panic ''uvm_init: not enough memory'')
        else
          let mmap = \<lparr>virt = 0, pstart = KA2P mem, pend = KA2P (mem + PAGE_SZ), perm = PTE_W OR PTE_U\<rparr>
          in rbind (map_pages pgdir mmap (s\<lparr>ram := memset (ram s) mem 0 PAGE_SZ\<rparr>)) (\<lambda>(_, s).
             Inr (s\<lparr>ram := memmove (ram s) mem init sz\<rparr>)))"

text \<open>\<open>inode_read\<close> (fs/inode.c) of the program's inode is the argument \<open>rd\<close>: destination,
  offset and size to the number of bytes read; \<open>'f\<close> is the state of the file system.\<close>

function uvm_load_loop ::
  "(u32 \<Rightarrow> u32 \<Rightarrow> u32 \<Rightarrow> machine \<Rightarrow> 'f \<Rightarrow> (int \<times> machine \<times> 'f) res) \<Rightarrow>
     u32 \<Rightarrow> u32 \<Rightarrow> u32 \<Rightarrow> u32 \<Rightarrow> u32 \<Rightarrow> machine \<Rightarrow> 'f \<Rightarrow> (int \<times> machine \<times> 'f) res" where
  "uvm_load_loop rd pgdir addr offset sz i s x =
     (if i < sz
      then
        let pte = get_pte (ram s) pgdir (addr + i) in
        if pte = 0 then Inl (Panic ''uvm_load: invalid address'')
        else
          let pa = pte_addr (load32 (ram s) pte);
              n = min PAGE_SZ (sz - i)
          in rbind (rd (P2KA pa) (offset + i) n s x) (\<lambda>(r, s, x).
             if r \<noteq> sint n then Inr (- 1, s, x)
             else if i + PAGE_SZ < i then Inl Hang
             else uvm_load_loop rd pgdir addr offset sz (i + PAGE_SZ) s x)
      else Inr (0, s, x))"
  by pat_completeness auto

lemma page_step_measure:
  "i < sz \<Longrightarrow> \<not> i + PAGE_SZ < i \<Longrightarrow> unat sz - unat (i + PAGE_SZ) < unat sz - unat (i :: u32)"
proof -
  assume "i < sz" "\<not> i + PAGE_SZ < i"
  moreover have "i + PAGE_SZ \<noteq> i" by simp
  ultimately show ?thesis unfolding word32_cmp by linarith
qed

termination uvm_load_loop
  by (relation "measure (\<lambda>(rd, pgdir, addr, offset, sz, i, s, x). unat sz - unat i)")
    (simp_all add: page_step_measure)

definition uvm_load ::
  "(u32 \<Rightarrow> u32 \<Rightarrow> u32 \<Rightarrow> machine \<Rightarrow> 'f \<Rightarrow> (int \<times> machine \<times> 'f) res) \<Rightarrow>
     u32 \<Rightarrow> u32 \<Rightarrow> u32 \<Rightarrow> u32 \<Rightarrow> machine \<Rightarrow> 'f \<Rightarrow> (int \<times> machine \<times> 'f) res" where
  "uvm_load rd pgdir addr offset sz s x =
     (if addr mod PAGE_SZ \<noteq> 0 then Inl (Panic ''uvm_load: address is not aligned'')
      else uvm_load_loop rd pgdir addr offset sz 0 s x)"

function uvm_allocate_loop :: "u32 \<Rightarrow> u32 \<Rightarrow> u32 \<Rightarrow> u32 \<Rightarrow> machine \<Rightarrow> (u32 \<times> machine) res" where
  "uvm_allocate_loop pgdir oldsz newsz p s =
     (if p < newsz
      then
        let (mem, s) = palloc s in
        if mem = 0
        then rbind (uvm_deallocate pgdir newsz oldsz s) (\<lambda>(_, s). Inr (0, s))
        else
          let mmap = \<lparr>virt = p, pstart = KA2P mem, pend = KA2P (mem + PAGE_SZ), perm = PTE_W OR PTE_U\<rparr>
          in rbind (map_pages pgdir mmap (s\<lparr>ram := memset (ram s) mem 0 PAGE_SZ\<rparr>)) (\<lambda>(ok, s).
             if \<not> ok
             then rbind (uvm_deallocate pgdir newsz oldsz s) (\<lambda>(_, s).
                  rbind (pfree mem s) (\<lambda>s. Inr (0, s)))
             else if p + PAGE_SZ < p then Inl Hang
             else uvm_allocate_loop pgdir oldsz newsz (p + PAGE_SZ) s)
      else Inr (newsz, s))"
  by pat_completeness auto
termination
  by (relation "measure (\<lambda>(pgdir, oldsz, newsz, p, s). unat newsz - unat p)")
    (simp_all add: page_step_measure)

definition uvm_allocate :: "u32 \<Rightarrow> u32 \<Rightarrow> u32 \<Rightarrow> machine \<Rightarrow> (u32 \<times> machine) res" where
  "uvm_allocate pgdir oldsz newsz s =
     (if newsz > KERN_BASE then Inr (0, s)
      else if newsz < oldsz then Inr (oldsz, s)
      else uvm_allocate_loop pgdir oldsz newsz (page_alignup oldsz) s)"

function uvm_copy_loop :: "u32 \<Rightarrow> u32 \<Rightarrow> u32 \<Rightarrow> u32 \<Rightarrow> machine \<Rightarrow> (bool \<times> machine) res" where
  "uvm_copy_loop new_pgdir inp npg i s =
     (if i < npg
      then
        let pte = get_pte (ram s) inp i in
        if pte = 0 then Inl (Panic ''uvm_copy: trying to copy non existed pte'')
        else if load32 (ram s) pte AND PTE_P = 0 then Inl (Panic ''uvm_copy: page not present'')
        else
          let pa = pte_addr (load32 (ram s) pte);
              flags = pte_flags (load32 (ram s) pte);
              (mem, s) = palloc s
          in
            if mem = 0 then rbind (vmfree new_pgdir s) (\<lambda>s. Inr (False, s))
            else
              let s = s\<lparr>ram := memmove (ram s) mem (P2KA pa) PAGE_SZ\<rparr>;
                  mmap = \<lparr>virt = i, pstart = KA2P mem, pend = KA2P (mem + PAGE_SZ), perm = flags\<rparr>
              in rbind (map_pages new_pgdir mmap s) (\<lambda>(ok, s).
                 if \<not> ok then rbind (vmfree new_pgdir s) (\<lambda>s. Inr (False, s))
                 else if i + PAGE_SZ < i then Inl Hang
                 else uvm_copy_loop new_pgdir inp npg (i + PAGE_SZ) s)
      else Inr (True, s))"
  by pat_completeness auto
termination
  by (relation "measure (\<lambda>(new_pgdir, inp, npg, i, s). unat npg - unat i)")
    (simp_all add: page_step_measure)

text \<open>The result is the value \<open>*out\<close> gets, or None when the function returns false.\<close>

definition uvm_copy :: "vmap list \<Rightarrow> u32 \<Rightarrow> u32 \<Rightarrow> machine \<Rightarrow> (u32 option \<times> machine) res" where
  "uvm_copy kmap inp npg s =
     rbind (kvm_allocate kmap s) (\<lambda>(ok, new_pgdir, s).
       if \<not> ok then Inr (None, s)
       else rbind (uvm_copy_loop new_pgdir inp npg 0 s) (\<lambda>(ok, s).
            Inr (if ok then Some new_pgdir else None, s)))"

function uvm_memcpy :: "u32 \<Rightarrow> u32 \<Rightarrow> u32 \<Rightarrow> u32 \<Rightarrow> mem \<Rightarrow> int \<times> mem" where
  "uvm_memcpy pgdir vaddr p sz m =
     (if sz > 0
      then
        let va0 = page_aligndown vaddr;
            ka0 = uva2ka m pgdir va0
        in
          if ka0 = 0 then (- 1, m)
          else
            let n = min (PAGE_SZ - (vaddr - va0)) sz
            in uvm_memcpy pgdir (va0 + PAGE_SZ) (p + n) (sz - n) (memmove m (ka0 + (vaddr - va0)) p n)
      else (0, m))"
  by pat_completeness auto

lemma page_offset_diff: "unat (vaddr - page_aligndown vaddr) = unat vaddr mod 4096"
  using minus_div_mult_eq_mod [of "unat vaddr" 4096]
  by (simp add: unat_sub32 unat_page_aligndown)

lemma memcpy_chunk:
  assumes "sz > 0"
  shows "unat (min (PAGE_SZ - (vaddr - page_aligndown vaddr)) sz) =
      min (4096 - unat vaddr mod 4096) (unat sz)"
proof -
  have "unat (PAGE_SZ - (vaddr - page_aligndown vaddr)) = 4096 - unat vaddr mod 4096"
    by (simp add: unat_sub32 [of "0x1000"] page_offset_diff less_imp_le)
  then show ?thesis by (simp add: min_def word32_le_iff)
qed

termination uvm_memcpy
proof (relation "measure (\<lambda>(pgdir, vaddr, p, sz, m). unat sz)", goal_cases)
  case (2 pgdir vaddr p sz m va0 ka0 n)
  then have "unat n = min (4096 - unat vaddr mod 4096) (unat sz)"
    using memcpy_chunk [of sz vaddr] by simp
  moreover have "0 < unat sz" using 2(1) by (simp add: word32_less_iff)
  moreover have "unat vaddr mod 4096 < 4096" by simp
  ultimately have "unat n \<le> unat sz" "0 < unat n" by linarith+
  then show ?case using \<open>0 < unat sz\<close> by (simp add: unat_sub32)
qed simp

lemmas vmem_loops = uvm_load_loop.simps uvm_allocate_loop.simps uvm_copy_loop.simps uvm_memcpy.simps

declare vmem_loops [simp del]

section \<open>Shrinking and freeing\<close>

lemma alignup_KERN_BASE:
  assumes "sz \<le> KERN_BASE"
  shows "page_aligned (page_alignup sz)" "page_alignup sz \<le> KERN_BASE" "sz \<le> page_alignup sz"
    "unat (page_alignup sz) = (unat sz + 4095) div 4096 * 4096"
proof -
  have le: "unat sz \<le> 2147483648" using assms by (simp add: word32_le_iff)
  then show u: "unat (page_alignup sz) = (unat sz + 4095) div 4096 * 4096"
    by (simp add: unat_page_alignup)
  have "(unat sz + 4095) div 4096 \<le> 524288" using le by linarith
  then show "page_alignup sz \<le> KERN_BASE" by (simp add: word32_le_iff u)
  show "page_aligned (page_alignup sz)" by (simp add: page_aligned_def u)
  show "sz \<le> page_alignup sz" unfolding word32_le_iff u by linarith
qed

lemma page_count:
  assumes "page_aligned a" "page_aligned b" "a \<le> b"
  shows "a + (b - a) div PAGE_SZ * PAGE_SZ = b"
proof -
  have "(b - a) div PAGE_SZ * PAGE_SZ = b - a"
    using aligned_diff_mod [OF assms(2,1)] div_mult_mod_eq [of "b - a" "PAGE_SZ"] by simp
  then show ?thesis by simp
qed

lemma uvm_deallocate_spec:
  assumes "wf_space s fs pgdir" "newsz \<le> oldsz" "oldsz \<le> KERN_BASE"
  shows "\<exists>t fs'. uvm_deallocate pgdir oldsz newsz s = Inr (newsz, t) \<and>
    unmapped_range s fs pgdir (page_alignup newsz) (page_alignup oldsz) t fs'"
proof -
  have new: "newsz \<le> KERN_BASE" using assms(2,3) by simp
  note o = alignup_KERN_BASE [OF assms(3)] and n = alignup_KERN_BASE [OF new]
  have le: "page_alignup newsz \<le> page_alignup oldsz"
    using assms(2) unfolding word32_le_iff o(4) n(4) by (intro mult_right_mono div_le_mono) auto
  obtain t fs' where t: "unmap_loop pgdir (page_alignup newsz) (page_alignup oldsz) True s = Inr t"
    "unmapped_range s fs pgdir (page_alignup newsz) (page_alignup oldsz) t fs'"
    using unmap_loop_spec [OF assms(1) n(1) o(1) le o(2)] by blast
  have "page_alignup newsz < page_alignup oldsz \<or> t = s"
    using t(1) le by (subst (asm) unmap_loop.simps) (auto split: if_splits)
  then have "uvm_deallocate pgdir oldsz newsz s = Inr (newsz, t)"
    using assms(2) t(1) n(1) page_count [OF n(1) o(1) le] le
    by (auto simp: uvm_deallocate_def unmap_pages_def Let_def page_aligned_mod not_less)
  with t show ?thesis by blast
qed

lemma of_nat_idx: "i < 1024 \<Longrightarrow> unat (of_nat i :: u32) = i"
  by (simp add: unat_of_nat32)

text \<open>The tables of the slots from \<open>i\<close> on are still allocated.\<close>

definition tables_from :: "machine \<Rightarrow> u32 list \<Rightarrow> u32 \<Rightarrow> nat \<Rightarrow> bool" where
  "tables_from s gs pgdir i \<longleftrightarrow>
     free_pages s gs \<and> page_ok s pgdir \<and> pgdir \<notin> set gs \<and>
     (\<forall>j. i \<le> unat j \<and> unat j < 1024 \<and> has_table (ram s) pgdir j \<longrightarrow>
        page_ok s (table_of (ram s) pgdir j) \<and> table_of (ram s) pgdir j \<notin> set gs \<and>
        table_of (ram s) pgdir j \<noteq> pgdir) \<and>
     (\<forall>j k. i \<le> unat j \<and> unat j < 1024 \<and> i \<le> unat k \<and> unat k < 1024 \<and> j \<noteq> k \<and>
        has_table (ram s) pgdir j \<and> has_table (ram s) pgdir k \<longrightarrow>
        table_of (ram s) pgdir j \<noteq> table_of (ram s) pgdir k)"

lemma tables_from_wf: "wf_pgdir s gs pgdir \<Longrightarrow> tables_from s gs pgdir 0"
  by (auto simp: wf_pgdir_def tables_from_def)

lemma free_table_step:
  assumes "tables_from s gs pgdir i" "i < 1024" "has_table (ram s) pgdir (of_nat i)"
    and p: "p = table_of (ram s) pgdir (of_nat i)"
  shows "\<exists>t. pfree p s = Inr t \<and> tables_from t (p # gs) pgdir (Suc i) \<and>
    (\<forall>j. unat j < 1024 \<longrightarrow> pde_of (ram t) pgdir j = pde_of (ram s) pgdir j)"
proof -
  have ok: "page_ok s p" "p \<notin> set gs" "p \<noteq> pgdir"
    using assms of_nat_idx [OF assms(2)] by (auto simp: tables_from_def)
  have dir: "free_pages s gs" "page_ok s pgdir" "pgdir \<notin> set gs"
    using assms(1) by (auto simp: tables_from_def)
  let ?t = "s\<lparr>ram := store32 (ram s) p (freelist s), freelist := p\<rparr>"
  have pde: "pde_of (ram ?t) pgdir j = pde_of (ram s) pgdir j" if "unat j < 1024" for j
    using load_store_entry [OF page_ok_aligned [OF ok(1)] page_ok_aligned [OF dir(2)], of 0 j "ram s"]
      ok(3) that by (simp add: pde_of_def)
  then have tabs: "has_table (ram ?t) pgdir j = has_table (ram s) pgdir j"
    "table_of (ram ?t) pgdir j = table_of (ram s) pgdir j" if "unat j < 1024" for j
    using that by (simp_all add: has_table_def table_of_def)
  have "table_of (ram s) pgdir j \<noteq> p" if "Suc i \<le> unat j" "unat j < 1024" "has_table (ram s) pgdir j" for j
  proof -
    have "j \<noteq> of_nat i" using that(1) of_nat_idx [OF assms(2)] by auto
    then show ?thesis using assms that of_nat_idx [OF assms(2)] by (auto simp: tables_from_def)
  qed
  moreover have "free_pages ?t (p # gs)" by (rule pfree_free_pages [OF dir(1) ok(1,2)])
  ultimately have "tables_from ?t (p # gs) pgdir (Suc i)"
    using assms(1) ok(3) tabs unfolding tables_from_def
    by (auto simp: tabs page_ok_def)
  then show ?thesis using pfree_ok [OF ok(1)] pde by auto
qed

lemma free_tables_spec:
  assumes "tables_from s gs pgdir i" "i + n = 1024"
  shows "\<exists>t gs'. free_tables pgdir i n s = Inr t \<and> tables_from t gs' pgdir 1024 \<and>
    set gs' = set gs \<union> {table_of (ram s) pgdir j |j. i \<le> unat j \<and> unat j < 1024 \<and> has_table (ram s) pgdir j}"
  using assms
proof (induction n arbitrary: i s gs)
  case 0
  then show ?case by auto
next
  case (Suc n)
  have i: "i < 1024" "Suc i + n = 1024" using Suc.prems(2) by auto
  have idx: "i \<le> unat j \<longleftrightarrow> j = of_nat i \<or> Suc i \<le> unat j" for j :: u32
    using of_nat_idx [OF i(1)] by (auto simp: word32_eq_iff)
  show ?case
  proof (cases "has_table (ram s) pgdir (of_nat i)")
    case False
    have "tables_from s gs pgdir (Suc i)" using Suc.prems(1) by (simp add: tables_from_def)
    moreover have "{table_of (ram s) pgdir j |j. i \<le> unat j \<and> unat j < 1024 \<and> has_table (ram s) pgdir j} =
        {table_of (ram s) pgdir j |j. Suc i \<le> unat j \<and> unat j < 1024 \<and> has_table (ram s) pgdir j}"
    proof -
      have "i \<le> unat j \<and> unat j < 1024 \<and> has_table (ram s) pgdir j \<longleftrightarrow>
          Suc i \<le> unat j \<and> unat j < 1024 \<and> has_table (ram s) pgdir j" for j
        using False idx [of j] by auto
      then show ?thesis by simp
    qed
    moreover have "free_tables pgdir i (Suc n) s = free_tables pgdir (Suc i) n s"
      using False by (simp add: has_table_def pde_of_def Let_def)
    ultimately show ?thesis using Suc.IH [of s gs "Suc i"] i(2) by simp
  next
    case True
    let ?p = "table_of (ram s) pgdir (of_nat i)"
    obtain u where u: "pfree ?p s = Inr u" "tables_from u (?p # gs) pgdir (Suc i)"
      "\<And>j. unat j < 1024 \<Longrightarrow> pde_of (ram u) pgdir j = pde_of (ram s) pgdir j"
      using free_table_step [OF Suc.prems(1) i(1) True refl] by blast
    obtain t gs' where t: "free_tables pgdir (Suc i) n u = Inr t" "tables_from t gs' pgdir 1024"
      "set gs' = set (?p # gs) \<union>
         {table_of (ram u) pgdir j |j. Suc i \<le> unat j \<and> unat j < 1024 \<and> has_table (ram u) pgdir j}"
      using Suc.IH [OF u(2) i(2)] by blast
    have "{table_of (ram u) pgdir j |j. Suc i \<le> unat j \<and> unat j < 1024 \<and> has_table (ram u) pgdir j} =
        {table_of (ram s) pgdir j |j. Suc i \<le> unat j \<and> unat j < 1024 \<and> has_table (ram s) pgdir j}"
      using u(3) by (auto simp: has_table_def table_of_def cong: conj_cong) metis+
    moreover have "free_tables pgdir i (Suc n) s = Inr t"
      using True u(1) t(1) by (simp add: Let_def has_table_def pde_of_def table_of_def)
    moreover have "{table_of (ram s) pgdir j |j. i \<le> unat j \<and> unat j < 1024 \<and> has_table (ram s) pgdir j} =
        insert ?p {table_of (ram s) pgdir j |j. Suc i \<le> unat j \<and> unat j < 1024 \<and> has_table (ram s) pgdir j}"
    proof -
      have "i \<le> unat j \<and> unat j < 1024 \<and> has_table (ram s) pgdir j \<longleftrightarrow>
          j = of_nat i \<or> Suc i \<le> unat j \<and> unat j < 1024 \<and> has_table (ram s) pgdir j" for j
        using True idx [of j] of_nat_idx [OF i(1)] i(1) by auto
      then show ?thesis by auto
    qed
    ultimately show ?thesis using t(2,3) by auto
  qed
qed

text \<open>The frames an address space maps below \<open>KERN_BASE\<close>, and all pages it lives on.\<close>

definition user_frames :: "machine \<Rightarrow> u32 \<Rightarrow> u32 set" where
  "user_frames s pgdir = {f. \<exists>va < KERN_BASE. user_frame s pgdir va = Some f}"

lemma vmfree_spec:
  assumes "wf_space s fs pgdir"
  shows "\<exists>t fs'. vmfree pgdir s = Inr t \<and> free_pages t fs' \<and>
    set fs' = {p. own_page (ram s) fs pgdir p} \<union> user_frames s pgdir"
proof -
  have up: "page_alignup 0 = 0" "page_alignup KERN_BASE = KERN_BASE" by (simp_all add: page_alignup_def)
  obtain u gs where u: "uvm_deallocate pgdir KERN_BASE 0 s = Inr (0, u)"
    "unmapped_range s fs pgdir 0 KERN_BASE u gs"
    using uvm_deallocate_spec [OF assms, of 0 "0x80000000"] up by auto
  then have wfu: "wf_pgdir u gs pgdir" and gs: "set gs = set fs \<union> user_frames s pgdir"
    and pde: "\<And>i. unat i < 1024 \<Longrightarrow> pde_of (ram u) pgdir i = pde_of (ram s) pgdir i"
    using wf_spaceD(1) by (auto simp: unmapped_range_def user_frames_def)
  obtain v hs where v: "free_tables pgdir 0 1024 u = Inr v" "tables_from v hs pgdir 1024"
    "set hs = set gs \<union> {table_of (ram u) pgdir j |j. 0 \<le> unat j \<and> unat j < 1024 \<and> has_table (ram u) pgdir j}"
    using free_tables_spec [OF tables_from_wf [OF wfu], of 1024] by auto
  have tabs: "{table_of (ram u) pgdir j |j. 0 \<le> unat j \<and> unat j < 1024 \<and> has_table (ram u) pgdir j} =
      {table_of (ram s) pgdir j |j. unat j < 1024 \<and> has_table (ram s) pgdir j}"
    using pde by (auto simp: has_table_def table_of_def cong: conj_cong) metis+
  have dir: "free_pages v hs" "page_ok v pgdir" "pgdir \<notin> set hs"
    using v(2) by (auto simp: tables_from_def)
  obtain t where t: "pfree pgdir v = Inr t" "free_pages t (pgdir # hs)"
    using pa.free_push [OF dir] by blast
  have "pgdir \<noteq> 0" using page_ok_nonzero [OF wf_pgdirD(2) [OF wfu]] .
  then have "vmfree pgdir s = Inr t" using u(1) v(1) t(1) by (simp add: vmfree_def)
  moreover have "set (pgdir # hs) = {p. own_page (ram s) fs pgdir p} \<union> user_frames s pgdir"
    using v(3) gs tabs by (auto simp: own_page_def)
  ultimately show ?thesis using t(2) by blast
qed

section \<open>Growing\<close>

definition zero_page :: "mem \<Rightarrow> u32 \<Rightarrow> bool" where
  "zero_page m f \<longleftrightarrow> (\<forall>a. unat a div 4096 = unat f div 4096 \<longrightarrow> m a = 0)"

lemma user_frame_ext:
  "pte_at (ram t) pgdir = pte_at (ram s) pgdir \<Longrightarrow> sym_end t = sym_end s \<Longrightarrow>
     user_frame t pgdir = user_frame s pgdir"
  by (rule ext) (rule user_frame_cong, simp_all)

lemma page0_harmless_frame:
  assumes "page0_harmless s" "sym_end t = sym_end s"
    and "\<And>a. unat a div 4096 = unat (P2KA 0) div 4096 \<Longrightarrow> ram t a = ram s a"
  shows "page0_harmless t"
proof -
  have "load32 (ram t) (P2KA 0 + 4 * i) = load32 (ram s) (P2KA 0 + 4 * i)" if "unat i < 1024" for i
    using entry_byte_page [OF page_aligned_page0 that] assms(3) by (intro load32_cong) metis
  then show ?thesis using assms(1,2) by (auto simp: page0_harmless_def)
qed

lemma page0_not_own: "wf_pgdir s fs pgdir \<Longrightarrow> page0_harmless s \<Longrightarrow> own_page (ram s) fs pgdir p \<Longrightarrow>
    page_ok s p \<and> unat p div 4096 \<noteq> unat (P2KA 0) div 4096"
proof -
  assume a: "wf_pgdir s fs pgdir" "page0_harmless s" "own_page (ram s) fs pgdir p"
  then have ok: "page_ok s p"
    using wf_pgdirD [OF a(1)] wf_pgdir_table(1) [OF a(1)] by (auto simp: own_page_def free_pages_def)
  then show ?thesis
    using page0_not_ok [OF a(2) ok] page_aligned_inj [OF page_ok_aligned [OF ok] page_aligned_page0] by auto
qed

lemma confined_page0:
  assumes "wf_space s fs pgdir" "confined s fs pgdir t fs'" "sym_end t = sym_end s"
  shows "page0_harmless t"
proof (rule page0_harmless_frame [OF wf_spaceD(2) [OF assms(1)] assms(3)])
  fix a :: u32
  assume "unat a div 4096 = unat (P2KA 0) div 4096"
  then show "ram t a = ram s a"
    using assms(2) page0_not_own [OF wf_spaceD(1,2) [OF assms(1)]] by (auto simp: confined_def)
qed

text \<open>Taking a page off the free list and clearing it.\<close>

definition take_page :: "machine \<Rightarrow> u32 \<Rightarrow> machine" where
  "take_page s mem = s\<lparr>freelist := load32 (ram s) mem, ram := memset (ram s) mem 0 PAGE_SZ\<rparr>"

lemma take_page_wf:
  assumes "wf_space s (mem # fs) pgdir"
  shows "wf_space (take_page s mem) fs pgdir"
    "\<not> own_page (ram (take_page s mem)) fs pgdir mem"
    "mem \<notin> user_frames s pgdir" "page_ok s mem"
    "pte_at (ram (take_page s mem)) pgdir = pte_at (ram s) pgdir"
    "zero_page (ram (take_page s mem)) mem"
    "confined s (mem # fs) pgdir (take_page s mem) fs"
proof -
  note wf = wf_spaceD [OF assms] and dir = wf_pgdirD [OF wf_spaceD(1) [OF assms]]
  let ?u = "s\<lparr>freelist := load32 (ram s) mem\<rparr>" and ?m = "memset (ram s) mem 0 PAGE_SZ"
  show ok: "page_ok s mem" using dir(1) by (simp add: free_pages_def)
  have nt: "no_table_at (ram s) pgdir mem" and nf: "mem \<notin> set fs"
    using wf(1) dir by (auto simp: wf_pgdir_def no_table_at_def free_pages_def)
  have "free_pages ?u fs" using palloc_free_pages_Cons [OF dir(1)] by simp
  then have wfu: "wf_pgdir ?u fs pgdir" using wf(1) by (auto simp: wf_pgdir_def)
  have off: "?m a = ram s a" if "unat a div 4096 \<noteq> unat mem div 4096" for a
    using that memset_page_apply [OF page_ok_aligned [OF ok]] by simp
  have fr: "unat i < 1024 \<Longrightarrow> pde_of ?m pgdir i = pde_of (ram s) pgdir i"
    "pte_at ?m pgdir = pte_at (ram s) pgdir" "wf_pgdir (?u\<lparr>ram := ?m\<rparr>) fs pgdir" for i
    using frame_elsewhere [OF wfu page_ok_aligned [OF ok], of ?m] nt off nf by simp_all
  show at: "pte_at (ram (take_page s mem)) pgdir = pte_at (ram s) pgdir"
    using fr(2) by (simp add: take_page_def)
  have uf: "user_frame (take_page s mem) pgdir = user_frame s pgdir"
    using at by (intro user_frame_ext) (simp_all add: take_page_def)
  have wft: "wf_pgdir (take_page s mem) fs pgdir" using fr(3) by (simp add: take_page_def)
  have tabs: "has_table ?m pgdir i = has_table (ram s) pgdir i"
    "table_of ?m pgdir i = table_of (ram s) pgdir i" if "unat i < 1024" for i
    using fr(1) [OF that] by (simp_all add: has_table_def table_of_def)
  have own: "own_page (ram (take_page s mem)) fs pgdir = own_page (ram s) fs pgdir"
    by (auto simp: fun_eq_iff own_page_def take_page_def tabs)
  then show "\<not> own_page (ram (take_page s mem)) fs pgdir mem" using nt nf by (simp add: own_page_iff)
  show "mem \<notin> user_frames s pgdir" using wf(3) by (auto simp: user_frames_def)
  show conf: "confined s (mem # fs) pgdir (take_page s mem) fs"
    using off own by (auto simp: confined_def own_page_def take_page_def)
  have "page0_harmless (take_page s mem)"
    by (rule confined_page0 [OF assms conf]) (simp add: take_page_def)
  then show "wf_space (take_page s mem) fs pgdir"
    using wf(3,4) wft own unfolding wf_space_iff uf by (simp add: own_page_iff) blast
  show "zero_page (ram (take_page s mem)) mem"
    using memset_page_apply [OF page_ok_aligned [OF ok]] by (simp add: zero_page_def take_page_def)
qed

lemma one_page_range:
  assumes "page_aligned p"
  shows "page_aligndown p = p" "page_aligndown (p + (KA2P (mem + PAGE_SZ) - KA2P mem)) = p + PAGE_SZ"
    "in_vrange p (p + PAGE_SZ) va \<longleftrightarrow> unat va div 4096 = unat p div 4096"
proof -
  have id: "page_aligndown q = q" if "page_aligned q" for q
    using that by (auto simp: page_aligned_def word32_eq_iff unat_page_aligndown)
  then show "page_aligndown p = p" using assms by blast
  have "KA2P (mem + PAGE_SZ) - KA2P mem = PAGE_SZ" by (simp add: KA2P_def)
  then show "page_aligndown (p + (KA2P (mem + PAGE_SZ) - KA2P mem)) = p + PAGE_SZ"
    using id [OF page_aligned_next [OF assms]] by simp
  show "in_vrange p (p + PAGE_SZ) va \<longleftrightarrow> unat va div 4096 = unat p div 4096"
    by (simp add: in_vrange_def same_page_diff [OF assms])
qed

abbreviation (input) one_page :: "u32 \<Rightarrow> u32 \<Rightarrow> u32 \<Rightarrow> vmap" where
  "one_page p mem pm \<equiv> \<lparr>virt = p, pstart = KA2P mem, pend = KA2P (mem + PAGE_SZ), perm = pm\<rparr>"

lemma map_one_page:
  assumes "wf_pgdir s fs pgdir" "page_aligned p" "pte_at (ram s) pgdir p = None"
  shows "\<exists>ok t fs'. map_pages pgdir (one_page p mem pm) s = Inr (ok, t) \<and>
    suffix fs' fs \<and> wf_pgdir t fs' pgdir \<and> confined s fs pgdir t fs' \<and> sym_end t = sym_end s \<and>
    (if ok then \<forall>va. pte_at (ram t) pgdir va =
         (if unat va div 4096 = unat p div 4096 then Some (KA2P mem OR PTE_P OR pm)
          else pte_at (ram s) pgdir va)
     else t = s \<and> fs' = fs)"
proof -
  note one = one_page_range [OF assms(2)]
  have res: "map_result s fs pgdir pm p (p + PAGE_SZ) (KA2P mem) (map_pages pgdir (one_page p mem pm) s)"
    using map_pages_spec [OF assms(1), of "one_page p mem pm"] one(1) one(2) [of mem] by simp
  have al: "page_aligndown (va - p) = 0" if "unat va div 4096 = unat p div 4096" for va
    by (rule aligndown_step(1) [OF assms(2) that])
  obtain pte u where w: "walk pgdir p s = (pte, u)" by (cases "walk pgdir p s")
  show ?thesis
  proof (cases "map_pages pgdir (one_page p mem pm) s")
    case (Inl e)
    with res obtain va where "unat va div 4096 = unat p div 4096" "pte_at (ram s) pgdir va \<noteq> None"
      by (auto simp: map_result_def one(3))
    then show ?thesis using assms(3) same_page_pte_at by metis
  next
    case (Inr q)
    obtain ok t where q: "q = (ok, t)" by (cases q)
    show ?thesis
    proof (cases ok)
      case True
      obtain fs' where "suffix fs' fs" "wf_pgdir t fs' pgdir" "confined s fs pgdir t fs'"
        "sym_end t = sym_end s"
        using res by (auto simp: map_result_def Inr q)
      moreover have "pte_at (ram t) pgdir va =
         (if unat va div 4096 = unat p div 4096 then Some (KA2P mem OR PTE_P OR pm)
          else pte_at (ram s) pgdir va)" for va
        using res al [of va] True by (auto simp: map_result_def Inr q one(3) split: if_splits)
      ultimately show ?thesis using Inr q True by auto
    next
      case False
      have "p mod PAGE_SZ = 0" "(p + PAGE_SZ) mod PAGE_SZ = 0"
        using assms(2) page_aligned_next [OF assms(2)] by (simp_all add: page_aligned_mod)
      then have eq: "map_pages pgdir (one_page p mem pm) s = map_loop pgdir pm p (p + PAGE_SZ) (KA2P mem) s"
        using one(1) one(2) [of mem] by (simp add: map_pages_def Let_def)
      have ne: "(p = p + PAGE_SZ) = False" "(p + PAGE_SZ - p) mod PAGE_SZ = 0" by simp_all
      have last: "map_loop pgdir pm v v ps x = Inr (True, x)" for v ps x
        by (subst map_loop.simps) simp
      have "map_loop pgdir pm p (p + PAGE_SZ) (KA2P mem) s = (if pte = 0 then Inr (False, u)
          else if load32 (ram u) pte AND PTE_P \<noteq> 0 then Inl (Panic ''map_pages: remap'')
          else Inr (True, u\<lparr>ram := store32 (ram u) pte (KA2P mem OR PTE_P OR pm)\<rparr>))"
        using w ne last by (subst map_loop.simps) simp
      then have "pte = 0" "t = u" using eq Inr q False by (auto split: if_splits)
      then have "t = s" using walk_spec [OF assms(1) w] by auto
      then show ?thesis
        using Inr q False assms(1) by (intro exI [of _ False] exI [of _ s] exI [of _ fs]) simp
    qed
  qed
qed

lemma pte_addr_page:
  assumes "page_ok s mem" "pte_addr pm = 0"
  shows "pte_addr (KA2P mem OR PTE_P OR pm) = KA2P mem"
proof -
  obtain k where k: "unat mem = 4096 * k" using page_ok_aligned [OF assms(1)] by (rule page_aligned_ex)
  have "0x80000000 \<le> unat mem" using unat_page_ok [OF assms(1)] by simp
  then have "unat (KA2P mem) = 4096 * (k - 524288)" by (simp add: KA2P_def unat_sub32 k)
  then have "pte_addr (KA2P mem) = KA2P mem" by (simp add: word32_eq_iff unat_pte_addr)
  moreover have "pte_addr (a OR b) = pte_addr a OR pte_addr b" for a b
    by (simp only: pte_addr_def word_ao_dist)
  moreover have "pte_addr 1 = 0" by (simp add: pte_addr_def)
  ultimately show ?thesis using assms(2) by simp
qed

lemma user_frame_page:
  assumes "page_ok s mem" "pte_addr pm = 0" "sym_end t = sym_end s"
    and "pte_at (ram t) pgdir va = Some (KA2P mem OR PTE_P OR pm)"
  shows "user_frame t pgdir va = Some mem"
proof -
  have "\<not> (KA2P mem \<ge> PHYSTOP \<or> mem < sym_end t)"
    using assms(1,3) by (auto simp: page_ok_def not_le not_less)
  then show ?thesis using assms(4) by (simp add: user_frame_def pte_addr_page [OF assms(1,2)])
qed

lemma map_one_page_wf:
  assumes "wf_space u fs pgdir" "page_aligned p" "p < KERN_BASE" "pte_at (ram u) pgdir p = None"
    and "page_ok u mem" "\<not> own_page (ram u) fs pgdir mem" "mem \<notin> user_frames u pgdir" "pte_addr pm = 0"
  shows "\<exists>ok t fs'. map_pages pgdir (one_page p mem pm) u = Inr (ok, t) \<and>
    suffix fs' fs \<and> wf_space t fs' pgdir \<and> confined u fs pgdir t fs' \<and> sym_end t = sym_end u \<and>
    (if ok then \<forall>va. pte_at (ram t) pgdir va =
         (if unat va div 4096 = unat p div 4096 then Some (KA2P mem OR PTE_P OR pm)
          else pte_at (ram u) pgdir va)
     else t = u \<and> fs' = fs)"
proof -
  obtain ok t fs' where t: "map_pages pgdir (one_page p mem pm) u = Inr (ok, t)"
    "suffix fs' fs" "wf_pgdir t fs' pgdir" "confined u fs pgdir t fs'" "sym_end t = sym_end u"
    and at: "if ok then \<forall>va. pte_at (ram t) pgdir va =
         (if unat va div 4096 = unat p div 4096 then Some (KA2P mem OR PTE_P OR pm)
          else pte_at (ram u) pgdir va)
     else t = u \<and> fs' = fs"
    using map_one_page [OF wf_spaceD(1) [OF assms(1)] assms(2,4)] by blast
  have "wf_space t fs' pgdir"
  proof (cases ok)
    case False
    then show ?thesis using at assms(1) by simp
  next
    case True
    have uf: "user_frame t pgdir va =
        (if unat va div 4096 = unat p div 4096 then Some mem else user_frame u pgdir va)" for va
      using at True user_frame_page [OF assms(5,8) t(5), of pgdir va] user_frame_cong [OF _ t(5), of pgdir va]
      by simp
    have "\<not> own_page (ram t) fs' pgdir f" if "va < KERN_BASE" "user_frame t pgdir va = Some f" for va f
    proof -
      have "\<not> own_page (ram u) fs pgdir f"
        using that uf [of va] assms(6) wf_spaceD(3) [OF assms(1) that(1), of f]
        by (auto simp: own_page_iff split: if_splits)
      then show ?thesis using t(4) by (auto simp: confined_def)
    qed
    moreover have "unat va div 4096 = unat vb div 4096"
      if "va < KERN_BASE" "vb < KERN_BASE" "user_frame t pgdir va = Some f" "user_frame t pgdir vb = Some f"
      for va vb f
    proof -
      have "user_frame u pgdir v = Some f \<Longrightarrow> v < KERN_BASE \<Longrightarrow> f \<noteq> mem" for v
        using assms(7) unfolding user_frames_def by blast
      then show ?thesis
        using that uf [of va] uf [of vb] wf_spaceD(4) [OF assms(1) that(1,2), of f]
        by (cases "unat va div 4096 = unat p div 4096"; cases "unat vb div 4096 = unat p div 4096") simp_all
    qed
    ultimately show ?thesis
      using t(3) confined_page0 [OF assms(1) t(4,5)] unfolding wf_space_iff by blast
  qed
  then show ?thesis using t at by blast
qed

lemma pfree_space:
  assumes "wf_space s fs pgdir" "page_ok s f" "\<not> own_page (ram s) fs pgdir f" "f \<notin> user_frames s pgdir"
  shows "\<exists>t. pfree f s = Inr t \<and> wf_space t (f # fs) pgdir \<and> pte_at (ram t) pgdir = pte_at (ram s) pgdir"
proof -
  note wf = wf_spaceD [OF assms(1)]
  let ?m = "store32 (ram s) f (freelist s)"
  let ?t = "s\<lparr>ram := ?m, freelist := f\<rparr>"
  have f: "f \<notin> set fs" "no_table_at (ram s) pgdir f" using assms(3) by (simp_all add: own_page_iff)
  note st = store_elsewhere [OF wf(1) page_ok_aligned [OF assms(2)] _ f(2), of 0 ?m "freelist s"]
  have pde: "pde_of ?m pgdir i = pde_of (ram s) pgdir i" if "unat i < 1024" for i
    using st(1) that by simp
  have tabs: "has_table ?m pgdir i = has_table (ram s) pgdir i"
    "table_of ?m pgdir i = table_of (ram s) pgdir i" if "unat i < 1024" for i
    using pde [OF that] by (simp_all add: has_table_def table_of_def)
  have "free_pages ?t (f # fs)" by (rule pfree_free_pages [OF wf_pgdirD(1) [OF wf(1)] assms(2) f(1)])
  then have "wf_pgdir ?t (f # fs) pgdir"
    using wf(1) f(2) pde tabs by (simp add: wf_pgdir_def no_table_at_def cong: conj_cong) blast
  moreover have at: "pte_at (ram ?t) pgdir = pte_at (ram s) pgdir" using st(2) by simp
  moreover have "page0_harmless ?t"
    using page0_harmless_store [OF wf(2) page_ok_aligned [OF assms(2)], of 0 "freelist s"]
      page0_not_ok [OF wf(2) assms(2)] by simp
  moreover have "user_frame ?t pgdir = user_frame s pgdir" using at by (intro user_frame_ext) simp_all
  moreover have "own_page (ram ?t) (f # fs) pgdir p \<longleftrightarrow> p = f \<or> own_page (ram s) fs pgdir p" for p
    by (auto simp: own_page_def tabs)
  ultimately have "wf_space ?t (f # fs) pgdir"
    using wf(3,4) assms(4) unfolding wf_space_iff by (auto simp: user_frames_def own_page_iff)
  then show ?thesis using at pfree_ok [OF assms(2)] by auto
qed

lemma confined_page:
  assumes "wf_space s fs pgdir" "confined s fs pgdir t fs'" "page_aligned f" "\<not> own_page (ram s) fs pgdir f"
    and "unat a div 4096 = unat f div 4096"
  shows "ram t a = ram s a"
proof -
  have "unat p div 4096 \<noteq> unat a div 4096" if "own_page (ram s) fs pgdir p" for p
    using page0_not_own [OF wf_spaceD(1,2) [OF assms(1)] that] page_aligned_inj [OF _ assms(3), of p]
      page_ok_aligned assms(4,5) that by auto
  then show ?thesis using assms(2) by (simp add: confined_def)
qed

lemma confined_zero_page:
  assumes "wf_space s fs pgdir" "confined s fs pgdir t fs'" "page_aligned f" "\<not> own_page (ram s) fs pgdir f"
    and "zero_page (ram s) f"
  shows "zero_page (ram t) f"
  using assms(5) confined_page [OF assms(1-4)] by (simp add: zero_page_def)

definition grown :: "machine \<Rightarrow> u32 list \<Rightarrow> u32 \<Rightarrow> u32 \<Rightarrow> u32 \<Rightarrow> machine \<Rightarrow> u32 list \<Rightarrow> bool" where
  "grown s fs pgdir a vend t fs' \<longleftrightarrow>
     suffix fs' fs \<and> wf_space t fs' pgdir \<and> confined s fs pgdir t fs' \<and> sym_end t = sym_end s \<and>
     (\<forall>va. if a \<le> va \<and> va < vend
        then \<exists>f \<in> set fs. pte_at (ram t) pgdir va = Some (KA2P f OR PTE_P OR (PTE_W OR PTE_U)) \<and>
               user_frame t pgdir va = Some f \<and> zero_page (ram t) f
        else pte_at (ram t) pgdir va = pte_at (ram s) pgdir va)"

lemma grown_step:
  assumes "page_aligned p" "page_aligned vend" "p < vend" "vend \<le> KERN_BASE"
    and s: "wf_space s (mem # fs) pgdir"
    and t: "suffix gs fs" "wf_space t gs pgdir" "confined (take_page s mem) fs pgdir t gs" "sym_end t = sym_end s"
      "\<And>va. pte_at (ram t) pgdir va =
         (if unat va div 4096 = unat p div 4096 then Some (KA2P mem OR PTE_P OR (PTE_W OR PTE_U))
          else pte_at (ram s) pgdir va)"
    and w: "grown t gs pgdir (p + PAGE_SZ) vend w hs"
  shows "grown s (mem # fs) pgdir p vend w hs"
proof -
  note tk = take_page_wf [OF s] and stp = urange_step [OF assms(1-3)]
  have al: "page_aligned mem" using tk(4) by (rule page_ok_aligned)
  have W: "suffix hs gs" "wf_space w hs pgdir" "confined t gs pgdir w hs" "sym_end w = sym_end t"
    using w by (auto simp: grown_def)
  have "confined s (mem # fs) pgdir w hs"
    using confined_trans [OF tk(7) confined_trans [OF t(3) W(3)]] .
  moreover have "suffix hs (mem # fs)"
    using suffix_order.trans [OF W(1) t(1)] by (rule suffix_ConsI)
  moreover have "if p \<le> va \<and> va < vend
        then \<exists>f \<in> set (mem # fs). pte_at (ram w) pgdir va = Some (KA2P f OR PTE_P OR (PTE_W OR PTE_U)) \<and>
               user_frame w pgdir va = Some f \<and> zero_page (ram w) f
        else pte_at (ram w) pgdir va = pte_at (ram s) pgdir va" for va
  proof (cases "unat va div 4096 = unat p div 4096")
    case True
    then have at: "pte_at (ram w) pgdir va = Some (KA2P mem OR PTE_P OR (PTE_W OR PTE_U))"
      using w t(5) [of va] stp(4) [OF True] unfolding grown_def by metis
    have "\<not> own_page (ram t) gs pgdir mem" using t(3) tk(2) by (auto simp: confined_def)
    then have "zero_page (ram w) mem"
      using confined_zero_page [OF t(2) W(3) al] confined_zero_page [OF tk(1) t(3) al tk(2,6)] by blast
    moreover have "user_frame w pgdir va = Some mem"
      using user_frame_page [OF tk(4) _ _ at] W(4) t(4) by (simp add: pte_addr_def)
    ultimately show ?thesis using at stp(3) [of va] True by auto
  next
    case False
    have "set gs \<subseteq> set (mem # fs)" using t(1) set_mono_suffix by fastforce
    then show ?thesis using w t(5) [of va] stp(3) [of va] False unfolding grown_def by (auto split: if_splits)
  qed
  moreover have "sym_end w = sym_end s" using W(4) t(4) by simp
  ultimately show ?thesis using W(2) unfolding grown_def by blast
qed

definition rolled_back :: "machine \<Rightarrow> u32 \<Rightarrow> u32 \<Rightarrow> u32 \<Rightarrow> machine \<Rightarrow> bool" where
  "rolled_back s pgdir a vend t \<longleftrightarrow>
     (\<exists>fs'. wf_space t fs' pgdir) \<and>
     (\<forall>va. pte_at (ram t) pgdir va = (if a \<le> va \<and> va < vend then None else pte_at (ram s) pgdir va))"

lemma alignup_less_iff:
  assumes "page_aligned p" "sz \<le> KERN_BASE"
  shows "p < sz \<longleftrightarrow> p < page_alignup sz"
proof (rule page_aligned_ex [OF assms(1)])
  fix k
  assume k: "unat p = 4096 * k"
  let ?q = "(unat sz + 4095) div 4096"
  have "unat sz + 4095 = ?q * 4096 + (unat sz + 4095) mod 4096" "(unat sz + 4095) mod 4096 < 4096"
    by simp_all
  then have "4096 * k < unat sz \<longleftrightarrow> k < ?q" by (intro iffI) linarith+
  then have "4096 * k < unat sz \<longleftrightarrow> 4096 * k < ?q * 4096" by simp
  then show ?thesis unfolding word32_less_iff alignup_KERN_BASE(4) [OF assms(2)] k .
qed

lemma dealloc_rolled_back:
  assumes "wf_space s fs pgdir" "oldsz \<le> newsz" "newsz \<le> KERN_BASE"
  shows "\<exists>t fs'. uvm_deallocate pgdir newsz oldsz s = Inr (oldsz, t) \<and>
    unmapped_range s fs pgdir (page_alignup oldsz) (page_alignup newsz) t fs' \<and>
    rolled_back s pgdir (page_alignup oldsz) (page_alignup newsz) t"
proof -
  obtain t fs' where "uvm_deallocate pgdir newsz oldsz s = Inr (oldsz, t)"
    and t: "unmapped_range s fs pgdir (page_alignup oldsz) (page_alignup newsz) t fs'"
    using uvm_deallocate_spec [OF assms] by blast
  moreover from t have "rolled_back s pgdir (page_alignup oldsz) (page_alignup newsz) t"
    by (auto simp: unmapped_range_def rolled_back_def)
  ultimately show ?thesis by blast
qed

lemma uvm_allocate_fail2:
  assumes "wf_space s (mem # fs) pgdir" "oldsz \<le> newsz" "newsz \<le> KERN_BASE"
  shows "\<exists>v w. uvm_deallocate pgdir newsz oldsz (take_page s mem) = Inr (oldsz, v) \<and>
    pfree mem v = Inr w \<and> rolled_back s pgdir (page_alignup oldsz) (page_alignup newsz) w"
proof -
  note tk = take_page_wf [OF assms(1)]
  let ?u = "take_page s mem"
  obtain v hs where v: "uvm_deallocate pgdir newsz oldsz ?u = Inr (oldsz, v)"
    "unmapped_range ?u fs pgdir (page_alignup oldsz) (page_alignup newsz) v hs"
    using dealloc_rolled_back [OF tk(1) assms(2,3)] by blast
  have se: "sym_end v = sym_end s" using v(2) by (simp add: unmapped_range_def take_page_def)
  have uf: "user_frame ?u pgdir = user_frame s pgdir"
    using tk(5) by (intro user_frame_ext) (simp_all add: take_page_def)
  have up: "page_alignup newsz \<le> KERN_BASE" using alignup_KERN_BASE(2) [OF assms(3)] .
  have nf: "user_frame s pgdir va \<noteq> Some mem" if "va < KERN_BASE" for va
    using tk(3) that by (auto simp: user_frames_def)
  have "user_frame s pgdir va \<noteq> Some mem" if "va < page_alignup newsz" for va
    using nf [of va] that up by simp
  then have "mem \<notin> set hs" "no_table_at (ram v) pgdir mem"
    using v(2) tk(2) uf
    by (auto simp: unmapped_range_def own_page_iff no_table_at_def has_table_def table_of_def)
  then have "\<not> own_page (ram v) hs pgdir mem" by (simp add: own_page_iff)
  moreover have "mem \<notin> user_frames v pgdir"
  proof -
    have "user_frame v pgdir va = user_frame s pgdir va \<or> user_frame v pgdir va = None" for va
    proof (cases "page_alignup oldsz \<le> va \<and> va < page_alignup newsz")
      case True
      then show ?thesis using v(2) by (simp add: unmapped_range_def user_frame_None)
    next
      case False
      then have "pte_at (ram v) pgdir va = pte_at (ram s) pgdir va"
        using v(2) tk(5) by (auto simp: unmapped_range_def)
      then show ?thesis using user_frame_cong [OF _ se] by blast
    qed
    then show ?thesis using nf unfolding user_frames_def by (auto, metis option.distinct(1))
  qed
  moreover have "page_ok v mem" using tk(4) se by (simp add: page_ok_def)
  moreover have "wf_space v hs pgdir" using v(2) by (simp add: unmapped_range_def)
  ultimately obtain w where w: "pfree mem v = Inr w" "wf_space w (mem # hs) pgdir"
    "pte_at (ram w) pgdir = pte_at (ram v) pgdir"
    using pfree_space [of v hs pgdir mem] by blast
  then have "rolled_back s pgdir (page_alignup oldsz) (page_alignup newsz) w"
    using v(2) tk(5) by (auto simp: rolled_back_def unmapped_range_def)
  then show ?thesis using v(1) w(1) by blast
qed

lemma uvm_allocate_loop_spec:
  assumes "wf_space s fs pgdir" "page_aligned p" "oldsz \<le> newsz" "newsz \<le> KERN_BASE"
    and "page_alignup oldsz \<le> p" "\<And>va. p \<le> va \<Longrightarrow> va < page_alignup newsz \<Longrightarrow> pte_at (ram s) pgdir va = None"
  shows "\<exists>r t. uvm_allocate_loop pgdir oldsz newsz p s = Inr (r, t) \<and>
    (r = newsz \<and> (\<exists>fs'. grown s fs pgdir p (page_alignup newsz) t fs') \<or>
     r = 0 \<and> rolled_back s pgdir (page_alignup oldsz) (page_alignup newsz) t)"
  using assms
proof (induction "unat newsz - unat p" arbitrary: p s fs rule: less_induct)
  case less
  note unfold = uvm_allocate_loop.simps [of pgdir oldsz newsz p s]
  show ?case
  proof (cases "p < newsz")
    case False
    then have "grown s fs pgdir p (page_alignup newsz) s fs"
      using alignup_less_iff [OF less.prems(2,4)] less.prems(1) by (auto simp: grown_def)
    then show ?thesis using False by (auto simp: unfold)
  next
    case True
    show ?thesis
    proof (cases fs)
      case Nil
      then have "palloc s = (0, s)"
        using wf_pgdirD(1) [OF wf_spaceD(1) [OF less.prems(1)]] palloc_free_pages_Nil by simp
      then show ?thesis
        using True dealloc_rolled_back [OF less.prems(1,3,4)] by (auto simp: unfold)
    next
      case (Cons mem fs1)
      note wf = less.prems(1) [unfolded Cons]
      note tk = take_page_wf [OF wf]
      let ?u = "take_page s mem" and ?vend = "page_alignup newsz"
      have pa: "palloc s = (mem, s\<lparr>freelist := load32 (ram s) mem\<rparr>)"
        using palloc_free_pages_Cons [OF wf_pgdirD(1) [OF wf_spaceD(1) [OF wf]]] by simp
      have nz: "mem \<noteq> 0" using page_ok_nonzero [OF tk(4)] .
      have lt: "p < ?vend" "p < KERN_BASE"
        using True less.prems(4) alignup_less_iff [OF less.prems(2,4)] by auto
      have "mem \<notin> user_frames ?u pgdir"
        using tk(3) user_frame_ext [OF tk(5)] by (simp add: user_frames_def take_page_def)
      moreover have "page_ok ?u mem" using tk(4) by (simp add: take_page_def page_ok_def)
      ultimately obtain ok t gs where t: "map_pages pgdir (one_page p mem (PTE_W OR PTE_U)) ?u = Inr (ok, t)"
        "suffix gs fs1" "wf_space t gs pgdir" "confined ?u fs1 pgdir t gs" "sym_end t = sym_end ?u"
        and at: "if ok then \<forall>va. pte_at (ram t) pgdir va =
           (if unat va div 4096 = unat p div 4096 then Some (KA2P mem OR PTE_P OR (PTE_W OR PTE_U))
            else pte_at (ram ?u) pgdir va) else t = ?u \<and> gs = fs1"
        using map_one_page_wf [OF tk(1) less.prems(2) lt(2) _ _ tk(2), of "PTE_W OR PTE_U"]
          less.prems(6) [of p] lt(1) tk(5) by (auto simp: pte_addr_def)
      show ?thesis
      proof (cases ok)
        case False
        then show ?thesis
          using uvm_allocate_fail2 [OF wf less.prems(3,4)] True pa nz t(1) at
          by (auto simp: unfold take_page_def)
      next
        case ok: True
        have "page_aligned ?vend" "?vend \<le> KERN_BASE" using alignup_KERN_BASE [OF less.prems(4)] by auto
        note stp = urange_step [OF less.prems(2) this(1) lt(1)] and vend = this
        have nw: "\<not> p + PAGE_SZ < p" using stp(1) by (simp add: word32_less_iff)
        have se: "sym_end t = sym_end s" using t(5) by (simp add: take_page_def)
        have at': "pte_at (ram t) pgdir va =
           (if unat va div 4096 = unat p div 4096 then Some (KA2P mem OR PTE_P OR (PTE_W OR PTE_U))
            else pte_at (ram s) pgdir va)" for va
          using at ok tk(5) by simp
        have "page_alignup oldsz \<le> p + PAGE_SZ"
          using less.prems(5) stp(1) by (simp add: word32_le_iff)
        moreover have "pte_at (ram t) pgdir va = None" if "p + PAGE_SZ \<le> va" "va < ?vend" for va
          using that stp(3,4) [of va] at' [of va] less.prems(6) [of va] by auto
        ultimately obtain r w where w: "uvm_allocate_loop pgdir oldsz newsz (p + PAGE_SZ) t = Inr (r, w)"
          "r = newsz \<and> (\<exists>fs'. grown t gs pgdir (p + PAGE_SZ) ?vend w fs') \<or>
           r = 0 \<and> rolled_back t pgdir (page_alignup oldsz) ?vend w"
          using less.hyps [OF page_step_measure [OF True nw] t(3) page_aligned_next [OF less.prems(2)] less.prems(3,4)]
          by blast
        have "uvm_allocate_loop pgdir oldsz newsz p s = Inr (r, w)"
          using True pa nz t(1) ok nw w(1) by (simp add: unfold take_page_def)
        moreover have "grown s fs pgdir p ?vend w hs" if "grown t gs pgdir (p + PAGE_SZ) ?vend w hs" for hs
          using grown_step [OF less.prems(2) vend(1) lt(1) vend(2) wf t(2-4) se at' that] Cons by simp
        moreover have "rolled_back s pgdir (page_alignup oldsz) ?vend w"
          if "rolled_back t pgdir (page_alignup oldsz) ?vend w"
        proof -
          have "page_alignup oldsz \<le> va \<and> va < ?vend" if "unat va div 4096 = unat p div 4096" for va
            using stp(3) [of va] that less.prems(5) by auto
          then show ?thesis using that at' by (auto simp: rolled_back_def)
        qed
        ultimately show ?thesis using w(2) by blast
      qed
    qed
  qed
qed

section \<open>The kernel's part of an address space\<close>

lemma page_aligndown_sub: "page_aligndown a = a - of_nat (unat a mod 4096)"
proof -
  have "unat (a - of_nat (unat a mod 4096)) = unat a - unat a mod 4096"
  proof -
    have "unat (of_nat (unat a mod 4096) :: u32) = unat a mod 4096" by (simp add: unat_of_nat32)
    then show ?thesis using unat_sub32 [of a "of_nat (unat a mod 4096)"] by simp
  qed
  then show ?thesis by (simp add: word32_eq_iff unat_page_aligndown minus_mod_eq_div_mult)
qed

lemma page_aligndown_add:
  assumes "page_aligned c"
  shows "page_aligndown (a + c) = page_aligndown a + c"
proof -
  have "unat (a + c) mod 4096 = (unat a + unat c) mod 4096"
    using mod_mod_cancel [of 4096 4294967296 "unat a + unat c"] by (simp add: unat_add32)
  also have "\<dots> = unat a mod 4096"
    by (rule page_aligned_ex [OF assms]) simp
  finally show ?thesis by (simp add: page_aligndown_sub)
qed

lemma in_vrange_le:
  assumes "vs \<le> ve"
  shows "in_vrange vs ve va \<longleftrightarrow> vs \<le> va \<and> va < ve"
proof -
  have "unat (ve - vs) = unat ve - unat vs" using assms by (simp add: unat_sub32 word32_le_iff)
  then show ?thesis
    using assms unat_lt32 [of ve] in_block_iff [of vs "unat ve - unat vs" va]
    by (auto simp: in_vrange_def word32_cmp)
qed

definition in_vmap :: "vmap \<Rightarrow> u32 \<Rightarrow> bool" where
  "in_vmap k va = in_vrange (page_aligndown (virt k)) (page_aligndown (virt k + (pend k - pstart k))) va"

definition vmap_pte :: "vmap \<Rightarrow> u32 \<Rightarrow> u32" where
  "vmap_pte k va = (pstart k + page_aligndown (va - page_aligndown (virt k))) OR PTE_P OR perm k"

lemma map_kernel_pages:
  assumes "wf_space s fs pgdir"
    and "\<And>va. in_vmap k va \<Longrightarrow> KERN_BASE \<le> va \<and> pte_at (ram s) pgdir va = None"
  shows "\<exists>ok t fs'. map_pages pgdir k s = Inr (ok, t) \<and> suffix fs' fs \<and> wf_space t fs' pgdir \<and>
    confined s fs pgdir t fs' \<and> sym_end t = sym_end s \<and>
    (ok \<longrightarrow> (\<forall>va. pte_at (ram t) pgdir va =
        (if in_vmap k va then Some (vmap_pte k va) else pte_at (ram s) pgdir va)))"
proof -
  note res = map_pages_spec [OF wf_spaceD(1) [OF assms(1)], of k]
  show ?thesis
  proof (cases "map_pages pgdir k s")
    case (Inl e)
    then show ?thesis using res assms(2) by (auto simp: map_result_def in_vmap_def)
  next
    case (Inr q)
    obtain ok t where q: "q = (ok, t)" by (cases q)
    obtain fs' where t: "suffix fs' fs" "wf_pgdir t fs' pgdir" "confined s fs pgdir t fs'"
      "sym_end t = sym_end s"
      using res by (auto simp: map_result_def Inr q)
    have at: "if in_vmap k va then ok \<longrightarrow> pte_at (ram t) pgdir va = Some (vmap_pte k va)
        else pte_at (ram t) pgdir va = pte_at (ram s) pgdir va" for va
      using res by (auto simp: map_result_def Inr q in_vmap_def vmap_pte_def)
    have "pte_at (ram t) pgdir va = pte_at (ram s) pgdir va" if "va < KERN_BASE" for va
      using at [of va] assms(2) [of va] that by (auto split: if_splits)
    then have "user_frame t pgdir va = user_frame s pgdir va" if "va < KERN_BASE" for va
      using that user_frame_cong [OF _ t(4)] by blast
    then have "wf_space t fs' pgdir"
      using assms(1) t(2,3) confined_page0 [OF assms(1) t(3,4)]
      unfolding wf_space_iff confined_def by (simp cong: conj_cong) metis
    moreover have "\<forall>va. pte_at (ram t) pgdir va =
        (if in_vmap k va then Some (vmap_pte k va) else pte_at (ram s) pgdir va)" if ok
      using at that by simp
    ultimately show ?thesis using t(1,3,4) Inr q by blast
  qed
qed

fun vmaps_disjoint :: "vmap list \<Rightarrow> bool" where
  "vmaps_disjoint [] = True"
| "vmaps_disjoint (k # ks) = ((\<forall>va. in_vmap k va \<longrightarrow> (\<forall>j \<in> set ks. \<not> in_vmap j va)) \<and> vmaps_disjoint ks)"

lemma kvm_map_spec:
  assumes "wf_space s fs pgdir" "vmaps_disjoint ks"
    and "\<And>k va. k \<in> set ks \<Longrightarrow> in_vmap k va \<Longrightarrow> KERN_BASE \<le> va \<and> pte_at (ram s) pgdir va = None"
  shows "\<exists>ok t fs'. kvm_map pgdir ks s = Inr (ok, t) \<and> free_pages t fs' \<and>
    (ok \<longrightarrow> suffix fs' fs \<and> wf_space t fs' pgdir \<and> confined s fs pgdir t fs' \<and> sym_end t = sym_end s \<and>
       (\<forall>va. pte_at (ram t) pgdir va =
          (case List.find (\<lambda>k. in_vmap k va) ks of Some k \<Rightarrow> Some (vmap_pte k va)
           | None \<Rightarrow> pte_at (ram s) pgdir va)))"
  using assms
proof (induction ks arbitrary: s fs)
  case Nil
  then show ?case
    using wf_pgdirD(1) [OF wf_spaceD(1) [OF Nil.prems(1)]] by (intro exI [of _ True] exI [of _ s] exI [of _ fs]) simp
next
  case (Cons k ks)
  have k: "KERN_BASE \<le> va \<and> pte_at (ram s) pgdir va = None" if "in_vmap k va" for va
    using Cons.prems(3) [of k va] that by simp
  obtain ok t gs where t: "map_pages pgdir k s = Inr (ok, t)" "suffix gs fs" "wf_space t gs pgdir"
      "confined s fs pgdir t gs" "sym_end t = sym_end s"
    and at: "ok \<Longrightarrow> pte_at (ram t) pgdir va =
        (if in_vmap k va then Some (vmap_pte k va) else pte_at (ram s) pgdir va)" for va
    using map_kernel_pages [OF Cons.prems(1) k] by metis
  show ?case
  proof (cases ok)
    case False
    obtain u hs where "vmfree pgdir t = Inr u" "free_pages u hs" using vmfree_spec [OF t(3)] by blast
    then show ?thesis
      using t(1) False by (intro exI [of _ False] exI [of _ u] exI [of _ hs]) simp
  next
    case True
    have j: "KERN_BASE \<le> va \<and> pte_at (ram t) pgdir va = None" if "j \<in> set ks" "in_vmap j va" for j va
      using that Cons.prems(2) Cons.prems(3) [of j va] at [OF True, of va] by auto
    have d: "vmaps_disjoint ks" using Cons.prems(2) by simp
    obtain ok' u hs where u: "kvm_map pgdir ks t = Inr (ok', u)" "free_pages u hs"
      and uat: "ok' \<longrightarrow> suffix hs gs \<and> wf_space u hs pgdir \<and> confined t gs pgdir u hs \<and> sym_end u = sym_end t \<and> (\<forall>va. pte_at (ram u) pgdir va =
          (case List.find (\<lambda>k. in_vmap k va) ks of Some k \<Rightarrow> Some (vmap_pte k va)
           | None \<Rightarrow> pte_at (ram t) pgdir va))"
      using Cons.IH [OF t(3) d] j by blast
    have none: "List.find (\<lambda>k. in_vmap k va) ks = None" if "in_vmap k va" for va
      using that Cons.prems(2) by (auto simp: find_None_iff)
    have "pte_at (ram u) pgdir va =
        (case List.find (\<lambda>k. in_vmap k va) (k # ks) of Some k \<Rightarrow> Some (vmap_pte k va)
         | None \<Rightarrow> pte_at (ram s) pgdir va)" if ok' for va
    proof -
      have "pte_at (ram u) pgdir va =
          (case List.find (\<lambda>k. in_vmap k va) ks of Some k \<Rightarrow> Some (vmap_pte k va) | None \<Rightarrow> pte_at (ram t) pgdir va)"
        using uat that by blast
      then show ?thesis using none [of va] at [OF True, of va] by (auto split: option.splits)
    qed
    moreover have "kvm_map pgdir (k # ks) s = Inr (ok', u)" using u(1) t(1) True by simp
    ultimately show ?thesis
      using u(2) uat t(5) suffix_order.trans [OF _ t(2), of hs] confined_trans [OF t(4), of u hs] by metis
  qed
qed

lemma new_pgdir_wf:
  assumes "free_pages s (pgdir # fs)" "page0_harmless s"
  shows "palloc s = (pgdir, s\<lparr>freelist := load32 (ram s) pgdir\<rparr>)" "pgdir \<noteq> 0"
    "wf_space (take_page s pgdir) fs pgdir" "pte_at (ram (take_page s pgdir)) pgdir va = None"
proof -
  have ok: "page_ok s pgdir" "pgdir \<notin> set fs" using assms(1) by (auto simp: free_pages_def)
  note ap = page_ok_aligned [OF ok(1)]
  show "palloc s = (pgdir, s\<lparr>freelist := load32 (ram s) pgdir\<rparr>)"
    using palloc_free_pages_Cons [OF assms(1)] by simp
  show "pgdir \<noteq> 0" using page_ok_nonzero [OF ok(1)] .
  let ?u = "take_page s pgdir"
  have "load32 (ram ?u) p = load32 (ram s) p" if "p \<in> set fs" for p
  proof -
    have "page_aligned p" "p \<noteq> pgdir"
      using that ok(2) assms(1) by (auto simp: free_pages_def intro: page_ok_aligned)
    then show ?thesis using load_memset_entry [OF ap, of p 0 "ram s"] by (simp add: take_page_def)
  qed
  then have "free_pages ?u fs"
    using free_pages_cong [of "s\<lparr>freelist := load32 (ram s) pgdir\<rparr>" fs "ram ?u"]
      palloc_free_pages_Cons [OF assms(1)] by (simp add: take_page_def)
  moreover have "pde_of (ram ?u) pgdir i = 0" if "unat i < 1024" for i
    using load_memset_entry [OF ap ap that, of "ram s"] by (simp add: pde_of_def take_page_def)
  moreover have "page_ok ?u pgdir" using ok(1) by (simp add: page_ok_def take_page_def)
  ultimately have z: "wf_pgdir ?u fs pgdir" "pte_at (ram ?u) pgdir va = None" for va
    using wf_pgdir_zero [of ?u fs pgdir] ok(2) by auto
  then show "pte_at (ram ?u) pgdir va = None" by blast
  have "unat pgdir div 4096 \<noteq> unat (P2KA 0) div 4096"
    using page0_not_ok [OF assms(2) ok(1)] page_aligned_inj [OF ap page_aligned_page0] by auto
  then have "page0_harmless ?u"
    using memset_page_apply [OF ap, of "ram s"]
    by (intro page0_harmless_frame [OF assms(2)]) (simp_all add: take_page_def)
  then show "wf_space ?u fs pgdir" using z by (simp add: wf_space_iff user_frame_None)
qed

definition kernel_pte :: "u32 \<Rightarrow> u32 \<Rightarrow> u32 option" where
  "kernel_pte data va =
     (if KERN_BASE \<le> va \<and> va < P2KA PHYSTOP
      then Some (page_aligndown (KA2P va) OR PTE_P OR
             (if KERN_LINK \<le> va \<and> va < data then 0 else PTE_W))
      else if DEV_SPACE \<le> va then Some (page_aligndown va OR PTE_P OR PTE_W)
      else None)"

lemma init_kmap_ranges:
  assumes "page_aligned (sym_data s)" "KERN_LINK \<le> sym_data s" "sym_data s \<le> P2KA PHYSTOP"
  shows "in_vmap (init_kmap s ! 0) va \<longleftrightarrow> KERN_BASE \<le> va \<and> va < KERN_LINK"
    "in_vmap (init_kmap s ! 1) va \<longleftrightarrow> KERN_LINK \<le> va \<and> va < sym_data s"
    "in_vmap (init_kmap s ! 2) va \<longleftrightarrow> sym_data s \<le> va \<and> va < P2KA PHYSTOP"
    "in_vmap (init_kmap s ! 3) va \<longleftrightarrow> DEV_SPACE \<le> va"
proof -
  have d: "page_aligndown (sym_data s) = sym_data s"
    using one_page_range(1) [OF assms(1)] .
  show "in_vmap (init_kmap s ! 0) va \<longleftrightarrow> KERN_BASE \<le> va \<and> va < KERN_LINK"
    using in_vrange_le [of "0x80000000" "0x80100000" va]
    by (simp add: in_vmap_def init_kmap_def page_aligndown_def)
  show "in_vmap (init_kmap s ! 1) va \<longleftrightarrow> KERN_LINK \<le> va \<and> va < sym_data s"
    using in_vrange_le [of "0x80100000" "sym_data s" va] assms(2) d
    by (simp add: in_vmap_def init_kmap_def KA2P_def page_aligndown_def [of "0x80100000"])
  have e: "page_aligndown (0xA0000000) = 0xA0000000" "page_aligndown 0 = 0"
    "page_aligndown 0xFE000000 = 0xFE000000" by (simp_all add: page_aligndown_def)
  show "in_vmap (init_kmap s ! 2) va \<longleftrightarrow> sym_data s \<le> va \<and> va < P2KA PHYSTOP"
    using in_vrange_le [of "sym_data s" "0xA0000000" va] assms(3) d e(1)
    by (simp add: in_vmap_def init_kmap_def KA2P_def P2KA_def)
  show "in_vmap (init_kmap s ! 3) va \<longleftrightarrow> DEV_SPACE \<le> va"
  proof -
    have "in_vmap (init_kmap s ! 3) va \<longleftrightarrow> in_vrange 0xFE000000 0 va"
      by (simp add: in_vmap_def init_kmap_def e)
    then show ?thesis
      using unat_lt32 [of va] by (auto simp: in_vrange_def word32_cmp unat_sub32 [of va])
  qed
qed

lemma init_kmap_ptes:
  assumes "page_aligned (sym_data s)"
  shows "vmap_pte (init_kmap s ! 0) va = page_aligndown (KA2P va) OR PTE_P OR PTE_W"
    "vmap_pte (init_kmap s ! 1) va = page_aligndown (KA2P va) OR PTE_P OR 0"
    "vmap_pte (init_kmap s ! 2) va = page_aligndown (KA2P va) OR PTE_P OR PTE_W"
    "vmap_pte (init_kmap s ! 3) va = page_aligndown va OR PTE_P OR PTE_W"
proof -
  have e: "page_aligndown 0x80000000 = 0x80000000" "page_aligndown 0x80100000 = 0x80100000"
    "page_aligndown 0xFE000000 = 0xFE000000" by (simp_all add: page_aligndown_def)
  have d: "page_aligndown (sym_data s) = sym_data s" using one_page_range(1) [OF assms] .
  have add: "c + page_aligndown (va - v) = page_aligndown (va - v + c)" if "page_aligned c" for c v
    using page_aligndown_add [OF that, of "va - v"] by (simp only: add.commute [of c])
  have al: "page_aligned 0x100000" "page_aligned 0xFE000000" "page_aligned (sym_data s - 0x80000000)"
    using aligned_diff_mod [OF assms, of "0x80000000"] by (simp_all add: page_aligned_def) (simp add: word32_eq_iff unat_mod)
  show "vmap_pte (init_kmap s ! 0) va = page_aligndown (KA2P va) OR PTE_P OR PTE_W"
    by (simp add: vmap_pte_def init_kmap_def KA2P_def e)
  show "vmap_pte (init_kmap s ! 1) va = page_aligndown (KA2P va) OR PTE_P OR 0"
    by (simp add: vmap_pte_def init_kmap_def KA2P_def e add [OF al(1)])
  show "vmap_pte (init_kmap s ! 2) va = page_aligndown (KA2P va) OR PTE_P OR PTE_W"
    by (simp add: vmap_pte_def init_kmap_def KA2P_def d add [OF al(3)])
  show "vmap_pte (init_kmap s ! 3) va = page_aligndown va OR PTE_P OR PTE_W"
    by (simp add: vmap_pte_def init_kmap_def e add [OF al(2)])
qed

lemma init_kmap_list: "init_kmap s = map ((!) (init_kmap s)) [0, 1, 2, 3]"
  by (simp add: init_kmap_def)

lemma init_kmap_find:
  assumes "page_aligned (sym_data s)" "KERN_LINK \<le> sym_data s" "sym_data s \<le> P2KA PHYSTOP"
  shows "(case List.find (\<lambda>k. in_vmap k va) (init_kmap s) of Some k \<Rightarrow> Some (vmap_pte k va) | None \<Rightarrow> None) =
    kernel_pte (sym_data s) va"
proof -
  let ?k = "\<lambda>i. init_kmap s ! i"
  have "List.find P (init_kmap s) =
      (if P (?k 0) then Some (?k 0) else if P (?k (Suc 0)) then Some (?k (Suc 0))
       else if P (?k 2) then Some (?k 2) else if P (?k 3) then Some (?k 3) else None)" for P
    by (subst init_kmap_list) simp
  moreover note init_kmap_ranges [OF assms, of va, unfolded One_nat_def]
    init_kmap_ptes [OF assms(1), of va, unfolded One_nat_def]
  moreover have "0x80100000 \<le> unat (sym_data s)" "unat (sym_data s) \<le> 0xA0000000"
    using assms(2,3) by (simp_all add: P2KA_def word32_cmp)
  moreover have "P2KA PHYSTOP = 0xA0000000" by (simp add: P2KA_def)
  moreover consider "unat va < 0x80000000" | "0x80000000 \<le> unat va" "unat va < 0x80100000"
    | "0x80100000 \<le> unat va" "unat va < unat (sym_data s)"
    | "unat (sym_data s) \<le> unat va" "unat va < 0xA0000000"
    | "0xA0000000 \<le> unat va" "unat va < 0xFE000000" | "0xFE000000 \<le> unat va"
    by linarith
  ultimately show ?thesis
    by cases (simp_all add: kernel_pte_def word32_le_iff word32_less_iff)
qed

lemma init_kmap_disjoint:
  assumes "page_aligned (sym_data s)" "KERN_LINK \<le> sym_data s" "sym_data s \<le> P2KA PHYSTOP"
  shows "vmaps_disjoint (init_kmap s)"
    "k \<in> set (init_kmap s) \<Longrightarrow> in_vmap k va \<Longrightarrow> KERN_BASE \<le> va"
proof -
  note r = init_kmap_ranges [OF assms, unfolded One_nat_def]
  have le: "0x80100000 \<le> unat (sym_data s)" "unat (sym_data s) \<le> 0xA0000000"
    using assms(2,3) by (simp_all add: P2KA_def word32_cmp)
  show "vmaps_disjoint (init_kmap s)"
    using le by (subst init_kmap_list) (auto simp: r P2KA_def word32_cmp)
  show "KERN_BASE \<le> va" if "k \<in> set (init_kmap s)" "in_vmap k va"
  proof -
    have "k \<in> set (map ((!) (init_kmap s)) [0, 1, 2, 3])" using that(1) init_kmap_list [of s] by simp
    then show ?thesis using that(2) le by (auto simp: r P2KA_def word32_cmp)
  qed
qed

section \<open>Properties\<close>

text \<open>A machine with an empty page directory at 0x80200000 and one free page.\<close>

definition machine1 :: machine where
  "machine1 = machine0\<lparr>freelist := 0x80300000\<rparr>"

lemma machine1_load: "load32 (ram machine1) a = 0"
  by (simp add: machine1_def machine0_def load32_def)

lemma machine1_free: "free_pages machine1 [0x80300000]" "page0_harmless machine1"
  using machine1_load
  by (simp_all add: free_pages_def page_ok_def KA2P_def page0_harmless_def)
    (simp_all add: machine1_def machine0_def)

lemma machine1_space: "wf_space machine1 [0x80300000] 0x80200000" "pte_at (ram machine1) 0x80200000 va = None"
proof -
  have "page_ok machine1 0x80200000" by (simp add: page_ok_def KA2P_def machine1_def machine0_def)
  then have z: "wf_pgdir machine1 [0x80300000] 0x80200000" "pte_at (ram machine1) 0x80200000 v = None" for v
    using wf_pgdir_zero [OF machine1_free(1), of "0x80200000"] machine1_load by (auto simp: pde_of_def)
  then show "pte_at (ram machine1) 0x80200000 va = None" by blast
  show "wf_space machine1 [0x80300000] 0x80200000"
    using z machine1_free(2) by (simp add: wf_space_iff user_frame_None)
qed



text \<open>\<open>uvm_deallocate\<close> returns the new size and takes exactly the pages between the rounded
  sizes out of the translation; the frames they had, and no others, are on the free list
  afterwards, each once.\<close>

theorem uvm_deallocate_shrinks:
  assumes "wf_space s fs pgdir" "newsz \<le> oldsz" "oldsz \<le> KERN_BASE"
  shows "\<exists>t fs'. uvm_deallocate pgdir oldsz newsz s = Inr (newsz, t) \<and>
    unmapped_range s fs pgdir (page_alignup newsz) (page_alignup oldsz) t fs'"
  by (rule uvm_deallocate_spec [OF assms])

theorem uvm_deallocate_shrinks_witness:
  "\<exists>t fs'. uvm_deallocate 0x80200000 0x3000 0x800 machine1 = Inr (0x800, t) \<and>
    unmapped_range machine1 [0x80300000] 0x80200000 0x1000 0x3000 t fs'"
  using uvm_deallocate_shrinks [OF machine1_space(1), of "0x800" "0x3000"] by (simp add: page_alignup_def)

text \<open>C6: \<open>vmfree\<close> of a well-formed address space never panics and gives back everything: after
  it the free list holds the pages that were free, the frames of the user part, every page
  table and the page directory itself, each exactly once.\<close>

theorem vmfree_returns_all:
  assumes "wf_space s fs pgdir"
  shows "\<exists>t fs'. vmfree pgdir s = Inr t \<and> free_pages t fs' \<and> distinct fs' \<and>
    set fs' = {p. own_page (ram s) fs pgdir p} \<union> user_frames s pgdir"
  using vmfree_spec [OF assms] by (auto simp: free_pages_def)

theorem vmfree_returns_all_witness:
  "\<exists>t fs'. vmfree 0x80200000 machine1 = Inr t \<and> free_pages t fs' \<and> distinct fs' \<and>
    set fs' = {p. own_page (ram machine1) [0x80300000] 0x80200000 p} \<union> user_frames machine1 0x80200000"
  by (rule vmfree_returns_all [OF machine1_space(1)])

end
