(* ===== verification/Segments.thy ===== *)
theory Segments
  imports Melon_Prelude
begin

text \<open>
  kernel/memory/gdt.c and kernel/trap/idt.c, with the table part of \<open>trap_init\<close> from
  kernel/trap.c: the packed descriptors the processor reads.  \<open>desc_base\<close>, \<open>desc_limit\<close>
  and \<open>desc_flags\<close> are the processor's reading of a segment descriptor.  The addresses of
  the tables and of the generated interrupt stubs \<open>vectors\<close> are arguments.
\<close>

section \<open>Segment descriptors\<close>

abbreviation (input) SEG_NULL :: nat where "SEG_NULL \<equiv> 0"
abbreviation (input) SEG_KCODE :: nat where "SEG_KCODE \<equiv> 1"
abbreviation (input) SEG_KDATA :: nat where "SEG_KDATA \<equiv> 2"
abbreviation (input) SEG_UCODE :: nat where "SEG_UCODE \<equiv> 3"
abbreviation (input) SEG_UDATA :: nat where "SEG_UDATA \<equiv> 4"
abbreviation (input) SEG_TSS :: nat where "SEG_TSS \<equiv> 5"
abbreviation (input) NSEGS :: nat where "NSEGS \<equiv> 6"

definition SEG_S :: "u16 \<Rightarrow> u16" where "SEG_S x = push_bit 4 x"
definition SEG_DPL :: "u16 \<Rightarrow> u16" where "SEG_DPL x = push_bit 5 (x AND 3)"
definition SEG_P :: "u16 \<Rightarrow> u16" where "SEG_P x = push_bit 7 x"
definition SEG_AVL :: "u16 \<Rightarrow> u16" where "SEG_AVL x = push_bit 12 x"
definition SEG_L :: "u16 \<Rightarrow> u16" where "SEG_L x = push_bit 13 x"
definition SEG_DB :: "u16 \<Rightarrow> u16" where "SEG_DB x = push_bit 14 x"
definition SEG_G :: "u16 \<Rightarrow> u16" where "SEG_G x = push_bit 15 x"

lemmas seg_bits = SEG_S_def SEG_DPL_def SEG_P_def SEG_AVL_def SEG_L_def SEG_DB_def SEG_G_def

abbreviation (input) DPL_K :: u16 where "DPL_K \<equiv> 0"
abbreviation (input) DPL_U :: u16 where "DPL_U \<equiv> 3"
abbreviation (input) SEG_DATA_RDWR :: u16 where "SEG_DATA_RDWR \<equiv> 0x02"
abbreviation (input) SEG_CODE_EXRD :: u16 where "SEG_CODE_EXRD \<equiv> 0x0a"
abbreviation (input) SEG_TSS_32_AVL :: u16 where "SEG_TSS_32_AVL \<equiv> 0x09"

definition create_descriptor :: "u32 \<Rightarrow> u32 \<Rightarrow> u16 \<Rightarrow> u64" where
  "create_descriptor base limit flag =
     (let d = (ucast limit AND 0x000f0000) OR (push_bit 8 (ucast flag) AND 0x00f0ff00)
                OR (ucast (drop_bit 16 base) AND 0x000000ff) OR (ucast base AND 0xff000000);
          d = push_bit 32 d
      in d OR ucast (push_bit 16 base) OR (ucast limit AND 0x0000ffff))"

record gdtr =
  gdt_limit :: u16
  gdt_base :: u32

definition code_data_flag :: "u16 \<Rightarrow> u16 \<Rightarrow> u16" where
  "code_data_flag dpl type =
     SEG_S 1 OR SEG_P 1 OR SEG_AVL 0 OR SEG_L 0 OR SEG_DB 1 OR SEG_G 1 OR SEG_DPL dpl OR type"

definition gdt_init :: "u32 \<Rightarrow> u64 list \<Rightarrow> gdtr \<times> u64 list" where
  "gdt_init gdt_addr gdt =
     (\<lparr>gdt_limit = of_nat (8 * NSEGS - 1), gdt_base = gdt_addr\<rparr>,
      gdt[SEG_NULL := create_descriptor 0 0 0,
          SEG_KCODE := create_descriptor 0 0xffffffff (code_data_flag DPL_K SEG_CODE_EXRD),
          SEG_KDATA := create_descriptor 0 0xffffffff (code_data_flag DPL_K SEG_DATA_RDWR),
          SEG_UCODE := create_descriptor 0 0xffffffff (code_data_flag DPL_U SEG_CODE_EXRD),
          SEG_UDATA := create_descriptor 0 0xffffffff (code_data_flag DPL_U SEG_DATA_RDWR)])"

definition desc_base :: "u64 \<Rightarrow> u32" where
  "desc_base d = (ucast (drop_bit 16 d) AND 0xffff) OR push_bit 16 (ucast (drop_bit 32 d) AND 0xff)
     OR push_bit 24 (ucast (drop_bit 56 d) AND 0xff)"

definition desc_limit :: "u64 \<Rightarrow> u32" where
  "desc_limit d = (ucast d AND 0xffff) OR push_bit 16 (ucast (drop_bit 48 d) AND 0xf)"

definition desc_flags :: "u64 \<Rightarrow> u16" where
  "desc_flags d = (ucast (drop_bit 40 d) AND 0xff) OR push_bit 12 (ucast (drop_bit 52 d) AND 0xf)"

lemma desc_masks:
  "(0x000f0000 :: u64) = push_bit 16 (mask 4)" "(0x00f0ff00 :: u64) = push_bit 8 (mask 8) OR push_bit 20 (mask 4)"
  "(0x000000ff :: u64) = mask 8" "(0xff000000 :: u64) = push_bit 24 (mask 8)" "(0x0000ffff :: u64) = mask 16"
  "(0xffff :: u32) = mask 16" "(0xff :: u32) = mask 8" "(0xf :: u32) = mask 4"
  "(0xff :: u16) = mask 8" "(0xf :: u16) = mask 4" "(0xf0ff :: u16) = mask 8 OR push_bit 12 (mask 4)"
  "(0xfffff :: u32) = mask 20"
  by (simp_all add: mask_eq_exp_minus_1)

lemma bit_create_descriptor:
  "bit (create_descriptor base limit flag) n \<longleftrightarrow>
     (if n < 16 then bit limit n
      else if n < 40 then bit base (n - 16)
      else if n < 48 then bit flag (n - 40)
      else if n < 52 then bit limit (n - 32)
      else if n < 56 then bit flag (n - 40)
      else n < 64 \<and> bit base (n - 32))"
proof -
  consider "n < 16" | "16 \<le> n" "n < 32" | "32 \<le> n" "n < 40" | "40 \<le> n" "n < 48" | "48 \<le> n" "n < 52"
    | "52 \<le> n" "n < 56" | "56 \<le> n" "n < 64" | "64 \<le> n"
    by linarith
  then show ?thesis
    unfolding create_descriptor_def Let_def desc_masks by cases (auto simp: bit_simps)
qed

lemma desc_decode:
  "desc_base (create_descriptor base limit flag) = base"
  "desc_limit (create_descriptor base limit flag) = limit AND 0xfffff"
  "desc_flags (create_descriptor base limit flag) = flag AND 0xf0ff"
proof -
  show "desc_base (create_descriptor base limit flag) = base"
    unfolding desc_base_def desc_masks
  proof (rule bit_word_eqI)
    fix n
    assume "n < LENGTH(32)"
    then consider "n < 16" | "16 \<le> n" "n < 24" | "24 \<le> n" "n < 32" by fastforce
    then show "bit ((ucast (drop_bit 16 (create_descriptor base limit flag)) AND mask 16) OR
        push_bit 16 (ucast (drop_bit 32 (create_descriptor base limit flag)) AND mask 8) OR
        push_bit 24 (ucast (drop_bit 56 (create_descriptor base limit flag)) AND mask 8) :: u32) n = bit base n"
      by cases (auto simp: bit_simps bit_create_descriptor)
  qed
  show "desc_limit (create_descriptor base limit flag) = limit AND 0xfffff"
    unfolding desc_limit_def desc_masks
  proof (rule bit_word_eqI)
    fix n
    assume "n < LENGTH(32)"
    then consider "n < 16" | "16 \<le> n" "n < 20" | "20 \<le> n" "n < 32" by fastforce
    then show "bit ((ucast (create_descriptor base limit flag) AND mask 16) OR
        push_bit 16 (ucast (drop_bit 48 (create_descriptor base limit flag)) AND mask 4) :: u32) n =
        bit (limit AND mask 20) n"
      by cases (auto simp: bit_simps bit_create_descriptor)
  qed
  show "desc_flags (create_descriptor base limit flag) = flag AND 0xf0ff"
    unfolding desc_flags_def desc_masks
  proof (rule bit_word_eqI)
    fix n
    assume "n < LENGTH(16)"
    then consider "n < 8" | "8 \<le> n" "n < 12" | "12 \<le> n" "n < 16" by fastforce
    then show "bit ((ucast (drop_bit 40 (create_descriptor base limit flag)) AND mask 8) OR
        push_bit 12 (ucast (drop_bit 52 (create_descriptor base limit flag)) AND mask 4) :: u16) n =
        bit (flag AND (mask 8 OR push_bit 12 (mask 4))) n"
      by cases (auto simp: bit_simps bit_create_descriptor)
  qed
qed

section \<open>Interrupt gates\<close>

record idt_entry =
  isr_low :: u16
  kernel_cs :: u16
  reserved :: u8
  attributes :: u8
  isr_high :: u16

record idt_state =
  idt :: "u8 \<Rightarrow> idt_entry"
  idtr_base :: u32
  idtr_limit :: u16

definition GATE_DPL :: "u8 \<Rightarrow> u8" where "GATE_DPL x = push_bit 5 (x AND 3)"
definition GATE_P :: "u8 \<Rightarrow> u8" where "GATE_P x = push_bit 7 x"
abbreviation (input) INT_GATE :: u8 where "INT_GATE \<equiv> 0xe"
abbreviation (input) TRAP_GATE :: u8 where "TRAP_GATE \<equiv> 0xf"
abbreviation (input) I_SYSCALL :: u8 where "I_SYSCALL \<equiv> 0x40"

definition get_handler_from_idt :: "u8 \<Rightarrow> idt_state \<Rightarrow> u32" where
  "get_handler_from_idt vector s =
     (let e = idt s vector;
          high = push_bit 16 (ucast (isr_high e));
          low = ucast (isr_low e)
      in high OR low)"

definition regist_idt_handler :: "u8 \<Rightarrow> u32 \<Rightarrow> u8 \<Rightarrow> idt_state \<Rightarrow> idt_state" where
  "regist_idt_handler vector isr flags s =
     s\<lparr>idt := (idt s)(vector :=
         \<lparr>isr_low = ucast (isr AND 0xffff), kernel_cs = 0x08, reserved = 0,
          attributes = flags, isr_high = ucast (drop_bit 16 isr)\<rparr>)\<rparr>"

definition idt_init :: "u32 \<Rightarrow> idt_state \<Rightarrow> idt_state" where
  "idt_init idt_addr s = s\<lparr>idtr_base := idt_addr, idtr_limit := of_nat (8 * 256 - 1)\<rparr>"

definition trap_init :: "(u8 \<Rightarrow> u32) \<Rightarrow> u32 \<Rightarrow> idt_state \<Rightarrow> idt_state" where
  "trap_init vectors idt_addr s =
     (let s = fold (\<lambda>i. regist_idt_handler (of_nat i) (vectors (of_nat i))
                       (GATE_P 1 OR GATE_DPL 0 OR INT_GATE)) [0..<256] s;
          s = regist_idt_handler I_SYSCALL (vectors I_SYSCALL) (GATE_P 1 OR GATE_DPL 3 OR TRAP_GATE) s
      in idt_init idt_addr s)"

lemma split_handler:
  "push_bit 16 (ucast (ucast (drop_bit 16 isr) :: u16)) OR ucast (ucast (isr AND 0xffff) :: u16) = (isr :: u32)"
  unfolding desc_masks
proof (rule bit_word_eqI)
  fix n
  assume "n < LENGTH(32)"
  then consider "n < 16" | "16 \<le> n" "n < 32" by fastforce
  then show "bit (push_bit 16 (ucast (ucast (drop_bit 16 isr) :: u16)) OR
      ucast (ucast (isr AND mask 16) :: u16) :: u32) n = bit isr n"
    by cases (auto simp: bit_simps)
qed

lemma regist_lookup:
  "get_handler_from_idt v (regist_idt_handler w isr flags s) =
     (if v = w then isr else get_handler_from_idt v s)"
  "attributes (idt (regist_idt_handler w isr flags s) v) =
     (if v = w then flags else attributes (idt s v))"
  "kernel_cs (idt (regist_idt_handler w isr flags s) v) =
     (if v = w then 0x08 else kernel_cs (idt s v))"
  using split_handler [of isr]
  by (simp_all add: get_handler_from_idt_def regist_idt_handler_def Let_def)

lemma regist_fold:
  assumes "n \<le> 256" "t = fold (\<lambda>i. regist_idt_handler (of_nat i) (f (of_nat i)) flags) [0..<n] s"
  shows "get_handler_from_idt v t = (if unat v < n then f v else get_handler_from_idt v s) \<and>
    attributes (idt t v) = (if unat v < n then flags else attributes (idt s v)) \<and>
    kernel_cs (idt t v) = (if unat v < n then 0x08 else kernel_cs (idt s v))"
  using assms
proof (induction n arbitrary: t)
  case (Suc n)
  have "v = of_nat n \<longleftrightarrow> unat v = n"
    using Suc.prems(1) by (auto simp: word_unat_eq_iff unat_of_nat)
  then show ?case
    using Suc.IH [OF _ refl] Suc.prems by (auto simp: regist_lookup)
qed simp

section \<open>Properties\<close>

text \<open>the processor reads back from a descriptor built by \<open>create_descriptor\<close> the base it
  was given, the low 20 bits of the limit, and the type, S, DPL, P, AVL, L, D/B and G bits of
  the flags (the four limit bits in the middle of the flag word are dropped).\<close>

theorem create_descriptor_fields:
  "desc_base (create_descriptor base limit flag) = base \<and>
   desc_limit (create_descriptor base limit flag) = limit AND 0xfffff \<and>
   desc_flags (create_descriptor base limit flag) = flag AND 0xf0ff"
  by (simp add: desc_decode)

text \<open>after \<open>trap_init\<close> every one of the 256 gates leads to its stub in the kernel code
  segment; the system call gate alone is a trap gate open to ring 3, all others are
  interrupt gates for ring 0 only.\<close>

theorem trap_init_gates:
  "get_handler_from_idt v (trap_init vectors addr s) = vectors v \<and>
   kernel_cs (idt (trap_init vectors addr s) v) = 0x08 \<and>
   attributes (idt (trap_init vectors addr s) v) = (if v = I_SYSCALL then 0xEF else 0x8E)"
proof -
  have "idt (idt_init addr t) = idt t" "get_handler_from_idt v (idt_init addr t) = get_handler_from_idt v t" for t
    by (simp_all add: idt_init_def get_handler_from_idt_def)
  then show ?thesis
    using unat_lt8 [of v] regist_fold [OF order.refl refl, of v vectors _ s]
    by (simp add: trap_init_def Let_def regist_lookup GATE_P_def GATE_DPL_def)
qed

end
