(* ===== verification/Lock.thy ===== *)
theory Lock
  imports Segments
begin

text \<open>
  kernel/trap/ncli.c, kernel/process/spinlock.c, and \<open>this_cpu\<close> of kernel/process.c: the
  per-processor state and the interrupt-disabling spinlocks.  The machine has one processor,
  so a lock's owner is the processor or nobody, and spinning on a lock that is taken never
  ends (interrupts are off).  \<open>ncli\<close> is a C \<open>int\<close>; its nesting depth never comes near an
  overflow, which C leaves undefined, so it is an integer here.
\<close>

section \<open>The processor\<close>

record cpu =
  eflags_if :: bool
  int_on :: bool
  ncli :: int
  proc :: "nat option"
  gdt :: "u64 list"
  ts_esp0 :: u32
  ts_ss0 :: u32
  task_register :: u16
  cpu_cr3 :: u32

definition this_cpu :: "cpu \<Rightarrow> cpu res" where
  "this_cpu c = (if eflags_if c then Inl (Panic ''interrupt is enabled on `this_cpu` call'') else Inr c)"

definition push_cli :: "cpu \<Rightarrow> cpu res" where
  "push_cli c =
     (let was = eflags_if c in
      rbind (this_cpu (c\<lparr>eflags_if := False\<rparr>)) (\<lambda>c.
        let c = (if ncli c = 0 then c\<lparr>int_on := was\<rparr> else c)
        in Inr (c\<lparr>ncli := ncli c + 1\<rparr>)))"

definition pop_cli :: "cpu \<Rightarrow> cpu res" where
  "pop_cli c =
     rbind (this_cpu c) (\<lambda>c.
       let c = c\<lparr>ncli := ncli c - 1\<rparr> in
       if ncli c < 0 then Inl (Panic ''pop_cli'')
       else Inr (if ncli c = 0 \<and> int_on c then c\<lparr>eflags_if := True\<rparr> else c))"

section \<open>Spinlocks\<close>

text \<open>\<open>owner\<close> says whether the field \<open>cpu\<close> of the lock points to the processor.\<close>

record spinlock =
  locked :: u32
  owner :: bool

definition new_lock :: spinlock where
  "new_lock = \<lparr>locked = 0, owner = False\<rparr>"

definition holding :: "spinlock \<Rightarrow> cpu \<Rightarrow> (bool \<times> cpu) res" where
  "holding lk c =
     rbind (push_cli c) (\<lambda>c.
     rbind (this_cpu c) (\<lambda>c.
       let b = (locked lk \<noteq> 0 \<and> owner lk) in
     rbind (pop_cli c) (\<lambda>c. Inr (b, c))))"

definition lock :: "spinlock \<Rightarrow> cpu \<Rightarrow> (spinlock \<times> cpu) res" where
  "lock lk c =
     rbind (push_cli c) (\<lambda>c.
     rbind (holding lk c) (\<lambda>(b, c).
       if b then Inl (Panic ''lock'')
       else if locked lk \<noteq> 0 then Inl Hang
       else rbind (this_cpu c) (\<lambda>c. Inr (\<lparr>locked = 1, owner = True\<rparr>, c))))"

definition unlock :: "spinlock \<Rightarrow> cpu \<Rightarrow> (spinlock \<times> cpu) res" where
  "unlock lk c =
     rbind (holding lk c) (\<lambda>(b, c).
       if \<not> b then Inl (Panic ''unlock'')
       else rbind (pop_cli c) (\<lambda>c. Inr (\<lparr>locked = 0, owner = False\<rparr>, c)))"

section \<open>Nesting\<close>

text \<open>The state between calls: a positive depth means interrupts are off.\<close>

definition wf_cpu :: "cpu \<Rightarrow> bool" where
  "wf_cpu c \<longleftrightarrow> 0 \<le> ncli c \<and> (0 < ncli c \<longrightarrow> \<not> eflags_if c)"

definition pushed :: "cpu \<Rightarrow> cpu" where
  "pushed c = c\<lparr>eflags_if := False, int_on := (if ncli c = 0 then eflags_if c else int_on c), ncli := ncli c + 1\<rparr>"

definition popped :: "cpu \<Rightarrow> cpu" where
  "popped c = c\<lparr>ncli := ncli c - 1, eflags_if := (ncli c = 1 \<and> int_on c)\<rparr>"

lemma push_cli_eq: "push_cli c = Inr (pushed c)"
  by (simp add: push_cli_def this_cpu_def pushed_def Let_def)

lemma pop_cli_eq:
  "\<not> eflags_if c \<Longrightarrow> 0 < ncli c \<Longrightarrow> pop_cli c = Inr (popped c)"
  by (simp add: pop_cli_def this_cpu_def popped_def Let_def)

lemma wf_cpu_pushed: "wf_cpu c \<Longrightarrow> wf_cpu (pushed c)"
  by (simp add: wf_cpu_def pushed_def)

lemma pushed_off [simp]: "\<not> eflags_if (pushed c)"
  by (simp add: pushed_def)

lemma ncli_pushed [simp]: "ncli (pushed c) = ncli c + 1"
  by (simp add: pushed_def)

lemma wf_cpu_off: "wf_cpu c \<Longrightarrow> 0 < ncli c \<Longrightarrow> \<not> eflags_if c"
  by (simp add: wf_cpu_def)

text \<open>A balanced pair restores everything but the saved flag of the outermost level.\<close>

lemma popped_pushed: "wf_cpu c \<Longrightarrow> popped (pushed c) = c\<lparr>int_on := (if ncli c = 0 then eflags_if c else int_on c)\<rparr>"
  by (auto simp: wf_cpu_def popped_def pushed_def)

lemma popped_pushed_nested: "0 < ncli c \<Longrightarrow> wf_cpu c \<Longrightarrow> popped (pushed c) = c"
  by (simp add: popped_pushed)

lemma holding_eq:
  assumes "wf_cpu c"
  shows "holding lk c = Inr (locked lk \<noteq> 0 \<and> owner lk, popped (pushed c))"
proof -
  have "0 < ncli (pushed c)" using assms by (simp add: wf_cpu_def)
  then show ?thesis
    using pop_cli_eq [of "pushed c"] by (simp add: holding_def push_cli_eq this_cpu_def)
qed

lemma lock_free:
  assumes "wf_cpu c" "locked lk = 0"
  shows "lock lk c = Inr (\<lparr>locked = 1, owner = True\<rparr>, pushed c)"
proof -
  have w: "wf_cpu (pushed c)" "0 < ncli (pushed c)" using assms by (simp_all add: wf_cpu_pushed wf_cpu_def)
  then show ?thesis
    by (simp add: lock_def push_cli_eq holding_eq popped_pushed_nested this_cpu_def assms(2))
qed

lemma lock_taken:
  assumes "wf_cpu c" "locked lk \<noteq> 0"
  shows "lock lk c = Inl (if owner lk then Panic ''lock'' else Hang)"
proof -
  have w: "wf_cpu (pushed c)" "0 < ncli (pushed c)" using assms by (simp_all add: wf_cpu_pushed wf_cpu_def)
  then show ?thesis
    by (simp add: lock_def push_cli_eq holding_eq popped_pushed_nested assms(2))
qed

lemma unlock_held:
  assumes "wf_cpu c" "0 < ncli c" "locked lk \<noteq> 0" "owner lk"
  shows "unlock lk c = Inr (\<lparr>locked = 0, owner = False\<rparr>, popped c)"
  using assms by (simp add: unlock_def holding_eq popped_pushed_nested pop_cli_eq wf_cpu_off)

lemma unlock_not_held:
  assumes "wf_cpu c" "\<not> (locked lk \<noteq> 0 \<and> owner lk)"
  shows "unlock lk c = Inl (Panic ''unlock'')"
  using assms by (auto simp: unlock_def holding_eq)

lemma proc_pushed [simp]: "proc (pushed c) = proc c" "proc (popped c) = proc c"
  by (simp_all add: pushed_def popped_def)

section \<open>Properties\<close>

fun repeat_res :: "nat \<Rightarrow> ('a \<Rightarrow> 'a res) \<Rightarrow> 'a \<Rightarrow> 'a res" where
  "repeat_res 0 f x = Inr x"
| "repeat_res (Suc n) f x = rbind (f x) (repeat_res n f)"

lemma repeat_push:
  "0 \<le> ncli c \<Longrightarrow> repeat_res n push_cli c = Inr (if n = 0 then c else (pushed c)\<lparr>ncli := ncli c + int n\<rparr>)"
proof (induction n arbitrary: c)
  case (Suc n)
  then show ?case using Suc.IH [of "pushed c"] by (simp add: push_cli_eq) (auto simp: pushed_def add.assoc)
qed simp

lemma repeat_pop:
  assumes "\<not> eflags_if c" "int n \<le> ncli c"
  shows "repeat_res n pop_cli c =
    Inr (if n = 0 then c else c\<lparr>ncli := ncli c - int n, eflags_if := (ncli c = int n \<and> int_on c)\<rparr>)"
  using assms
proof (induction n arbitrary: c)
  case (Suc n)
  show ?case
  proof (cases "ncli c = 1")
    case True
    then have "n = 0" using Suc.prems by simp
    then show ?thesis using Suc.prems True by (simp add: pop_cli_eq popped_def)
  next
    case False
    then have "\<not> eflags_if (popped c)" "int n \<le> ncli (popped c)"
      using Suc.prems by (simp_all add: popped_def)
    then show ?thesis
      using Suc.IH [of "popped c"] Suc.prems False by (simp add: pop_cli_eq) (auto simp: popped_def diff_diff_eq diff_eq_eq add.commute)
  qed
qed simp

text \<open>\<open>n\<close> calls of \<open>push_cli\<close> are undone by exactly \<open>n\<close> calls of \<open>pop_cli\<close>: none of
  them panics, interrupts are off throughout, and afterwards the interrupt flag and the
  depth are what they were before.\<close>

theorem push_cli_pop_cli_nest:
  assumes "wf_cpu c"
  shows "\<exists>d e. repeat_res (Suc n) push_cli c = Inr d \<and> \<not> eflags_if d \<and>
    repeat_res (Suc n) pop_cli d = Inr e \<and> eflags_if e = eflags_if c \<and> ncli e = ncli c"
proof -
  let ?d = "(pushed c)\<lparr>ncli := ncli c + int (Suc n)\<rparr>"
  have "repeat_res (Suc n) push_cli c = Inr ?d" using repeat_push [of c "Suc n"] assms by (simp add: wf_cpu_def)
  moreover have "\<not> eflags_if ?d" "int (Suc n) \<le> ncli ?d"
    using assms by (simp_all add: pushed_def wf_cpu_def)
  moreover note repeat_pop [OF this]
  ultimately show ?thesis using assms by (auto simp: wf_cpu_def pushed_def)
qed

definition cpu0 :: cpu where
  "cpu0 = \<lparr>eflags_if = True, int_on = False, ncli = 0, proc = None, gdt = replicate 6 0,
     ts_esp0 = 0, ts_ss0 = 0, task_register = 0, cpu_cr3 = 0\<rparr>"

theorem push_cli_pop_cli_nest_witness:
  "\<exists>d e. repeat_res 3 push_cli cpu0 = Inr d \<and> \<not> eflags_if d \<and>
    repeat_res 3 pop_cli d = Inr e \<and> eflags_if e = eflags_if cpu0 \<and> ncli e = ncli cpu0"
  using push_cli_pop_cli_nest [of cpu0 2] by (simp add: wf_cpu_def cpu0_def numeral_3_eq_3 numeral_2_eq_2)

text \<open>a spinlock on one processor.  Taking a free lock succeeds and leaves it held with
  interrupts off; taking it again panics instead of deadlocking; releasing it restores the
  interrupt flag and depth of before; releasing a lock that is not held panics.\<close>

theorem spinlock_protocol:
  assumes "wf_cpu c" "locked lk = 0"
  shows "\<exists>held d e. lock lk c = Inr (held, d) \<and> \<not> eflags_if d \<and>
    lock held d = Inl (Panic ''lock'') \<and>
    unlock held d = Inr (new_lock, e) \<and> eflags_if e = eflags_if c \<and> ncli e = ncli c \<and>
    unlock lk c = Inl (Panic ''unlock'')"
proof -
  let ?held = "\<lparr>locked = 1, owner = True\<rparr>"
  have w: "wf_cpu (pushed c)" "0 < ncli (pushed c)"
    using assms by (simp_all add: wf_cpu_pushed wf_cpu_def)
  have "eflags_if (popped (pushed c)) = eflags_if c" "ncli (popped (pushed c)) = ncli c"
    using assms(1) by (simp_all add: popped_pushed)
  then show ?thesis
    using lock_free [OF assms] lock_taken [OF w(1), of ?held] unlock_held [OF w, of ?held]
      unlock_not_held [OF assms(1), of lk] assms(2)
    by (auto simp: new_lock_def)
qed

theorem spinlock_protocol_witness:
  "\<exists>held d e. lock new_lock cpu0 = Inr (held, d) \<and> \<not> eflags_if d \<and>
    lock held d = Inl (Panic ''lock'') \<and>
    unlock held d = Inr (new_lock, e) \<and> eflags_if e = eflags_if cpu0 \<and> ncli e = ncli cpu0 \<and>
    unlock new_lock cpu0 = Inl (Panic ''unlock'')"
  by (rule spinlock_protocol) (simp_all add: wf_cpu_def cpu0_def new_lock_def)

end
