(* ===== verification/Process.thy ===== *)
theory Process
  imports Vmem Lock
begin

text \<open>
  kernel/process.c with \<open>write_tss\<close> and \<open>uvm_switch\<close> of kernel/memory/vmem.c, and the file
  table part of kernel/fs/file.c that \<open>fork\<close> uses.

  The process table is a list of 64 records; pointers into it are indices.  Control passes
  between the scheduler and the kernel threads of the processes through \<open>swtch\<close>; what a
  saved \<open>Context\<close> stands for is the constructor of \<open>kont\<close> in the process record: the
  code that runs when the thread is switched to again.  \<open>sched_pos\<close> is the loop variable
  \<open>p\<close> of \<open>scheduler\<close>.  The scheduler is in control when \<open>cpu->proc\<close> is null.  Process
  names live in the kernel's memory, behind the rest of their process record.
\<close>

section \<open>State\<close>

datatype procstate =
  PROC_UNUSED | PROC_CREATED | PROC_SLEEPING | PROC_READY | PROC_RUNNING | PROC_ZOMBIE

text \<open>Sleep channels: the null pointer, the address of a process record, or the address of
  another kernel object.\<close>

datatype chan = CNull | CProc nat | CObj u32

datatype kont = KNone | KForkret | KYield bool | KWait bool | KSleep bool | KExit

datatype fdtype = FD_NONE | FD_PIPE | FD_INODE

record File =
  f_ino :: "nat option"
  f_pipe :: u32
  f_offset :: u32
  f_type :: fdtype
  f_nref :: int
  f_readable :: bool
  f_writable :: bool

record process =
  psize :: u32
  pgdir :: u32
  kstack :: u32
  pid :: u32
  parent :: "nat option"
  state :: procstate
  trapframe :: u32
  pcontext :: u32
  chan :: chan
  killed :: bool
  ofile :: "nat option list"
  kont :: kont

record kstate =
  mach :: machine
  kmap :: "vmap list"
  kpgdir :: u32
  the_cpu :: cpu
  ptable_lk :: spinlock
  ptable :: "process list"
  nextpid :: int
  proc_init1 :: "nat option"
  ftable :: "File list"
  sched_pos :: nat
  sym_ptable :: u32
  sym_trapret :: u32
  sym_forkret :: u32
  sym_ts :: u32
  sym_init1_begin :: u32
  sym_init1_end :: u32
  sym_init_str :: u32

abbreviation (input) NPROC :: nat where "NPROC \<equiv> 64"
abbreviation (input) NOFILE :: nat where "NOFILE \<equiv> 32"
abbreviation (input) NFILE :: nat where "NFILE \<equiv> 128"
abbreviation (input) KSTACK_SZ :: u32 where "KSTACK_SZ \<equiv> 4096"

text \<open>\<open>struct Process\<close> has 184 bytes, the last 16 of them the name; the table follows the
  12 bytes of its lock.\<close>

definition name_addr :: "nat \<Rightarrow> kstate \<Rightarrow> u32" where
  "name_addr i s = sym_ptable s + 12 + 184 * of_nat i + 168"

definition upd_proc :: "nat \<Rightarrow> (process \<Rightarrow> process) \<Rightarrow> kstate \<Rightarrow> kstate" where
  "upd_proc i f s = s\<lparr>ptable := (ptable s)[i := f (ptable s ! i)]\<rparr>"

definition on_cpu :: "(cpu \<Rightarrow> cpu res) \<Rightarrow> kstate \<Rightarrow> kstate res" where
  "on_cpu f s = rbind (f (the_cpu s)) (\<lambda>c. Inr (s\<lparr>the_cpu := c\<rparr>))"

definition on_mach :: "(machine \<Rightarrow> machine res) \<Rightarrow> kstate \<Rightarrow> kstate res" where
  "on_mach f s = rbind (f (mach s)) (\<lambda>m. Inr (s\<lparr>mach := m\<rparr>))"

definition lock_ptable :: "kstate \<Rightarrow> kstate res" where
  "lock_ptable s = rbind (lock (ptable_lk s) (the_cpu s)) (\<lambda>(l, c). Inr (s\<lparr>ptable_lk := l, the_cpu := c\<rparr>))"

definition unlock_ptable :: "kstate \<Rightarrow> kstate res" where
  "unlock_ptable s = rbind (unlock (ptable_lk s) (the_cpu s)) (\<lambda>(l, c). Inr (s\<lparr>ptable_lk := l, the_cpu := c\<rparr>))"

section \<open>Files\<close>

definition file_allocate :: "kstate \<Rightarrow> nat option \<times> kstate" where
  "file_allocate s =
     (case List.find (\<lambda>i. f_nref (ftable s ! i) = 0) [0..<NFILE] of
        Some i \<Rightarrow> (Some i, s\<lparr>ftable := (ftable s)[i := (ftable s ! i)\<lparr>f_nref := 1\<rparr>]\<rparr>)
      | None \<Rightarrow> (None, s))"

definition file_dup :: "nat \<Rightarrow> kstate \<Rightarrow> kstate res" where
  "file_dup i s =
     (let f = ftable s ! i in
      if f_nref f < 1 then Inl (Panic ''dup_file'')
      else Inr (s\<lparr>ftable := (ftable s)[i := f\<lparr>f_nref := f_nref f + 1\<rparr>]\<rparr>))"

section \<open>Switching address spaces\<close>

definition ptable_init :: "kstate \<Rightarrow> kstate" where
  "ptable_init s = s\<lparr>ptable_lk := new_lock\<rparr>"

definition this_proc :: "kstate \<Rightarrow> (nat option \<times> kstate) res" where
  "this_proc s =
     rbind (on_cpu push_cli s) (\<lambda>s.
     rbind (on_cpu this_cpu s) (\<lambda>s.
       let p = proc (the_cpu s) in
     rbind (on_cpu pop_cli s) (\<lambda>s. Inr (p, s))))"

definition write_tss :: "nat \<Rightarrow> kstate \<Rightarrow> kstate res" where
  "write_tss i s =
     rbind (on_cpu push_cli s) (\<lambda>s.
     rbind (on_cpu this_cpu s) (\<lambda>s.
       let flag = SEG_S 0 OR SEG_P 1 OR SEG_AVL 0 OR SEG_L 0 OR SEG_DB 1 OR SEG_G 0 OR
                  SEG_DPL DPL_K OR SEG_TSS_32_AVL;
           base = sym_ts s;
           limit = 104 - 1;
           c = (the_cpu s)\<lparr>
             gdt := (gdt (the_cpu s))[SEG_TSS := create_descriptor base limit flag],
             ts_ss0 := 0x10,
             ts_esp0 := kstack (ptable s ! i) + KSTACK_SZ,
             task_register := 0x28\<rparr>
       in on_cpu pop_cli (s\<lparr>the_cpu := c\<rparr>)))"

definition uvm_switch :: "nat \<Rightarrow> kstate \<Rightarrow> kstate res" where
  "uvm_switch i s =
     (if kstack (ptable s ! i) = 0 then Inl (Panic ''uvm_switch: no kernel stack'')
      else if pgdir (ptable s ! i) = 0 then Inl (Panic ''uvm_switch: no page table'')
      else
        rbind (on_cpu push_cli s) (\<lambda>s.
        rbind (write_tss i s) (\<lambda>s.
        rbind (this_proc s) (\<lambda>(p, s).
          case p of None \<Rightarrow> Inl OutOfBounds
          | Some q \<Rightarrow>
              on_cpu pop_cli (s\<lparr>the_cpu := (the_cpu s)\<lparr>cpu_cr3 := KA2P (pgdir (ptable s ! q))\<rparr>\<rparr>)))))"

definition kvm_switch1 :: "kstate \<Rightarrow> kstate" where
  "kvm_switch1 s = s\<lparr>the_cpu := (the_cpu s)\<lparr>cpu_cr3 := KA2P (kpgdir s)\<rparr>\<rparr>"

section \<open>Creating and destroying processes\<close>

definition get_unused_process :: "kstate \<Rightarrow> nat option" where
  "get_unused_process s = List.find (\<lambda>i. state (ptable s ! i) = PROC_UNUSED) [1..<NPROC]"

text \<open>\<open>sizeof(TrapFrame)\<close> is 76 and \<open>sizeof(Context)\<close> 20; \<open>eip\<close> is the last word of a context.\<close>

definition setup_process_stack :: "nat \<Rightarrow> kstate \<Rightarrow> bool \<times> kstate" where
  "setup_process_stack i s =
     (let (ks, m) = palloc (mach s);
          s = upd_proc i (\<lambda>p. p\<lparr>kstack := ks\<rparr>) (s\<lparr>mach := m\<rparr>)
      in
        if ks = 0 then (False, upd_proc i (\<lambda>p. p\<lparr>state := PROC_UNUSED\<rparr>) s)
        else
          let sp = ks + KSTACK_SZ - 76;
              tf = sp;
              sp = sp - 4;
              m = store32 (ram (mach s)) sp (sym_trapret s);
              sp = sp - 20;
              m = memset m sp 0 20;
              m = store32 m (sp + 16) (sym_forkret s)
          in (True, upd_proc i (\<lambda>p. p\<lparr>trapframe := tf, pcontext := sp, kont := KForkret\<rparr>)
                      (s\<lparr>mach := (mach s)\<lparr>ram := m\<rparr>\<rparr>)))"

definition allocate_process :: "kstate \<Rightarrow> (nat option \<times> kstate) res" where
  "allocate_process s =
     (if nextpid s > int NPROC then Inl (Panic ''allocate_process: can't allocate more pids'')
      else
        rbind (lock_ptable s) (\<lambda>s.
        case get_unused_process s of
          None \<Rightarrow> rbind (unlock_ptable s) (\<lambda>s. Inr (None, s))
        | Some i \<Rightarrow>
            let s = upd_proc i (\<lambda>p. p\<lparr>state := PROC_CREATED, pid := of_int (nextpid s)\<rparr>) s;
                s = s\<lparr>nextpid := nextpid s + 1\<rparr>
            in rbind (unlock_ptable s) (\<lambda>s.
               let (ok, s) = setup_process_stack i s
               in Inr (if ok then Some i else None, s))))"

definition deallocate_process_unlocked :: "nat \<Rightarrow> kstate \<Rightarrow> kstate res" where
  "deallocate_process_unlocked i s =
     (let s = upd_proc i (\<lambda>p. p\<lparr>psize := 0\<rparr>) s in
      rbind (if pgdir (ptable s ! i) \<noteq> 0
             then rbind (on_mach (vmfree (pgdir (ptable s ! i))) s) (\<lambda>s.
                  Inr (upd_proc i (\<lambda>p. p\<lparr>pgdir := 0\<rparr>) s))
             else Inr s) (\<lambda>s.
      rbind (if kstack (ptable s ! i) \<noteq> 0
             then on_mach (pfree (kstack (ptable s ! i))) s
             else Inr s) (\<lambda>s.
      Inr (let s = upd_proc i (\<lambda>p. p\<lparr>kstack := 0, pid := 0, parent := None, state := PROC_UNUSED,
                 trapframe := 0, pcontext := 0, chan := CNull, killed := False, kont := KNone\<rparr>) s
           in s\<lparr>mach := (mach s)\<lparr>ram := memset (ram (mach s)) (name_addr i s) 0 16\<rparr>\<rparr>))))"

text \<open>The fields of a trap frame by their offsets; the segment registers are 16-bit stores
  into zeroed words.\<close>

definition set_pid1_trapframe :: "nat \<Rightarrow> kstate \<Rightarrow> kstate" where
  "set_pid1_trapframe i s =
     (let tf = trapframe (ptable s ! i);
          m = memset (ram (mach s)) tf 0 76;
          m = store32 m (tf + 60) 0x1b;
          m = store32 m (tf + 44) 0x23;
          m = store32 m (tf + 40) 0x23;
          m = store32 m (tf + 72) 0x23;
          m = store32 m (tf + 64) 0x200;
          m = store32 m (tf + 68) PAGE_SZ;
          m = store32 m (tf + 56) 0
      in s\<lparr>mach := (mach s)\<lparr>ram := m\<rparr>\<rparr>)"

definition init_pid1 :: "kstate \<Rightarrow> kstate res" where
  "init_pid1 s =
     rbind (allocate_process s) (\<lambda>(r, s).
     case r of None \<Rightarrow> Inl (Panic ''init_pid1: failed to allocate process'')
     | Some i \<Rightarrow>
         rbind (kvm_allocate (kmap s) (mach s)) (\<lambda>(ok, pd, m).
         let s = upd_proc i (\<lambda>p. p\<lparr>pgdir := pd\<rparr>) (s\<lparr>mach := m\<rparr>) in
         if \<not> ok then Inl (Panic ''init_pid1'')
         else
           rbind (on_mach (uvm_init1 pd (sym_init1_begin s) (sym_init1_end s - sym_init1_begin s)) s) (\<lambda>s.
           let s = upd_proc i (\<lambda>p. p\<lparr>psize := PAGE_SZ\<rparr>) s;
               s = set_pid1_trapframe i s;
               s = s\<lparr>mach := (mach s)\<lparr>ram := strncpy (ram (mach s)) (name_addr i s) (sym_init_str s) 16\<rparr>\<rparr>
           in rbind (lock_ptable s) (\<lambda>s.
              unlock_ptable ((upd_proc i (\<lambda>p. p\<lparr>state := PROC_READY\<rparr>) s)\<lparr>proc_init1 := Some i\<rparr>)))))"

definition grow_process :: "int \<Rightarrow> kstate \<Rightarrow> (int \<times> kstate) res" where
  "grow_process n s =
     (if n = 0 then Inr (0, s)
      else
        rbind (this_proc s) (\<lambda>(p, s).
        case p of None \<Rightarrow> Inl OutOfBounds
        | Some i \<Rightarrow>
            let sz = psize (ptable s ! i); pd = pgdir (ptable s ! i) in
            rbind ((if n > 0 then uvm_allocate pd sz (sz + of_int n) else uvm_deallocate pd sz (sz + of_int n))
                     (mach s)) (\<lambda>(sz, m).
            let s = s\<lparr>mach := m\<rparr> in
            if sz = 0 then Inr (- 1, s)
            else rbind (uvm_switch i (upd_proc i (\<lambda>p. p\<lparr>psize := sz\<rparr>) s)) (\<lambda>s. Inr (0, s)))))"

text \<open>\<open>*child->trapframe = *thisp->trapframe\<close> is a copy of 76 bytes; \<open>eax\<close> is at offset 28.\<close>

fun dup_files :: "nat option list \<Rightarrow> kstate \<Rightarrow> kstate res" where
  "dup_files [] s = Inr s"
| "dup_files (None # fs) s = dup_files fs s"
| "dup_files (Some f # fs) s = rbind (file_dup f s) (dup_files fs)"

definition merge_files :: "nat option list \<Rightarrow> nat option list \<Rightarrow> nat option list" where
  "merge_files old new = map (\<lambda>(o1, n). case n of None \<Rightarrow> o1 | Some f \<Rightarrow> Some f) (zip old new)"

definition fork :: "kstate \<Rightarrow> (int \<times> kstate) res" where
  "fork s =
     rbind (this_proc s) (\<lambda>(tp, s).
     case tp of None \<Rightarrow> Inl OutOfBounds
     | Some me \<Rightarrow>
       rbind (allocate_process s) (\<lambda>(c, s).
       case c of None \<Rightarrow> Inr (- 1, s)
       | Some ch \<Rightarrow>
         rbind (uvm_copy (kmap s) (pgdir (ptable s ! me)) (psize (ptable s ! me)) (mach s)) (\<lambda>(pd, m).
         let s = s\<lparr>mach := m\<rparr> in
         case pd of
           None \<Rightarrow> rbind (deallocate_process_unlocked ch s) (\<lambda>s. Inr (- 1, s))
         | Some d \<Rightarrow>
             let s = upd_proc ch (\<lambda>p. p\<lparr>pgdir := d, psize := psize (ptable s ! me), parent := Some me\<rparr>) s;
                 tf = trapframe (ptable s ! ch);
                 m = memmove (ram (mach s)) tf (trapframe (ptable s ! me)) 76;
                 m = store32 m (tf + 28) 0;
                 s = s\<lparr>mach := (mach s)\<lparr>ram := m\<rparr>\<rparr>
             in
               rbind (dup_files (ofile (ptable s ! me)) s) (\<lambda>s.
               let s = upd_proc ch (\<lambda>p. p\<lparr>ofile := merge_files (ofile p) (ofile (ptable s ! me))\<rparr>) s;
                   s = s\<lparr>mach := (mach s)\<lparr>ram := strncpy (ram (mach s)) (name_addr ch s) (name_addr me s) 16\<rparr>\<rparr>
               in
                 rbind (lock_ptable s) (\<lambda>s.
                 rbind (unlock_ptable (upd_proc ch (\<lambda>p. p\<lparr>state := PROC_READY\<rparr>) s)) (\<lambda>s.
                 Inr (sint (pid (ptable s ! ch)), s)))))))"

section \<open>Sleeping, waking and scheduling\<close>

definition wakeup_unlocked :: "chan \<Rightarrow> kstate \<Rightarrow> kstate" where
  "wakeup_unlocked ch s =
     s\<lparr>ptable := map (\<lambda>p. if state p = PROC_SLEEPING \<and> chan p = ch then p\<lparr>state := PROC_READY\<rparr> else p)
                   (ptable s)\<rparr>"

definition wakeup :: "chan \<Rightarrow> kstate \<Rightarrow> kstate res" where
  "wakeup ch s = rbind (lock_ptable s) (\<lambda>s. unlock_ptable (wakeup_unlocked ch s))"

text \<open>\<open>sched\<close> up to and including its \<open>swtch\<close>, which continues in \<open>scheduler\<close> after the
  \<open>swtch\<close> there: kernel page table, no current process, next slot.  The value of \<open>int_on\<close>
  that the thread puts back when it runs again goes into its continuation.\<close>

definition sched :: "(bool \<Rightarrow> kont) \<Rightarrow> kstate \<Rightarrow> kstate res" where
  "sched k s =
     rbind (this_proc s) (\<lambda>(p, s).
     rbind (holding (ptable_lk s) (the_cpu s)) (\<lambda>(h, c).
       let s = s\<lparr>the_cpu := c\<rparr> in
       if \<not> h then Inl (Panic ''sched: ptable.lk'')
       else
     rbind (on_cpu this_cpu s) (\<lambda>s.
       if ncli (the_cpu s) \<noteq> 1 then Inl (Panic ''sched: locks'')
       else
         case p of None \<Rightarrow> Inl OutOfBounds
         | Some i \<Rightarrow>
             if state (ptable s ! i) = PROC_RUNNING then Inl (Panic ''sched: running'')
             else if eflags_if (the_cpu s) then Inl (Panic ''sched: interruptible'')
             else
               let s = upd_proc i (\<lambda>p. p\<lparr>kont := k (int_on (the_cpu s))\<rparr>) s;
                   s = kvm_switch1 s
               in Inr (s\<lparr>the_cpu := (the_cpu s)\<lparr>proc := None\<rparr>, sched_pos := sched_pos s + 1\<rparr>))))"

definition yield :: "kstate \<Rightarrow> kstate res" where
  "yield s =
     rbind (lock_ptable s) (\<lambda>s.
     rbind (this_proc s) (\<lambda>(p, s).
       case p of None \<Rightarrow> Inl OutOfBounds
       | Some i \<Rightarrow> sched KYield (upd_proc i (\<lambda>p. p\<lparr>state := PROC_READY\<rparr>) s)))"

text \<open>\<open>sleep(chan, lk)\<close> for a lock other than the process table's: the argument is the lock's
  value; the result has the value it was left with.\<close>

definition sleep :: "chan \<Rightarrow> spinlock \<Rightarrow> kstate \<Rightarrow> (spinlock \<times> kstate) res" where
  "sleep ch lk s =
     rbind (this_proc s) (\<lambda>(p, s).
     case p of None \<Rightarrow> Inl (Panic ''sleep'')
     | Some i \<Rightarrow>
         rbind (lock_ptable s) (\<lambda>s.
         rbind (unlock lk (the_cpu s)) (\<lambda>(lk, c).
         let s = upd_proc i (\<lambda>p. p\<lparr>chan := ch, state := PROC_SLEEPING\<rparr>) (s\<lparr>the_cpu := c\<rparr>) in
         rbind (sched KSleep s) (\<lambda>s. Inr (lk, s)))))"

text \<open>\<open>sleep(chan, &ptable.lk)\<close>, as \<open>wait\<close> calls it.\<close>

definition sleep_ptable :: "chan \<Rightarrow> kstate \<Rightarrow> kstate res" where
  "sleep_ptable ch s =
     rbind (this_proc s) (\<lambda>(p, s).
     case p of None \<Rightarrow> Inl (Panic ''sleep'')
     | Some i \<Rightarrow> sched KWait (upd_proc i (\<lambda>p. p\<lparr>chan := ch, state := PROC_SLEEPING\<rparr>) s))"

definition reparent :: "nat \<Rightarrow> nat \<Rightarrow> kstate \<Rightarrow> kstate" where
  "reparent me i s =
     (if parent (ptable s ! i) = Some me
      then
        let s = upd_proc i (\<lambda>p. p\<lparr>parent := proc_init1 s\<rparr>) s in
        if state (ptable s ! i) = PROC_ZOMBIE
        then wakeup_unlocked (case proc_init1 s of None \<Rightarrow> CNull | Some j \<Rightarrow> CProc j) s else s
      else s)"

definition exit_proc :: "kstate \<Rightarrow> kstate res" where
  "exit_proc s =
     rbind (this_proc s) (\<lambda>(p, s).
     if p = proc_init1 s then Inl (Panic ''init 1 is exiting'')
     else
       case p of None \<Rightarrow> Inl OutOfBounds
       | Some me \<Rightarrow>
           rbind (lock_ptable s) (\<lambda>s.
           let s = wakeup_unlocked (case parent (ptable s ! me) of None \<Rightarrow> CNull | Some j \<Rightarrow> CProc j) s;
               s = fold (reparent me) [0..<NPROC] s;
               s = upd_proc me (\<lambda>p. p\<lparr>state := PROC_ZOMBIE\<rparr>) s
           in sched (\<lambda>_. KExit) s))"

text \<open>One pass of the loop of \<open>wait\<close>, with the table locked: it returns the pid of a reaped
  child, \<open>- 1\<close>, or nothing when the caller went to sleep.\<close>

definition wait_pass :: "nat \<Rightarrow> kstate \<Rightarrow> (int option \<times> kstate) res" where
  "wait_pass me s =
     (case List.find (\<lambda>i. parent (ptable s ! i) = Some me \<and> state (ptable s ! i) = PROC_ZOMBIE) [0..<NPROC] of
        Some i \<Rightarrow>
          let r = sint (pid (ptable s ! i)) in
          rbind (deallocate_process_unlocked i s) (\<lambda>s.
          rbind (unlock_ptable s) (\<lambda>s. Inr (Some r, s)))
      | None \<Rightarrow>
          if \<not> (\<exists>i \<in> set [0..<NPROC]. parent (ptable s ! i) = Some me)
          then rbind (unlock_ptable s) (\<lambda>s. Inr (Some (- 1), s))
          else if killed (ptable s ! me)
          then rbind (unlock_ptable s) (\<lambda>s. Inr (Some (- 1), s))
          else rbind (sleep_ptable (CProc me) s) (\<lambda>s. Inr (None, s)))"

definition wait :: "kstate \<Rightarrow> (int option \<times> kstate) res" where
  "wait s =
     rbind (this_proc s) (\<lambda>(p, s).
     case p of None \<Rightarrow> Inl OutOfBounds
     | Some me \<Rightarrow> rbind (lock_ptable s) (wait_pass me))"

text \<open>What a thread does when it is switched to again.\<close>

definition forkret :: "kstate \<Rightarrow> kstate res" where
  "forkret s = unlock_ptable s"

definition resume :: "nat \<Rightarrow> kstate \<Rightarrow> kstate res" where
  "resume i s =
     (case kont (ptable s ! i) of
        KNone \<Rightarrow> Inl OutOfBounds
      | KForkret \<Rightarrow> forkret s
      | KYield b \<Rightarrow> unlock_ptable (s\<lparr>the_cpu := (the_cpu s)\<lparr>int_on := b\<rparr>\<rparr>)
      | KSleep b \<Rightarrow>
          unlock_ptable (upd_proc i (\<lambda>p. p\<lparr>chan := CNull\<rparr>) (s\<lparr>the_cpu := (the_cpu s)\<lparr>int_on := b\<rparr>\<rparr>))
      | KWait b \<Rightarrow>
          rbind (wait_pass i (upd_proc i (\<lambda>p. p\<lparr>chan := CNull\<rparr>) (s\<lparr>the_cpu := (the_cpu s)\<lparr>int_on := b\<rparr>\<rparr>)))
            (\<lambda>(_, s). Inr s)
      | KExit \<Rightarrow> Inl (Panic ''zombie exit''))"

text \<open>One round of the scheduler's loops: the end of a pass over the table, a slot that is
  not ready, or a switch to a ready process, which then runs up to its next return to the
  scheduler or to its own code.\<close>

definition scheduler_step :: "kstate \<Rightarrow> kstate res" where
  "scheduler_step s =
     (if sched_pos s < NPROC
      then
        let i = sched_pos s in
        if state (ptable s ! i) \<noteq> PROC_READY then Inr (s\<lparr>sched_pos := i + 1\<rparr>)
        else
          rbind (uvm_switch i (s\<lparr>the_cpu := (the_cpu s)\<lparr>proc := Some i\<rparr>\<rparr>)) (\<lambda>s.
          resume i (upd_proc i (\<lambda>p. p\<lparr>state := PROC_RUNNING\<rparr>) s))
      else
        rbind (unlock_ptable s) (\<lambda>s.
        rbind (lock_ptable (s\<lparr>the_cpu := (the_cpu s)\<lparr>eflags_if := True\<rparr>\<rparr>)) (\<lambda>s.
        Inr (s\<lparr>sched_pos := 0\<rparr>))))"

definition scheduler_start :: "kstate \<Rightarrow> kstate res" where
  "scheduler_start s =
     rbind (on_cpu this_cpu s) (\<lambda>s.
     let c = (the_cpu s)\<lparr>proc := None\<rparr> in
     rbind (lock_ptable (s\<lparr>the_cpu := c\<lparr>eflags_if := True\<rparr>\<rparr>)) (\<lambda>s.
     Inr (s\<lparr>sched_pos := 0\<rparr>)))"

end
