(* ===== verification/Process_Inv.thy ===== *)
theory Process_Inv
  imports Process
begin

text \<open>
  Invariants of the process table and the scheduler (kernel/process.c).  \<open>kstep\<close> is the
  system as a state machine: the scheduler, or an operation of the running process that
  returned.  \<open>kinv\<close> holds in every reachable state: one process at most is running and it
  is the processor's current one, the table lock is held exactly while the scheduler is in
  control, process identifiers are unique, init is never a zombie, and whatever is ready or
  asleep has a kernel stack, a page directory and a continuation that may be resumed.
\<close>

section \<open>Effects of the helpers\<close>

abbreviation (input) held_lock :: spinlock where
  "held_lock \<equiv> \<lparr>locked = 1, owner = True\<rparr>"

lemma on_cpu_Inr: "on_cpu f s = Inr t \<longleftrightarrow> (\<exists>c. f (the_cpu s) = Inr c \<and> t = s\<lparr>the_cpu := c\<rparr>)"
  by (auto simp: on_cpu_def res_iff)

lemma on_mach_Inr: "on_mach f s = Inr t \<longleftrightarrow> (\<exists>m. f (mach s) = Inr m \<and> t = s\<lparr>mach := m\<rparr>)"
  by (auto simp: on_mach_def res_iff)

lemma lock_ptable_eq:
  "wf_cpu (the_cpu s) \<Longrightarrow> ptable_lk s = new_lock \<Longrightarrow>
     lock_ptable s = Inr (s\<lparr>ptable_lk := held_lock, the_cpu := pushed (the_cpu s)\<rparr>)"
  by (simp add: lock_ptable_def lock_free new_lock_def)

lemma unlock_ptable_eq:
  "wf_cpu (the_cpu s) \<Longrightarrow> 0 < ncli (the_cpu s) \<Longrightarrow> ptable_lk s = held_lock \<Longrightarrow>
     unlock_ptable s = Inr (s\<lparr>ptable_lk := new_lock, the_cpu := popped (the_cpu s)\<rparr>)"
  by (simp add: unlock_ptable_def unlock_held new_lock_def)

lemma this_proc_eq:
  assumes "wf_cpu (the_cpu s)"
  shows "this_proc s = Inr (proc (the_cpu s), s\<lparr>the_cpu := popped (pushed (the_cpu s))\<rparr>)"
proof -
  have "0 < ncli (pushed (the_cpu s))" using assms by (simp add: wf_cpu_def)
  then show ?thesis
    using pop_cli_eq [of "pushed (the_cpu s)"]
    by (simp add: this_proc_def on_cpu_def push_cli_eq this_cpu_def)
qed

lemma wf_cpu_popped_pushed: "wf_cpu c \<Longrightarrow> wf_cpu (popped (pushed c))"
  by (simp add: popped_pushed wf_cpu_def)

lemma ncli_popped [simp]: "ncli (popped c) = ncli c - 1"
  by (simp add: popped_def)

lemma upd_proc_sel [simp]:
  "mach (upd_proc i f s) = mach s" "kmap (upd_proc i f s) = kmap s" "the_cpu (upd_proc i f s) = the_cpu s"
  "ptable_lk (upd_proc i f s) = ptable_lk s" "nextpid (upd_proc i f s) = nextpid s"
  "proc_init1 (upd_proc i f s) = proc_init1 s" "ftable (upd_proc i f s) = ftable s"
  "sched_pos (upd_proc i f s) = sched_pos s" "kpgdir (upd_proc i f s) = kpgdir s"
  "ptable (upd_proc i f s) = (ptable s)[i := f (ptable s ! i)]"
  by (simp_all add: upd_proc_def)

section \<open>The table\<close>

definition can_run :: "process \<Rightarrow> bool" where
  "can_run p \<longleftrightarrow> kstack p \<noteq> 0 \<and> pgdir p \<noteq> 0"

definition can_resume :: "process \<Rightarrow> bool" where
  "can_resume p \<longleftrightarrow> can_run p \<and> kont p \<noteq> KNone \<and> kont p \<noteq> KExit"

definition proc_ok :: "process \<Rightarrow> bool" where
  "proc_ok p \<longleftrightarrow>
     (state p \<in> {PROC_READY, PROC_SLEEPING} \<longrightarrow> can_resume p) \<and>
     (state p = PROC_RUNNING \<longrightarrow> can_run p) \<and>
     (\<forall>j. parent p = Some j \<longrightarrow> j < NPROC)"

definition pids_ok :: "process list \<Rightarrow> int \<Rightarrow> bool" where
  "pids_ok T np \<longleftrightarrow>
     1 \<le> np \<and> np \<le> int NPROC + 1 \<and>
     (\<forall>i < NPROC. state (T ! i) \<noteq> PROC_UNUSED \<longrightarrow> 1 \<le> uint (pid (T ! i)) \<and> uint (pid (T ! i)) < np) \<and>
     (\<forall>i < NPROC. \<forall>j < NPROC. i \<noteq> j \<and> state (T ! i) \<noteq> PROC_UNUSED \<and> state (T ! j) \<noteq> PROC_UNUSED \<longrightarrow>
        pid (T ! i) \<noteq> pid (T ! j))"

definition init_ok :: "process list \<Rightarrow> nat option \<Rightarrow> bool" where
  "init_ok T i1 \<longleftrightarrow>
     (\<forall>j. i1 = Some j \<longrightarrow> j < NPROC \<and> state (T ! j) \<noteq> PROC_UNUSED \<and> state (T ! j) \<noteq> PROC_ZOMBIE)"

definition running_ok :: "process list \<Rightarrow> nat option \<Rightarrow> bool" where
  "running_ok T p \<longleftrightarrow>
     (\<forall>i < NPROC. state (T ! i) = PROC_RUNNING \<longleftrightarrow> p = Some i) \<and> (\<forall>i. p = Some i \<longrightarrow> i < NPROC)"

definition table_ok :: "kstate \<Rightarrow> bool" where
  "table_ok s \<longleftrightarrow>
     length (ptable s) = NPROC \<and> (\<forall>i < NPROC. proc_ok (ptable s ! i)) \<and>
     pids_ok (ptable s) (nextpid s) \<and> init_ok (ptable s) (proc_init1 s)"

text \<open>The scheduler's critical section, and the code of a process outside of any.\<close>

definition in_sched :: "kstate \<Rightarrow> bool" where
  "in_sched s \<longleftrightarrow>
     proc (the_cpu s) = None \<and> ptable_lk s = held_lock \<and> ncli (the_cpu s) = 1 \<and> \<not> eflags_if (the_cpu s)"

definition in_proc :: "nat \<Rightarrow> kstate \<Rightarrow> bool" where
  "in_proc i s \<longleftrightarrow> proc (the_cpu s) = Some i \<and> ptable_lk s = new_lock \<and> ncli (the_cpu s) = 0"

definition kinv :: "kstate \<Rightarrow> bool" where
  "kinv s \<longleftrightarrow>
     table_ok s \<and> running_ok (ptable s) (proc (the_cpu s)) \<and>
     (in_sched s \<or> (\<exists>i. in_proc i s))"

text \<open>Inside a critical section of process \<open>i\<close>: the table locked once, nothing else.\<close>

definition in_crit :: "nat \<Rightarrow> kstate \<Rightarrow> bool" where
  "in_crit i s \<longleftrightarrow>
     proc (the_cpu s) = Some i \<and> ptable_lk s = held_lock \<and> ncli (the_cpu s) = 1 \<and> \<not> eflags_if (the_cpu s)"

lemma in_crit_wf: "in_crit i s \<Longrightarrow> wf_cpu (the_cpu s)"
  by (simp add: in_crit_def wf_cpu_def)

lemma in_sched_wf: "in_sched s \<Longrightarrow> wf_cpu (the_cpu s)"
  by (simp add: in_sched_def wf_cpu_def)

lemma in_proc_wf: "in_proc i s \<Longrightarrow> wf_cpu (the_cpu s)"
  by (simp add: in_proc_def wf_cpu_def)

lemma lock_in_proc:
  assumes "in_proc i s"
  shows "\<exists>c. lock_ptable s = Inr (s\<lparr>ptable_lk := held_lock, the_cpu := c\<rparr>) \<and>
    in_crit i (s\<lparr>ptable_lk := held_lock, the_cpu := c\<rparr>)"
  using assms lock_ptable_eq [OF in_proc_wf [OF assms]]
  by (auto simp: in_proc_def in_crit_def)

lemma unlock_in_crit:
  assumes "in_crit i s"
  shows "\<exists>c. unlock_ptable s = Inr (s\<lparr>ptable_lk := new_lock, the_cpu := c\<rparr>) \<and>
    in_proc i (s\<lparr>ptable_lk := new_lock, the_cpu := c\<rparr>)"
  using assms unlock_ptable_eq [OF in_crit_wf [OF assms]]
  by (auto simp: in_proc_def in_crit_def)

lemma this_proc_in_proc:
  assumes "in_proc i s"
  shows "\<exists>c. this_proc s = Inr (Some i, s\<lparr>the_cpu := c\<rparr>) \<and> in_proc i (s\<lparr>the_cpu := c\<rparr>)"
  using assms this_proc_eq [OF in_proc_wf [OF assms]] by (auto simp: in_proc_def)

lemma this_proc_in_crit:
  assumes "in_crit i s"
  shows "this_proc s = Inr (Some i, s)"
  using assms this_proc_eq [OF in_crit_wf [OF assms]] popped_pushed_nested [OF _ in_crit_wf [OF assms]]
  by (auto simp: in_crit_def)

lemma kinv_table_cong:
  assumes "ptable t = ptable s" "nextpid t = nextpid s" "proc_init1 t = proc_init1 s"
  shows "table_ok t = table_ok s"
  using assms by (simp add: table_ok_def)

text \<open>Changes that keep every process's identifier and whether its slot is in use.\<close>

lemma table_ok_pointwise:
  assumes "table_ok s" "length (ptable t) = NPROC" "nextpid t = nextpid s" "proc_init1 t = proc_init1 s"
    and pw: "\<And>j. j < NPROC \<Longrightarrow> proc_ok (ptable t ! j) \<and> pid (ptable t ! j) = pid (ptable s ! j) \<and>
      (state (ptable t ! j) = PROC_UNUSED \<longleftrightarrow> state (ptable s ! j) = PROC_UNUSED) \<and>
      (proc_init1 s = Some j \<longrightarrow> state (ptable t ! j) \<noteq> PROC_ZOMBIE)"
  shows "table_ok t"
proof -
  have pids: "pids_ok (ptable s) (nextpid s)" and init: "init_ok (ptable s) (proc_init1 s)"
    using assms(1) by (simp_all add: table_ok_def)
  have "pids_ok (ptable t) (nextpid t)"
    unfolding pids_ok_def assms(3)
  proof (intro conjI allI impI)
    show "1 \<le> nextpid s" "nextpid s \<le> int NPROC + 1" using pids by (simp_all add: pids_ok_def)
    fix j
    assume j: "j < NPROC" "state (ptable t ! j) \<noteq> PROC_UNUSED"
    then show "1 \<le> uint (pid (ptable t ! j))" "uint (pid (ptable t ! j)) < nextpid s"
      using pw [OF j(1)] pids by (simp_all add: pids_ok_def)
  next
    fix j k
    assume j: "j < NPROC" "k < NPROC"
      "j \<noteq> k \<and> state (ptable t ! j) \<noteq> PROC_UNUSED \<and> state (ptable t ! k) \<noteq> PROC_UNUSED"
    then show "pid (ptable t ! j) \<noteq> pid (ptable t ! k)"
      using pw [OF j(1)] pw [OF j(2)] pids by (simp add: pids_ok_def)
  qed
  moreover have "init_ok (ptable t) (proc_init1 t)"
    using init pw by (auto simp: init_ok_def assms(4))
  ultimately show ?thesis using assms(2) pw by (simp add: table_ok_def)
qed

lemma table_ok_upd:
  assumes "table_ok s" "i < NPROC" "proc_ok (f (ptable s ! i))" "pid (f (ptable s ! i)) = pid (ptable s ! i)"
    and "state (f (ptable s ! i)) = PROC_UNUSED \<longleftrightarrow> state (ptable s ! i) = PROC_UNUSED"
    and "proc_init1 s = Some i \<Longrightarrow> state (f (ptable s ! i)) \<noteq> PROC_ZOMBIE"
  shows "table_ok (upd_proc i f s)"
proof (rule table_ok_pointwise [OF assms(1)])
  have len: "length (ptable s) = NPROC" and pr: "j < NPROC \<Longrightarrow> proc_ok (ptable s ! j)"
    and init: "proc_init1 s = Some j \<Longrightarrow> state (ptable s ! j) \<noteq> PROC_ZOMBIE" for j
    using assms(1) by (auto simp: table_ok_def init_ok_def)
  show "length (ptable (upd_proc i f s)) = NPROC" using len by simp
  fix j
  assume "j < NPROC"
  then show "proc_ok (ptable (upd_proc i f s) ! j) \<and> pid (ptable (upd_proc i f s) ! j) = pid (ptable s ! j) \<and>
      (state (ptable (upd_proc i f s) ! j) = PROC_UNUSED \<longleftrightarrow> state (ptable s ! j) = PROC_UNUSED) \<and>
      (proc_init1 s = Some j \<longrightarrow> state (ptable (upd_proc i f s) ! j) \<noteq> PROC_ZOMBIE)"
    using assms(2-6) len pr init by (cases "j = i") auto
qed simp_all

lemma table_ok_cong:
  "ptable t = ptable s \<Longrightarrow> nextpid t = nextpid s \<Longrightarrow> proc_init1 t = proc_init1 s \<Longrightarrow> table_ok t = table_ok s"
  by (simp add: table_ok_def)

lemma table_ok_frame [simp]:
  "table_ok (s\<lparr>the_cpu := c\<rparr>) = table_ok s" "table_ok (s\<lparr>ptable_lk := l\<rparr>) = table_ok s"
  "table_ok (s\<lparr>mach := m\<rparr>) = table_ok s" "table_ok (s\<lparr>sched_pos := n\<rparr>) = table_ok s"
  "table_ok (s\<lparr>ftable := f\<rparr>) = table_ok s"
  by (simp_all add: table_ok_def)

lemma table_okD:
  assumes "table_ok s"
  shows "length (ptable s) = NPROC" "j < NPROC \<Longrightarrow> proc_ok (ptable s ! j)"
    "proc_init1 s = Some j \<Longrightarrow> j < NPROC \<and> state (ptable s ! j) \<noteq> PROC_UNUSED \<and> state (ptable s ! j) \<noteq> PROC_ZOMBIE"
    "pids_ok (ptable s) (nextpid s)"
  using assms by (auto simp: table_ok_def init_ok_def)

section \<open>Going back to the scheduler\<close>

text \<open>\<open>sched\<close> in a critical section of process \<open>i\<close>, after its state was changed.\<close>

lemma sched_ok:
  assumes "in_crit i s" "i < NPROC" "state (ptable s ! i) \<noteq> PROC_RUNNING"
  shows "\<exists>c. sched k s = Inr ((upd_proc i (\<lambda>p. p\<lparr>kont := k (int_on (the_cpu s))\<rparr>) s)
      \<lparr>the_cpu := c, sched_pos := sched_pos s + 1\<rparr>) \<and> proc c = None \<and> ncli c = 1 \<and> \<not> eflags_if c"
proof -
  have wf: "wf_cpu (the_cpu s)" "0 < ncli (the_cpu s)" using assms(1) by (simp_all add: in_crit_def wf_cpu_def)
  have "holding (ptable_lk s) (the_cpu s) = Inr (True, the_cpu s)"
    using holding_eq [OF wf(1)] popped_pushed_nested [OF wf(2,1)] assms(1) by (simp add: in_crit_def)
  then show ?thesis
    using assms this_proc_in_crit [OF assms(1)]
    by (auto simp: sched_def on_cpu_def this_cpu_def in_crit_def kvm_switch1_def Let_def)
qed

lemma running_ok_leave:
  assumes "running_ok (ptable s) (Some i)" "length (ptable s) = NPROC" "state (f (ptable s ! i)) \<noteq> PROC_RUNNING"
  shows "running_ok (ptable (upd_proc i f s)) None"
  using assms by (auto simp: running_ok_def nth_list_update)

text \<open>How a process gives up the processor: its record is changed by \<open>f\<close> to a state other
  than running and control returns to the scheduler.\<close>

lemma suspend_kinv:
  assumes "in_crit i u" "table_ok u" "running_ok (ptable u) (Some i)" "i < NPROC" "can_run (ptable u ! i)"
    and f: "pid (f (ptable u ! i)) = pid (ptable u ! i)" "parent (f (ptable u ! i)) = parent (ptable u ! i)"
      "kstack (f (ptable u ! i)) = kstack (ptable u ! i)" "pgdir (f (ptable u ! i)) = pgdir (ptable u ! i)"
      "state (f (ptable u ! i)) = st"
    and st: "st \<in> {PROC_READY, PROC_SLEEPING} \<and> (\<forall>b. k b \<noteq> KNone \<and> k b \<noteq> KExit) \<or>
      st = PROC_ZOMBIE \<and> proc_init1 u \<noteq> Some i"
  shows "\<exists>t. sched k (upd_proc i f u) = Inr t \<and> kinv t \<and> in_sched t \<and> state (ptable t ! i) = st \<and>
    sched_pos t = Suc (sched_pos u) \<and> (\<forall>j. j \<noteq> i \<longrightarrow> ptable t ! j = ptable u ! j)"
proof -
  let ?v = "upd_proc i f u"
  let ?g = "\<lambda>p. (f p)\<lparr>kont := k (int_on (the_cpu u))\<rparr>"
  have len: "length (ptable u) = NPROC" using table_okD(1) [OF assms(2)] .
  have run: "state (ptable u ! i) = PROC_RUNNING" using assms(3,4) by (auto simp: running_ok_def)
  have "in_crit i ?v" "state (ptable ?v ! i) \<noteq> PROC_RUNNING"
    using assms(1,4) f(5) st len by (auto simp: in_crit_def)
  then obtain c where c: "sched k ?v = Inr ((upd_proc i (\<lambda>p. p\<lparr>kont := k (int_on (the_cpu ?v))\<rparr>) ?v)
      \<lparr>the_cpu := c, sched_pos := sched_pos ?v + 1\<rparr>)" "proc c = None" "ncli c = 1" "\<not> eflags_if c"
    using sched_ok [OF _ assms(4)] by blast
  have eq: "upd_proc i (\<lambda>p. p\<lparr>kont := k (int_on (the_cpu ?v))\<rparr>) ?v = upd_proc i ?g u"
    using len assms(4) by (simp add: upd_proc_def)
  let ?t = "(upd_proc i ?g u)\<lparr>the_cpu := c, sched_pos := sched_pos u + 1\<rparr>"
  have "table_ok (upd_proc i ?g u)"
    using table_okD(2) [OF assms(2,4)] table_okD(3) [OF assms(2), of i] run assms(5) f st
    by (intro table_ok_upd [OF assms(2,4)]) (auto simp: proc_ok_def can_resume_def can_run_def)
  moreover have "running_ok (ptable (upd_proc i ?g u)) None"
    using running_ok_leave [OF assms(3) len, of ?g] f(5) st by auto
  moreover have "in_sched ?t" using assms(1) c by (simp add: in_sched_def in_crit_def)
  ultimately have "kinv ?t \<and> in_sched ?t" using c by (simp add: kinv_def)
  moreover have "state (ptable ?t ! i) = st" using len assms(4) f(5) by simp
  ultimately show ?thesis using c(1) eq by auto
qed

section \<open>Operations of the running process\<close>

text \<open>Operations that change the table without touching the current process's slot state.\<close>

definition quiet :: "kstate \<Rightarrow> kstate \<Rightarrow> bool" where
  "quiet s t \<longleftrightarrow>
     the_cpu t = the_cpu s \<and> ptable_lk t = ptable_lk s \<and> sched_pos t = sched_pos s \<and>
     nextpid t = nextpid s \<and> proc_init1 t = proc_init1 s \<and> length (ptable t) = length (ptable s) \<and>
     (\<forall>p. running_ok (ptable t) p = running_ok (ptable s) p) \<and> (table_ok s \<longrightarrow> table_ok t) \<and>
     (\<forall>j < NPROC. state (ptable s ! j) \<noteq> PROC_SLEEPING \<longrightarrow>
        state (ptable t ! j) = state (ptable s ! j)) \<and>
     (\<forall>j < NPROC. kont (ptable t ! j) = kont (ptable s ! j) \<and> kstack (ptable t ! j) = kstack (ptable s ! j) \<and>
        pgdir (ptable t ! j) = pgdir (ptable s ! j))"

lemma quiet_refl: "quiet s s"
  by (simp add: quiet_def)

lemma quiet_trans: "quiet s t \<Longrightarrow> quiet t u \<Longrightarrow> quiet s u"
  by (auto simp: quiet_def)

lemma wakeup_quiet: "length (ptable s) = NPROC \<Longrightarrow> quiet s (wakeup_unlocked ch s)"
proof -
  assume len: "length (ptable s) = NPROC"
  let ?t = "wakeup_unlocked ch s"
  have nth: "ptable ?t ! j = (if state (ptable s ! j) = PROC_SLEEPING \<and> chan (ptable s ! j) = ch
      then (ptable s ! j)\<lparr>state := PROC_READY\<rparr> else ptable s ! j)" if "j < NPROC" for j
    using that len by (simp add: wakeup_unlocked_def)
  have "table_ok ?t" if "table_ok s"
  proof (rule table_ok_pointwise [OF that])
    fix j
    assume j: "j < NPROC"
    then show "proc_ok (ptable ?t ! j) \<and> pid (ptable ?t ! j) = pid (ptable s ! j) \<and>
      (state (ptable ?t ! j) = PROC_UNUSED \<longleftrightarrow> state (ptable s ! j) = PROC_UNUSED) \<and>
      (proc_init1 s = Some j \<longrightarrow> state (ptable ?t ! j) \<noteq> PROC_ZOMBIE)"
      using nth [OF j] table_okD(2) [OF that j] table_okD(3) [OF that, of j]
      by (auto simp: proc_ok_def can_resume_def can_run_def)
  qed (use len in \<open>simp_all add: wakeup_unlocked_def\<close>)
  moreover have "running_ok (ptable ?t) p = running_ok (ptable s) p" for p
    using nth by (auto simp: running_ok_def)
  ultimately show ?thesis
    using nth by (simp add: quiet_def wakeup_unlocked_def)
qed

lemma reparent_quiet:
  assumes "table_ok s" "i < NPROC"
  shows "quiet s (reparent me i s)"
proof (cases "parent (ptable s ! i) = Some me")
  case False
  then show ?thesis by (simp add: reparent_def quiet_refl)
next
  case True
  let ?t = "upd_proc i (\<lambda>p. p\<lparr>parent := proc_init1 s\<rparr>) s"
  have len: "length (ptable s) = NPROC" using table_okD(1) [OF assms(1)] .
  have "table_ok ?t"
    using table_okD(2) [OF assms] table_okD(3) [OF assms(1)]
    by (intro table_ok_upd [OF assms]) (auto simp: proc_ok_def can_resume_def can_run_def)
  then have "quiet s ?t"
    using len assms(2) by (auto simp: quiet_def running_ok_def nth_list_update)
  moreover have "length (ptable ?t) = NPROC" using len by simp
  ultimately show ?thesis
    using True quiet_trans wakeup_quiet [of ?t] by (auto simp: reparent_def Let_def)
qed

lemma fold_reparent_quiet:
  "table_ok s \<Longrightarrow> \<forall>i \<in> set is. i < NPROC \<Longrightarrow> quiet s (fold (reparent me) is s)"
proof (induction "is" arbitrary: s)
  case Nil
  then show ?case by (simp add: quiet_refl)
next
  case (Cons i "is")
  then have "quiet s (reparent me i s)" using reparent_quiet by simp
  moreover from this have "table_ok (reparent me i s)" using Cons.prems(1) by (simp add: quiet_def)
  ultimately show ?case using Cons.IH [of "reparent me i s"] Cons.prems(2) quiet_trans by auto
qed

lemma in_crit_quiet: "quiet s t \<Longrightarrow> in_crit i s \<Longrightarrow> in_crit i t"
  by (simp add: quiet_def in_crit_def)

lemma kinv_in_proc:
  assumes "kinv s" "proc (the_cpu s) = Some i"
  shows "in_proc i s" "i < NPROC" "table_ok s" "running_ok (ptable s) (Some i)" "state (ptable s ! i) = PROC_RUNNING"
    "can_run (ptable s ! i)"
proof -
  show "in_proc i s" "table_ok s" "running_ok (ptable s) (Some i)"
    using assms by (auto simp: kinv_def in_sched_def in_proc_def)
  then show "i < NPROC" "state (ptable s ! i) = PROC_RUNNING" by (auto simp: running_ok_def)
  then show "can_run (ptable s ! i)"
    using table_okD(2) [OF \<open>table_ok s\<close>] by (auto simp: proc_ok_def)
qed

lemma enter_crit:
  assumes "kinv s" "proc (the_cpu s) = Some i"
  shows "\<exists>u. lock_ptable s = Inr u \<and> in_crit i u \<and> table_ok u \<and> running_ok (ptable u) (Some i) \<and>
    ptable u = ptable s \<and> proc_init1 u = proc_init1 s \<and> mach u = mach s \<and> sched_pos u = sched_pos s"
  using lock_in_proc [OF kinv_in_proc(1) [OF assms]] kinv_in_proc(3,4) [OF assms] by auto

lemma leave_crit:
  assumes "in_crit i s" "table_ok s" "running_ok (ptable s) (Some i)"
  shows "\<exists>t. unlock_ptable s = Inr t \<and> kinv t \<and> in_proc i t \<and> ptable t = ptable s"
proof -
  obtain c where c: "unlock_ptable s = Inr (s\<lparr>ptable_lk := new_lock, the_cpu := c\<rparr>)"
    "in_proc i (s\<lparr>ptable_lk := new_lock, the_cpu := c\<rparr>)"
    using unlock_in_crit [OF assms(1)] by blast
  then have "proc c = Some i" by (simp add: in_proc_def)
  with c assms show ?thesis by (auto simp: kinv_def)
qed

lemma yield_kinv:
  assumes "kinv s" "proc (the_cpu s) = Some i"
  shows "\<exists>t. yield s = Inr t \<and> kinv t \<and> in_sched t \<and> state (ptable t ! i) = PROC_READY"
proof -
  note K = kinv_in_proc [OF assms]
  obtain u where u: "lock_ptable s = Inr u" "in_crit i u" "table_ok u" "running_ok (ptable u) (Some i)"
    "ptable u = ptable s"
    using enter_crit [OF assms] by blast
  have "yield s = sched KYield (upd_proc i (\<lambda>p. p\<lparr>state := PROC_READY\<rparr>) u)"
    using u(1) this_proc_in_crit [OF u(2)] by (simp add: yield_def)
  then show ?thesis
    using suspend_kinv [OF u(2-4) K(2), of "\<lambda>p. p\<lparr>state := PROC_READY\<rparr>" PROC_READY KYield] K(6) u(5)
    by auto
qed

text \<open>\<open>sleep\<close> is called with one other lock held.\<close>

lemma sleep_kinv:
  assumes "kinv s" "proc (the_cpu s) = Some i" "lock lk (the_cpu s) = Inr (lk', c)"
  shows "\<exists>lk'' t. sleep ch lk' (s\<lparr>the_cpu := c\<rparr>) = Inr (lk'', t) \<and> locked lk'' = 0 \<and> kinv t \<and> in_sched t \<and>
    state (ptable t ! i) = PROC_SLEEPING"
proof -
  note K = kinv_in_proc [OF assms(1,2)]
  have wf: "wf_cpu (the_cpu s)" "ncli (the_cpu s) = 0" using K(1) in_proc_wf by (auto simp: in_proc_def)
  have lk: "lk' = held_lock" "c = pushed (the_cpu s)"
    using assms(3) lock_free [OF wf(1), of lk] lock_taken [OF wf(1), of lk] by (cases "locked lk = 0"; simp)+
  let ?c = "pushed (the_cpu s)"
  have c: "wf_cpu ?c" "ncli ?c = 1" "proc ?c = Some i" using wf assms(2) by (simp_all add: wf_cpu_pushed)
  have p: "this_proc (s\<lparr>the_cpu := ?c\<rparr>) = Inr (Some i, s\<lparr>the_cpu := ?c\<rparr>)"
    using this_proc_eq [of "s\<lparr>the_cpu := ?c\<rparr>"] c popped_pushed_nested [of ?c] by simp
  let ?u = "s\<lparr>ptable_lk := held_lock, the_cpu := pushed ?c\<rparr>"
  have l: "lock_ptable (s\<lparr>the_cpu := ?c\<rparr>) = Inr ?u"
    using lock_ptable_eq [of "s\<lparr>the_cpu := ?c\<rparr>"] c(1) K(1) by (simp add: in_proc_def)
  have un: "unlock held_lock (pushed ?c) = Inr (new_lock, popped (pushed ?c))"
    using unlock_held [OF wf_cpu_pushed [OF c(1)], of held_lock] c(2) by (simp add: new_lock_def)
  have pp: "popped (pushed ?c) = ?c" using popped_pushed_nested [of ?c] c by simp
  let ?v = "?u\<lparr>the_cpu := ?c\<rparr>"
  have crit: "in_crit i ?v" using c by (simp add: in_crit_def)
  have "sleep ch lk' (s\<lparr>the_cpu := c\<rparr>) =
      rbind (sched KSleep (upd_proc i (\<lambda>p. p\<lparr>chan := ch, state := PROC_SLEEPING\<rparr>) ?v)) (\<lambda>s. Inr (new_lock, s))"
    using p l un pp by (simp add: sleep_def lk)
  then show ?thesis
    using suspend_kinv [OF crit _ _ K(2), of "\<lambda>p. p\<lparr>chan := ch, state := PROC_SLEEPING\<rparr>" PROC_SLEEPING KSleep]
      K(3,4,6) by (auto simp: new_lock_def)
qed

lemma exit_kinv:
  assumes "kinv s" "proc (the_cpu s) = Some i" "proc_init1 s \<noteq> Some i"
  shows "\<exists>t. exit_proc s = Inr t \<and> kinv t \<and> in_sched t \<and> state (ptable t ! i) = PROC_ZOMBIE"
proof -
  note K = kinv_in_proc [OF assms(1,2)]
  obtain c where c: "this_proc s = Inr (Some i, s\<lparr>the_cpu := c\<rparr>)" "in_proc i (s\<lparr>the_cpu := c\<rparr>)"
    using this_proc_in_proc [OF K(1)] by blast
  then have "kinv (s\<lparr>the_cpu := c\<rparr>)" using K(3,4) by (auto simp: kinv_def in_proc_def)
  then obtain u where u: "lock_ptable (s\<lparr>the_cpu := c\<rparr>) = Inr u" "in_crit i u" "table_ok u"
    "running_ok (ptable u) (Some i)" "ptable u = ptable s" "proc_init1 u = proc_init1 s"
    using enter_crit [of "s\<lparr>the_cpu := c\<rparr>" i] c(2) by (auto simp: in_proc_def)
  let ?v = "wakeup_unlocked (case parent (ptable u ! i) of None \<Rightarrow> CNull | Some j \<Rightarrow> CProc j) u"
  let ?w = "fold (reparent i) [0..<NPROC] ?v"
  have q1: "quiet u ?v" using wakeup_quiet table_okD(1) [OF u(3)] by blast
  then have "quiet ?v ?w" using fold_reparent_quiet [of ?v "[0..<NPROC]"] u(3) by (auto simp: quiet_def)
  with q1 have q: "quiet u ?w" by (rule quiet_trans)
  have w: "in_crit i ?w" "table_ok ?w" "running_ok (ptable ?w) (Some i)" "proc_init1 ?w = proc_init1 s"
    using in_crit_quiet [OF q u(2)] q u(3-6) by (simp_all add: quiet_def)
  have "can_run (ptable ?w ! i)" using q K(2,6) u(5) by (simp add: quiet_def can_run_def)
  then obtain t where "sched (\<lambda>_. KExit) (upd_proc i (\<lambda>p. p\<lparr>state := PROC_ZOMBIE\<rparr>) ?w) = Inr t"
    "kinv t" "in_sched t" "state (ptable t ! i) = PROC_ZOMBIE"
    using suspend_kinv [OF w(1-3) K(2), of "\<lambda>p. p\<lparr>state := PROC_ZOMBIE\<rparr>" PROC_ZOMBIE "\<lambda>_. KExit"] w(4) assms(3)
    by auto
  then show ?thesis using c(1) u(1) assms(3) by (auto simp: exit_proc_def)
qed

lemma wakeup_kinv:
  assumes "kinv s" "proc (the_cpu s) = Some i"
  shows "\<exists>t. wakeup ch s = Inr t \<and> kinv t \<and> in_proc i t"
proof -
  obtain u where u: "lock_ptable s = Inr u" "in_crit i u" "table_ok u" "running_ok (ptable u) (Some i)"
    using enter_crit [OF assms] by blast
  have q: "quiet u (wakeup_unlocked ch u)" using wakeup_quiet table_okD(1) [OF u(3)] by blast
  then show ?thesis
    using leave_crit [OF in_crit_quiet [OF q u(2)]] u by (auto simp: quiet_def wakeup_def)
qed

section \<open>Creating and destroying\<close>

lemma table_ok_unused:
  assumes "table_ok s" "i < NPROC" "proc_init1 s \<noteq> Some i" "state p = PROC_UNUSED" "parent p = None"
  shows "table_ok (s\<lparr>ptable := (ptable s)[i := p]\<rparr>)"
proof -
  have len: "length (ptable s) = NPROC" using table_okD(1) [OF assms(1)] .
  have nth: "(ptable s)[i := p] ! j = (if j = i then p else ptable s ! j)" if "j < NPROC" for j
    using that len by (simp add: nth_list_update)
  have "pids_ok ((ptable s)[i := p]) (nextpid s)"
    using table_okD(4) [OF assms(1)] assms(4) nth unfolding pids_ok_def by simp
  moreover have "init_ok ((ptable s)[i := p]) (proc_init1 s)"
    using table_okD(3) [OF assms(1)] assms(3) nth by (auto simp: init_ok_def)
  moreover have "proc_ok ((ptable s)[i := p] ! j)" if "j < NPROC" for j
    using that nth assms(4,5) table_okD(2) [OF assms(1)] by (simp add: proc_ok_def)
  ultimately show ?thesis using len by (simp add: table_ok_def)
qed

lemma table_ok_created:
  assumes "table_ok s" "i < NPROC" "state (ptable s ! i) = PROC_UNUSED" "nextpid s \<le> int NPROC"
    and "state p = PROC_CREATED" "pid p = of_int (nextpid s)" "parent p = parent (ptable s ! i)"
  shows "table_ok (s\<lparr>ptable := (ptable s)[i := p], nextpid := nextpid s + 1\<rparr>)"
proof -
  have len: "length (ptable s) = NPROC" using table_okD(1) [OF assms(1)] .
  have nth: "(ptable s)[i := p] ! j = (if j = i then p else ptable s ! j)" if "j < NPROC" for j
    using that len by (simp add: nth_list_update)
  have P: "pids_ok (ptable s) (nextpid s)" using table_okD(4) [OF assms(1)] .
  have u: "uint (pid p) = nextpid s"
    using P assms(4,6) by (simp add: pids_ok_def uint_word_of_int_eq take_bit_eq_mod)
  have "pids_ok ((ptable s)[i := p]) (nextpid s + 1)"
    unfolding pids_ok_def
  proof (intro conjI allI impI)
    show "1 \<le> nextpid s + 1" "nextpid s + 1 \<le> int NPROC + 1" using P assms(4) by (simp_all add: pids_ok_def)
    fix j
    assume j: "j < NPROC" "state ((ptable s)[i := p] ! j) \<noteq> PROC_UNUSED"
    then show "1 \<le> uint (pid ((ptable s)[i := p] ! j))" "uint (pid ((ptable s)[i := p] ! j)) < nextpid s + 1"
      using nth [OF j(1)] u P by (auto simp: pids_ok_def split: if_splits)
  next
    fix j k
    assume j: "j < NPROC" "k < NPROC" "j \<noteq> k \<and> state ((ptable s)[i := p] ! j) \<noteq> PROC_UNUSED \<and>
      state ((ptable s)[i := p] ! k) \<noteq> PROC_UNUSED"
    have "pid (ptable s ! l) \<noteq> pid p \<and> pid p \<noteq> pid (ptable s ! l)"
      if "l < NPROC" "state (ptable s ! l) \<noteq> PROC_UNUSED" for l
      using that P u by (auto simp: pids_ok_def)
    then show "pid ((ptable s)[i := p] ! j) \<noteq> pid ((ptable s)[i := p] ! k)"
      using j nth [OF j(1)] nth [OF j(2)] P by (auto simp: pids_ok_def split: if_splits)
  qed
  moreover have "init_ok ((ptable s)[i := p]) (proc_init1 s)"
    using table_okD(3) [OF assms(1)] assms(3) nth by (auto simp: init_ok_def)
  moreover have "proc_ok ((ptable s)[i := p] ! j)" if "j < NPROC" for j
    using that nth assms(2,5,7) table_okD(2) [OF assms(1)] by (simp add: proc_ok_def)
  ultimately show ?thesis using len by (simp add: table_ok_def)
qed

text \<open>Operations that change one slot of the table and the memory, nothing else.\<close>

definition only_slot :: "nat \<Rightarrow> kstate \<Rightarrow> kstate \<Rightarrow> bool" where
  "only_slot i s t \<longleftrightarrow> (\<exists>p m. t = s\<lparr>ptable := (ptable s)[i := p], mach := m\<rparr>)"

lemma only_slot_refl: "only_slot i s s"
  unfolding only_slot_def by (intro exI [of _ "ptable s ! i"] exI [of _ "mach s"]) simp

lemma only_slot_upd: "only_slot i s t \<Longrightarrow> only_slot i s (upd_proc i f t)"
  unfolding only_slot_def
proof (elim exE)
  fix p m
  assume "t = s\<lparr>ptable := (ptable s)[i := p], mach := m\<rparr>"
  then have "upd_proc i f t = s\<lparr>ptable := (ptable s)[i := f (ptable t ! i)], mach := m\<rparr>"
    by (simp add: upd_proc_def)
  then show "\<exists>p m. upd_proc i f t = s\<lparr>ptable := (ptable s)[i := p], mach := m\<rparr>" by blast
qed

lemma only_slot_mach: "only_slot i s t \<Longrightarrow> only_slot i s (t\<lparr>mach := m\<rparr>)"
  unfolding only_slot_def
proof (elim exE)
  fix p m'
  assume "t = s\<lparr>ptable := (ptable s)[i := p], mach := m'\<rparr>"
  then have "t\<lparr>mach := m\<rparr> = s\<lparr>ptable := (ptable s)[i := p], mach := m\<rparr>" by simp
  then show "\<exists>p ma. t\<lparr>mach := m\<rparr> = s\<lparr>ptable := (ptable s)[i := p], mach := ma\<rparr>" by blast
qed

lemma only_slot_on_mach: "only_slot i s t \<Longrightarrow> on_mach f t = Inr u \<Longrightarrow> only_slot i s u"
  by (auto simp: on_mach_Inr only_slot_mach)

lemma only_slotD:
  assumes "only_slot i s t" "length (ptable s) = NPROC" "i < NPROC"
  shows "\<exists>m. t = s\<lparr>ptable := (ptable s)[i := ptable t ! i], mach := m\<rparr>"
  using assms by (auto simp: only_slot_def)

lemma dealloc_effect:
  assumes "deallocate_process_unlocked i s = Inr t" "length (ptable s) = NPROC" "i < NPROC"
  shows "only_slot i s t" "state (ptable t ! i) = PROC_UNUSED" "parent (ptable t ! i) = None"
proof -
  let ?s0 = "upd_proc i (\<lambda>p. p\<lparr>psize := 0\<rparr>) s"
  let ?clr = "upd_proc i (\<lambda>p. p\<lparr>kstack := 0, pid := 0, parent := None, state := PROC_UNUSED,
                 trapframe := 0, pcontext := 0, chan := CNull, killed := False, kont := KNone\<rparr>)"
  obtain u v where u: "(if pgdir (ptable ?s0 ! i) \<noteq> 0
             then rbind (on_mach (vmfree (pgdir (ptable ?s0 ! i))) ?s0) (\<lambda>s.
                  Inr (upd_proc i (\<lambda>p. p\<lparr>pgdir := 0\<rparr>) s)) else Inr ?s0) = Inr u"
    and v: "(if kstack (ptable u ! i) \<noteq> 0 then on_mach (pfree (kstack (ptable u ! i))) u else Inr u) = Inr v"
    and t: "t = (?clr v)\<lparr>mach := (mach (?clr v))\<lparr>ram := memset (ram (mach (?clr v))) (name_addr i (?clr v)) 0 16\<rparr>\<rparr>"
    using assms(1) unfolding deallocate_process_unlocked_def Let_def rbind_Inr_iff by blast
  have "only_slot i s ?s0" by (rule only_slot_upd [OF only_slot_refl])
  then have "only_slot i s u"
    using u by (auto simp: rbind_Inr_iff split: if_splits intro: only_slot_upd only_slot_on_mach)
  then have sv: "only_slot i s v" using v by (auto split: if_splits intro: only_slot_on_mach)
  then show "only_slot i s t" unfolding t by (intro only_slot_mach only_slot_upd)
  have "length (ptable v) = NPROC" using sv assms(2) by (auto simp: only_slot_def)
  then show "state (ptable t ! i) = PROC_UNUSED" "parent (ptable t ! i) = None"
    using assms(3) by (simp_all add: t)
qed

lemma running_ok_other:
  assumes "running_ok T p" "length T = NPROC" "state q \<noteq> PROC_RUNNING" "p \<noteq> Some i" "i < NPROC"
  shows "running_ok (T[i := q]) p"
  using assms by (auto simp: running_ok_def nth_list_update)

lemma dealloc_table:
  assumes "deallocate_process_unlocked i s = Inr t" "table_ok s" "i < NPROC" "proc_init1 s \<noteq> Some i"
  shows "table_ok t" "the_cpu t = the_cpu s" "ptable_lk t = ptable_lk s" "proc_init1 t = proc_init1 s"
    "sched_pos t = sched_pos s" "j \<noteq> i \<Longrightarrow> ptable t ! j = ptable s ! j" "state (ptable t ! i) = PROC_UNUSED"
    "running_ok (ptable s) q \<Longrightarrow> q \<noteq> Some i \<Longrightarrow> running_ok (ptable t) q"
proof -
  note len = table_okD(1) [OF assms(2)]
  note e = dealloc_effect [OF assms(1) len assms(3)]
  obtain m where m: "t = s\<lparr>ptable := (ptable s)[i := ptable t ! i], mach := m\<rparr>"
    using only_slotD [OF e(1) len assms(3)] by blast
  show "table_ok t"
    using table_ok_unused [OF assms(2-4) e(2,3)] table_ok_frame(3) [of m "s\<lparr>ptable := (ptable s)[i := ptable t ! i]\<rparr>"] m
    by metis
  show "the_cpu t = the_cpu s" "ptable_lk t = ptable_lk s" "proc_init1 t = proc_init1 s" "sched_pos t = sched_pos s"
    by (subst m, simp)+
  show "ptable t ! j = ptable s ! j" if "j \<noteq> i" using that by (subst m) simp
  show "state (ptable t ! i) = PROC_UNUSED" by (rule e(2))
  show "running_ok (ptable t) q" if "running_ok (ptable s) q" "q \<noteq> Some i"
    using running_ok_other [OF that(1) len _ that(2) assms(3), of "ptable t ! i"] e(2) by (subst m) simp
qed

lemma setup_effect:
  assumes "setup_process_stack c w = (ok, t)" "length (ptable w) = NPROC" "c < NPROC"
  shows "only_slot c w t"
    "ok \<Longrightarrow> kstack (ptable t ! c) \<noteq> 0 \<and> kont (ptable t ! c) = KForkret \<and>
       state (ptable t ! c) = state (ptable w ! c) \<and> pid (ptable t ! c) = pid (ptable w ! c) \<and>
       parent (ptable t ! c) = parent (ptable w ! c)"
    "\<not> ok \<Longrightarrow> state (ptable t ! c) = PROC_UNUSED \<and> parent (ptable t ! c) = parent (ptable w ! c)"
proof -
  obtain ks m where p: "palloc (mach w) = (ks, m)" by (cases "palloc (mach w)")
  show "only_slot c w t"
    using assms(1) p unfolding setup_process_stack_def
    by (auto simp: Let_def intro!: only_slot_upd only_slot_mach only_slot_refl split: if_splits)
  show "ok \<Longrightarrow> kstack (ptable t ! c) \<noteq> 0 \<and> kont (ptable t ! c) = KForkret \<and>
       state (ptable t ! c) = state (ptable w ! c) \<and> pid (ptable t ! c) = pid (ptable w ! c) \<and>
       parent (ptable t ! c) = parent (ptable w ! c)"
    "\<not> ok \<Longrightarrow> state (ptable t ! c) = PROC_UNUSED \<and> parent (ptable t ! c) = parent (ptable w ! c)"
    using assms p unfolding setup_process_stack_def by (auto simp: Let_def split: if_splits)
qed

lemma table_ok_slot_freed:
  assumes "table_ok s" "i < NPROC" "state (ptable s ! i) = PROC_CREATED" "proc_init1 s \<noteq> Some i"
    and "state p = PROC_UNUSED" "parent p = parent (ptable s ! i)"
  shows "table_ok (s\<lparr>ptable := (ptable s)[i := p]\<rparr>)"
proof -
  let ?q = "p\<lparr>parent := None\<rparr>"
  have "table_ok (s\<lparr>ptable := (ptable s)[i := ?q]\<rparr>)"
    using table_ok_unused [OF assms(1,2,4), of ?q] assms(5) by simp
  then have "table_ok (upd_proc i (\<lambda>_. p) (s\<lparr>ptable := (ptable s)[i := ?q]\<rparr>))"
    using assms(2,5,6) table_okD(1,2) [OF assms(1)]
    by (intro table_ok_upd) (auto simp: proc_ok_def)
  then show ?thesis by (simp add: upd_proc_def)
qed

lemma allocate_kinv:
  assumes "kinv s" "proc (the_cpu s) = Some i" "allocate_process s = Inr (r, t)"
  shows "kinv t" "proc (the_cpu t) = Some i"
    "r = Some c \<Longrightarrow> 0 < c \<and> c < NPROC \<and> c \<noteq> i \<and> state (ptable t ! c) = PROC_CREATED \<and>
       kstack (ptable t ! c) \<noteq> 0 \<and> kont (ptable t ! c) = KForkret \<and> proc_init1 t \<noteq> Some c"
proof -
  note K = kinv_in_proc [OF assms(1,2)]
  have np: "nextpid s \<le> int NPROC" using assms(3) by (auto simp: allocate_process_def split: if_splits)
  obtain u where u: "lock_ptable s = Inr u" "in_crit i u" "table_ok u" "running_ok (ptable u) (Some i)"
    "ptable u = ptable s" "proc_init1 u = proc_init1 s"
    using enter_crit [OF assms(1,2)] by blast
  have npu: "nextpid u = nextpid s" using u(1) by (auto simp: lock_ptable_def rbind_Inr_iff split: prod.splits)
  have "kinv t \<and> proc (the_cpu t) = Some i \<and>
    (\<forall>c. r = Some c \<longrightarrow> 0 < c \<and> c < NPROC \<and> c \<noteq> i \<and> state (ptable t ! c) = PROC_CREATED \<and>
       kstack (ptable t ! c) \<noteq> 0 \<and> kont (ptable t ! c) = KForkret \<and> proc_init1 t \<noteq> Some c)"
  proof (cases "get_unused_process u")
    case None
    then show ?thesis
      using assms(3) np u(1) leave_crit [OF u(2-4)]
      by (auto simp: allocate_process_def rbind_Inr_iff in_proc_def)
  next
    case (Some c)
    then have c: "0 < c" "c < NPROC" "state (ptable u ! c) = PROC_UNUSED"
      by (auto simp: get_unused_process_def find_Some_iff nth_append dest: nth_mem split: if_splits)
    then have ci: "c \<noteq> i" "proc_init1 u \<noteq> Some c"
      using K(5) u(5) table_okD(3) [OF u(3), of c] by auto
    let ?p = "(ptable u ! c)\<lparr>state := PROC_CREATED, pid := of_int (nextpid u)\<rparr>"
    let ?v = "u\<lparr>ptable := (ptable u)[c := ?p], nextpid := nextpid u + 1\<rparr>"
    have tv: "table_ok ?v" using table_ok_created [OF u(3) c(2,3)] np npu by simp
    have len: "length (ptable u) = NPROC" using table_okD(1) [OF u(3)] .
    have rv: "running_ok (ptable ?v) (Some i)"
      using running_ok_other [OF u(4) len, of ?p c] ci(1) c(2) by simp
    have "in_crit i ?v" using u(2) by (simp add: in_crit_def)
    then obtain w where w: "unlock_ptable ?v = Inr w" "kinv w" "in_proc i w" "ptable w = ptable ?v"
      using leave_crit [OF _ tv rv] by blast
    have iw: "proc_init1 w = proc_init1 u" using w(1) by (auto simp: unlock_ptable_def rbind_Inr_iff split: prod.splits)
    obtain ok t' where st: "setup_process_stack c w = (ok, t')" by (cases "setup_process_stack c w")
    have t: "r = (if ok then Some c else None)" "t = t'"
      using assms(3) np u(1) Some w(1) st by (auto simp: allocate_process_def upd_proc_def Let_def)
    have lenw: "length (ptable w) = NPROC" using w(4) len by simp
    have tw: "table_ok w" "running_ok (ptable w) (Some i)"
      using w(2,3) by (auto simp: kinv_def in_proc_def)
    have wc: "state (ptable w ! c) = PROC_CREATED" using w(4) c(2) len by simp
    note e = setup_effect [OF st lenw c(2)]
    obtain m where m: "t' = w\<lparr>ptable := (ptable w)[c := ptable t' ! c], mach := m\<rparr>"
      using only_slotD [OF e(1) lenw c(2)] by blast
    have "table_ok (w\<lparr>ptable := (ptable w)[c := ptable t' ! c]\<rparr>)"
    proof (cases ok)
      case True
      then show ?thesis
        using table_ok_upd [OF tw(1) c(2), of "\<lambda>_. ptable t' ! c"] e(2) [OF True] wc table_okD(2) [OF tw(1) c(2)]
        by (simp add: upd_proc_def proc_ok_def)
    next
      case False
      then show ?thesis
        using table_ok_slot_freed [OF tw(1) c(2) wc, of "ptable t' ! c"] e(3) [OF False] ci(2) iw by simp
    qed
    then have "table_ok t'" using table_ok_frame(3) [of m "w\<lparr>ptable := (ptable w)[c := ptable t' ! c]\<rparr>"] m by metis
    moreover have "running_ok (ptable t') (Some i)"
      using running_ok_other [OF tw(2) lenw, of "ptable t' ! c" c] e(2,3) ci(1) c(2) wc
      by (subst m) (cases ok, simp_all)
    moreover have "in_proc i t'" using w(3) by (subst m) (simp add: in_proc_def)
    moreover have "proc_init1 t' = proc_init1 u" using iw by (subst m) simp
    ultimately show ?thesis
      using t c ci e(2) wc by (auto simp: kinv_def in_proc_def)
  qed
  then show "kinv t" "proc (the_cpu t) = Some i" "r = Some c \<Longrightarrow> 0 < c \<and> c < NPROC \<and> c \<noteq> i \<and>
      state (ptable t ! c) = PROC_CREATED \<and> kstack (ptable t ! c) \<noteq> 0 \<and> kont (ptable t ! c) = KForkret \<and>
      proc_init1 t \<noteq> Some c" by auto
qed

lemma kinv_frame:
  "kinv s \<Longrightarrow> kinv (s\<lparr>mach := m\<rparr>)" "kinv s \<Longrightarrow> kinv (s\<lparr>ftable := f\<rparr>)"
  by (auto simp: kinv_def in_sched_def in_proc_def)

lemma kinv_this_proc:
  assumes "kinv s" "proc (the_cpu s) = Some i"
  shows "\<exists>c. this_proc s = Inr (Some i, s\<lparr>the_cpu := c\<rparr>) \<and> kinv (s\<lparr>the_cpu := c\<rparr>) \<and> proc c = Some i"
proof -
  note K = kinv_in_proc [OF assms]
  obtain c where c: "this_proc s = Inr (Some i, s\<lparr>the_cpu := c\<rparr>)" "in_proc i (s\<lparr>the_cpu := c\<rparr>)"
    using this_proc_in_proc [OF K(1)] by blast
  moreover from c(2) have "proc c = Some i" by (simp add: in_proc_def)
  ultimately show ?thesis using K(3,4) by (auto simp: kinv_def)
qed

text \<open>Work on a slot of the table that is still being set up.\<close>

lemma kinv_created_slot:
  assumes "kinv s" "proc (the_cpu s) = Some i" "c < NPROC" "c \<noteq> i" "only_slot c s t"
    and "state (ptable s ! c) = PROC_CREATED" "state (ptable t ! c) = PROC_CREATED"
    and "pid (ptable t ! c) = pid (ptable s ! c)" "\<And>j. parent (ptable t ! c) = Some j \<Longrightarrow> j < NPROC"
  shows "kinv t" "proc (the_cpu t) = Some i" "proc_init1 t = proc_init1 s"
proof -
  note K = kinv_in_proc [OF assms(1,2)]
  have len: "length (ptable s) = NPROC" using table_okD(1) [OF K(3)] .
  obtain m where m: "t = s\<lparr>ptable := (ptable s)[c := ptable t ! c], mach := m\<rparr>"
    using only_slotD [OF assms(5) len assms(3)] by blast
  have "table_ok (upd_proc c (\<lambda>_. ptable t ! c) s)"
    using assms(6-9) by (intro table_ok_upd [OF K(3) assms(3)]) (auto simp: proc_ok_def)
  then have "table_ok t"
    using table_ok_frame(3) [of m "s\<lparr>ptable := (ptable s)[c := ptable t ! c]\<rparr>"] m
    unfolding upd_proc_def by metis
  moreover have "running_ok (ptable t) (Some i)"
    using running_ok_other [OF K(4) len, of "ptable t ! c" c] assms(3,4,7) by (subst m) simp
  moreover have "in_proc i t" using K(1) by (subst m) (simp add: in_proc_def)
  ultimately show "kinv t" "proc (the_cpu t) = Some i" by (auto simp: kinv_def in_proc_def)
  show "proc_init1 t = proc_init1 s" by (subst m) simp
qed

lemma dup_files_effect: "dup_files fs s = Inr t \<Longrightarrow> \<exists>f. t = s\<lparr>ftable := f\<rparr>"
proof (induction fs s rule: dup_files.induct)
  case (1 s)
  then show ?case by (metis kstate.surjective kstate.update_convs(9) sum.inject(2) dup_files.simps(1))
next
  case (3 f fs s)
  then obtain u where u: "file_dup f s = Inr u" "dup_files fs u = Inr t" by (auto simp: rbind_Inr_iff)
  then obtain g where "u = s\<lparr>ftable := g\<rparr>" by (auto simp: file_dup_def Let_def split: if_splits)
  with 3(1) [OF u] show ?case by auto
qed simp

lemma kvm_allocate_nonzero: "kvm_allocate km s = Inr (True, pd, t) \<Longrightarrow> pd \<noteq> 0"
  by (auto simp: kvm_allocate_def rbind_Inr_iff split: if_splits prod.splits)

lemma uvm_copy_nonzero: "uvm_copy km inp n s = Inr (Some d, t) \<Longrightarrow> d \<noteq> 0"
  using kvm_allocate_nonzero
  by (auto simp: uvm_copy_def rbind_Inr_iff split: if_splits prod.splits)

lemma make_ready:
  assumes "kinv s" "proc (the_cpu s) = Some i" "c < NPROC" "c \<noteq> i" "state (ptable s ! c) = PROC_CREATED"
    and "can_resume (ptable s ! c)"
  shows "\<exists>u t. lock_ptable s = Inr u \<and> unlock_ptable (upd_proc c (\<lambda>p. p\<lparr>state := PROC_READY\<rparr>) u) = Inr t \<and>
    kinv t \<and> proc (the_cpu t) = Some i \<and> ptable t = (ptable s)[c := (ptable s ! c)\<lparr>state := PROC_READY\<rparr>]"
proof -
  obtain u where u: "lock_ptable s = Inr u" "in_crit i u" "table_ok u" "running_ok (ptable u) (Some i)"
    "ptable u = ptable s"
    using enter_crit [OF assms(1,2)] by blast
  let ?v = "upd_proc c (\<lambda>p. p\<lparr>state := PROC_READY\<rparr>) u"
  have len: "length (ptable u) = NPROC" using table_okD(1) [OF u(3)] .
  have "table_ok ?v"
    using assms(5,6) u(5) table_okD(2) [OF u(3) assms(3)]
    by (intro table_ok_upd [OF u(3) assms(3)]) (auto simp: proc_ok_def can_resume_def can_run_def)
  moreover have "running_ok (ptable ?v) (Some i)"
    using running_ok_other [OF u(4) len, of _ c] assms(3,4) by simp
  moreover have "in_crit i ?v" using u(2) by (simp add: in_crit_def)
  ultimately obtain t where "unlock_ptable ?v = Inr t" "kinv t" "in_proc i t" "ptable t = ptable ?v"
    using leave_crit by blast
  then show ?thesis using u(1,5) by (auto simp: in_proc_def)
qed

lemma fork_kinv:
  assumes "kinv s" "proc (the_cpu s) = Some i" "fork s = Inr (r, t)"
  shows "kinv t \<and> proc (the_cpu t) = Some i \<and>
    (r = - 1 \<or> (\<exists>c < NPROC. c \<noteq> i \<and> state (ptable t ! c) = PROC_READY \<and> parent (ptable t ! c) = Some i \<and>
       sint (pid (ptable t ! c)) = r \<and> psize (ptable t ! c) = psize (ptable t ! i)))"
proof -
  note K = kinv_in_proc [OF assms(1,2)]
  obtain c0 where c0: "this_proc s = Inr (Some i, s\<lparr>the_cpu := c0\<rparr>)" "kinv (s\<lparr>the_cpu := c0\<rparr>)" "proc c0 = Some i"
    using kinv_this_proc [OF assms(1,2)] by blast
  obtain a u where a: "allocate_process (s\<lparr>the_cpu := c0\<rparr>) = Inr (a, u)"
    using assms(3) c0(1) by (auto simp: fork_def rbind_Inr_iff)
  have ku: "kinv u" "proc (the_cpu u) = Some i" using allocate_kinv [OF c0(2) _ a] c0(3) by auto
  show ?thesis
  proof (cases a)
    case None
    then show ?thesis using assms(3) c0(1) a ku by (simp add: fork_def)
  next
    case (Some ch)
    then have ch: "ch < NPROC" "ch \<noteq> i" "state (ptable u ! ch) = PROC_CREATED" "kstack (ptable u ! ch) \<noteq> 0"
      "kont (ptable u ! ch) = KForkret" "proc_init1 u \<noteq> Some ch"
      using allocate_kinv(3) [OF c0(2) _ a] c0(3) by auto
    have len: "length (ptable u) = NPROC" using table_okD(1) [OF kinv_in_proc(3) [OF ku]] .
    obtain pd m where cp: "uvm_copy (kmap u) (pgdir (ptable u ! i)) (psize (ptable u ! i)) (mach u) = Inr (pd, m)"
      using assms(3) c0(1) a Some by (auto simp: fork_def rbind_Inr_iff)
    let ?u = "u\<lparr>mach := m\<rparr>"
    have kv: "kinv ?u" "proc (the_cpu ?u) = Some i" using ku kinv_frame by auto
    show ?thesis
    proof (cases pd)
      case None
      then have d: "deallocate_process_unlocked ch ?u = Inr t" "r = - 1"
        using assms(3) c0(1) a Some cp by (auto simp: fork_def rbind_Inr_iff)
      note dt = dealloc_table [OF d(1) kinv_in_proc(3) [OF kv] ch(1)]
      have "running_ok (ptable t) (Some i)" using dt(8) kinv_in_proc(4) [OF kv] ch by simp
      moreover have "in_proc i t" using kinv_in_proc(1) [OF kv] dt(2,3) ch(6) by (simp add: in_proc_def)
      ultimately show ?thesis using dt(1) ch(6) d(2) by (auto simp: kinv_def in_proc_def)
    next
      case (Some d)
      let ?me = "ptable u ! i"
      let ?v0 = "upd_proc ch (\<lambda>p. p\<lparr>pgdir := d, psize := psize ?me, parent := Some i\<rparr>) ?u"
      let ?m = "store32 (memmove (ram m) (trapframe (ptable u ! ch)) (trapframe ?me) 76)
                  (trapframe (ptable u ! ch) + 28) 0"
      let ?v1 = "?v0\<lparr>mach := m\<lparr>ram := ?m\<rparr>\<rparr>"
      have nth: "ptable ?v1 ! i = ?me" "trapframe (ptable ?v0 ! ch) = trapframe (ptable u ! ch)"
        using len ch(1,2) by simp_all
      obtain v2 where v2: "dup_files (ofile ?me) ?v1 = Inr v2"
        and rest: "rbind (lock_ptable
            (let s = upd_proc ch (\<lambda>p. p\<lparr>ofile := merge_files (ofile p) (ofile (ptable v2 ! i))\<rparr>) v2
             in s\<lparr>mach := (mach s)\<lparr>ram := strncpy (ram (mach s)) (name_addr ch s) (name_addr i s) 16\<rparr>\<rparr>)) (\<lambda>s.
          rbind (unlock_ptable (upd_proc ch (\<lambda>p. p\<lparr>state := PROC_READY\<rparr>) s)) (\<lambda>s.
          Inr (sint (pid (ptable s ! ch)), s))) = Inr (r, t)"
        using assms(3) c0(1) a \<open>a = Some ch\<close> cp Some len ch(1,2)
        by (auto simp: fork_def rbind_Inr_iff Let_def)
      obtain f where f: "v2 = ?v1\<lparr>ftable := f\<rparr>" using dup_files_effect [OF v2] by blast
      let ?w0 = "upd_proc ch (\<lambda>p. p\<lparr>ofile := merge_files (ofile p) (ofile (ptable v2 ! i))\<rparr>) v2"
      let ?w = "?w0\<lparr>mach := (mach ?w0)\<lparr>ram := strncpy (ram (mach ?w0)) (name_addr ch ?w0) (name_addr i ?w0) 16\<rparr>\<rparr>"
      let ?b = "u\<lparr>ftable := f\<rparr>"
      have v2': "v2 = (upd_proc ch (\<lambda>p. p\<lparr>pgdir := d, psize := psize ?me, parent := Some i\<rparr>) (?b\<lparr>mach := m\<rparr>))
          \<lparr>mach := m\<lparr>ram := ?m\<rparr>\<rparr>"
        by (simp add: f upd_proc_def)
      have "only_slot ch ?b v2"
        by (subst v2') (rule only_slot_mach, rule only_slot_upd, rule only_slot_mach, rule only_slot_refl)
      then have slot: "only_slot ch ?b ?w" by (rule only_slot_mach [OF only_slot_upd])
      have wch: "state (ptable ?w ! ch) = PROC_CREATED" "pid (ptable ?w ! ch) = pid (ptable u ! ch)"
        "parent (ptable ?w ! ch) = Some i" "kstack (ptable ?w ! ch) \<noteq> 0" "pgdir (ptable ?w ! ch) = d"
        "kont (ptable ?w ! ch) = KForkret" "psize (ptable ?w ! ch) = psize ?me" "ptable ?w ! i = ?me"
        using len ch by (simp_all add: f)
      have kb: "kinv ?b" "proc (the_cpu ?b) = Some i" using ku kinv_frame(2) by auto
      have kw: "kinv ?w" "proc (the_cpu ?w) = Some i"
        using kinv_created_slot [OF kb ch(1,2) slot] wch(1-3) ch(3) K(2) by auto
      have "can_resume (ptable ?w ! ch)"
        using wch uvm_copy_nonzero cp Some by (auto simp: can_resume_def can_run_def)
      then obtain x y where x: "lock_ptable ?w = Inr x"
        "unlock_ptable (upd_proc ch (\<lambda>p. p\<lparr>state := PROC_READY\<rparr>) x) = Inr y" "kinv y" "proc (the_cpu y) = Some i"
        "ptable y = (ptable ?w)[ch := (ptable ?w ! ch)\<lparr>state := PROC_READY\<rparr>]"
        using make_ready [OF kw ch(1,2) wch(1)] by blast
      have "r = sint (pid (ptable y ! ch))" "t = y"
        using rest x(1,2) by (auto simp: Let_def)
      moreover have "length (ptable ?w) = NPROC" using len by (simp add: f)
      ultimately show ?thesis using x(3-5) wch ch(1,2) by (auto intro!: exI [of _ ch])
    qed
  qed
qed

section \<open>Waiting and running\<close>

lemma wait_pass_kinv:
  assumes "in_crit i s" "table_ok s" "running_ok (ptable s) (Some i)" "wait_pass i s = Inr (r, t)"
  shows "kinv t \<and> (if r = None then in_sched t else in_proc i t)"
proof -
  have i: "i < NPROC" "state (ptable s ! i) = PROC_RUNNING" using assms(3) by (auto simp: running_ok_def)
  have run: "can_run (ptable s ! i)" using table_okD(2) [OF assms(2) i(1)] i(2) by (simp add: proc_ok_def)
  show ?thesis
  proof (cases "List.find (\<lambda>j. parent (ptable s ! j) = Some i \<and> state (ptable s ! j) = PROC_ZOMBIE) [0..<NPROC]")
    case (Some j)
    then have j: "j < NPROC" "state (ptable s ! j) = PROC_ZOMBIE" by (auto simp: find_Some_iff)
    then have ne: "j \<noteq> i" "proc_init1 s \<noteq> Some j" using i(2) table_okD(3) [OF assms(2), of j] by auto
    obtain u where u: "deallocate_process_unlocked j s = Inr u" "unlock_ptable u = Inr t" "r \<noteq> None"
      using assms(4) Some by (auto simp: wait_pass_def rbind_Inr_iff Let_def)
    note d = dealloc_table [OF u(1) assms(2) j(1) ne(2)]
    have "in_crit i u" using assms(1) d(2,3) by (simp add: in_crit_def)
    moreover have "running_ok (ptable u) (Some i)" using d(8) assms(3) ne(1) by simp
    ultimately show ?thesis using leave_crit [OF _ d(1)] u(2,3) by fastforce
  next
    case None
    have crit: "sleep_ptable (CProc i) s = sched KWait (upd_proc i (\<lambda>p. p\<lparr>chan := CProc i, state := PROC_SLEEPING\<rparr>) s)"
      using this_proc_in_crit [OF assms(1)] by (simp add: sleep_ptable_def)
    then have "\<exists>u. sleep_ptable (CProc i) s = Inr u \<and> kinv u \<and> in_sched u"
      using suspend_kinv [OF assms(1-3) i(1) run,
          of "\<lambda>p. p\<lparr>chan := CProc i, state := PROC_SLEEPING\<rparr>" PROC_SLEEPING KWait] by auto
    then show ?thesis
      using leave_crit [OF assms(1-3)] assms(4) None
      by (fastforce simp: wait_pass_def rbind_Inr_iff split: if_splits)
  qed
qed

lemma wait_kinv:
  assumes "kinv s" "proc (the_cpu s) = Some i" "wait s = Inr (r, t)"
  shows "kinv t \<and> (if r = None then in_sched t else in_proc i t)"
proof -
  obtain c where c: "this_proc s = Inr (Some i, s\<lparr>the_cpu := c\<rparr>)" "kinv (s\<lparr>the_cpu := c\<rparr>)" "proc c = Some i"
    using kinv_this_proc [OF assms(1,2)] by blast
  obtain u where u: "lock_ptable (s\<lparr>the_cpu := c\<rparr>) = Inr u" "in_crit i u" "table_ok u"
    "running_ok (ptable u) (Some i)"
    using enter_crit [OF c(2)] c(3) by auto
  then show ?thesis using wait_pass_kinv [OF u(2-4)] assms(3) c(1) by (simp add: wait_def)
qed

lemma uvm_switch_ok:
  assumes "wf_cpu (the_cpu s)" "proc (the_cpu s) = Some q" "can_run (ptable s ! i)"
  shows "\<exists>c. uvm_switch i s = Inr (s\<lparr>the_cpu := c\<rparr>) \<and> proc c = Some q \<and> ncli c = ncli (the_cpu s) \<and>
    eflags_if c = eflags_if (the_cpu s) \<and> cpu_cr3 c = KA2P (pgdir (ptable s ! q)) \<and>
    ts_esp0 c = kstack (ptable s ! i) + KSTACK_SZ"
proof -
  let ?c1 = "pushed (the_cpu s)"
  have c1: "wf_cpu ?c1" "0 < ncli ?c1" using assms(1) by (simp_all add: wf_cpu_pushed wf_cpu_def)
  define c2 where "c2 = (pushed ?c1)\<lparr>
             gdt := (gdt (pushed ?c1))[SEG_TSS := create_descriptor (sym_ts s) (104 - 1)
                (SEG_S 0 OR SEG_P 1 OR SEG_AVL 0 OR SEG_L 0 OR SEG_DB 1 OR SEG_G 0 OR SEG_DPL DPL_K OR SEG_TSS_32_AVL)],
             ts_ss0 := 0x10, ts_esp0 := kstack (ptable s ! i) + KSTACK_SZ, task_register := 0x28\<rparr>"
  have c2: "\<not> eflags_if c2" "ncli c2 = ncli (the_cpu s) + 2" "0 < ncli c2" "int_on c2 = int_on (pushed ?c1)"
    "proc c2 = Some q" "ts_esp0 c2 = kstack (ptable s ! i) + KSTACK_SZ"
    using assms(1,2) by (simp_all add: c2_def wf_cpu_def pushed_def)
  have w: "write_tss i (s\<lparr>the_cpu := ?c1\<rparr>) = Inr (s\<lparr>the_cpu := popped c2\<rparr>)"
    using pop_cli_eq [OF c2(1,3)]
    by (simp add: write_tss_def on_cpu_def push_cli_eq this_cpu_def Let_def c2_def)
  have c3: "wf_cpu (popped c2)" "0 < ncli (popped c2)" "\<not> eflags_if (popped c2)"
    using c2 assms(1) by (simp_all add: wf_cpu_def popped_def)
  have p: "this_proc (s\<lparr>the_cpu := popped c2\<rparr>) = Inr (Some q, s\<lparr>the_cpu := popped c2\<rparr>)"
    using this_proc_eq [of "s\<lparr>the_cpu := popped c2\<rparr>"] popped_pushed_nested [OF c3(2,1)] c3(1) c2(5) by simp
  let ?c4 = "(popped c2)\<lparr>cpu_cr3 := KA2P (pgdir (ptable s ! q))\<rparr>"
  have c4: "pop_cli ?c4 = Inr (popped ?c4)" using pop_cli_eq [of ?c4] c3 by simp
  have "uvm_switch i s = Inr (s\<lparr>the_cpu := popped ?c4\<rparr>)"
    using assms(3) w p c4 by (simp add: uvm_switch_def can_run_def on_cpu_def push_cli_eq)
  moreover have "eflags_if (popped ?c4) = eflags_if (the_cpu s)"
    using assms(1) c2(2,4) by (auto simp: popped_def pushed_def wf_cpu_def)
  ultimately show ?thesis using c2 by (auto simp: popped_def)
qed

lemma grow_kinv:
  assumes "kinv s" "proc (the_cpu s) = Some i" "grow_process n s = Inr (r, t)"
  shows "kinv t \<and> proc (the_cpu t) = Some i"
proof (cases "n = 0")
  case True
  then show ?thesis using assms by (simp add: grow_process_def)
next
  case False
  obtain c where c: "this_proc s = Inr (Some i, s\<lparr>the_cpu := c\<rparr>)" "kinv (s\<lparr>the_cpu := c\<rparr>)" "proc c = Some i"
    using kinv_this_proc [OF assms(1,2)] by blast
  obtain sz m where sz: "(if n > 0 then uvm_allocate (pgdir (ptable s ! i)) (psize (ptable s ! i)) (psize (ptable s ! i) + of_int n)
       else uvm_deallocate (pgdir (ptable s ! i)) (psize (ptable s ! i)) (psize (ptable s ! i) + of_int n)) (mach s) = Inr (sz, m)"
    using assms(3) c(1) False by (cases "n > 0") (auto simp: grow_process_def rbind_Inr_iff Let_def)
  let ?u = "s\<lparr>the_cpu := c, mach := m\<rparr>"
  have ku: "kinv ?u" "proc (the_cpu ?u) = Some i" using kinv_frame(1) [OF c(2)] c(3) by auto
  note K = kinv_in_proc [OF ku]
  show ?thesis
  proof (cases "sz = 0")
    case True
    then show ?thesis
      using assms(3) c(1) False sz ku by (cases "n > 0") (auto simp: grow_process_def Let_def)
  next
    case nz: False
    let ?v = "upd_proc i (\<lambda>p. p\<lparr>psize := sz\<rparr>) ?u"
    have len: "length (ptable ?u) = NPROC" using table_okD(1) [OF K(3)] .
    have "table_ok ?v"
      using table_okD(2) [OF K(3,2)] table_okD(3) [OF K(3), of i]
      by (intro table_ok_upd [OF K(3,2)]) (auto simp: proc_ok_def can_resume_def can_run_def)
    moreover have "running_ok (ptable ?v) (Some i)"
      using K(2,4,5) len by (auto simp: running_ok_def nth_list_update)
    moreover have "wf_cpu (the_cpu ?v)" "proc (the_cpu ?v) = Some i" "can_run (ptable ?v ! i)"
      using in_proc_wf [OF K(1)] ku(2) K(2,6) len by (simp_all add: can_run_def)
    moreover obtain d where "uvm_switch i ?v = Inr (?v\<lparr>the_cpu := d\<rparr>)" "proc d = Some i" "ncli d = ncli (the_cpu ?v)"
      using uvm_switch_ok [OF calculation(3-5)] by blast
    moreover have "in_proc i (?v\<lparr>the_cpu := d\<rparr>)" using K(1) calculation(7,8) by (simp add: in_proc_def)
    ultimately show ?thesis
      using assms(3) c(1) False sz nz by (cases "n > 0") (auto simp: grow_process_def Let_def kinv_def)
  qed
qed

lemma resume_kinv:
  assumes "in_crit i s" "table_ok s" "running_ok (ptable s) (Some i)" "kont (ptable s ! i) \<noteq> KNone"
    "kont (ptable s ! i) \<noteq> KExit"
  shows "resume i s = Inr t \<Longrightarrow> kinv t"
    "(\<forall>b. kont (ptable s ! i) \<noteq> KWait b) \<Longrightarrow> \<exists>t. resume i s = Inr t \<and> in_proc i t"
proof -
  have i: "i < NPROC" "length (ptable s) = NPROC" using assms(2,3) table_okD(1) by (auto simp: running_ok_def)
  let ?b = "\<lambda>b. s\<lparr>the_cpu := (the_cpu s)\<lparr>int_on := b\<rparr>\<rparr>"
  let ?w = "\<lambda>b. upd_proc i (\<lambda>p. p\<lparr>chan := CNull\<rparr>) (?b b)"
  have B: "in_crit i (?b b)" "table_ok (?b b)" "running_ok (ptable (?b b)) (Some i)" for b
    using assms(1-3) by (simp_all add: in_crit_def)
  have W: "in_crit i (?w b)" "table_ok (?w b)" "running_ok (ptable (?w b)) (Some i)" for b
  proof -
    show "in_crit i (?w b)" using assms(1) by (simp add: in_crit_def)
    show "table_ok (?w b)"
      using table_okD(2) [OF assms(2) i(1)] table_okD(3) [OF assms(2), of i]
      by (intro table_ok_upd [OF B(2) i(1)]) (auto simp: proc_ok_def can_resume_def can_run_def)
    show "running_ok (ptable (?w b)) (Some i)"
      using assms(3) i by (auto simp: running_ok_def nth_list_update)
  qed
  show "kinv t" if r: "resume i s = Inr t"
  proof (cases "kont (ptable s ! i)")
    case KForkret
    then show ?thesis using r leave_crit [OF assms(1-3)] by (auto simp: resume_def forkret_def)
  next
    case (KYield b)
    then show ?thesis using r leave_crit [OF B [of b]] by (auto simp: resume_def)
  next
    case (KWait b)
    then show ?thesis using r wait_pass_kinv [OF W [of b]] by (auto simp: resume_def rbind_Inr_iff)
  next
    case (KSleep b)
    then show ?thesis using r leave_crit [OF W [of b]] by (auto simp: resume_def)
  qed (use assms(4,5) in simp_all)
  show "\<exists>t. resume i s = Inr t \<and> in_proc i t" if nw: "\<forall>b. kont (ptable s ! i) \<noteq> KWait b"
  proof (cases "kont (ptable s ! i)")
    case KForkret
    then show ?thesis using leave_crit [OF assms(1-3)] by (auto simp: resume_def forkret_def)
  next
    case (KYield b)
    then show ?thesis using leave_crit [OF B [of b]] by (auto simp: resume_def)
  next
    case (KSleep b)
    then show ?thesis using leave_crit [OF W [of b]] by (auto simp: resume_def)
  qed (use assms(4,5) nw in simp_all)
qed

lemma kinv_in_sched:
  assumes "kinv s" "proc (the_cpu s) = None"
  shows "in_sched s" "table_ok s" "running_ok (ptable s) None"
  using assms by (auto simp: kinv_def in_proc_def)

text \<open>Switching to a ready process: the state in which its continuation starts.\<close>

lemma switch_to_ready:
  assumes "kinv s" "proc (the_cpu s) = None" "i < NPROC" "state (ptable s ! i) = PROC_READY"
  shows "\<exists>c. uvm_switch i (s\<lparr>the_cpu := (the_cpu s)\<lparr>proc := Some i\<rparr>\<rparr>) = Inr (s\<lparr>the_cpu := c\<rparr>) \<and>
    cpu_cr3 c = KA2P (pgdir (ptable s ! i)) \<and> ts_esp0 c = kstack (ptable s ! i) + KSTACK_SZ \<and>
    (let u = upd_proc i (\<lambda>p. p\<lparr>state := PROC_RUNNING\<rparr>) (s\<lparr>the_cpu := c\<rparr>) in
       in_crit i u \<and> table_ok u \<and> running_ok (ptable u) (Some i) \<and> can_resume (ptable u ! i))"
proof -
  note S = kinv_in_sched [OF assms(1,2)]
  have ok: "can_resume (ptable s ! i)" using table_okD(2) [OF S(2) assms(3)] assms(4) by (simp add: proc_ok_def)
  have len: "length (ptable s) = NPROC" using table_okD(1) [OF S(2)] .
  let ?s = "s\<lparr>the_cpu := (the_cpu s)\<lparr>proc := Some i\<rparr>\<rparr>"
  have "wf_cpu (the_cpu ?s)" using in_sched_wf [OF S(1)] by (simp add: wf_cpu_def)
  then obtain c where c: "uvm_switch i ?s = Inr (?s\<lparr>the_cpu := c\<rparr>)" "proc c = Some i" "ncli c = ncli (the_cpu s)"
    "eflags_if c = eflags_if (the_cpu s)" "cpu_cr3 c = KA2P (pgdir (ptable s ! i))"
    "ts_esp0 c = kstack (ptable s ! i) + KSTACK_SZ"
    using uvm_switch_ok [of ?s i i] ok by (auto simp: can_resume_def)
  let ?u = "upd_proc i (\<lambda>p. p\<lparr>state := PROC_RUNNING\<rparr>) (s\<lparr>the_cpu := c\<rparr>)"
  have "in_crit i ?u" using c(2-4) S(1) by (simp add: in_crit_def in_sched_def)
  moreover have "table_ok (upd_proc i (\<lambda>p. p\<lparr>state := PROC_RUNNING\<rparr>) s)"
    using ok assms(4) table_okD(2) [OF S(2) assms(3)]
    by (intro table_ok_upd [OF S(2) assms(3)]) (auto simp: proc_ok_def can_resume_def can_run_def)
  then have "table_ok ?u" by (simp add: table_ok_def)
  moreover have "running_ok (ptable ?u) (Some i)"
    using S(3) len assms(3) by (auto simp: running_ok_def nth_list_update)
  moreover have "can_resume (ptable ?u ! i)" using ok len assms(3) by (simp add: can_resume_def can_run_def)
  ultimately show ?thesis using c(1,5,6) by (auto simp: Let_def)
qed

lemma scheduler_step_kinv:
  assumes "kinv s" "proc (the_cpu s) = None" "scheduler_step s = Inr t"
  shows "kinv t"
proof -
  note S = kinv_in_sched [OF assms(1,2)]
  show ?thesis
  proof (cases "sched_pos s < NPROC")
    case False
    have wf: "wf_cpu (the_cpu s)" "0 < ncli (the_cpu s)" using S(1) by (simp_all add: in_sched_def wf_cpu_def)
    let ?u = "s\<lparr>ptable_lk := new_lock, the_cpu := (popped (the_cpu s))\<lparr>eflags_if := True\<rparr>\<rparr>"
    have "unlock_ptable s = Inr (s\<lparr>ptable_lk := new_lock, the_cpu := popped (the_cpu s)\<rparr>)"
      using unlock_ptable_eq [OF wf] S(1) by (simp add: in_sched_def)
    moreover have "lock_ptable ?u = Inr (?u\<lparr>ptable_lk := held_lock, the_cpu := pushed (the_cpu ?u)\<rparr>)"
      using S(1) by (intro lock_ptable_eq) (simp_all add: wf_cpu_def in_sched_def)
    ultimately have "t = ?u\<lparr>ptable_lk := held_lock, the_cpu := pushed (the_cpu ?u), sched_pos := 0\<rparr>"
      using assms(3) False by (simp add: scheduler_step_def)
    then show ?thesis using S by (simp add: kinv_def in_sched_def)
  next
    case True
    show ?thesis
    proof (cases "state (ptable s ! sched_pos s) = PROC_READY")
      case False
      then have "t = s\<lparr>sched_pos := sched_pos s + 1\<rparr>" using assms(3) True by (simp add: scheduler_step_def)
      then show ?thesis using S by (simp add: kinv_def in_sched_def)
    next
      case ready: True
      obtain c where c: "uvm_switch (sched_pos s) (s\<lparr>the_cpu := (the_cpu s)\<lparr>proc := Some (sched_pos s)\<rparr>\<rparr>) =
          Inr (s\<lparr>the_cpu := c\<rparr>)"
        "let u = upd_proc (sched_pos s) (\<lambda>p. p\<lparr>state := PROC_RUNNING\<rparr>) (s\<lparr>the_cpu := c\<rparr>) in
         in_crit (sched_pos s) u \<and> table_ok u \<and> running_ok (ptable u) (Some (sched_pos s)) \<and>
         can_resume (ptable u ! sched_pos s)"
        using switch_to_ready [OF assms(1,2) True ready] by blast
      let ?u = "upd_proc (sched_pos s) (\<lambda>p. p\<lparr>state := PROC_RUNNING\<rparr>) (s\<lparr>the_cpu := c\<rparr>)"
      have "resume (sched_pos s) ?u = Inr t"
        using assms(3) True ready c(1) by (simp add: scheduler_step_def Let_def)
      then show ?thesis using resume_kinv(1) c(2) by (auto simp: Let_def can_resume_def)
    qed
  qed
qed

end
