(* ===== verification/Scheduler.thy ===== *)
theory Scheduler
  imports Process_Inv
begin

text \<open>
  The kernel's process layer as a state machine.  A step is one round of the scheduler's loop
  or an operation of the running process (kernel/process.c); \<open>kinv\<close> is its invariant, by rule
  induction, and the scheduler's scan reaches a ready process in a bounded number of rounds.
\<close>

section \<open>The system as a state machine\<close>

text \<open>A step is a round of the scheduler or an operation of the running process that
  returned to it or gave up the processor.  \<open>mark_killed\<close> is what \<open>trap\<close> does to a process
  that faulted.\<close>

definition mark_killed :: "kstate \<Rightarrow> kstate res" where
  "mark_killed s =
     rbind (this_proc s) (\<lambda>(p, s).
     case p of None \<Rightarrow> Inl OutOfBounds | Some i \<Rightarrow> Inr (upd_proc i (\<lambda>p. p\<lparr>killed := True\<rparr>) s))"

inductive kstep :: "kstate \<Rightarrow> kstate \<Rightarrow> bool" where
  step_sched: "proc (the_cpu s) = None \<Longrightarrow> scheduler_step s = Inr t \<Longrightarrow> kstep s t"
| step_fork: "proc (the_cpu s) = Some i \<Longrightarrow> fork s = Inr (r, t) \<Longrightarrow> kstep s t"
| step_exit: "proc (the_cpu s) = Some i \<Longrightarrow> exit_proc s = Inr t \<Longrightarrow> kstep s t"
| step_wait: "proc (the_cpu s) = Some i \<Longrightarrow> wait s = Inr (r', t) \<Longrightarrow> kstep s t"
| step_yield: "proc (the_cpu s) = Some i \<Longrightarrow> yield s = Inr t \<Longrightarrow> kstep s t"
| step_sleep: "proc (the_cpu s) = Some i \<Longrightarrow> lock lk (the_cpu s) = Inr (lk', c) \<Longrightarrow>
    sleep ch lk' (s\<lparr>the_cpu := c\<rparr>) = Inr (lk'', t) \<Longrightarrow> kstep s t"
| step_wakeup: "proc (the_cpu s) = Some i \<Longrightarrow> wakeup ch s = Inr t \<Longrightarrow> kstep s t"
| step_grow: "proc (the_cpu s) = Some i \<Longrightarrow> grow_process n s = Inr (r, t) \<Longrightarrow> kstep s t"
| step_kill: "proc (the_cpu s) = Some i \<Longrightarrow> mark_killed s = Inr t \<Longrightarrow> kstep s t"

inductive_cases kstepE: "kstep s t"

inductive kreach :: "kstate \<Rightarrow> kstate \<Rightarrow> bool" where
  kreach_refl: "kreach s s"
| kreach_step: "kreach s t \<Longrightarrow> kstep t u \<Longrightarrow> kreach s u"

lemma mark_killed_kinv:
  assumes "kinv s" "proc (the_cpu s) = Some i" "mark_killed s = Inr t"
  shows "kinv t"
proof -
  obtain c where c: "this_proc s = Inr (Some i, s\<lparr>the_cpu := c\<rparr>)" "kinv (s\<lparr>the_cpu := c\<rparr>)" "proc c = Some i"
    using kinv_this_proc [OF assms(1,2)] by blast
  note K = kinv_in_proc [OF c(2)]
  let ?s = "s\<lparr>the_cpu := c\<rparr>" and ?t = "upd_proc i (\<lambda>p. p\<lparr>killed := True\<rparr>) (s\<lparr>the_cpu := c\<rparr>)"
  have t: "t = ?t" using assms(3) c(1) by (simp add: mark_killed_def)
  have i: "i < NPROC" "table_ok ?s" "running_ok (ptable ?s) (Some i)" "in_proc i ?s" using K c(3) by auto
  have "table_ok ?t"
    using table_okD(2) [OF i(2,1)] table_okD(3) [OF i(2), of i]
    by (intro table_ok_upd [OF i(2,1)]) (auto simp: proc_ok_def can_resume_def can_run_def)
  moreover have "running_ok (ptable ?t) (Some i)"
    using i table_okD(1) [OF i(2)] by (auto simp: running_ok_def nth_list_update)
  moreover have "in_proc i ?t" using i(4) by (simp add: in_proc_def)
  moreover have "proc (the_cpu ?t) = Some i" using c(3) by simp
  ultimately show ?thesis unfolding kinv_def t by auto
qed

lemma kstep_kinv:
  assumes "kstep s t" "kinv s"
  shows "kinv t"
  using assms(1)
proof cases
  case step_sched
  then show ?thesis using scheduler_step_kinv assms(2) by blast
next
  case (step_fork i r)
  then show ?thesis using fork_kinv assms(2) by blast
next
  case (step_exit i)
  have "proc_init1 s \<noteq> Some i"
    using kinv_this_proc [OF assms(2) step_exit(1)] step_exit(2) by (auto simp: exit_proc_def)
  then show ?thesis using exit_kinv [OF assms(2) step_exit(1)] step_exit(2) by auto
next
  case (step_wait i r')
  then show ?thesis using wait_kinv assms(2) by blast
next
  case (step_yield i)
  then show ?thesis using yield_kinv [OF assms(2) step_yield(1)] by auto
next
  case (step_sleep i lk lk' c ch lk'')
  then show ?thesis using sleep_kinv [OF assms(2) step_sleep(1,2), of ch] by auto
next
  case (step_wakeup i ch)
  then show ?thesis using wakeup_kinv [OF assms(2) step_wakeup(1), of ch] by auto
next
  case (step_grow i n r)
  then show ?thesis using grow_kinv assms(2) by blast
next
  case (step_kill i)
  then show ?thesis using mark_killed_kinv assms(2) by blast
qed

lemma kreach_kinv: "kreach s t \<Longrightarrow> kinv s \<Longrightarrow> kinv t"
  by (induction rule: kreach.induct) (auto intro: kstep_kinv)

section \<open>The scheduler finds a ready process\<close>

lemma skip_step:
  "sched_pos s < NPROC \<Longrightarrow> state (ptable s ! sched_pos s) \<noteq> PROC_READY \<Longrightarrow>
     scheduler_step s = Inr (s\<lparr>sched_pos := sched_pos s + 1\<rparr>)"
  by (simp add: scheduler_step_def)

lemma skip_steps:
  assumes "sched_pos s + n \<le> NPROC" "\<And>j. sched_pos s \<le> j \<Longrightarrow> j < sched_pos s + n \<Longrightarrow> state (ptable s ! j) \<noteq> PROC_READY"
  shows "repeat_res n scheduler_step s = Inr (s\<lparr>sched_pos := sched_pos s + n\<rparr>)"
  using assms
proof (induction n arbitrary: s)
  case (Suc n)
  let ?t = "s\<lparr>sched_pos := sched_pos s + 1\<rparr>"
  have "scheduler_step s = Inr ?t" using skip_step [of s] Suc.prems by simp
  moreover have "repeat_res n scheduler_step ?t = Inr (?t\<lparr>sched_pos := sched_pos ?t + n\<rparr>)"
    using Suc.prems by (intro Suc.IH) auto
  ultimately show ?case by simp
qed simp

lemma repeat_res_add:
  "repeat_res m f s = Inr t \<Longrightarrow> repeat_res (m + n) f s = repeat_res n f t"
  by (induction m arbitrary: s) (auto simp: rbind_Inr_iff)

lemma wrap_step:
  assumes "kinv s" "proc (the_cpu s) = None" "\<not> sched_pos s < NPROC"
  shows "\<exists>t. scheduler_step s = Inr t \<and> sched_pos t = 0 \<and> ptable t = ptable s \<and> proc (the_cpu t) = None \<and> kinv t"
proof -
  note S = kinv_in_sched [OF assms(1,2)]
  have wf: "wf_cpu (the_cpu s)" "0 < ncli (the_cpu s)" using S(1) by (simp_all add: in_sched_def wf_cpu_def)
  let ?u = "s\<lparr>ptable_lk := new_lock, the_cpu := (popped (the_cpu s))\<lparr>eflags_if := True\<rparr>\<rparr>"
  have "unlock_ptable s = Inr (s\<lparr>ptable_lk := new_lock, the_cpu := popped (the_cpu s)\<rparr>)"
    using unlock_ptable_eq [OF wf] S(1) by (simp add: in_sched_def)
  moreover have "lock_ptable ?u = Inr (?u\<lparr>ptable_lk := held_lock, the_cpu := pushed (the_cpu ?u)\<rparr>)"
    using S(1) by (intro lock_ptable_eq) (simp_all add: wf_cpu_def in_sched_def)
  ultimately have "scheduler_step s =
      Inr (?u\<lparr>ptable_lk := held_lock, the_cpu := pushed (the_cpu ?u), sched_pos := 0\<rparr>)"
    using assms(3) by (simp add: scheduler_step_def)
  moreover from this have "kinv (?u\<lparr>ptable_lk := held_lock, the_cpu := pushed (the_cpu ?u), sched_pos := 0\<rparr>)"
    using scheduler_step_kinv [OF assms(1,2)] by blast
  ultimately show ?thesis using assms(2) by auto
qed

definition found_ready :: "kstate \<Rightarrow> kstate \<Rightarrow> bool" where
  "found_ready s t \<longleftrightarrow> ptable t = ptable s \<and> proc (the_cpu t) = None \<and> kinv t \<and> sched_pos t < NPROC \<and>
     state (ptable t ! sched_pos t) = PROC_READY"

lemma scan_from_pos:
  assumes "kinv s" "proc (the_cpu s) = None" "sched_pos s \<le> i" "i < NPROC" "state (ptable s ! i) = PROC_READY"
  shows "\<exists>n \<le> NPROC. \<exists>t. repeat_res n scheduler_step s = Inr t \<and> found_ready s t \<and> sched_pos t \<le> i"
proof -
  let ?P = "\<lambda>j. sched_pos s \<le> j \<and> state (ptable s ! j) = PROC_READY"
  define k where "k = (LEAST j. ?P j)"
  have k: "?P k" "k \<le> i" unfolding k_def using assms(3,5) by (auto intro: LeastI2 Least_le)
  have least: "state (ptable s ! j) \<noteq> PROC_READY" if "sched_pos s \<le> j" "j < k" for j
    using that not_less_Least [of j ?P] unfolding k_def by auto
  let ?t = "s\<lparr>sched_pos := k\<rparr>"
  have "repeat_res (k - sched_pos s) scheduler_step s = Inr ?t"
    using skip_steps [of s "k - sched_pos s"] k assms(4) least by simp
  moreover have "kinv ?t" using assms(1) by (auto simp: kinv_def in_sched_def in_proc_def)
  then have "found_ready s ?t" using k assms(2,4) by (simp add: found_ready_def)
  moreover have "k - sched_pos s \<le> NPROC" using k(2) assms(4) by simp
  ultimately show ?thesis using k(2) by (intro exI [of _ "k - sched_pos s"]) auto
qed

lemma ready_within:
  assumes "kinv s" "proc (the_cpu s) = None" "i < NPROC" "state (ptable s ! i) = PROC_READY"
  shows "\<exists>n \<le> 2 * NPROC + 1. \<exists>t. repeat_res n scheduler_step s = Inr t \<and> found_ready s t"
proof (cases "sched_pos s \<le> i")
  case True
  then obtain n t where "n \<le> NPROC" "repeat_res n scheduler_step s = Inr t" "found_ready s t"
    using scan_from_pos [OF assms(1,2) _ assms(3,4)] by blast
  then show ?thesis by (intro exI [of _ n]) auto
next
  case False
  show ?thesis
  proof (cases "\<exists>j. sched_pos s \<le> j \<and> j < NPROC \<and> state (ptable s ! j) = PROC_READY")
    case True
    then obtain j n t where "n \<le> NPROC" "repeat_res n scheduler_step s = Inr t" "found_ready s t"
      using scan_from_pos [OF assms(1,2)] by blast
    then show ?thesis by (intro exI [of _ n]) auto
  next
    case none: False
    define d where "d = NPROC - sched_pos s"
    let ?t = "s\<lparr>sched_pos := sched_pos s + d\<rparr>"
    have d: "repeat_res d scheduler_step s = Inr ?t"
    proof (cases "sched_pos s < NPROC")
      case True
      then show ?thesis using none by (intro skip_steps) (auto simp: d_def)
    qed (simp add: d_def)
    have t: "kinv ?t" "proc (the_cpu ?t) = None" "\<not> sched_pos ?t < NPROC"
      using assms(1,2) by (auto simp: kinv_def in_sched_def in_proc_def d_def)
    then obtain u where u: "scheduler_step ?t = Inr u" "sched_pos u = 0" "ptable u = ptable s"
      "proc (the_cpu u) = None" "kinv u"
      using wrap_step [OF t] by auto
    obtain n v where n: "n \<le> NPROC" "repeat_res n scheduler_step u = Inr v" "found_ready u v"
      using scan_from_pos [OF u(5,4), of i] u(2,3) assms(3,4) by auto
    have "repeat_res (d + (1 + n)) scheduler_step s = Inr v"
      using repeat_res_add [OF d, of "1 + n"] u(1) n(2) by simp
    moreover have "d + (1 + n) \<le> 2 * NPROC + 1" using n(1) by (simp add: d_def)
    moreover have "found_ready s v" using n(3) unfolding found_ready_def u(3) by blast
    ultimately show ?thesis by blast
  qed
qed

lemma found_ready_runs:
  assumes "found_ready s t" "\<forall>b. kont (ptable t ! sched_pos t) \<noteq> KWait b"
  shows "\<exists>u. scheduler_step t = Inr u \<and> in_proc (sched_pos t) u \<and> kinv u"
proof -
  let ?j = "sched_pos t"
  have t: "kinv t" "proc (the_cpu t) = None" "?j < NPROC" "state (ptable t ! ?j) = PROC_READY"
    using assms(1) unfolding found_ready_def by blast+
  obtain c where c: "uvm_switch ?j (t\<lparr>the_cpu := (the_cpu t)\<lparr>proc := Some ?j\<rparr>\<rparr>) = Inr (t\<lparr>the_cpu := c\<rparr>)"
    "let u = upd_proc ?j (\<lambda>p. p\<lparr>state := PROC_RUNNING\<rparr>) (t\<lparr>the_cpu := c\<rparr>) in
       in_crit ?j u \<and> table_ok u \<and> running_ok (ptable u) (Some ?j) \<and> can_resume (ptable u ! ?j)"
    using switch_to_ready [OF t] by blast
  let ?u = "upd_proc ?j (\<lambda>p. p\<lparr>state := PROC_RUNNING\<rparr>) (t\<lparr>the_cpu := c\<rparr>)"
  have len: "length (ptable t) = NPROC" using t(1) by (simp add: kinv_def table_ok_def)
  have u: "in_crit ?j ?u" "table_ok ?u" "running_ok (ptable ?u) (Some ?j)" "kont (ptable ?u ! ?j) \<noteq> KNone"
    "kont (ptable ?u ! ?j) \<noteq> KExit"
    using c(2) by (auto simp: Let_def can_resume_def)
  have "\<forall>b. kont (ptable ?u ! ?j) \<noteq> KWait b" using assms(2) t(3) len by simp
  then obtain v where v: "resume ?j ?u = Inr v" "in_proc ?j v" using resume_kinv(2) [OF u] by blast
  have "scheduler_step t = Inr v" using c(1) v(1) t(3,4) by (simp add: scheduler_step_def Let_def)
  then show ?thesis using v scheduler_step_kinv [OF t(1,2)] by blast
qed

section \<open>A concrete table\<close>

text \<open>Two processes: init in slot 1 and a child of it in slot 2.\<close>

definition unused_process :: process where
  "unused_process = \<lparr>psize = 0, pgdir = 0, kstack = 0, pid = 0, parent = None, state = PROC_UNUSED,
     trapframe = 0, pcontext = 0, chan = CNull, killed = False, ofile = replicate NOFILE None, kont = KNone\<rparr>"

definition sample_process :: "procstate \<Rightarrow> u32 \<Rightarrow> nat option \<Rightarrow> kont \<Rightarrow> process" where
  "sample_process st n par k = unused_process\<lparr>psize := 4096, pgdir := 0x80200000, kstack := 0x80201000,
     pid := n, parent := par, state := st, kont := k\<rparr>"

definition sample_kstate :: "process \<Rightarrow> process \<Rightarrow> cpu \<Rightarrow> spinlock \<Rightarrow> kstate" where
  "sample_kstate p q c lk = \<lparr>mach = machine1, kmap = init_kmap machine1, kpgdir = 0, the_cpu = c, ptable_lk = lk,
     ptable = (replicate NPROC unused_process)[1 := p, 2 := q], nextpid = 3, proc_init1 = Some 1,
     ftable = [], sched_pos = 5, sym_ptable = 0x80109000, sym_trapret = 0, sym_forkret = 0, sym_ts = 0,
     sym_init1_begin = 0, sym_init1_end = 0, sym_init_str = 0\<rparr>"

text \<open>The scheduler about to look at slot 5, the child ready; and the child running.\<close>

definition kstate_sched :: kstate where
  "kstate_sched = sample_kstate (sample_process PROC_SLEEPING 1 None (KWait False))
     (sample_process PROC_READY 2 (Some 1) KForkret) (cpu0\<lparr>eflags_if := False, ncli := 1, int_on := True\<rparr>)
     \<lparr>locked = 1, owner = True\<rparr>"

definition kstate_run :: kstate where
  "kstate_run = sample_kstate (sample_process PROC_SLEEPING 1 None (KWait False))
     (sample_process PROC_RUNNING 2 (Some 1) KForkret) (cpu0\<lparr>proc := Some 2\<rparr>) new_lock"

lemmas sample_defs = kstate_sched_def kstate_run_def sample_kstate_def sample_process_def unused_process_def

lemma sample_table_ok:
  assumes "p = sample_process st 1 None k" "q = sample_process st' 2 (Some 1) k'"
    "st \<notin> {PROC_UNUSED, PROC_ZOMBIE}" "st' \<noteq> PROC_UNUSED" "k \<notin> {KNone, KExit}" "k' \<notin> {KNone, KExit}"
  shows "table_ok (sample_kstate p q c lk)"
  using assms
  by (auto simp: table_ok_def sample_kstate_def sample_process_def unused_process_def nth_list_update
      proc_ok_def can_resume_def can_run_def pids_ok_def init_ok_def)

lemma sample_nth:
  "i < NPROC \<Longrightarrow> ptable (sample_kstate p q c lk) ! i = (if i = 2 then q else if i = 1 then p else unused_process)"
  by (simp add: sample_kstate_def nth_list_update)

lemma kstate_sched_kinv: "kinv kstate_sched"
proof -
  let ?s = "sample_kstate (sample_process PROC_SLEEPING 1 None (KWait False))
     (sample_process PROC_READY 2 (Some 1) KForkret) (cpu0\<lparr>eflags_if := False, ncli := 1, int_on := True\<rparr>) held_lock"
  have "table_ok ?s" by (rule sample_table_ok [OF refl refl]) simp_all
  moreover have "running_ok (ptable ?s) None"
    by (auto simp: running_ok_def sample_nth sample_process_def unused_process_def)
  moreover have "in_sched ?s" "proc (the_cpu ?s) = None" by (simp_all add: in_sched_def sample_kstate_def cpu0_def)
  ultimately show ?thesis by (simp add: kinv_def kstate_sched_def)
qed

lemma kstate_run_kinv: "kinv kstate_run"
proof -
  let ?s = "sample_kstate (sample_process PROC_SLEEPING 1 None (KWait False))
     (sample_process PROC_RUNNING 2 (Some 1) KForkret) (cpu0\<lparr>proc := Some 2\<rparr>) new_lock"
  have "table_ok ?s" by (rule sample_table_ok [OF refl refl]) simp_all
  moreover have "running_ok (ptable ?s) (Some 2)"
    by (auto simp: running_ok_def sample_nth sample_process_def unused_process_def split: if_splits)
  moreover have "in_proc 2 ?s" "proc (the_cpu ?s) = Some 2" by (simp_all add: in_proc_def sample_kstate_def cpu0_def)
  ultimately show ?thesis by (auto simp: kinv_def kstate_run_def)
qed

section \<open>Properties\<close>

text \<open>C1: whatever sequence of scheduler rounds and operations of the running processes leads
  from a good state to another: at most one process is running there and it is the current
  one of the processor; processes in use have different pids in 1..64; init is neither free
  nor a zombie; a ready or sleeping process has a kernel stack, an address space and
  somewhere to resume; and the process table is locked, with interrupts off, exactly while
  the scheduler is in control.\<close>

theorem kernel_invariant:
  assumes "kreach s t" "kinv s"
  shows "kinv t \<and>
    (\<forall>i < NPROC. state (ptable t ! i) = PROC_RUNNING \<longleftrightarrow> proc (the_cpu t) = Some i) \<and>
    (\<forall>i < NPROC. \<forall>j < NPROC. i \<noteq> j \<and> state (ptable t ! i) \<noteq> PROC_UNUSED \<and> state (ptable t ! j) \<noteq> PROC_UNUSED
       \<longrightarrow> pid (ptable t ! i) \<noteq> pid (ptable t ! j)) \<and>
    (\<forall>i < NPROC. state (ptable t ! i) \<noteq> PROC_UNUSED \<longrightarrow> uint (pid (ptable t ! i)) \<in> {1..64}) \<and>
    (\<forall>j. proc_init1 t = Some j \<longrightarrow> state (ptable t ! j) \<notin> {PROC_UNUSED, PROC_ZOMBIE}) \<and>
    (\<forall>i < NPROC. state (ptable t ! i) \<in> {PROC_READY, PROC_SLEEPING} \<longrightarrow>
       kstack (ptable t ! i) \<noteq> 0 \<and> pgdir (ptable t ! i) \<noteq> 0 \<and> kont (ptable t ! i) \<notin> {KNone, KExit}) \<and>
    (if proc (the_cpu t) = None then locked (ptable_lk t) = 1 \<and> \<not> eflags_if (the_cpu t)
     else locked (ptable_lk t) = 0 \<and> ncli (the_cpu t) = 0)"
proof -
  have k: "kinv t" using kreach_kinv assms by blast
  then have T: "table_ok t" and R: "running_ok (ptable t) (proc (the_cpu t))"
    and S: "in_sched t \<or> (\<exists>i. in_proc i t)" by (auto simp: kinv_def)
  have P: "pids_ok (ptable t) (nextpid t)" and I: "init_ok (ptable t) (proc_init1 t)"
    and O: "\<forall>i < NPROC. proc_ok (ptable t ! i)" using T by (auto simp: table_ok_def)
  show ?thesis
  proof (intro conjI)
    show "\<forall>i < NPROC. state (ptable t ! i) = PROC_RUNNING \<longleftrightarrow> proc (the_cpu t) = Some i"
      using R unfolding running_ok_def by blast
    show "\<forall>i < NPROC. \<forall>j < NPROC. i \<noteq> j \<and> state (ptable t ! i) \<noteq> PROC_UNUSED \<and> state (ptable t ! j) \<noteq> PROC_UNUSED
       \<longrightarrow> pid (ptable t ! i) \<noteq> pid (ptable t ! j)"
      using P unfolding pids_ok_def by blast
    show "\<forall>i < NPROC. state (ptable t ! i) \<noteq> PROC_UNUSED \<longrightarrow> uint (pid (ptable t ! i)) \<in> {1..64}"
      using P unfolding pids_ok_def by fastforce
    show "\<forall>j. proc_init1 t = Some j \<longrightarrow> state (ptable t ! j) \<notin> {PROC_UNUSED, PROC_ZOMBIE}"
      using I unfolding init_ok_def by blast
    show "\<forall>i < NPROC. state (ptable t ! i) \<in> {PROC_READY, PROC_SLEEPING} \<longrightarrow>
       kstack (ptable t ! i) \<noteq> 0 \<and> pgdir (ptable t ! i) \<noteq> 0 \<and> kont (ptable t ! i) \<notin> {KNone, KExit}"
      using O unfolding proc_ok_def can_resume_def can_run_def by blast
    show "if proc (the_cpu t) = None then locked (ptable_lk t) = 1 \<and> \<not> eflags_if (the_cpu t)
      else locked (ptable_lk t) = 0 \<and> ncli (the_cpu t) = 0"
      using S by (auto simp: in_sched_def in_proc_def new_lock_def)
  qed (rule k)
qed

theorem kernel_invariant_witness:
  "\<exists>t. kreach kstate_run t \<and> kinv kstate_run \<and> proc (the_cpu t) = None \<and> locked (ptable_lk t) = 1"
proof -
  have "proc (the_cpu kstate_run) = Some 2" by (simp add: sample_defs)
  then obtain t where t: "yield kstate_run = Inr t" "in_sched t" "kstep kstate_run t"
    using yield_kinv [OF kstate_run_kinv] step_yield by blast
  then have "kreach kstate_run t" using kreach_refl kreach_step by blast
  moreover have "proc (the_cpu t) = None" using t(2) by (simp add: in_sched_def)
  ultimately show ?thesis using kernel_invariant [OF _ kstate_run_kinv, of t] kstate_run_kinv by auto
qed

text \<open>C2: the scheduler is live.  From any good state in which it is in control and some
  process is ready, at most two sweeps of the table (129 rounds, none of which panics or
  changes the table) bring it to a ready process, and unless that process was asleep in
  \<open>wait\<close> the next round switches to it and it runs, the table unlocked.\<close>

theorem scheduler_finds_ready:
  assumes "kinv s" "proc (the_cpu s) = None" "i < NPROC" "state (ptable s ! i) = PROC_READY"
  shows "\<exists>n \<le> 2 * NPROC + 1. \<exists>t. repeat_res n scheduler_step s = Inr t \<and> ptable t = ptable s \<and>
    state (ptable t ! sched_pos t) = PROC_READY \<and>
    ((\<forall>b. kont (ptable t ! sched_pos t) \<noteq> KWait b) \<longrightarrow>
       (\<exists>u. scheduler_step t = Inr u \<and> proc (the_cpu u) = Some (sched_pos t) \<and> locked (ptable_lk u) = 0 \<and> kinv u))"
proof -
  obtain n t where n: "n \<le> 2 * NPROC + 1" "repeat_res n scheduler_step s = Inr t" "found_ready s t"
    using ready_within [OF assms] by blast
  have "\<exists>u. scheduler_step t = Inr u \<and> proc (the_cpu u) = Some (sched_pos t) \<and> locked (ptable_lk u) = 0 \<and> kinv u"
    if "\<forall>b. kont (ptable t ! sched_pos t) \<noteq> KWait b"
    using found_ready_runs [OF n(3) that] by (auto simp: in_proc_def new_lock_def)
  moreover have "ptable t = ptable s" "state (ptable t ! sched_pos t) = PROC_READY"
    using n(3) unfolding found_ready_def by blast+
  ultimately show ?thesis using n(1,2) by blast
qed

theorem scheduler_finds_ready_witness:
  "\<exists>n \<le> 129. \<exists>t. repeat_res n scheduler_step kstate_sched = Inr t \<and> state (ptable t ! sched_pos t) = PROC_READY"
proof -
  have "proc (the_cpu kstate_sched) = None" "state (ptable kstate_sched ! 2) = PROC_READY"
    by (simp_all add: sample_defs cpu0_def)
  then show ?thesis using scheduler_finds_ready [OF kstate_sched_kinv, of 2] by auto
qed

end
