(* ===== verification/Process_Ops.thy ===== *)
theory Process_Ops
  imports Scheduler
begin

text \<open>
  What \<open>fork\<close>, \<open>exit\<close>, \<open>wait\<close>, \<open>sleep\<close> and \<open>wakeup\<close> of kernel/process.c do to the process
  table: which slots change, what becomes of children, zombies and sleepers, and the results.
\<close>

section \<open>Waking up\<close>

definition woken :: "chan \<Rightarrow> process \<Rightarrow> process" where
  "woken ch p = (if state p = PROC_SLEEPING \<and> chan p = ch then p\<lparr>state := PROC_READY\<rparr> else p)"

lemma wakeup_unlocked_nth:
  "j < length (ptable s) \<Longrightarrow> ptable (wakeup_unlocked ch s) ! j = woken ch (ptable s ! j)"
  by (simp add: wakeup_unlocked_def woken_def)

lemma woken_sel [simp]:
  "parent (woken ch p) = parent p" "pid (woken ch p) = pid p" "state (woken ch p) = PROC_ZOMBIE \<longleftrightarrow> state p = PROC_ZOMBIE"
  by (simp_all add: woken_def)

lemma woken_stays_ready: "state p = PROC_READY \<Longrightarrow> woken ch p = p"
  by (simp add: woken_def)

lemma wakeup_effect:
  assumes "kinv s" "proc (the_cpu s) = Some i"
  shows "\<exists>t. wakeup ch s = Inr t \<and> kinv t \<and> in_proc i t \<and> ptable t = map (woken ch) (ptable s)"
proof -
  obtain u where u: "lock_ptable s = Inr u" "in_crit i u" "table_ok u" "running_ok (ptable u) (Some i)"
    "ptable u = ptable s"
    using enter_crit [OF assms] by blast
  have q: "quiet u (wakeup_unlocked ch u)" using wakeup_quiet table_okD(1) [OF u(3)] by blast
  have "ptable (wakeup_unlocked ch u) = map (woken ch) (ptable s)"
    using u(5) by (auto simp: wakeup_unlocked_def woken_def)
  then show ?thesis
    using leave_crit [OF in_crit_quiet [OF q u(2)]] u q by (auto simp: quiet_def wakeup_def)
qed

section \<open>Leaving children to init\<close>

text \<open>What \<open>exit\<close> leaves of the other processes: a child of the exiting process gets init as
  its parent, and nobody who was not asleep changes its state.\<close>

definition orphaned :: "nat \<Rightarrow> kstate \<Rightarrow> kstate \<Rightarrow> nat \<Rightarrow> bool" where
  "orphaned me s t j \<longleftrightarrow>
     parent (ptable t ! j) = (if parent (ptable s ! j) = Some me then proc_init1 s else parent (ptable s ! j)) \<and>
     pid (ptable t ! j) = pid (ptable s ! j)"

lemma reparent_len [simp]: "length (ptable (reparent me i s)) = length (ptable s)"
  by (simp add: reparent_def Let_def wakeup_unlocked_def)

lemma wakeup_unlocked_sel [simp]:
  "length (ptable (wakeup_unlocked ch s)) = length (ptable s)" "proc_init1 (wakeup_unlocked ch s) = proc_init1 s"
  by (simp_all add: wakeup_unlocked_def)

lemma reparent_init [simp]: "proc_init1 (reparent me i s) = proc_init1 s"
  by (simp add: reparent_def Let_def)

lemma reparent_nth:
  assumes "i < length (ptable s)" "j < length (ptable s)"
  shows "if j = i then orphaned me s (reparent me i s) j
    else parent (ptable (reparent me i s) ! j) = parent (ptable s ! j) \<and>
      pid (ptable (reparent me i s) ! j) = pid (ptable s ! j)"
  using assms by (simp add: reparent_def Let_def wakeup_unlocked_nth orphaned_def)

lemma reparent_ready:
  assumes "i < length (ptable s)" "j < length (ptable s)" "state (ptable s ! j) = PROC_READY"
  shows "state (ptable (reparent me i s) ! j) = PROC_READY"
  using assms by (simp add: reparent_def Let_def wakeup_unlocked_nth woken_def nth_list_update)

lemma fold_reparent_nth:
  assumes "distinct is" "\<forall>i \<in> set is. i < length (ptable s)" "j < length (ptable s)"
  shows "if j \<in> set is then orphaned me s (fold (reparent me) is s) j
    else parent (ptable (fold (reparent me) is s) ! j) = parent (ptable s ! j) \<and>
      pid (ptable (fold (reparent me) is s) ! j) = pid (ptable s ! j)"
  using assms
proof (induction "is" arbitrary: s)
  case (Cons i "is")
  then show ?case
    using Cons.IH [of "reparent me i s"] reparent_nth [of i s j me] by (auto simp: orphaned_def split: if_splits)
qed simp

lemma fold_reparent_ready:
  assumes "\<forall>i \<in> set is. i < length (ptable s)" "j < length (ptable s)" "state (ptable s ! j) = PROC_READY"
  shows "state (ptable (fold (reparent me) is s) ! j) = PROC_READY"
  using assms by (induction "is" arbitrary: s) (auto simp: reparent_ready)

lemma exit_effect:
  assumes "kinv s" "proc (the_cpu s) = Some i" "proc_init1 s \<noteq> Some i"
  shows "\<exists>t. exit_proc s = Inr t \<and> kinv t \<and> in_sched t \<and> state (ptable t ! i) = PROC_ZOMBIE \<and>
    (\<forall>j < NPROC. j \<noteq> i \<longrightarrow> orphaned i s t j) \<and>
    (\<forall>j < NPROC. j \<noteq> i \<and> parent (ptable s ! i) = Some j \<and> state (ptable s ! j) = PROC_SLEEPING \<and>
       chan (ptable s ! j) = CProc j \<longrightarrow> state (ptable t ! j) = PROC_READY)"
proof -
  note K = kinv_in_proc [OF assms(1,2)]
  obtain c where c: "this_proc s = Inr (Some i, s\<lparr>the_cpu := c\<rparr>)" "in_proc i (s\<lparr>the_cpu := c\<rparr>)"
    using this_proc_in_proc [OF K(1)] by blast
  then have "kinv (s\<lparr>the_cpu := c\<rparr>)" using K(3,4) by (auto simp: kinv_def in_proc_def)
  then obtain u where u: "lock_ptable (s\<lparr>the_cpu := c\<rparr>) = Inr u" "in_crit i u" "table_ok u"
    "running_ok (ptable u) (Some i)" "ptable u = ptable s" "proc_init1 u = proc_init1 s"
    using enter_crit [of "s\<lparr>the_cpu := c\<rparr>" i] c(2) by (auto simp: in_proc_def)
  let ?ch = "case parent (ptable u ! i) of None \<Rightarrow> CNull | Some j \<Rightarrow> CProc j"
  let ?v = "wakeup_unlocked ?ch u"
  let ?w = "fold (reparent i) [0..<NPROC] ?v"
  have len: "length (ptable u) = NPROC" using table_okD(1) [OF u(3)] .
  have q1: "quiet u ?v" using wakeup_quiet len by blast
  then have "quiet ?v ?w" using fold_reparent_quiet [of ?v "[0..<NPROC]"] u(3) by (auto simp: quiet_def)
  with q1 have q: "quiet u ?w" by (rule quiet_trans)
  have w: "in_crit i ?w" "table_ok ?w" "running_ok (ptable ?w) (Some i)" "proc_init1 ?w = proc_init1 s"
    using in_crit_quiet [OF q u(2)] q u(3-6) by (simp_all add: quiet_def)
  have "can_run (ptable ?w ! i)" using q K(2,6) u(5) by (simp add: quiet_def can_run_def)
  then obtain t where t: "sched (\<lambda>_. KExit) (upd_proc i (\<lambda>p. p\<lparr>state := PROC_ZOMBIE\<rparr>) ?w) = Inr t"
    "kinv t" "in_sched t" "state (ptable t ! i) = PROC_ZOMBIE" "\<forall>j. j \<noteq> i \<longrightarrow> ptable t ! j = ptable ?w ! j"
    using suspend_kinv [OF w(1-3) K(2), of "\<lambda>p. p\<lparr>state := PROC_ZOMBIE\<rparr>" PROC_ZOMBIE "\<lambda>_. KExit"] w(4) assms(3)
    by auto
  have orph: "orphaned i s t j" if "j < NPROC" "j \<noteq> i" for j
    using fold_reparent_nth [of "[0..<NPROC]" ?v j i] that t(5) len u(5,6)
    by (simp add: orphaned_def wakeup_unlocked_nth)
  have woke: "state (ptable t ! j) = PROC_READY"
    if "j < NPROC" "j \<noteq> i" "parent (ptable s ! i) = Some j" "state (ptable s ! j) = PROC_SLEEPING"
      "chan (ptable s ! j) = CProc j" for j
  proof -
    have "state (ptable ?v ! j) = PROC_READY" using that len u(5) by (simp add: wakeup_unlocked_nth woken_def)
    then show ?thesis using fold_reparent_ready [of "[0..<NPROC]" ?v j i] that t(5) len by simp
  qed
  have "exit_proc s = Inr t" using c(1) u(1) t(1) assms(3) by (auto simp: exit_proc_def)
  then show ?thesis using t(2-4) orph woke by (intro exI [of _ t]) blast
qed

section \<open>Reaping\<close>

definition zombie_child :: "nat \<Rightarrow> process list \<Rightarrow> nat \<Rightarrow> bool" where
  "zombie_child me T j \<longleftrightarrow> parent (T ! j) = Some me \<and> state (T ! j) = PROC_ZOMBIE"

definition has_child :: "nat \<Rightarrow> process list \<Rightarrow> bool" where
  "has_child me T \<longleftrightarrow> (\<exists>j < NPROC. parent (T ! j) = Some me)"

text \<open>The three outcomes of \<open>wait\<close>.\<close>

definition wait_outcome :: "nat \<Rightarrow> kstate \<Rightarrow> int option \<Rightarrow> kstate \<Rightarrow> bool" where
  "wait_outcome me s r t \<longleftrightarrow>
     (if \<exists>j < NPROC. zombie_child me (ptable s) j
      then \<exists>j < NPROC. zombie_child me (ptable s) j \<and> r = Some (sint (pid (ptable s ! j))) \<and>
             state (ptable t ! j) = PROC_UNUSED \<and> (\<forall>k. k \<noteq> j \<longrightarrow> ptable t ! k = ptable s ! k)
      else if \<not> has_child me (ptable s) \<or> killed (ptable s ! me)
      then r = Some (- 1) \<and> ptable t = ptable s
      else r = None \<and> in_sched t \<and> state (ptable t ! me) = PROC_SLEEPING \<and>
             (\<forall>k. k \<noteq> me \<longrightarrow> ptable t ! k = ptable s ! k))"

lemma wait_pass_outcome:
  assumes "in_crit i s" "table_ok s" "running_ok (ptable s) (Some i)"
  shows "case wait_pass i s of Inr (r, t) \<Rightarrow> wait_outcome i s r t
    | Inl _ \<Rightarrow> \<exists>j < NPROC. zombie_child i (ptable s) j"
proof (cases "List.find (zombie_child i (ptable s)) [0..<NPROC]")
  case (Some j)
  then have j: "j < NPROC" "zombie_child i (ptable s) j" by (auto simp: find_Some_iff)
  have i: "state (ptable s ! i) = PROC_RUNNING" using assms(3) by (auto simp: running_ok_def)
  then have ne: "proc_init1 s \<noteq> Some j" using table_okD(3) [OF assms(2), of j] j by (auto simp: zombie_child_def)
  have eq: "wait_pass i s = rbind (deallocate_process_unlocked j s) (\<lambda>u.
      rbind (unlock_ptable u) (\<lambda>u. Inr (Some (sint (pid (ptable s ! j))), u)))"
    using Some unfolding wait_pass_def zombie_child_def [abs_def] Let_def by (simp only: option.case)
  show ?thesis
  proof (cases "wait_pass i s")
    case (Inr rt)
    then obtain u t where u: "deallocate_process_unlocked j s = Inr u" "unlock_ptable u = Inr t"
      "rt = (Some (sint (pid (ptable s ! j))), t)"
      using eq by (auto simp: rbind_Inr_iff)
    note d = dealloc_table [OF u(1) assms(2) j(1) ne]
    have "ptable t = ptable u" using u(2) by (auto simp: unlock_ptable_def rbind_Inr_iff split: prod.splits)
    then show ?thesis using Inr u(3) d(6,7) j unfolding wait_outcome_def by auto
  qed (use j in auto)
next
  case None
  then have no: "\<not> (\<exists>j < NPROC. zombie_child i (ptable s) j)" by (auto simp: find_None_iff)
  have f: "List.find (\<lambda>j. parent (ptable s ! j) = Some i \<and> state (ptable s ! j) = PROC_ZOMBIE) [0..<NPROC] = None"
    using None by (simp add: zombie_child_def [abs_def])
  have i: "i < NPROC" "state (ptable s ! i) = PROC_RUNNING" using assms(3) by (auto simp: running_ok_def)
  have run: "can_run (ptable s ! i)" using table_okD(2) [OF assms(2) i(1)] i(2) by (simp add: proc_ok_def)
  show ?thesis
  proof (cases "\<not> has_child i (ptable s) \<or> killed (ptable s ! i)")
    case True
    obtain t where "unlock_ptable s = Inr t" "ptable t = ptable s" using leave_crit [OF assms] by blast
    moreover have "\<exists>k. wait_pass i s = rbind (unlock_ptable s) (\<lambda>s. Inr (Some (- 1), s))"
      using True f by (auto simp: wait_pass_def has_child_def)
    ultimately show ?thesis using True no by (auto simp: wait_outcome_def)
  next
    case False
    have "sleep_ptable (CProc i) s = sched KWait (upd_proc i (\<lambda>p. p\<lparr>chan := CProc i, state := PROC_SLEEPING\<rparr>) s)"
      using this_proc_in_crit [OF assms(1)] by (simp add: sleep_ptable_def)
    then obtain u where "sleep_ptable (CProc i) s = Inr u" "in_sched u" "state (ptable u ! i) = PROC_SLEEPING"
      "\<forall>k. k \<noteq> i \<longrightarrow> ptable u ! k = ptable s ! k"
      using suspend_kinv [OF assms i(1) run,
          of "\<lambda>p. p\<lparr>chan := CProc i, state := PROC_SLEEPING\<rparr>" PROC_SLEEPING KWait] by auto
    moreover have "wait_pass i s = rbind (sleep_ptable (CProc i) s) (\<lambda>s. Inr (None, s))"
      using False f by (auto simp: wait_pass_def has_child_def)
    ultimately show ?thesis using False no by (simp add: wait_outcome_def)
  qed
qed

lemma wait_effect:
  assumes "kinv s" "proc (the_cpu s) = Some i"
  shows "case wait s of Inr (r, t) \<Rightarrow> wait_outcome i s r t | Inl _ \<Rightarrow> \<exists>j < NPROC. zombie_child i (ptable s) j"
proof -
  obtain c where c: "this_proc s = Inr (Some i, s\<lparr>the_cpu := c\<rparr>)" "kinv (s\<lparr>the_cpu := c\<rparr>)" "proc c = Some i"
    using kinv_this_proc [OF assms(1,2)] by blast
  obtain u where u: "lock_ptable (s\<lparr>the_cpu := c\<rparr>) = Inr u" "in_crit i u" "table_ok u"
    "running_ok (ptable u) (Some i)" "ptable u = ptable s"
    using enter_crit [OF c(2)] c(3) by auto
  have "wait s = wait_pass i u" using c(1) u(1) by (simp add: wait_def)
  moreover have "wait_outcome i u = wait_outcome i s" by (intro ext) (simp only: wait_outcome_def u(5))
  ultimately show ?thesis using wait_pass_outcome [OF u(2-4), unfolded u(5)] by (simp only:)
qed

section \<open>Properties\<close>


lemma kstate_run_pids_used: "kinv (kstate_run\<lparr>nextpid := 65\<rparr>)"
  using kstate_run_kinv by (auto simp: kinv_def table_ok_def pids_ok_def in_sched_def in_proc_def sample_defs)


text \<open>C17: \<open>exit\<close> in a process other than init always succeeds: control goes to the scheduler
  with the process a zombie, its children (and nobody else) are handed to init, and a parent
  asleep in \<open>wait\<close> is made ready.  In init it panics.\<close>

theorem exit_leaves_zombie:
  assumes "kinv s" "proc (the_cpu s) = Some i"
  shows "if proc_init1 s = Some i then exit_proc s = Inl (Panic ''init 1 is exiting'')
    else \<exists>t. exit_proc s = Inr t \<and> kinv t \<and> proc (the_cpu t) = None \<and> state (ptable t ! i) = PROC_ZOMBIE \<and>
      (\<forall>j < NPROC. j \<noteq> i \<longrightarrow> parent (ptable t ! j) =
         (if parent (ptable s ! j) = Some i then proc_init1 s else parent (ptable s ! j))) \<and>
      (\<forall>j < NPROC. j \<noteq> i \<and> parent (ptable s ! i) = Some j \<and> state (ptable s ! j) = PROC_SLEEPING \<and>
         chan (ptable s ! j) = CProc j \<longrightarrow> state (ptable t ! j) = PROC_READY)"
proof (cases "proc_init1 s = Some i")
  case True
  obtain c where "this_proc s = Inr (Some i, s\<lparr>the_cpu := c\<rparr>)" using kinv_this_proc [OF assms] by blast
  then show ?thesis using True by (simp add: exit_proc_def)
next
  case False
  then show ?thesis using exit_effect [OF assms False] by (auto simp: orphaned_def in_sched_def)
qed

theorem exit_leaves_zombie_witness:
  "\<exists>t. exit_proc kstate_run = Inr t \<and> state (ptable t ! 2) = PROC_ZOMBIE \<and> proc (the_cpu t) = None"
proof -
  have "proc (the_cpu kstate_run) = Some 2" "proc_init1 kstate_run \<noteq> Some 2" by (simp_all add: sample_defs)
  then show ?thesis using exit_leaves_zombie [OF kstate_run_kinv, of 2] by auto
qed



end
