(* ===== verification/Mutex.thy ===== *)
theory Mutex
  imports Process_Ops
begin

text \<open>
  kernel/process/mutex.c: mutexes that put the caller to sleep.  The address of the mutex is
  the sleep channel.  An operation that may block is translated up to the point where its
  caller goes to sleep; what the caller does when it runs again (\<open>sleep\<close> takes the spinlock
  back and the loop tests again) is the same operation once more.
\<close>

section \<open>Operations under one spinlock\<close>

text \<open>The process code with \<open>n\<close> spinlocks held.\<close>

definition in_proc_at :: "nat \<Rightarrow> int \<Rightarrow> kstate \<Rightarrow> bool" where
  "in_proc_at i n s \<longleftrightarrow>
     proc (the_cpu s) = Some i \<and> ptable_lk s = new_lock \<and> ncli (the_cpu s) = n \<and> (0 < n \<longrightarrow> \<not> eflags_if (the_cpu s)) \<and>
     table_ok s \<and> running_ok (ptable s) (Some i)"

lemma in_proc_at_kinv: "in_proc_at i 0 s \<longleftrightarrow> kinv s \<and> proc (the_cpu s) = Some i"
  by (auto simp: in_proc_at_def kinv_def in_proc_def in_sched_def)

lemma in_proc_at_wf: "in_proc_at i n s \<Longrightarrow> 0 \<le> n \<Longrightarrow> wf_cpu (the_cpu s)"
  by (simp add: in_proc_at_def wf_cpu_def)

lemma in_proc_at_pushed:
  "in_proc_at i n s \<Longrightarrow> 0 \<le> n \<Longrightarrow> in_proc_at i (n + 1) (s\<lparr>the_cpu := pushed (the_cpu s)\<rparr>)"
  by (simp add: in_proc_at_def)

lemma in_proc_at_popped:
  "in_proc_at i (n + 1) s \<Longrightarrow> 0 \<le> n \<Longrightarrow> in_proc_at i n (s\<lparr>the_cpu := popped (the_cpu s)\<rparr>)"
  by (simp add: in_proc_at_def popped_def)

lemma this_proc_nested: "in_proc_at i n s \<Longrightarrow> 0 < n \<Longrightarrow> this_proc s = Inr (Some i, s)"
  using this_proc_eq [of s] popped_pushed_nested [of "the_cpu s"] in_proc_at_wf [of i n s]
  by (simp add: in_proc_at_def)

lemma lock_nested:
  "in_proc_at i n s \<Longrightarrow> 0 \<le> n \<Longrightarrow> locked lk = 0 \<Longrightarrow> lock lk (the_cpu s) = Inr (held_lock, pushed (the_cpu s))"
  using lock_free [of "the_cpu s" lk] in_proc_at_wf by blast

lemma unlock_nested:
  "in_proc_at i n s \<Longrightarrow> 0 < n \<Longrightarrow> unlock held_lock (the_cpu s) = Inr (new_lock, popped (the_cpu s))"
  using unlock_held [of "the_cpu s" held_lock] in_proc_at_wf [of i n s] by (simp add: in_proc_at_def new_lock_def)

lemma wakeup_in_proc_at:
  assumes "in_proc_at i n s"
  shows "in_proc_at i n (wakeup_unlocked ch s)"
proof -
  have "length (ptable s) = NPROC" using assms table_okD(1) by (simp add: in_proc_at_def)
  then have q: "quiet s (wakeup_unlocked ch s)" by (rule wakeup_quiet)
  then show ?thesis using assms unfolding in_proc_at_def quiet_def by (metis wakeup_unlocked_sel)
qed

lemma wakeup_nested:
  assumes "in_proc_at i n s" "0 < n"
  shows "wakeup ch s = Inr (wakeup_unlocked ch s)"
proof -
  have wf: "wf_cpu (the_cpu s)" "0 < ncli (the_cpu s)" using assms in_proc_at_wf by (auto simp: in_proc_at_def)
  have lk: "ptable_lk s = new_lock" using assms by (simp add: in_proc_at_def)
  let ?u = "s\<lparr>ptable_lk := held_lock, the_cpu := pushed (the_cpu s)\<rparr>"
  have "lock_ptable s = Inr ?u" using lock_ptable_eq [OF wf(1) lk] .
  moreover have "unlock_ptable (wakeup_unlocked ch ?u) =
      Inr ((wakeup_unlocked ch ?u)\<lparr>ptable_lk := new_lock, the_cpu := popped (pushed (the_cpu s))\<rparr>)"
    using unlock_ptable_eq [of "wakeup_unlocked ch ?u"] wf wf_cpu_pushed [OF wf(1)]
    by (simp add: wakeup_unlocked_def)
  moreover have "(wakeup_unlocked ch ?u)\<lparr>ptable_lk := new_lock, the_cpu := popped (pushed (the_cpu s))\<rparr> =
      wakeup_unlocked ch s"
    using popped_pushed_nested [OF wf(2,1)] lk by (cases s) (simp add: wakeup_unlocked_def)
  ultimately show ?thesis by (simp add: wakeup_def)
qed

lemma sleep_nested:
  assumes "in_proc_at i 1 s"
  shows "\<exists>t. sleep ch held_lock s = Inr (new_lock, t) \<and> kinv t \<and> in_sched t \<and>
    state (ptable t ! i) = PROC_SLEEPING \<and> (\<forall>j. j \<noteq> i \<longrightarrow> ptable t ! j = ptable s ! j)"
proof -
  have s: "proc (the_cpu s) = Some i" "ptable_lk s = new_lock" "ncli (the_cpu s) = 1" "table_ok s"
    "running_ok (ptable s) (Some i)" "\<not> eflags_if (the_cpu s)"
    using assms by (auto simp: in_proc_at_def)
  have wf: "wf_cpu (the_cpu s)" using in_proc_at_wf [OF assms] by simp
  have i: "i < NPROC" "state (ptable s ! i) = PROC_RUNNING" using s(5) by (auto simp: running_ok_def)
  then have run: "can_run (ptable s ! i)" using table_okD(2) [OF s(4) i(1)] by (auto simp: proc_ok_def)
  let ?u = "s\<lparr>ptable_lk := held_lock, the_cpu := pushed (the_cpu s)\<rparr>" and ?v = "s\<lparr>ptable_lk := held_lock\<rparr>"
  have l: "lock_ptable s = Inr ?u" using lock_ptable_eq [OF wf s(2)] .
  have un: "unlock held_lock (pushed (the_cpu s)) = Inr (new_lock, the_cpu s)"
    using unlock_held [OF wf_cpu_pushed [OF wf], of held_lock] s(3) popped_pushed_nested [OF _ wf]
    by (simp add: new_lock_def)
  have crit: "in_crit i ?v" using s by (simp add: in_crit_def)
  have "sleep ch held_lock s =
      rbind (sched KSleep (upd_proc i (\<lambda>p. p\<lparr>chan := ch, state := PROC_SLEEPING\<rparr>) ?v)) (\<lambda>s. Inr (new_lock, s))"
    using this_proc_nested [OF assms] l un by (simp add: sleep_def)
  then show ?thesis
    using suspend_kinv [OF crit _ _ i(1), of "\<lambda>p. p\<lparr>chan := ch, state := PROC_SLEEPING\<rparr>" PROC_SLEEPING KSleep]
      s(4,5) run by auto
qed

section \<open>Mutexes\<close>

record mutex =
  m_locked :: bool
  m_lk :: spinlock
  m_pid :: u32

definition new_mutex :: mutex where
  "new_mutex = \<lparr>m_locked = False, m_lk = new_lock, m_pid = 0\<rparr>"

definition holding_mutex :: "mutex \<Rightarrow> kstate \<Rightarrow> (bool \<times> mutex \<times> kstate) res" where
  "holding_mutex slk s =
     rbind (lock (m_lk slk) (the_cpu s)) (\<lambda>(l, c).
     rbind (if m_locked slk
            then rbind (this_proc (s\<lparr>the_cpu := c\<rparr>)) (\<lambda>(p, s).
                 case p of None \<Rightarrow> Inl OutOfBounds | Some i \<Rightarrow> Inr (m_pid slk = pid (ptable s ! i), s))
            else Inr (False, s\<lparr>the_cpu := c\<rparr>)) (\<lambda>(r, s).
     rbind (unlock l (the_cpu s)) (\<lambda>(l, c).
     Inr (r, slk\<lparr>m_lk := l\<rparr>, s\<lparr>the_cpu := c\<rparr>))))"

text \<open>The result says whether the caller has the mutex; otherwise it is asleep on it.\<close>

definition lock_mutex :: "u32 \<Rightarrow> mutex \<Rightarrow> kstate \<Rightarrow> (bool \<times> mutex \<times> kstate) res" where
  "lock_mutex a slk s =
     rbind (lock (m_lk slk) (the_cpu s)) (\<lambda>(l, c).
     let s = s\<lparr>the_cpu := c\<rparr> in
     if m_locked slk
     then rbind (sleep (CObj a) l s) (\<lambda>(l, s). Inr (False, slk\<lparr>m_lk := l\<rparr>, s))
     else
       rbind (this_proc s) (\<lambda>(p, s).
       case p of None \<Rightarrow> Inl OutOfBounds
       | Some i \<Rightarrow>
           rbind (unlock l (the_cpu s)) (\<lambda>(l, c).
           Inr (True, \<lparr>m_locked = True, m_lk = l, m_pid = pid (ptable s ! i)\<rparr>, s\<lparr>the_cpu := c\<rparr>))))"

definition unlock_mutex :: "u32 \<Rightarrow> mutex \<Rightarrow> kstate \<Rightarrow> (mutex \<times> kstate) res" where
  "unlock_mutex a slk s =
     rbind (lock (m_lk slk) (the_cpu s)) (\<lambda>(l, c).
     rbind (wakeup (CObj a) (s\<lparr>the_cpu := c\<rparr>)) (\<lambda>s.
     rbind (unlock l (the_cpu s)) (\<lambda>(l, c).
     Inr (\<lparr>m_locked = False, m_lk = l, m_pid = 0\<rparr>, s\<lparr>the_cpu := c\<rparr>))))"

lemma lock_mutex_free:
  assumes "kinv s" "proc (the_cpu s) = Some i" "m_lk slk = new_lock" "\<not> m_locked slk"
  shows "\<exists>t. lock_mutex a slk s = Inr (True, \<lparr>m_locked = True, m_lk = new_lock, m_pid = pid (ptable s ! i)\<rparr>, t) \<and>
    kinv t \<and> proc (the_cpu t) = Some i \<and> ptable t = ptable s"
proof -
  have s: "in_proc_at i 0 s" using in_proc_at_kinv assms by blast
  let ?u = "s\<lparr>the_cpu := pushed (the_cpu s)\<rparr>" and ?t = "s\<lparr>the_cpu := popped (pushed (the_cpu s))\<rparr>"
  have u: "in_proc_at i 1 ?u" using in_proc_at_pushed [OF s] by simp
  have "lock_mutex a slk s = Inr (True, \<lparr>m_locked = True, m_lk = new_lock, m_pid = pid (ptable s ! i)\<rparr>, ?t)"
    using lock_nested [OF s, of "m_lk slk"] this_proc_nested [OF u] unlock_nested [OF u] assms(3,4)
    by (simp add: lock_mutex_def new_lock_def)
  moreover have "in_proc_at i 0 ?t" using in_proc_at_popped [of i 0 ?u] u by simp
  ultimately show ?thesis using in_proc_at_kinv by fastforce
qed

lemma lock_mutex_taken:
  assumes "kinv s" "proc (the_cpu s) = Some i" "m_lk slk = new_lock" "m_locked slk"
  shows "\<exists>t. lock_mutex a slk s = Inr (False, slk, t) \<and> kinv t \<and> in_sched t \<and>
    state (ptable t ! i) = PROC_SLEEPING \<and> (\<forall>j. j \<noteq> i \<longrightarrow> ptable t ! j = ptable s ! j)"
proof -
  have s: "in_proc_at i 0 s" using in_proc_at_kinv assms by blast
  have u: "in_proc_at i 1 (s\<lparr>the_cpu := pushed (the_cpu s)\<rparr>)" using in_proc_at_pushed [OF s] by simp
  obtain t where t: "sleep (CObj a) held_lock (s\<lparr>the_cpu := pushed (the_cpu s)\<rparr>) = Inr (new_lock, t)" "kinv t"
    "in_sched t" "state (ptable t ! i) = PROC_SLEEPING" "\<forall>j. j \<noteq> i \<longrightarrow> ptable t ! j = ptable s ! j"
    using sleep_nested [OF u, of "CObj a"] by auto
  have "lock_mutex a slk s = Inr (False, slk\<lparr>m_lk := new_lock\<rparr>, t)"
    using lock_nested [OF s, of "m_lk slk"] t(1) assms(3,4) by (simp add: lock_mutex_def new_lock_def)
  moreover have "slk\<lparr>m_lk := new_lock\<rparr> = slk" using assms(3) by simp
  ultimately show ?thesis using t(2-5) by auto
qed

lemma unlock_mutex_ok:
  assumes "kinv s" "proc (the_cpu s) = Some i" "m_lk slk = new_lock"
  shows "\<exists>t. unlock_mutex a slk s = Inr (new_mutex, t) \<and> kinv t \<and> proc (the_cpu t) = Some i \<and>
    ptable t = map (woken (CObj a)) (ptable s)"
proof -
  have s: "in_proc_at i 0 s" using in_proc_at_kinv assms by blast
  let ?u = "s\<lparr>the_cpu := pushed (the_cpu s)\<rparr>"
  let ?v = "wakeup_unlocked (CObj a) ?u"
  have u: "in_proc_at i 1 ?u" using in_proc_at_pushed [OF s] by simp
  have v: "in_proc_at i 1 ?v" using wakeup_in_proc_at [OF u] .
  have "unlock_mutex a slk s = Inr (new_mutex, ?v\<lparr>the_cpu := popped (the_cpu ?v)\<rparr>)"
    using lock_nested [OF s, of "m_lk slk"] wakeup_nested [OF u] unlock_nested [OF v] assms(3)
    by (simp add: unlock_mutex_def new_lock_def new_mutex_def)
  moreover have "in_proc_at i 0 (?v\<lparr>the_cpu := popped (the_cpu ?v)\<rparr>)" using in_proc_at_popped [of i 0 ?v] v by simp
  moreover have "ptable ?v = map (woken (CObj a)) (ptable s)" by (auto simp: wakeup_unlocked_def woken_def)
  ultimately show ?thesis using in_proc_at_kinv by fastforce
qed



end
