(* ===== verification/Ide.thy ===== *)
theory Ide
  imports Melon_Prelude
begin

text \<open>
  kernel/driver/ide.c: the ATA driver in PIO mode.  The code is translated against a drive
  that answers on the registers of the primary channel; \<open>ata\<close> and the functions
  \<open>ata_outb\<close>, \<open>ata_status\<close>, \<open>ata_outsl\<close> and \<open>ata_insl\<close> are that hardware, as the ATA
  standard documents it: 28-bit sector addresses in four registers, a status register that
  shows busy for some time after a command, a data port that moves one sector.
\<close>

section \<open>The drive\<close>

record ata =
  r_secn :: u8
  r_lba0 :: u8
  r_lba1 :: u8
  r_lba2 :: u8
  r_sel :: u8
  command :: u8
  delay :: nat
  latency :: nat
  has_slave :: bool
  sectors :: "bool \<Rightarrow> u32 \<Rightarrow> u8 list"

definition ata_lba :: "ata \<Rightarrow> u32" where
  "ata_lba d = ucast (r_lba0 d) OR push_bit 8 (ucast (r_lba1 d)) OR push_bit 16 (ucast (r_lba2 d)) OR
     push_bit 24 (ucast (r_sel d AND 0x0f))"

definition ata_slave :: "ata \<Rightarrow> bool" where
  "ata_slave d = bit (r_sel d) 4"

definition ata_outb :: "u16 \<Rightarrow> u8 \<Rightarrow> ata \<Rightarrow> ata" where
  "ata_outb port v d =
     (if port = 0x1f2 then d\<lparr>r_secn := v\<rparr>
      else if port = 0x1f3 then d\<lparr>r_lba0 := v\<rparr>
      else if port = 0x1f4 then d\<lparr>r_lba1 := v\<rparr>
      else if port = 0x1f5 then d\<lparr>r_lba2 := v\<rparr>
      else if port = 0x1f6 then d\<lparr>r_sel := v\<rparr>
      else if port = 0x1f7 then d\<lparr>command := v, delay := latency d\<rparr>
      else d)"

definition ata_status :: "ata \<Rightarrow> u8" where
  "ata_status d = (if ata_slave d \<and> \<not> has_slave d then 0 else if delay d = 0 then 0x40 else 0x80)"

definition ata_outsl :: "u8 list \<Rightarrow> ata \<Rightarrow> ata" where
  "ata_outsl bs d =
     (if command d = 0x30
      then d\<lparr>sectors := (sectors d)(ata_slave d := (sectors d (ata_slave d))(ata_lba d := bs)), delay := latency d\<rparr>
      else d)"

definition ata_insl :: "ata \<Rightarrow> u8 list" where
  "ata_insl d = sectors d (ata_slave d) (ata_lba d)"

section \<open>The driver\<close>

datatype Channel = ATA_PRIMARY | ATA_SECONDARY

datatype Drive = ATA_MASTER | ATA_SLAVE

definition regb :: "Channel \<Rightarrow> u16 \<Rightarrow> u16" where
  "regb ch r = (case ch of ATA_PRIMARY \<Rightarrow> 0x1f0 | ATA_SECONDARY \<Rightarrow> 0x170) + r"

definition regc :: "Channel \<Rightarrow> u16 \<Rightarrow> u16" where
  "regc ch r = (case ch of ATA_PRIMARY \<Rightarrow> 0x3f6 | ATA_SECONDARY \<Rightarrow> 0x376) + r"

abbreviation (input) SECSZ :: nat where "SECSZ \<equiv> 512"

text \<open>Every look at the status register lets time pass in the drive.  When the drive's own
  time is over and it still is not ready, it never will be.\<close>

definition inb_status :: "ata \<Rightarrow> u8 \<times> ata" where
  "inb_status d = (ata_status d, d\<lparr>delay := delay d - 1\<rparr>)"

function ide_wait :: "ata \<Rightarrow> ata res" where
  "ide_wait d =
     (let (st, d') = inb_status d in
      if st AND 0xc0 = 0x40 then Inr d'
      else if delay d = 0 then Inl Hang
      else ide_wait d')"
  by auto
termination
  by (relation "measure delay") (auto simp: inb_status_def)

fun poll_status :: "nat \<Rightarrow> bool \<Rightarrow> ata \<Rightarrow> bool \<times> ata" where
  "poll_status 0 flag d = (flag, d)"
| "poll_status (Suc n) flag d = (let (st, d) = inb_status d in poll_status n (st \<noteq> 0 \<or> flag) d)"

definition ide_has_secondary :: "Channel \<Rightarrow> ata \<Rightarrow> bool \<times> ata" where
  "ide_has_secondary ch d =
     (let d = ata_outb (regb ch 6) (0xe0 OR push_bit 4 1) d;
          (flag, d) = poll_status 1024 False d
      in (flag, ata_outb (regb ch 6) (0xe0 OR push_bit 4 0) d))"

definition ide_check_error :: "ata \<Rightarrow> bool" where
  "ide_check_error d = (ata_status d AND (0 OR push_bit 5 1) \<noteq> 0)"

definition ide_request :: "Channel \<Rightarrow> Drive \<Rightarrow> u8 \<Rightarrow> u32 \<Rightarrow> u32 \<Rightarrow> ata \<Rightarrow> ata res" where
  "ide_request ch dr cmd lba secn d =
     (if secn = 0 then Inl (Panic ''[IDE] ide_request'')
      else
        rbind (ide_wait d) (\<lambda>d. Inr (
        let d = ata_outb (regc ch 0) 0 d;
            d = ata_outb (regb ch 2) (ucast secn) d;
            d = ata_outb (regb ch 3) (ucast lba) d;
            d = ata_outb (regb ch 4) (ucast (drop_bit 8 lba)) d;
            d = ata_outb (regb ch 5) (ucast (drop_bit 16 lba)) d;
            d = ata_outb (regb ch 6)
                  (ucast (drop_bit 24 lba OR 0xe0 OR push_bit 4 (case dr of ATA_MASTER \<Rightarrow> 0 | ATA_SLAVE \<Rightarrow> 1))) d
        in ata_outb (regb ch 7) cmd d)))"

definition ide_read_request :: "Channel \<Rightarrow> Drive \<Rightarrow> u32 \<Rightarrow> u32 \<Rightarrow> ata \<Rightarrow> ata res" where
  "ide_read_request ch dr lba secn d =
     rbind (ide_wait d) (\<lambda>d.
       let cmd = (if secn = 1 then 0x20 else 0xc4) in ide_request ch dr cmd lba secn d)"

definition ide_read :: "ata \<Rightarrow> u8 list" where
  "ide_read d = ata_insl d"

definition ide_write_request :: "Channel \<Rightarrow> Drive \<Rightarrow> u8 list \<Rightarrow> u32 \<Rightarrow> u32 \<Rightarrow> ata \<Rightarrow> ata res" where
  "ide_write_request ch dr src lba secn d =
     rbind (ide_wait d) (\<lambda>d.
       let cmd = (if secn = 1 then 0x30 else 0xc5)
       in rbind (ide_request ch dr cmd lba secn d) (\<lambda>d. Inr (ata_outsl src d)))"

declare ide_wait.simps [simp del]

section \<open>Addressing\<close>

definition present :: "ata \<Rightarrow> bool" where
  "present d \<longleftrightarrow> (ata_slave d \<longrightarrow> has_slave d)"

lemma ide_wait_ready: "present d \<Longrightarrow> ide_wait d = Inr (d\<lparr>delay := 0\<rparr>)"
proof (induction d rule: ide_wait.induct)
  case (1 d)
  show ?case
  proof (cases "delay d = 0")
    case True
    then show ?thesis using 1(2) by (subst ide_wait.simps) (simp add: inb_status_def ata_status_def present_def)
  next
    case False
    then have "inb_status d = (0x80, d\<lparr>delay := delay d - 1\<rparr>)" using 1(2)
      by (simp add: ata_status_def inb_status_def present_def)
    moreover have "present (d\<lparr>delay := delay d - 1\<rparr>)" using 1(2) by (simp add: present_def ata_slave_def)
    ultimately show ?thesis using 1(1) False by (subst ide_wait.simps) simp
  qed
qed

lemma lba_registers:
  fixes lba :: u32
  assumes "unat lba < 2 ^ 28"
  shows "ucast (ucast lba :: u8) OR push_bit 8 (ucast (ucast (drop_bit 8 lba) :: u8)) OR
      push_bit 16 (ucast (ucast (drop_bit 16 lba) :: u8)) OR
      push_bit 24 (ucast (ucast (drop_bit 24 lba OR 0xe0 OR s) AND (0x0f :: u8))) = lba OR push_bit 24 (ucast (ucast s AND (0x0f :: u8)))"
    (is "?l = ?r")
proof (rule bit_eqI)
  fix n
  assume "possible_bit TYPE(32 word) n"
  then have n: "n < 32" by (simp add: possible_bit_def)
  have top: "\<not> bit lba n" if "28 \<le> n"
  proof -
    have "lba = take_bit 28 lba"
      using assms by (simp add: take_bit_word_eq_self unsigned_take_bit_eq word_unat_eq_iff take_bit_nat_eq_self)
    then show ?thesis using that by (metis bit_take_bit_iff not_le)
  qed
  have e0: "bit (0xe0 :: u32) k \<longleftrightarrow> k \<in> {5, 6, 7}" if "k < 8" for k
    using that by (cases k rule: nat.exhaust) (auto simp: less_Suc_eq numeral_eq_Suc bit_simps)
  have f: "bit (0x0f :: u8) k \<longleftrightarrow> k < 4" for k
    using bit_mask_iff [where 'a = "8 word", of 4 k] by (auto simp: mask_eq_exp_minus_1)
  consider "n < 8" | "8 \<le> n" "n < 16" | "16 \<le> n" "n < 24" | "24 \<le> n" "n < 28" | "28 \<le> n" by linarith
  then show "bit ?l n = bit ?r n"
    using n top e0 [of "n - 24"] f [of "n - 24"] by cases (auto simp: bit_simps)
qed

text \<open>The drive after a request for a sector of the slave.\<close>

definition selected :: "u8 \<Rightarrow> u32 \<Rightarrow> ata \<Rightarrow> ata \<Rightarrow> bool" where
  "selected cmd lba d e \<longleftrightarrow>
     ata_lba e = lba \<and> ata_slave e \<and> command e = cmd \<and> has_slave e = has_slave d \<and>
     sectors e = sectors d \<and> latency e = latency d"

lemma request_selects:
  assumes "present d" "unat lba < 2 ^ 28" "secn \<noteq> 0"
  shows "\<exists>e. ide_request ATA_PRIMARY ATA_SLAVE cmd lba secn d = Inr e \<and> selected cmd lba d e"
proof -
  have "ucast (ucast (0x10 :: u32) AND (0x0f :: u8)) = (0 :: u32)" by simp
  then have "ucast (ucast lba :: u8) OR push_bit 8 (ucast (ucast (drop_bit 8 lba) :: u8)) OR
      push_bit 16 (ucast (ucast (drop_bit 16 lba) :: u8)) OR
      push_bit 24 (ucast (ucast (drop_bit 24 lba OR 0xe0 OR 0x10) AND (0x0f :: u8))) = lba"
    using lba_registers [OF assms(2), of "0x10"] by simp
  moreover have "bit (ucast (drop_bit 24 lba OR 0xe0 OR 0x10) :: u8) 4"
    by (simp add: bit_simps)
  ultimately show ?thesis
    using assms(3)
    by (simp add: ide_request_def ide_wait_ready [OF assms(1)] regb_def regc_def ata_outb_def Let_def selected_def
        ata_lba_def ata_slave_def)
qed

lemma read_request_ok:
  assumes "present d" "unat lba < 2 ^ 28"
  shows "\<exists>e. ide_read_request ATA_PRIMARY ATA_SLAVE lba 1 d = Inr e \<and> selected 0x20 lba d e \<and>
    ide_read e = sectors d True lba"
proof -
  have "present (d\<lparr>delay := 0\<rparr>)" using assms(1) by (simp add: present_def ata_slave_def)
  then show ?thesis
    using request_selects [of "d\<lparr>delay := 0\<rparr>" lba 1 "0x20"] assms(2)
    by (auto simp: ide_read_request_def ide_wait_ready [OF assms(1)] selected_def ide_read_def ata_insl_def)
qed

lemma write_request_ok:
  assumes "present d" "unat lba < 2 ^ 28"
  shows "\<exists>e. ide_write_request ATA_PRIMARY ATA_SLAVE bs lba 1 d = Inr e \<and> ata_slave e \<and>
    has_slave e = has_slave d \<and> sectors e = (sectors d)(True := (sectors d True)(lba := bs))"
proof -
  have "present (d\<lparr>delay := 0\<rparr>)" using assms(1) by (simp add: present_def ata_slave_def)
  then obtain e where "ide_request ATA_PRIMARY ATA_SLAVE 0x30 lba 1 (d\<lparr>delay := 0\<rparr>) = Inr e" "selected 0x30 lba d e"
    using request_selects [of "d\<lparr>delay := 0\<rparr>" lba 1 "0x30"] assms(2) by (auto simp: selected_def)
  then show ?thesis
    by (auto simp: ide_write_request_def ide_wait_ready [OF assms(1)] selected_def ata_outsl_def ata_slave_def)
qed

end
