(* ===== verification/Fs_Defs.thy ===== *)
theory Fs_Defs
  imports Mutex Ide
begin

text \<open>
  The data of the file system (kernel/fs/fdefs.h) and its state: the disk queue, the buffer
  cache, the cached superblock and the inode cache.  Pointers to buffers and inodes are
  indices into their tables.  On disk and in the buffers everything is bytes; \<open>le16\<close> and
  \<open>le32\<close> are the processor's little-endian layout of 16 and 32 bit fields, and
  \<open>dinode_bytes\<close> the packed layout of \<open>struct DInode\<close>.
\<close>

section \<open>Layout of fields\<close>

definition le16 :: "u16 \<Rightarrow> u8 list" where
  "le16 v = [ucast v, ucast (drop_bit 8 v)]"

definition le32 :: "u32 \<Rightarrow> u8 list" where
  "le32 v = [ucast v, ucast (drop_bit 8 v), ucast (drop_bit 16 v), ucast (drop_bit 24 v)]"

definition rd16 :: "u8 list \<Rightarrow> nat \<Rightarrow> u16" where
  "rd16 bs k = ucast (bs ! k) OR push_bit 8 (ucast (bs ! (k + 1)))"

definition rd32 :: "u8 list \<Rightarrow> nat \<Rightarrow> u32" where
  "rd32 bs k = ucast (bs ! k) OR push_bit 8 (ucast (bs ! (k + 1))) OR push_bit 16 (ucast (bs ! (k + 2))) OR
     push_bit 24 (ucast (bs ! (k + 3)))"

text \<open>\<open>memmove\<close> into a buffer.\<close>

definition blit :: "nat \<Rightarrow> u8 list \<Rightarrow> u8 list \<Rightarrow> u8 list" where
  "blit k new bs = take k bs @ new @ drop (k + length new) bs"

definition slice :: "nat \<Rightarrow> nat \<Rightarrow> u8 list \<Rightarrow> u8 list" where
  "slice k n bs = take n (drop k bs)"

section \<open>Structures\<close>

abbreviation (input) BSIZE :: nat where "BSIZE \<equiv> 512"
abbreviation (input) NBUF :: nat where "NBUF \<equiv> 2560"
abbreviation (input) NINODES :: nat where "NINODES \<equiv> 128"
abbreviation (input) NDIRECT :: nat where "NDIRECT \<equiv> 12"
abbreviation (input) NINOBLKS :: nat where "NINOBLKS \<equiv> 13"
abbreviation (input) NDEV :: nat where "NDEV \<equiv> 32"
abbreviation (input) MAXFILE :: nat where "MAXFILE \<equiv> 71680"
abbreviation (input) ROOTINO :: u32 where "ROOTINO \<equiv> 1"
abbreviation (input) ROOTDEV :: u32 where "ROOTDEV \<equiv> 1"

abbreviation (input) F_DIR :: u32 where "F_DIR \<equiv> 1"
abbreviation (input) F_FILE :: u32 where "F_FILE \<equiv> 2"
abbreviation (input) F_DEV :: u32 where "F_DEV \<equiv> 3"

record superblock =
  nblocks :: u32
  ninodes :: u32
  ndata :: u32
  inodestart :: u32
  bmapstart :: u32
  datastart :: u32

record dinode =
  d_type :: u32
  d_major :: u16
  d_minor :: u16
  d_nlink :: u16
  d_size :: u32
  d_addrs :: "u32 list"

record inode =
  i_dev :: u32
  i_inum :: u32
  i_nref :: int
  i_lk :: mutex
  i_read :: bool
  i_d :: dinode

record bnode =
  b_next :: nat
  b_prev :: nat
  b_qnext :: "nat option"
  b_dirty :: bool
  b_valid :: bool
  b_nref :: u32
  b_dev :: u32
  b_blockno :: u32
  b_cache :: "u8 list"

record fs =
  drive :: ata
  dq_head :: "nat option"
  bhead :: nat
  buffer :: "nat \<Rightarrow> bnode"
  super_block :: superblock
  icache :: "inode list"

text \<open>\<open>sizeof(DInode)\<close> is 66 (packed) and \<open>inode_per_block\<close> 7; \<open>sizeof(SuperBlock)\<close> is 24.\<close>

abbreviation (input) DINODE_SZ :: nat where "DINODE_SZ \<equiv> 66"
abbreviation (input) inode_per_block :: u32 where "inode_per_block \<equiv> 7"

definition dinode_bytes :: "dinode \<Rightarrow> u8 list" where
  "dinode_bytes d =
     le32 (d_type d) @ le16 (d_major d) @ le16 (d_minor d) @ le16 (d_nlink d) @ le32 (d_size d) @
     concat (map le32 (d_addrs d))"

definition bytes_dinode :: "u8 list \<Rightarrow> dinode" where
  "bytes_dinode bs = \<lparr>d_type = rd32 bs 0, d_major = rd16 bs 4, d_minor = rd16 bs 6, d_nlink = rd16 bs 8,
     d_size = rd32 bs 10, d_addrs = map (\<lambda>k. rd32 bs (14 + 4 * k)) [0..<NINOBLKS]\<rparr>"

definition bytes_superblock :: "u8 list \<Rightarrow> superblock" where
  "bytes_superblock bs = \<lparr>nblocks = rd32 bs 0, ninodes = rd32 bs 4, ndata = rd32 bs 8, inodestart = rd32 bs 12,
     bmapstart = rd32 bs 16, datastart = rd32 bs 20\<rparr>"

definition get_inode_block :: "u32 \<Rightarrow> superblock \<Rightarrow> u32" where
  "get_inode_block inum sb = inum div inode_per_block + inodestart sb"

section \<open>Round trips\<close>

lemma length_le [simp]: "length (le16 v) = 2" "length (le32 w) = 4"
  by (simp_all add: le16_def le32_def)

lemma rd32_le32: "rd32 (le32 v @ bs) 0 = v"
  using load_store_same_bytes [of v] by (simp add: rd32_def le32_def)

lemma rd16_le16: "rd16 (le16 v @ bs) 0 = v"
proof -
  have "ucast (ucast v :: u8) OR push_bit 8 (ucast (ucast (drop_bit 8 v) :: u8)) = v"
  proof (rule bit_eqI)
    fix n
    assume "possible_bit TYPE(16 word) n"
    then have n: "n < 16" by (simp add: possible_bit_def)
    consider "n < 8" | "8 \<le> n" by linarith
    then show "bit (ucast (ucast v :: u8) OR push_bit 8 (ucast (ucast (drop_bit 8 v) :: u8)) :: u16) n = bit v n"
      using n by cases (auto simp: bit_simps)
  qed
  then show ?thesis by (simp add: rd16_def le16_def)
qed

lemma rd_append:
  "length xs \<le> k \<Longrightarrow> rd32 (xs @ ys) k = rd32 ys (k - length xs)"
  "length xs \<le> k \<Longrightarrow> rd16 (xs @ ys) k = rd16 ys (k - length xs)"
  by (auto simp: rd32_def rd16_def nth_append Suc_diff_le)

lemma length_concat_le32 [simp]: "length (concat (map le32 xs)) = 4 * length xs"
  by (induction xs) auto

lemma rd32_concat: "k < length xs \<Longrightarrow> rd32 (concat (map le32 xs) @ ys) (4 * k) = xs ! k"
proof (induction xs arbitrary: k)
  case (Cons x xs)
  then show ?case by (cases k) (auto simp: rd32_le32 rd_append)
qed simp

lemma length_dinode_bytes [simp]: "length (d_addrs d) = NINOBLKS \<Longrightarrow> length (dinode_bytes d) = DINODE_SZ"
  by (simp add: dinode_bytes_def)

lemma bytes_dinode_bytes: "length (d_addrs d) = NINOBLKS \<Longrightarrow> bytes_dinode (dinode_bytes d @ ys) = d"
proof -
  assume len: "length (d_addrs d) = NINOBLKS"
  have "map (\<lambda>k. rd32 (concat (map le32 (d_addrs d)) @ ys) (4 * k)) [0..<NINOBLKS] = d_addrs d"
    using rd32_concat [of _ "d_addrs d" ys] len by (intro nth_equalityI) auto
  then have "map (\<lambda>k. rd32 (dinode_bytes d @ ys) (14 + 4 * k)) [0..<NINOBLKS] = d_addrs d"
    by (simp add: dinode_bytes_def rd_append)
  then show ?thesis
    by (cases d) (simp add: bytes_dinode_def dinode_bytes_def rd_append rd32_le32 rd16_le16)
qed

lemma length_blit [simp]: "k + length new \<le> length bs \<Longrightarrow> length (blit k new bs) = length bs"
  by (simp add: blit_def)

lemma length_slice [simp]: "k + n \<le> length bs \<Longrightarrow> length (slice k n bs) = n"
  by (simp add: slice_def)

lemma slice_blit [simp]: "k + length new \<le> length bs \<Longrightarrow> slice k (length new) (blit k new bs) = new"
  by (simp add: slice_def blit_def)

lemma blit_nth:
  "k + length new \<le> length bs \<Longrightarrow> j < length bs \<Longrightarrow>
     blit k new bs ! j = (if k \<le> j \<and> j < k + length new then new ! (j - k) else bs ! j)"
  by (auto simp: blit_def nth_append min_def)

lemma slice_nth: "k + n \<le> length bs \<Longrightarrow> j < n \<Longrightarrow> slice k n bs ! j = bs ! (k + j)"
  by (simp add: slice_def)

end
