(* ===== verification/Bcache.thy ===== *)
theory Bcache
  imports Fs_Defs
begin

text \<open>
  kernel/fs/disk.c and kernel/fs/bcache.c: the queue of disk requests and the buffer cache.
  Buffers are chained through \<open>b_next\<close>, \<open>b_prev\<close> and, in the disk queue, \<open>b_qnext\<close>.  A walk
  along such a chain that has not ended after \<open>NBUF\<close> steps, the number of buffers, never
  ends: then the result is \<open>Hang\<close>.  The busy wait of \<open>disk_sync\<close> is the sequence of
  interrupts that end it, each running \<open>disk_handler\<close>.
\<close>

section \<open>disk.c\<close>

definition upd_buf :: "nat \<Rightarrow> (bnode \<Rightarrow> bnode) \<Rightarrow> fs \<Rightarrow> fs" where
  "upd_buf b f s = s\<lparr>buffer := (buffer s)(b := f (buffer s b))\<rparr>"

fun dq_last_loop :: "nat \<Rightarrow> nat \<Rightarrow> fs \<Rightarrow> nat res" where
  "dq_last_loop 0 b s = Inl Hang"
| "dq_last_loop (Suc n) b s =
     (case b_qnext (buffer s b) of None \<Rightarrow> Inr b | Some c \<Rightarrow> dq_last_loop n c s)"

definition dq_last :: "fs \<Rightarrow> nat option res" where
  "dq_last s =
     (case dq_head s of None \<Rightarrow> Inr None | Some b \<Rightarrow> rbind (dq_last_loop NBUF b s) (\<lambda>b. Inr (Some b)))"

definition dq_enqueue :: "nat \<Rightarrow> fs \<Rightarrow> fs res" where
  "dq_enqueue b s =
     (let s = upd_buf b (\<lambda>n. n\<lparr>b_qnext := None\<rparr>) s in
      case dq_head s of
        None \<Rightarrow> Inr (s\<lparr>dq_head := Some b\<rparr>)
      | Some _ \<Rightarrow>
          rbind (dq_last s) (\<lambda>l.
          case l of None \<Rightarrow> Inl OutOfBounds
          | Some c \<Rightarrow> Inr (upd_buf c (\<lambda>n. n\<lparr>b_qnext := Some b\<rparr>) s)))"

definition dq_dequeue :: "fs \<Rightarrow> nat option \<times> fs" where
  "dq_dequeue s =
     (case dq_head s of None \<Rightarrow> (None, s) | Some b \<Rightarrow> (Some b, s\<lparr>dq_head := b_qnext (buffer s b)\<rparr>))"

text \<open>\<open>SECN\<close> is 1 and \<open>BLK2SEC\<close> multiplies by it.\<close>

definition disk_cmd_request :: "nat \<Rightarrow> fs \<Rightarrow> fs res" where
  "disk_cmd_request b s =
     (let n = buffer s b in
      rbind (if b_dirty n
             then ide_write_request ATA_PRIMARY ATA_SLAVE (b_cache n) (1 * b_blockno n) 1 (drive s)
             else ide_read_request ATA_PRIMARY ATA_SLAVE (1 * b_blockno n) 1 (drive s)) (\<lambda>d.
      Inr (s\<lparr>drive := d\<rparr>)))"

definition read_block :: "nat \<Rightarrow> fs \<Rightarrow> fs" where
  "read_block b s = upd_buf b (\<lambda>n. n\<lparr>b_cache := ide_read (drive s)\<rparr>) s"

definition synced :: "bnode \<Rightarrow> bool" where
  "synced n \<longleftrightarrow> b_valid n \<and> \<not> b_dirty n"

definition disk_init :: "fs \<Rightarrow> fs res" where
  "disk_init s =
     (let (flag, d) = ide_has_secondary ATA_PRIMARY (drive s); s = s\<lparr>drive := d\<rparr>
      in if \<not> flag then Inl (Panic ''Secondary disk doesn't exist'') else Inr s)"

definition disk_handler :: "fs \<Rightarrow> fs res" where
  "disk_handler s =
     (case dq_dequeue s of
        (None, s) \<Rightarrow> Inr s
      | (Some b, s) \<Rightarrow>
          let s = (if \<not> b_dirty (buffer s b) then read_block b s else s);
              s = upd_buf b (\<lambda>n. n\<lparr>b_valid := True, b_dirty := False\<rparr>) s
          in case dq_head s of None \<Rightarrow> Inr s | Some c \<Rightarrow> disk_cmd_request c s)"

text \<open>The interrupts up to the one that completes the request of \<open>b\<close>: one for each request
  that is queued; with an empty queue none comes any more.\<close>

fun wait_synced :: "nat \<Rightarrow> nat \<Rightarrow> fs \<Rightarrow> fs res" where
  "wait_synced 0 b s = (if synced (buffer s b) then Inr s else Inl Hang)"
| "wait_synced (Suc n) b s =
     (if synced (buffer s b) then Inr s
      else if dq_head s = None then Inl Hang
      else rbind (disk_handler s) (wait_synced n b))"

definition disk_sync :: "nat \<Rightarrow> bool \<Rightarrow> fs \<Rightarrow> fs res" where
  "disk_sync b poll s =
     (if synced (buffer s b) then Inl (Panic ''disc_sync: nothing to do'')
      else if poll
      then
        rbind (disk_cmd_request b s) (\<lambda>s.
        rbind (ide_wait (drive s)) (\<lambda>d.
        let s = s\<lparr>drive := d\<rparr>;
            s = (if \<not> b_valid (buffer s b) then read_block b s else s)
        in Inr (upd_buf b (\<lambda>n. n\<lparr>b_valid := True, b_dirty := False\<rparr>) s)))
      else
        rbind (dq_enqueue b s) (\<lambda>s.
        rbind (disk_cmd_request b s) (wait_synced NBUF b)))"

section \<open>bcache.c\<close>

definition bcache_link :: "nat \<Rightarrow> fs \<Rightarrow> fs" where
  "bcache_link b s =
     (let s = upd_buf b (\<lambda>n. n\<lparr>b_prev := bhead s\<rparr>) s;
          s = upd_buf (b_prev (buffer s b)) (\<lambda>n. n\<lparr>b_next := b\<rparr>) s
      in s\<lparr>bhead := b\<rparr>)"

definition bcache_init :: "fs \<Rightarrow> fs" where
  "bcache_init s =
     (let s = upd_buf 0 (\<lambda>n. n\<lparr>b_next := 0\<rparr>) s;
          s = upd_buf 0 (\<lambda>n. n\<lparr>b_prev := NBUF - 1\<rparr>) s;
          s = upd_buf (NBUF - 1) (\<lambda>n. n\<lparr>b_next := 0\<rparr>) s;
          s = upd_buf (NBUF - 1) (\<lambda>n. n\<lparr>b_prev := NBUF - 1\<rparr>) s
      in fold bcache_link [1..<NBUF] (s\<lparr>bhead := 0\<rparr>))"

text \<open>The \<open>do ... while\<close> loop over the list, from its head until it comes back to it.\<close>

fun bcache_scan :: "nat \<Rightarrow> (bnode \<Rightarrow> bool) \<Rightarrow> nat \<Rightarrow> fs \<Rightarrow> nat option res" where
  "bcache_scan 0 P b s = Inl Hang"
| "bcache_scan (Suc n) P b s =
     (if P (buffer s b) then Inr (Some b)
      else
        let b = b_next (buffer s b) in
        if b = bhead s then Inr None else bcache_scan n P b s)"

definition bcachce_lookup :: "u32 \<Rightarrow> u32 \<Rightarrow> fs \<Rightarrow> (nat option \<times> fs) res" where
  "bcachce_lookup dev blockno s =
     rbind (bcache_scan NBUF (\<lambda>n. b_dev n = dev \<and> b_blockno n = blockno) (bhead s) s) (\<lambda>r.
     case r of None \<Rightarrow> Inr (None, s)
     | Some b \<Rightarrow> Inr (Some b, upd_buf b (\<lambda>n. n\<lparr>b_nref := b_nref n + 1\<rparr>) s))"

definition bcache_allocate :: "u32 \<Rightarrow> u32 \<Rightarrow> fs \<Rightarrow> (nat option \<times> fs) res" where
  "bcache_allocate dev blockno s =
     rbind (bcache_scan NBUF (\<lambda>n. b_nref n = 0 \<and> \<not> b_dirty n) (bhead s) s) (\<lambda>r.
     case r of None \<Rightarrow> Inr (None, s)
     | Some b \<Rightarrow> Inr (Some b, upd_buf b (\<lambda>n. n\<lparr>b_nref := 1, b_dev := dev, b_blockno := blockno,
         b_dirty := False, b_valid := False\<rparr>) s))"

definition bcache_acquire :: "u32 \<Rightarrow> u32 \<Rightarrow> fs \<Rightarrow> (nat option \<times> fs) res" where
  "bcache_acquire dev blockno s =
     rbind (bcachce_lookup dev blockno s) (\<lambda>(r, s).
     case r of Some b \<Rightarrow> Inr (Some b, s) | None \<Rightarrow> bcache_allocate dev blockno s)"

definition bcache_read :: "u32 \<Rightarrow> u32 \<Rightarrow> bool \<Rightarrow> fs \<Rightarrow> (nat \<times> fs) res" where
  "bcache_read dev blockno poll s =
     rbind (bcache_acquire dev blockno s) (\<lambda>(r, s).
     case r of None \<Rightarrow> Inl (Panic ''bcache read'')
     | Some b \<Rightarrow>
         if \<not> b_valid (buffer s b) then rbind (disk_sync b poll s) (\<lambda>s. Inr (b, s)) else Inr (b, s))"

definition bcache_write :: "nat \<Rightarrow> bool \<Rightarrow> fs \<Rightarrow> fs res" where
  "bcache_write b poll s = disk_sync b poll (upd_buf b (\<lambda>n. n\<lparr>b_dirty := True\<rparr>) s)"

definition bcache_free :: "nat \<Rightarrow> fs \<Rightarrow> fs" where
  "bcache_free b s =
     (let s = upd_buf b (\<lambda>n. n\<lparr>b_nref := b_nref n - 1\<rparr>) s in
      if b_nref (buffer s b) = 0
      then
        let s = upd_buf (b_next (buffer s b)) (\<lambda>n. n\<lparr>b_prev := b_prev (buffer s b)\<rparr>) s;
            s = upd_buf (b_prev (buffer s b)) (\<lambda>n. n\<lparr>b_next := b_next (buffer s b)\<rparr>) s;
            s = upd_buf b (\<lambda>n. n\<lparr>b_next := bhead s\<rparr>) s;
            s = upd_buf b (\<lambda>n. n\<lparr>b_prev := b_prev (buffer s (bhead s))\<rparr>) s;
            s = upd_buf b (\<lambda>n. n\<lparr>b_valid := False, b_dirty := False\<rparr>) s;
            s = upd_buf (bhead s) (\<lambda>n. n\<lparr>b_prev := b\<rparr>) s;
            s = s\<lparr>bhead := b\<rparr>
        in upd_buf b (\<lambda>n. n\<lparr>b_cache := replicate BSIZE 0\<rparr>) s
      else s)"

definition bcache_release :: "nat \<Rightarrow> fs \<Rightarrow> fs" where
  "bcache_release b s = bcache_free b s"

section \<open>One request at a time\<close>

lemma upd_buf_sel [simp]:
  "buffer (upd_buf b f s) = (buffer s)(b := f (buffer s b))" "drive (upd_buf b f s) = drive s"
  "dq_head (upd_buf b f s) = dq_head s" "bhead (upd_buf b f s) = bhead s"
  "super_block (upd_buf b f s) = super_block s" "icache (upd_buf b f s) = icache s"
  by (simp_all add: upd_buf_def)

definition blk :: "fs \<Rightarrow> u32 \<Rightarrow> u8 list" where
  "blk s n = sectors (drive s) True n"

definition blockno_ok :: "u32 \<Rightarrow> bool" where
  "blockno_ok n \<longleftrightarrow> unat n < 2 ^ 28"

text \<open>Nothing but the drive and one buffer changes.\<close>

definition frame :: "nat \<Rightarrow> fs \<Rightarrow> fs \<Rightarrow> bool" where
  "frame b s t \<longleftrightarrow>
     has_slave (drive t) = has_slave (drive s) \<and> dq_head t = dq_head s \<and> bhead t = bhead s \<and>
     super_block t = super_block s \<and> icache t = icache s \<and> (\<forall>c. c \<noteq> b \<longrightarrow> buffer t c = buffer s c)"

lemma present_slave: "has_slave d \<Longrightarrow> present d"
  by (simp add: present_def)

text \<open>What \<open>disk_sync\<close> does, in either mode, when no other request is pending.\<close>

lemma disk_sync_effect:
  assumes "has_slave (drive s)" "dq_head s = None" "blockno_ok (b_blockno (buffer s b))" "\<not> synced (buffer s b)"
    "b_dirty (buffer s b) \<longrightarrow> b_valid (buffer s b)"
  shows "\<exists>t. disk_sync b poll s = Inr t \<and> frame b s t \<and>
    (let n = buffer s b; bs = (if b_dirty n then b_cache n else blk s (b_blockno n)) in
      b_cache (buffer t b) = bs \<and> b_valid (buffer t b) \<and> \<not> b_dirty (buffer t b) \<and>
      blk t = (blk s)(b_blockno n := bs) \<and> b_nref (buffer t b) = b_nref n \<and> b_dev (buffer t b) = b_dev n \<and>
      b_blockno (buffer t b) = b_blockno n \<and> b_next (buffer t b) = b_next n \<and> b_prev (buffer t b) = b_prev n)"
proof -
  have pres: "present (drive s)" using assms(1) by (rule present_slave)
  have lba: "unat (b_blockno (buffer s b)) < 2 ^ 28" using assms(3) by (simp add: blockno_ok_def)
  let ?s = "(upd_buf b (\<lambda>n. n\<lparr>b_qnext := None\<rparr>) s)\<lparr>dq_head := Some b\<rparr>"
  have enq: "dq_enqueue b s = Inr ?s" using assms(2) by (simp add: dq_enqueue_def)
  show ?thesis
  proof (cases "b_dirty (buffer s b)")
    case True
    then have valid: "b_valid (buffer s b)" using assms(5) by simp
    obtain e where e: "ide_write_request ATA_PRIMARY ATA_SLAVE (b_cache (buffer s b)) (b_blockno (buffer s b)) 1 (drive s) = Inr e"
      "has_slave e = has_slave (drive s)"
      "sectors e = (sectors (drive s))(True := (sectors (drive s) True)(b_blockno (buffer s b) := b_cache (buffer s b)))"
      using write_request_ok [OF pres lba] by blast
    have w: "ide_wait e = Inr (e\<lparr>delay := 0\<rparr>)" using ide_wait_ready present_slave e(2) assms(1) by simp
    show ?thesis
      using True valid e w assms(2) enq
      by (cases poll)
        (auto simp: disk_sync_def synced_def disk_cmd_request_def frame_def blk_def Let_def numeral_eq_Suc
          disk_handler_def dq_dequeue_def fun_eq_iff)
  next
    case False
    then have inv: "\<not> b_valid (buffer s b)" using assms(4) by (simp add: synced_def)
    obtain e where e: "ide_read_request ATA_PRIMARY ATA_SLAVE (b_blockno (buffer s b)) 1 (drive s) = Inr e"
      "selected 0x20 (b_blockno (buffer s b)) (drive s) e" "ide_read e = blk s (b_blockno (buffer s b))"
      using read_request_ok [OF pres lba] unfolding blk_def by blast
    have w: "ide_wait e = Inr (e\<lparr>delay := 0\<rparr>)"
      using ide_wait_ready present_slave e(2) assms(1) by (simp add: selected_def)
    have r: "ide_read (e\<lparr>delay := 0\<rparr>) = ide_read e"
      by (simp add: ide_read_def ata_insl_def ata_slave_def ata_lba_def)
    show ?thesis
      using False inv e w r assms(2) enq
      by (cases poll)
        (auto simp: disk_sync_def synced_def disk_cmd_request_def frame_def blk_def Let_def numeral_eq_Suc
          disk_handler_def dq_dequeue_def read_block_def selected_def fun_eq_iff)
  qed
qed

section \<open>The cache as its clients use it\<close>

definition set_cache :: "nat \<Rightarrow> u8 list \<Rightarrow> fs \<Rightarrow> fs" where
  "set_cache b bs s = upd_buf b (\<lambda>n. n\<lparr>b_cache := bs\<rparr>) s"

text \<open>A client reads a block, works on the buffer, perhaps writes it back, and releases it.
  \<open>idle\<close>: no buffer is in use; \<open>holds dev no bs\<close>: one buffer is in use, for block \<open>no\<close>,
  and contains \<open>bs\<close>.\<close>

locale block_cache =
  fixes idle :: "'s \<Rightarrow> bool" and holds :: "u32 \<Rightarrow> u32 \<Rightarrow> u8 list \<Rightarrow> 's \<Rightarrow> bool"
    and contents :: "'s \<Rightarrow> u32 \<Rightarrow> u8 list" and okno :: "u32 \<Rightarrow> bool" and same :: "'s \<Rightarrow> 's \<Rightarrow> bool"
    and data :: "nat \<Rightarrow> 's \<Rightarrow> u8 list" and bno :: "nat \<Rightarrow> 's \<Rightarrow> u32" and cur :: "'s \<Rightarrow> nat"
    and rd :: "u32 \<Rightarrow> u32 \<Rightarrow> bool \<Rightarrow> 's \<Rightarrow> (nat \<times> 's) res" and wr :: "nat \<Rightarrow> bool \<Rightarrow> 's \<Rightarrow> 's res"
    and rel :: "nat \<Rightarrow> 's \<Rightarrow> 's" and put :: "nat \<Rightarrow> u8 list \<Rightarrow> 's \<Rightarrow> 's"
  assumes rd_ok: "idle s \<Longrightarrow> okno n \<Longrightarrow>
      \<exists>t. rd dev n poll s = Inr (cur s, t) \<and> holds dev n (contents s n) t \<and> contents t = contents s \<and> same s t"
    and put_ok: "holds dev n bs s \<Longrightarrow>
      holds dev n bs' (put (cur s) bs' s) \<and> contents (put (cur s) bs' s) = contents s \<and> same s (put (cur s) bs' s)"
    and wr_ok: "holds dev n bs s \<Longrightarrow> okno n \<Longrightarrow>
      \<exists>t. wr (cur s) poll s = Inr t \<and> holds dev n bs t \<and> contents t = (contents s)(n := bs) \<and> same s t"
    and rel_ok: "holds dev n bs s \<Longrightarrow>
      idle (rel (cur s) s) \<and> contents (rel (cur s) s) = contents s \<and> same s (rel (cur s) s)"
    and data_ok: "holds dev n bs s \<Longrightarrow> data (cur s) s = bs \<and> bno (cur s) s = n"
    and same_trans: "same s t \<Longrightarrow> same t u \<Longrightarrow> same s u"
    and same_cur: "same s t \<Longrightarrow> cur t = cur s"
begin

text \<open>A client's whole session with one block.\<close>

lemma session:
  assumes "idle s" "okno n"
  shows "\<exists>b t. rd dev n poll s = Inr (b, t) \<and> data b t = contents s n \<and> bno b t = n \<and>
    idle (rel b t) \<and> contents (rel b t) = contents s \<and> same s (rel b t) \<and> same s t \<and>
    (\<forall>bs p. \<exists>u. wr b p (put b bs t) = Inr u \<and>
      idle (rel b u) \<and> contents (rel b u) = (contents s)(n := bs) \<and> same s (rel b u))"
proof -
  obtain t where t: "rd dev n poll s = Inr (cur s, t)" "holds dev n (contents s n) t" "contents t = contents s" "same s t"
    using rd_ok [OF assms] by blast
  have cur: "cur t = cur s" using same_cur [OF t(4)] .
  have w: "\<exists>u. wr (cur s) p (put (cur s) bs t) = Inr u \<and> idle (rel (cur s) u) \<and>
      contents (rel (cur s) u) = (contents s)(n := bs) \<and> same s (rel (cur s) u)" for bs p
  proof -
    let ?v = "put (cur s) bs t"
    have v: "holds dev n bs ?v" "contents ?v = contents s" "same t ?v" using put_ok [OF t(2), of bs] t(3) cur by simp_all
    have c: "cur ?v = cur s" using same_cur [OF v(3)] cur by simp
    obtain u where u: "wr (cur s) p ?v = Inr u" "holds dev n bs u" "contents u = (contents ?v)(n := bs)" "same ?v u"
      using wr_ok [OF v(1) assms(2), of p] c by auto
    have "cur u = cur s" using same_cur [OF u(4)] c by simp
    then show ?thesis using u rel_ok [OF u(2)] v(2,3) t(4) same_trans by metis
  qed
  moreover have "idle (rel (cur s) t)" "contents (rel (cur s) t) = contents s" "same s (rel (cur s) t)"
    using rel_ok [OF t(2)] t(3,4) cur same_trans by auto
  moreover have "data (cur s) t = contents s n \<and> bno (cur s) t = n" using data_ok [OF t(2)] cur by simp
  ultimately show ?thesis using t(1,4) by blast
qed

end

definition cache_idle :: "fs \<Rightarrow> bool" where
  "cache_idle s \<longleftrightarrow>
     has_slave (drive s) \<and> dq_head s = None \<and>
     (let n = buffer s (bhead s) in
      b_next n = bhead s \<and> b_prev n = bhead s \<and> b_nref n = 0 \<and> \<not> b_dirty n \<and> \<not> b_valid n)"

definition cache_holds :: "u32 \<Rightarrow> u32 \<Rightarrow> u8 list \<Rightarrow> fs \<Rightarrow> bool" where
  "cache_holds dev no bs s \<longleftrightarrow>
     has_slave (drive s) \<and> dq_head s = None \<and>
     (let n = buffer s (bhead s) in
      b_next n = bhead s \<and> b_prev n = bhead s \<and> b_nref n = 1 \<and> \<not> b_dirty n \<and> b_valid n \<and>
      b_dev n = dev \<and> b_blockno n = no \<and> b_cache n = bs)"

definition same_meta :: "fs \<Rightarrow> fs \<Rightarrow> bool" where
  "same_meta s t \<longleftrightarrow> super_block t = super_block s \<and> icache t = icache s \<and> bhead t = bhead s"

lemma scan_single:
  "b_next (buffer s (bhead s)) = bhead s \<Longrightarrow>
     bcache_scan NBUF P (bhead s) s = Inr (if P (buffer s (bhead s)) then Some (bhead s) else None)"
  by (simp add: numeral_eq_Suc)

lemma idle_acquire:
  assumes "cache_idle s"
  shows "\<exists>t. bcache_acquire dev no s = Inr (Some (bhead s), t) \<and> frame (bhead s) s t \<and> drive t = drive s \<and>
    (let n = buffer t (bhead s) in b_next n = bhead s \<and> b_prev n = bhead s \<and> b_nref n = 1 \<and> \<not> b_dirty n \<and>
      \<not> b_valid n \<and> b_dev n = dev \<and> b_blockno n = no)"
  using assms
  by (auto simp: bcache_acquire_def bcachce_lookup_def bcache_allocate_def scan_single cache_idle_def Let_def frame_def)

lemma idle_read:
  assumes "cache_idle s" "blockno_ok no"
  shows "\<exists>t. bcache_read dev no poll s = Inr (bhead s, t) \<and> cache_holds dev no (blk s no) t \<and> blk t = blk s \<and> same_meta s t"
proof -
  obtain t where t: "bcache_acquire dev no s = Inr (Some (bhead s), t)" "frame (bhead s) s t" "drive t = drive s"
    "let n = buffer t (bhead s) in b_next n = bhead s \<and> b_prev n = bhead s \<and> b_nref n = 1 \<and> \<not> b_dirty n \<and>
      \<not> b_valid n \<and> b_dev n = dev \<and> b_blockno n = no"
    using idle_acquire [OF assms(1)] by blast
  have s: "has_slave (drive s)" "dq_head s = None" using assms(1) by (auto simp: cache_idle_def)
  have "\<not> synced (buffer t (bhead s))" "b_dirty (buffer t (bhead s)) \<longrightarrow> b_valid (buffer t (bhead s))"
    using t(4) by (auto simp: synced_def Let_def)
  moreover have "has_slave (drive t)" "dq_head t = None" "blockno_ok (b_blockno (buffer t (bhead s)))"
    using t s assms(2) by (auto simp: frame_def Let_def)
  ultimately obtain u where u: "disk_sync (bhead s) poll t = Inr u" "frame (bhead s) t u"
    "let n = buffer t (bhead s); bs = (if b_dirty n then b_cache n else blk t (b_blockno n)) in
      b_cache (buffer u (bhead s)) = bs \<and> b_valid (buffer u (bhead s)) \<and> \<not> b_dirty (buffer u (bhead s)) \<and>
      blk u = (blk t)(b_blockno n := bs) \<and> b_nref (buffer u (bhead s)) = b_nref n \<and>
      b_dev (buffer u (bhead s)) = b_dev n \<and> b_blockno (buffer u (bhead s)) = b_blockno n \<and>
      b_next (buffer u (bhead s)) = b_next n \<and> b_prev (buffer u (bhead s)) = b_prev n"
    using disk_sync_effect [of t "bhead s" poll] by blast
  have "blk t = blk s" using t(3) by (simp add: blk_def fun_eq_iff)
  then have "cache_holds dev no (blk s no) u \<and> blk u = blk s \<and> same_meta s u"
    using t(2,4) u(2,3) s by (auto simp: cache_holds_def same_meta_def frame_def Let_def)
  then show ?thesis using t(1,4) u(1) by (auto simp: bcache_read_def Let_def)
qed

lemma holds_write:
  assumes "cache_holds dev no bs s" "blockno_ok no"
  shows "\<exists>t. bcache_write (bhead s) poll s = Inr t \<and> cache_holds dev no bs t \<and> blk t = (blk s)(no := bs) \<and> same_meta s t"
proof -
  let ?b = "bhead s"
  let ?s = "upd_buf ?b (\<lambda>n. n\<lparr>b_dirty := True\<rparr>) s"
  have s: "has_slave (drive ?s)" "dq_head ?s = None" "blockno_ok (b_blockno (buffer ?s ?b))" "\<not> synced (buffer ?s ?b)"
    "b_dirty (buffer ?s ?b) \<longrightarrow> b_valid (buffer ?s ?b)" "b_dirty (buffer ?s ?b)" "b_cache (buffer ?s ?b) = bs"
    "blk ?s = blk s"
    using assms by (auto simp: cache_holds_def Let_def synced_def blk_def fun_eq_iff)
  obtain t where t: "disk_sync ?b poll ?s = Inr t" "frame ?b ?s t"
    "let n = buffer ?s ?b; bs = (if b_dirty n then b_cache n else blk ?s (b_blockno n)) in
      b_cache (buffer t ?b) = bs \<and> b_valid (buffer t ?b) \<and> \<not> b_dirty (buffer t ?b) \<and>
      blk t = (blk ?s)(b_blockno n := bs) \<and> b_nref (buffer t ?b) = b_nref n \<and>
      b_dev (buffer t ?b) = b_dev n \<and> b_blockno (buffer t ?b) = b_blockno n \<and>
      b_next (buffer t ?b) = b_next n \<and> b_prev (buffer t ?b) = b_prev n"
    using disk_sync_effect [OF s(1-5), of poll] by blast
  have "cache_holds dev no bs t \<and> blk t = (blk s)(no := bs) \<and> same_meta s t"
    using t(2,3) s(8) assms(1) by (simp add: cache_holds_def same_meta_def frame_def Let_def)
  then show ?thesis using t(1) by (simp add: bcache_write_def)
qed

lemma holds_release:
  "cache_holds dev no bs s \<Longrightarrow>
     cache_idle (bcache_release (bhead s) s) \<and> blk (bcache_release (bhead s) s) = blk s \<and>
     same_meta s (bcache_release (bhead s) s)"
  by (auto simp: cache_holds_def cache_idle_def same_meta_def bcache_release_def bcache_free_def Let_def blk_def fun_eq_iff)

text \<open>With a buffer in use, no other block can be read: the list of buffers has one element.\<close>

lemma holds_nested:
  assumes "cache_holds dev no bs s" "(dev', no') \<noteq> (dev, no)"
  shows "bcache_read dev' no' poll s = Inl (Panic ''bcache read'')"
  using assms
  by (auto simp: bcache_read_def bcache_acquire_def bcachce_lookup_def bcache_allocate_def scan_single
      cache_holds_def Let_def)

interpretation bc: block_cache cache_idle cache_holds blk blockno_ok same_meta "\<lambda>b s. b_cache (buffer s b)"
  "\<lambda>b s. b_blockno (buffer s b)" bhead
  bcache_read bcache_write bcache_release set_cache
proof
  fix s n dev poll
  assume "cache_idle s" "blockno_ok n"
  then show "\<exists>t. bcache_read dev n poll s = Inr (bhead s, t) \<and> cache_holds dev n (blk s n) t \<and> blk t = blk s \<and> same_meta s t"
    by (rule idle_read)
next
  fix dev n bs s bs'
  assume "cache_holds dev n bs s"
  then show "cache_holds dev n bs' (set_cache (bhead s) bs' s) \<and> blk (set_cache (bhead s) bs' s) = blk s \<and>
      same_meta s (set_cache (bhead s) bs' s)"
    by (simp add: cache_holds_def set_cache_def same_meta_def blk_def fun_eq_iff Let_def)
next
  fix dev n bs s poll
  assume "cache_holds dev n bs s" "blockno_ok n"
  then show "\<exists>t. bcache_write (bhead s) poll s = Inr t \<and> cache_holds dev n bs t \<and> blk t = (blk s)(n := bs) \<and> same_meta s t"
    by (rule holds_write)
next
  fix dev n bs s
  assume h: "cache_holds dev n bs s"
  then show "cache_idle (bcache_release (bhead s) s) \<and> blk (bcache_release (bhead s) s) = blk s \<and>
      same_meta s (bcache_release (bhead s) s)"
    by (rule holds_release)
  show "b_cache (buffer s (bhead s)) = bs \<and> b_blockno (buffer s (bhead s)) = n" using h by (simp add: cache_holds_def Let_def)
qed (auto simp: same_meta_def)

section \<open>After initialisation\<close>

text \<open>The chain \<open>bcache_init\<close> has built after linking the buffers up to \<open>k\<close>.\<close>

definition chained :: "nat \<Rightarrow> fs \<Rightarrow> fs \<Rightarrow> bool" where
  "chained k s t \<longleftrightarrow>
     bhead t = k \<and> (\<forall>i < k. b_next (buffer t i) = Suc i) \<and> b_next (buffer t (NBUF - 1)) = 0 \<and>
     (0 < k \<longrightarrow> b_prev (buffer t k) = k - 1) \<and>
     drive t = drive s \<and> dq_head t = dq_head s \<and> super_block t = super_block s \<and> icache t = icache s \<and>
     (\<forall>i. b_nref (buffer t i) = b_nref (buffer s i) \<and> b_dirty (buffer t i) = b_dirty (buffer s i) \<and>
       b_valid (buffer t i) = b_valid (buffer s i) \<and> b_dev (buffer t i) = b_dev (buffer s i) \<and>
       b_blockno (buffer t i) = b_blockno (buffer s i))"

lemma chained_step:
  assumes "chained k s t" "Suc k < NBUF"
  shows "chained (Suc k) s (bcache_link (Suc k) t)"
  using assms by (auto simp: chained_def bcache_link_def Let_def less_Suc_eq)

lemma chained_fold: "chained 0 s t \<Longrightarrow> k < NBUF \<Longrightarrow> chained k s (fold bcache_link [1..<Suc k] t)"
proof (induction k)
  case (Suc k)
  then have "chained k s (fold bcache_link [1..<Suc k] t)" by simp
  then have "chained (Suc k) s (bcache_link (Suc k) (fold bcache_link [1..<Suc k] t))"
    using chained_step Suc.prems(2) by blast
  then show ?case by simp
qed simp

lemma bcache_init_chain: "chained (NBUF - 1) s (bcache_init s)"
proof -
  let ?t = "(upd_buf (NBUF - 1) (\<lambda>n. n\<lparr>b_prev := NBUF - 1\<rparr>) (upd_buf (NBUF - 1) (\<lambda>n. n\<lparr>b_next := 0\<rparr>)
    (upd_buf 0 (\<lambda>n. n\<lparr>b_prev := NBUF - 1\<rparr>) (upd_buf 0 (\<lambda>n. n\<lparr>b_next := 0\<rparr>) s))))\<lparr>bhead := 0\<rparr>"
  have "chained 0 s ?t" by (simp add: chained_def)
  then have "chained (NBUF - 1) s (fold bcache_link [1..<Suc (NBUF - 1)] ?t)" by (rule chained_fold) simp
  moreover have "Suc (NBUF - 1) = NBUF" by simp
  ultimately show ?thesis unfolding bcache_init_def Let_def by (simp only:)
qed

lemma scan_chain:
  assumes "chained (NBUF - 1) s t" "\<And>i. i < NBUF \<Longrightarrow> \<not> P (buffer t i)" "i < NBUF - 1" "n = NBUF - 1 - i"
  shows "bcache_scan n P i t = Inr None"
  using assms(3,4)
proof (induction n arbitrary: i)
  case (Suc n)
  have nx: "b_next (buffer t i) = Suc i" and h: "bhead t = NBUF - 1" using assms(1) Suc.prems(1) by (auto simp: chained_def)
  show ?case
  proof (cases "Suc i = NBUF - 1")
    case True
    then show ?thesis using assms(2) [of i] nx h by simp
  next
    case False
    have "n = NBUF - 1 - Suc i" using Suc.prems(2) by simp
    moreover have "Suc i < NBUF - 1" using False Suc.prems(1) by simp
    ultimately have "bcache_scan n P (Suc i) t = Inr None" by (rule Suc.IH [rotated])
    then show ?thesis using assms(2) [of i] nx h False Suc.prems(1) by (simp add: Let_def)
  qed
qed simp

lemma scan_chain_all:
  assumes "chained (NBUF - 1) s t" "\<And>i. i < NBUF \<Longrightarrow> \<not> P (buffer t i)"
  shows "bcache_scan NBUF P (bhead t) t = Inr None"
proof -
  have h: "bhead t = NBUF - 1" "b_next (buffer t (NBUF - 1)) = 0" using assms(1) by (auto simp: chained_def)
  have "bcache_scan (NBUF - 1) P 0 t = Inr None" using scan_chain [OF assms(1), of P 0] assms(2) by simp
  then have "bcache_scan (Suc (NBUF - 1)) P (bhead t) t = Inr None" using h assms(2) [of "NBUF - 1"] by (simp only: bcache_scan.simps) simp
  then show ?thesis by simp
qed

text \<open>The buffers before anything was read: zero, as the loader leaves them.\<close>

definition unused_buffers :: "fs \<Rightarrow> bool" where
  "unused_buffers s \<longleftrightarrow>
     has_slave (drive s) \<and> dq_head s = None \<and>
     (\<forall>i. b_nref (buffer s i) = 0 \<and> \<not> b_dirty (buffer s i) \<and> \<not> b_valid (buffer s i) \<and> b_dev (buffer s i) = 0 \<and>
       b_blockno (buffer s i) = 0)"

lemma first_acquire:
  assumes "unused_buffers s"
  shows "\<exists>n. bcache_acquire dev no (bcache_init s) = Inr (Some (NBUF - 1), upd_buf (NBUF - 1) (\<lambda>_. n) (bcache_init s)) \<and>
    b_next n = 0 \<and> b_prev n = NBUF - 2 \<and> b_nref n = 1 \<and> \<not> b_dirty n \<and> \<not> b_valid n \<and> b_blockno n = no"
proof -
  let ?h = "NBUF - 1" and ?i = "bcache_init s"
  have ch: "chained ?h s ?i" by (rule bcache_init_chain)
  have i: "bhead ?i = ?h" "b_next (buffer ?i ?h) = 0" "b_prev (buffer ?i ?h) = NBUF - 2"
    "\<And>k. b_nref (buffer ?i k) = 0 \<and> \<not> b_dirty (buffer ?i k) \<and> \<not> b_valid (buffer ?i k) \<and> b_dev (buffer ?i k) = 0 \<and>
      b_blockno (buffer ?i k) = 0"
    using ch assms by (auto simp: chained_def unused_buffers_def)
  show ?thesis
  proof (cases "dev = 0 \<and> no = 0")
    case True
    have "bcache_scan NBUF (\<lambda>n. b_dev n = dev \<and> b_blockno n = no) (bhead ?i) ?i = Inr (Some ?h)"
      using i(1,4) True by (simp add: numeral_eq_Suc)
    then have "bcache_acquire dev no ?i = Inr (Some ?h, upd_buf ?h (\<lambda>n. n\<lparr>b_nref := b_nref n + 1\<rparr>) ?i)"
      by (simp add: bcache_acquire_def bcachce_lookup_def)
    then show ?thesis
      using i True by (intro exI [of _ "(buffer ?i ?h)\<lparr>b_nref := 1\<rparr>"]) (simp add: upd_buf_def)
  next
    case False
    have look: "bcache_scan NBUF (\<lambda>n. b_dev n = dev \<and> b_blockno n = no) (bhead ?i) ?i = Inr None"
      by (rule scan_chain_all [OF ch]) (use i(4) False in auto)
    have alloc: "bcache_scan NBUF (\<lambda>n. b_nref n = 0 \<and> \<not> b_dirty n) (bhead ?i) ?i = Inr (Some ?h)"
      using i(1,4) by (simp add: numeral_eq_Suc)
    let ?f = "\<lambda>n. n\<lparr>b_nref := 1, b_dev := dev, b_blockno := no, b_dirty := False, b_valid := False\<rparr>"
    have "bcache_acquire dev no ?i = Inr (Some ?h, upd_buf ?h ?f ?i)"
      by (simp add: bcache_acquire_def bcachce_lookup_def bcache_allocate_def look alloc)
    then show ?thesis using i by (intro exI [of _ "?f (buffer ?i ?h)"]) (simp add: upd_buf_def)
  qed
qed

lemma first_read:
  assumes "unused_buffers s" "blockno_ok no"
  shows "\<exists>t. bcache_read dev no poll (bcache_init s) = Inr (NBUF - 1, t) \<and>
    b_cache (buffer t (NBUF - 1)) = blk s no \<and> cache_idle (bcache_release (NBUF - 1) t) \<and>
    blk (bcache_release (NBUF - 1) t) = blk s \<and> super_block (bcache_release (NBUF - 1) t) = super_block s \<and>
    icache (bcache_release (NBUF - 1) t) = icache s"
proof -
  let ?h = "NBUF - 1" and ?i = "bcache_init s"
  have i: "bhead ?i = ?h" "drive ?i = drive s" "dq_head ?i = None" "super_block ?i = super_block s" "icache ?i = icache s"
    using bcache_init_chain [of s] assms(1) by (auto simp: chained_def unused_buffers_def)
  obtain n where n: "bcache_acquire dev no ?i = Inr (Some ?h, upd_buf ?h (\<lambda>_. n) ?i)" "b_next n = 0"
    "b_prev n = NBUF - 2" "b_nref n = 1" "\<not> b_dirty n" "\<not> b_valid n" "b_blockno n = no"
    using first_acquire [OF assms(1)] by blast
  let ?a = "upd_buf ?h (\<lambda>_. n) ?i"
  have "\<not> synced (buffer ?a ?h)" "b_dirty (buffer ?a ?h) \<longrightarrow> b_valid (buffer ?a ?h)" "has_slave (drive ?a)"
    "dq_head ?a = None" "blockno_ok (b_blockno (buffer ?a ?h))"
    using i n assms by (simp_all add: synced_def unused_buffers_def)
  then obtain t where t: "disk_sync ?h poll ?a = Inr t" "frame ?h ?a t"
    "let n = buffer ?a ?h; bs = (if b_dirty n then b_cache n else blk ?a (b_blockno n)) in
      b_cache (buffer t ?h) = bs \<and> b_valid (buffer t ?h) \<and> \<not> b_dirty (buffer t ?h) \<and>
      blk t = (blk ?a)(b_blockno n := bs) \<and> b_nref (buffer t ?h) = b_nref n \<and>
      b_dev (buffer t ?h) = b_dev n \<and> b_blockno (buffer t ?h) = b_blockno n \<and>
      b_next (buffer t ?h) = b_next n \<and> b_prev (buffer t ?h) = b_prev n"
    using disk_sync_effect [of ?a ?h poll] by blast
  have blk: "blk ?a = blk s" using i(2) by (simp add: blk_def fun_eq_iff)
  have tt: "bhead t = ?h" "b_next (buffer t ?h) = 0" "b_prev (buffer t ?h) = NBUF - 2" "b_nref (buffer t ?h) = 1"
    "has_slave (drive t)" "dq_head t = None" "blk t = blk s" "b_cache (buffer t ?h) = blk s no"
    "super_block t = super_block s" "icache t = icache s"
    using t(2,3) blk i n assms(1) by (simp_all add: frame_def Let_def unused_buffers_def)
  have "bcache_read dev no poll ?i = Inr (?h, t)" using n(1,6) t(1) by (simp add: bcache_read_def)
  moreover have "cache_idle (bcache_release ?h t)" using tt
    by (simp add: cache_idle_def bcache_release_def bcache_free_def Let_def)
  moreover have "blk (bcache_release ?h t) = blk s" using tt
    by (simp add: bcache_release_def bcache_free_def Let_def blk_def fun_eq_iff)
  moreover have "super_block (bcache_release ?h t) = super_block s" "icache (bcache_release ?h t) = icache s" using tt
    by (simp_all add: bcache_release_def bcache_free_def Let_def)
  ultimately show ?thesis using tt(8) by blast
qed

section \<open>Properties\<close>

text \<open>C22: a session with the buffer cache, once a first buffer has been used and released.
  Reading any block gives the block's contents on the disk; releasing it again changes
  nothing; writing the buffer back changes exactly that block of the disk to exactly the
  buffer's contents, and after the release the next client finds the cache as the first
  one did.\<close>

theorem bcache_session:
  assumes "cache_idle s" "blockno_ok no"
  shows "\<exists>b t. bcache_read dev no poll s = Inr (b, t) \<and> b_cache (buffer t b) = blk s no \<and>
    cache_idle (bcache_release b t) \<and> blk (bcache_release b t) = blk s \<and>
    (\<forall>bs p. \<exists>u. bcache_write b p (set_cache b bs t) = Inr u \<and>
      cache_idle (bcache_release b u) \<and> blk (bcache_release b u) = (blk s)(no := bs))"
  using bc.session [OF assms, of dev poll] by blast

definition sample_drive :: ata where
  "sample_drive = \<lparr>r_secn = 0, r_lba0 = 0, r_lba1 = 0, r_lba2 = 0, r_sel = 0xa0, command = 0, delay = 3, latency = 5,
     has_slave = True, sectors = (\<lambda>_ n. replicate BSIZE (ucast n))\<rparr>"

definition sample_bnode :: bnode where
  "sample_bnode = \<lparr>b_next = 0, b_prev = 0, b_qnext = None, b_dirty = False, b_valid = False, b_nref = 0, b_dev = 0,
     b_blockno = 0, b_cache = replicate BSIZE 0\<rparr>"

definition sample_fs :: fs where
  "sample_fs = \<lparr>drive = sample_drive, dq_head = None, bhead = 0, buffer = (\<lambda>_. sample_bnode),
     super_block = \<lparr>nblocks = 1000, ninodes = 128, ndata = 979, inodestart = 1, bmapstart = 20, datastart = 21\<rparr>,
     icache = []\<rparr>"

lemma sample_fs_ok: "cache_idle sample_fs" "unused_buffers sample_fs" "blk sample_fs n = replicate BSIZE (ucast n)"
  by (simp_all add: sample_fs_def sample_drive_def sample_bnode_def cache_idle_def unused_buffers_def blk_def)

theorem bcache_session_witness:
  "\<exists>b t. bcache_read 1 3 False sample_fs = Inr (b, t) \<and> b_cache (buffer t b) = replicate BSIZE 3"
  using bcache_session [OF sample_fs_ok(1), of 3 1 False] by (auto simp: sample_fs_ok(3) blockno_ok_def)

text \<open>of the 2560 buffers \<open>bcache_init\<close> chains, one is ever used.  Releasing the first
  buffer, which is the head of the list, links it to itself, and the list has one element
  from then on; while that buffer is in use, reading any other block panics the kernel.\<close>

theorem bcache_single_buffer:
  assumes "unused_buffers s" "blockno_ok n0" "blockno_ok n1" "n1 \<noteq> n2"
  shows "\<exists>b t. bcache_read d0 n0 p (bcache_init s) = Inr (b, t) \<and> b_cache (buffer t b) = blk s n0 \<and>
    (\<exists>c u. bcache_read dev n1 p (bcache_release b t) = Inr (c, u) \<and> b_cache (buffer u c) = blk s n1 \<and>
      bcache_read dev n2 p u = Inl (Panic ''bcache read''))"
proof -
  obtain t where t: "bcache_read d0 n0 p (bcache_init s) = Inr (NBUF - 1, t)" "b_cache (buffer t (NBUF - 1)) = blk s n0"
    "cache_idle (bcache_release (NBUF - 1) t)" "blk (bcache_release (NBUF - 1) t) = blk s"
    using first_read [OF assms(1,2)] by blast
  obtain u where u: "bcache_read dev n1 p (bcache_release (NBUF - 1) t) = Inr (bhead (bcache_release (NBUF - 1) t), u)"
    "cache_holds dev n1 (blk s n1) u" "same_meta (bcache_release (NBUF - 1) t) u"
    using idle_read [OF t(3) assms(3), of dev p] t(4) by auto
  have "b_cache (buffer u (bhead u)) = blk s n1" using bc.data_ok [OF u(2)] by simp
  moreover have "bcache_read dev n2 p u = Inl (Panic ''bcache read'')" using holds_nested [OF u(2)] assms(4) by simp
  ultimately show ?thesis using t(1,2) u(1,3) by (auto simp: same_meta_def)
qed

theorem bcache_single_buffer_witness:
  "\<exists>b t. bcache_read 0 0 True (bcache_init sample_fs) = Inr (b, t) \<and>
    (\<exists>c u. bcache_read 1 20 True (bcache_release b t) = Inr (c, u) \<and>
      bcache_read 1 21 True u = Inl (Panic ''bcache read''))"
  using bcache_single_buffer [OF sample_fs_ok(2), of 0 20 21 0 True 1] by (auto simp: blockno_ok_def)

end
