(* ===== verification/Block.thy ===== *)
theory Block
  imports Bcache
begin

text \<open>
  kernel/fs/block.c: the superblock, zeroing of blocks and the free map.  The bit of data
  block \<open>n\<close> is bit \<open>7 - k mod 8\<close> of byte \<open>k div 8\<close> of the free map, with \<open>k = n - datastart\<close>.
\<close>

section \<open>Operations\<close>

abbreviation (input) BITS_PER_BLK :: u32 where "BITS_PER_BLK \<equiv> 4096"

text \<open>\<open>block_super\<close> returns the value stored through its argument \<open>sb\<close>.\<close>

definition block_super :: "u32 \<Rightarrow> bool \<Rightarrow> fs \<Rightarrow> (superblock \<times> fs) res" where
  "block_super dev update s =
     (if update
      then
        rbind (bcache_read dev 0 True s) (\<lambda>(b, s).
        let sb = bytes_superblock (b_cache (buffer s b));
            s = s\<lparr>super_block := sb\<rparr>
        in Inr (sb, bcache_release b s))
      else Inr (super_block s, s))"

definition block_init :: "u32 \<Rightarrow> fs \<Rightarrow> fs res" where
  "block_init dev s = rbind (block_super dev True s) (\<lambda>(_, s). Inr s)"

definition block_zero :: "u32 \<Rightarrow> u32 \<Rightarrow> fs \<Rightarrow> fs res" where
  "block_zero dev blockno s =
     rbind (bcache_read dev blockno False s) (\<lambda>(b, s).
     rbind (bcache_write b False (set_cache b (replicate BSIZE 0) s)) (\<lambda>s.
     Inr (bcache_release b s)))"

definition freemap_addr :: "u32 \<Rightarrow> fs \<Rightarrow> (u32 \<times> u32) res" where
  "freemap_addr blockno s =
     (if blockno < datastart (super_block s)
      then Inl (Panic ''freemap_addr: blockno smaller than data start'')
      else if blockno > nblocks (super_block s)
      then Inl (Panic ''freemap_addr: blockno larger then file system size'')
      else
        let off = blockno - datastart (super_block s)
        in Inr (off div BITS_PER_BLK + bmapstart (super_block s), off mod BITS_PER_BLK))"

definition freemap_mask :: "u32 \<Rightarrow> u8" where
  "freemap_mask nbit = drop_bit (unat (nbit mod 8)) 0x80"

definition freemap_check :: "u32 \<Rightarrow> u32 \<Rightarrow> fs \<Rightarrow> (bool \<times> fs) res" where
  "freemap_check dev blockno s =
     rbind (freemap_addr blockno s) (\<lambda>(bno, nbit).
     rbind (bcache_read dev bno False s) (\<lambda>(b, s).
     let ret = (b_cache (buffer s b) ! unat (nbit div 8) AND freemap_mask nbit \<noteq> 0)
     in Inr (ret, bcache_release b s)))"

definition freemap_set :: "u32 \<Rightarrow> u32 \<Rightarrow> bool \<Rightarrow> fs \<Rightarrow> fs res" where
  "freemap_set dev blockno used s =
     (if blockno < datastart (super_block s) then Inl (Panic ''freemap_set'')
      else
        rbind (freemap_addr blockno s) (\<lambda>(bno, nbit).
        rbind (bcache_read dev bno False s) (\<lambda>(b, s).
        let c = b_cache (buffer s b);
            k = unat (nbit div 8);
            v = (if used then c ! k OR freemap_mask nbit else c ! k AND NOT (freemap_mask nbit))
        in rbind (bcache_write b False (set_cache b (c[k := v]) s)) (\<lambda>s.
           Inr (bcache_release b s)))))"

text \<open>The loop \<open>for (; byte & (1 << 7); byte <<= 1, ++n)\<close>: eight shifts clear the byte.\<close>

fun leading_ones :: "nat \<Rightarrow> u8 \<Rightarrow> nat" where
  "leading_ones 0 byte = 0"
| "leading_ones (Suc f) byte = (if byte AND 0x80 \<noteq> 0 then leading_ones f (push_bit 1 byte) + 1 else 0)"

text \<open>The loop over the bytes of one block of the map: the bit to add to the block's first.\<close>

fun search_bytes :: "u8 list \<Rightarrow> nat option" where
  "search_bytes [] = None"
| "search_bytes (byte # bs) =
     (if byte = 0 then Some 0
      else if byte AND 0xff \<noteq> 0 then Some (leading_ones 8 byte)
      else search_bytes bs)"

fun search_blocks :: "nat \<Rightarrow> u32 \<Rightarrow> u32 \<Rightarrow> fs \<Rightarrow> (u32 option \<times> fs) res" where
  "search_blocks 0 dev off s = Inr (None, s)"
| "search_blocks (Suc n) dev off s =
     rbind (bcache_read dev (off + bmapstart (super_block s)) False s) (\<lambda>(b, s).
     case search_bytes (b_cache (buffer s b)) of
       Some k \<Rightarrow> Inr (Some (datastart (super_block s) + off * BITS_PER_BLK + of_nat k), bcache_release b s)
     | None \<Rightarrow> search_blocks n dev (off + 1) (bcache_release b s))"

definition freemap_search :: "u32 \<Rightarrow> fs \<Rightarrow> (u32 option \<times> fs) res" where
  "freemap_search dev s =
     (let nblks = datastart (super_block s) - bmapstart (super_block s) in search_blocks (unat nblks) dev 0 s)"

definition block_alloc :: "u32 \<Rightarrow> fs \<Rightarrow> (u32 \<times> fs) res" where
  "block_alloc dev s =
     rbind (freemap_search dev s) (\<lambda>(r, s).
     case r of
       Some fbno \<Rightarrow>
         if fbno = 0 then Inl (Panic ''bad_alloc'')
         else rbind (freemap_set dev fbno True s) (\<lambda>s. Inr (fbno, s))
     | None \<Rightarrow> Inr (0, s))"

definition block_free :: "u32 \<Rightarrow> u32 \<Rightarrow> fs \<Rightarrow> fs res" where
  "block_free dev blockno s =
     rbind (freemap_check dev blockno s) (\<lambda>(r, s).
     if \<not> r then Inl (Panic ''block_free: block is already free'')
     else freemap_set dev blockno False s)"

section \<open>The free map as a set of bits\<close>

definition map_block :: "superblock \<Rightarrow> u32 \<Rightarrow> u32" where
  "map_block sb n = (n - datastart sb) div BITS_PER_BLK + bmapstart sb"

definition map_bit :: "superblock \<Rightarrow> u32 \<Rightarrow> nat" where
  "map_bit sb n = unat (n - datastart sb) mod 4096"

definition used_bit :: "fs \<Rightarrow> u32 \<Rightarrow> bool" where
  "used_bit s n = (let k = map_bit (super_block s) n in
     bit (blk s (map_block (super_block s) n) ! (k div 8)) (7 - k mod 8))"

text \<open>The free map has its blocks before the data and every block has its size.\<close>

definition wf_map :: "fs \<Rightarrow> bool" where
  "wf_map s \<longleftrightarrow>
     (let sb = super_block s in
      unat (bmapstart sb) + unat (nblocks sb - datastart sb) div 4096 < unat (datastart sb) \<and>
      unat (datastart sb) \<le> unat (nblocks sb) \<and> unat (nblocks sb) < 2 ^ 28 \<and> 0 < datastart sb) \<and>
     (\<forall>n. length (blk s n) = BSIZE)"

definition data_block :: "fs \<Rightarrow> u32 \<Rightarrow> bool" where
  "data_block s n \<longleftrightarrow> datastart (super_block s) \<le> n \<and> n \<le> nblocks (super_block s)"

lemma mask_bit: "bit (freemap_mask nbit) j \<longleftrightarrow> j = 7 - unat nbit mod 8"
proof -
  have e: "(0x80 :: u8) = 2 ^ 7" by simp
  have b: "bit (0x80 :: u8) i \<longleftrightarrow> i = 7" for i
    unfolding e bit_exp_iff by (auto simp: possible_bit_def)
  have m: "unat (nbit mod 8) = unat nbit mod 8" by (simp add: unat_mod)
  have "r + j = 7 \<longleftrightarrow> j = 7 - r" if "r < 8" for r :: nat using that by auto
  then show ?thesis unfolding freemap_mask_def bit_drop_bit_eq comp_def b m by simp
qed

lemma mask_test: "byte AND freemap_mask nbit \<noteq> 0 \<longleftrightarrow> bit byte (7 - unat nbit mod 8)"
proof -
  have "byte AND freemap_mask nbit \<noteq> 0 \<longleftrightarrow> (\<exists>j. bit (byte AND freemap_mask nbit) j)"
    by (metis bit_0_eq bit_eqI bot_apply bot_bool_def)
  then show ?thesis by (auto simp: bit_and_iff mask_bit)
qed

lemma map_block_ok:
  assumes "wf_map s" "data_block s n"
  shows "blockno_ok (map_block (super_block s) n)" "unat (map_block (super_block s) n) < unat (datastart (super_block s))"
proof -
  let ?sb = "super_block s"
  have le: "datastart ?sb \<le> n" "n \<le> nblocks ?sb" using assms(2) by (simp_all add: data_block_def)
  then have "unat (n - datastart ?sb) \<le> unat (nblocks ?sb - datastart ?sb)"
    by (simp add: unat_sub word_le_nat_alt unat_sub [OF order_trans])
  then have "unat (n - datastart ?sb) div 4096 \<le> unat (nblocks ?sb - datastart ?sb) div 4096" by (rule div_le_mono)
  then have "unat ((n - datastart ?sb) div 4096) + unat (bmapstart ?sb) < unat (datastart ?sb)"
    using assms(1) by (simp add: wf_map_def Let_def unat_div)
  moreover have "unat (datastart ?sb) < 2 ^ 28" using assms(1) by (simp add: wf_map_def Let_def)
  ultimately show "blockno_ok (map_block ?sb n)" "unat (map_block ?sb n) < unat (datastart ?sb)"
    by (simp_all add: blockno_ok_def map_block_def unat_add32)
qed

section \<open>Reading and setting bits\<close>

lemma bytes_of_nbit: "unat ((n :: u32) mod 4096 div 8) = unat n mod 4096 div 8" "unat (n mod 4096) mod 8 = unat n mod 4096 mod 8"
  by (simp_all add: unat_div unat_mod)

lemma freemap_addr_ok:
  "data_block s n \<Longrightarrow> freemap_addr n s = Inr (map_block (super_block s) n, (n - datastart (super_block s)) mod BITS_PER_BLK)"
  by (simp add: freemap_addr_def data_block_def map_block_def Let_def not_less)

lemma check_ok:
  assumes "cache_idle s" "wf_map s" "data_block s n"
  shows "\<exists>t. freemap_check dev n s = Inr (used_bit s n, t) \<and> cache_idle t \<and> blk t = blk s \<and> same_meta s t"
proof -
  let ?m = "map_block (super_block s) n" and ?o = "n - datastart (super_block s)"
  obtain b t where t: "bcache_read dev ?m False s = Inr (b, t)" "b_cache (buffer t b) = blk s ?m"
    "cache_idle (bcache_release b t)" "blk (bcache_release b t) = blk s" "same_meta s (bcache_release b t)"
    using bc.session [OF assms(1) map_block_ok(1) [OF assms(2,3)], of dev False] by blast
  have "freemap_check dev n s = Inr (blk s ?m ! unat (?o mod BITS_PER_BLK div 8) AND freemap_mask (?o mod BITS_PER_BLK) \<noteq> 0,
      bcache_release b t)"
    using freemap_addr_ok [OF assms(3)] t(1,2) by (simp add: freemap_check_def)
  moreover have "(blk s ?m ! unat (?o mod BITS_PER_BLK div 8) AND freemap_mask (?o mod BITS_PER_BLK) \<noteq> 0) = used_bit s n"
    by (simp only: mask_test bytes_of_nbit used_bit_def map_bit_def Let_def)
  ultimately show ?thesis using t(3-5) by auto
qed

definition set_bit_in :: "nat \<Rightarrow> bool \<Rightarrow> u8 list \<Rightarrow> u8 list" where
  "set_bit_in k used c = c[k div 8 := (if used then c ! (k div 8) OR freemap_mask (of_nat k)
     else c ! (k div 8) AND NOT (freemap_mask (of_nat k)))]"

lemma set_bit_in_bit:
  assumes "length c = BSIZE" "k < 4096" "j < 4096"
  shows "bit (set_bit_in k used c ! (j div 8)) (7 - j mod 8) =
    (if j = k then used else bit (c ! (j div 8)) (7 - j mod 8))"
proof -
  have k: "k div 8 < 512" "j div 8 < 512" using assms(2,3) by (simp_all add: div_less_iff_less_mult)
  have u: "unat (of_nat k :: u32) mod 8 = k mod 8" using assms(2) by (simp add: unat_of_nat32)
  have "7 - j mod 8 = 7 - k mod 8 \<longleftrightarrow> j mod 8 = k mod 8"
    using mod_less_divisor [of 8 j] mod_less_divisor [of 8 k] by linarith
  moreover have "j div 8 = k div 8 \<and> j mod 8 = k mod 8 \<longleftrightarrow> j = k" by (metis div_mult_mod_eq)
  moreover have "7 - j mod 8 < 8" by simp
  ultimately show ?thesis
    using k assms(1) mask_bit [of "of_nat k" "7 - j mod 8"] u
    by (cases "j div 8 = k div 8") (auto simp: set_bit_in_def bit_simps)
qed

lemma set_ok:
  assumes "cache_idle s" "wf_map s" "data_block s n"
  shows "\<exists>t. freemap_set dev n used s = Inr t \<and> cache_idle t \<and> same_meta s t \<and>
    blk t = (blk s)(map_block (super_block s) n :=
      set_bit_in (map_bit (super_block s) n) used (blk s (map_block (super_block s) n)))"
proof -
  let ?m = "map_block (super_block s) n" and ?o = "n - datastart (super_block s)"
  let ?k = "map_bit (super_block s) n"
  obtain b t where t: "bcache_read dev ?m False s = Inr (b, t)" "b_cache (buffer t b) = blk s ?m" "same_meta s t"
    "\<And>bs. \<exists>u. bcache_write b False (set_cache b bs t) = Inr u \<and> cache_idle (bcache_release b u) \<and>
      blk (bcache_release b u) = (blk s)(?m := bs) \<and> same_meta s (bcache_release b u)"
    using bc.session [OF assms(1) map_block_ok(1) [OF assms(2,3)], of dev False] by blast
  obtain u where u: "bcache_write b False (set_cache b (set_bit_in ?k used (blk s ?m)) t) = Inr u"
    "cache_idle (bcache_release b u)" "blk (bcache_release b u) = (blk s)(?m := set_bit_in ?k used (blk s ?m))"
    "same_meta s (bcache_release b u)"
    using t(4) by blast
  have k: "unat (?o mod BITS_PER_BLK div 8) = ?k div 8" "freemap_mask (?o mod BITS_PER_BLK) = freemap_mask (of_nat ?k)"
    by (simp_all only: bytes_of_nbit map_bit_def) (simp_all add: freemap_mask_def unat_mod unat_of_nat32)
  have "\<not> n < datastart (super_block s)" using assms(3) by (simp add: data_block_def not_less)
  then have "freemap_set dev n used s = Inr (bcache_release b u)"
    using freemap_addr_ok [OF assms(3)] t(1,2) u(1) k by (cases used) (simp_all add: freemap_set_def set_bit_in_def Let_def)
  then show ?thesis using u(2-4) by blast
qed

text \<open>Two data blocks have their bits in different places.\<close>

lemma map_place_inj:
  assumes "wf_map s" "data_block s n" "data_block s m"
    "map_block (super_block s) n = map_block (super_block s) m" "map_bit (super_block s) n = map_bit (super_block s) m"
  shows "n = m"
proof -
  let ?d = "datastart (super_block s)"
  have "(n - ?d) div 4096 = (m - ?d) div 4096" using assms(4) by (simp add: map_block_def)
  then have "unat (n - ?d) div 4096 = unat (m - ?d) div 4096" using unat_div [of "n - ?d" 4096] unat_div [of "m - ?d" 4096] by simp
  moreover have "unat (n - ?d) mod 4096 = unat (m - ?d) mod 4096" using assms(5) by (simp add: map_bit_def)
  ultimately have "unat (n - ?d) = unat (m - ?d)" by (metis div_mult_mod_eq)
  then show ?thesis by (simp add: word32_eq_iff [symmetric])
qed

lemma set_bits:
  assumes "cache_idle s" "wf_map s" "data_block s n"
  shows "\<exists>t. freemap_set dev n used s = Inr t \<and> cache_idle t \<and> same_meta s t \<and> wf_map t \<and>
    (\<forall>m. data_block s m \<longrightarrow> used_bit t m = (if m = n then used else used_bit s m)) \<and>
    (\<forall>m. datastart (super_block s) \<le> m \<longrightarrow> blk t m = blk s m)"
proof -
  let ?sb = "super_block s"
  obtain t where t: "freemap_set dev n used s = Inr t" "cache_idle t" "same_meta s t"
    "blk t = (blk s)(map_block ?sb n := set_bit_in (map_bit ?sb n) used (blk s (map_block ?sb n)))"
    using set_ok [OF assms] by blast
  have len: "length (blk s k) = BSIZE" for k using assms(2) by (simp add: wf_map_def)
  have sb: "super_block t = ?sb" using t(3) by (simp add: same_meta_def)
  have "length (blk t k) = BSIZE" for k using len t(4) by (simp add: set_bit_in_def)
  then have "wf_map t" using assms(2) sb by (simp add: wf_map_def)
  moreover have "used_bit t m = (if m = n then used else used_bit s m)" if "data_block s m" for m
  proof (cases "map_block ?sb m = map_block ?sb n")
    case True
    have "map_bit ?sb n < 4096" "map_bit ?sb m < 4096" by (simp_all add: map_bit_def)
    then show ?thesis
      using set_bit_in_bit [OF len, of "map_bit ?sb n" "map_bit ?sb m" used "map_block ?sb n"] True t(4) sb
        map_place_inj [OF assms(2) that assms(3)] by (auto simp: used_bit_def Let_def)
  next
    case False
    then show ?thesis using t(4) sb by (auto simp: used_bit_def Let_def)
  qed
  moreover have "blk t m = blk s m" if "datastart ?sb \<le> m" for m
    using map_block_ok(2) [OF assms(2,3)] that t(4) by (auto simp: word_le_nat_alt)
  ultimately show ?thesis using t by blast
qed

section \<open>Allocation\<close>

lemma leading_ones_le: "leading_ones f b \<le> f"
  by (induction f arbitrary: b) auto

lemma top_bit: "b AND 0x80 \<noteq> 0 \<longleftrightarrow> bit b 7" for b :: u8
  using mask_test [of b 0] by (simp add: freemap_mask_def)

lemma leading_ones_stop: "leading_ones f b < f \<Longrightarrow> f \<le> 8 \<Longrightarrow> \<not> bit b (7 - leading_ones f b)"
proof (induction f arbitrary: b)
  case (Suc f)
  show ?case
  proof (cases "b AND 0x80 = 0")
    case True
    then show ?thesis using top_bit [of b] by simp
  next
    case False
    define c where "c = push_bit 1 b"
    have bit_c: "bit c m \<longleftrightarrow> 1 \<le> m \<and> m < 8 \<and> bit b (m - 1)" for m
      unfolding c_def bit_push_bit_iff by (auto simp: possible_bit_def)
    have l: "leading_ones (Suc f) b = leading_ones f c + 1" using False unfolding c_def by (simp only: leading_ones.simps if_True not_False_eq_True)
    then have "\<not> bit c (7 - leading_ones f c)" "leading_ones f c < f"
      using Suc.IH [of c] Suc.prems by simp_all
    then show ?thesis unfolding l using Suc.prems(2) by (auto simp: bit_c)
  qed
qed simp

lemma leading_ones_full: "leading_ones 8 (- 1) = 8"
  by code_simp

lemma leading_ones_all: "leading_ones f b = f \<Longrightarrow> f \<le> 8 \<Longrightarrow> j < f \<Longrightarrow> bit b (7 - j)"
proof (induction f arbitrary: b j)
  case (Suc f)
  have top: "b AND 0x80 \<noteq> 0" "leading_ones f (push_bit 1 b) = f" using Suc.prems(1) by (auto split: if_splits)
  show ?case
  proof (cases j)
    case 0
    then show ?thesis using top(1) top_bit by simp
  next
    case (Suc i)
    then have "bit (push_bit 1 b) (7 - i)" using Suc.IH [OF top(2)] Suc.prems by simp
    then show ?thesis using Suc unfolding bit_push_bit_iff by simp
  qed
qed simp

lemma leading_ones_8: "leading_ones 8 b = 8 \<Longrightarrow> b = - 1"
proof -
  assume k8: "leading_ones 8 b = 8"
  have "bit b i" if "i < 8" for i using leading_ones_all [OF k8, of "7 - i"] that by simp
  then show ?thesis by (intro bit_word_eqI) simp
qed

lemma search_bytes_first: "bs \<noteq> [] \<Longrightarrow> search_bytes bs = Some (leading_ones 8 (hd bs))"
proof -
  have "(0xff :: u8) = - 1" by simp
  then have "byte AND 0xff = byte" for byte :: u8 by (metis and.right_neutral)
  moreover have "leading_ones 8 0 = 0" by (simp add: numeral_eq_Suc)
  ultimately show "bs \<noteq> [] \<Longrightarrow> ?thesis" by (cases bs) auto
qed

definition first_byte :: "fs \<Rightarrow> u8" where
  "first_byte s = hd (blk s (bmapstart (super_block s)))"

lemma search_ok:
  assumes "cache_idle s" "wf_map s"
  shows "\<exists>t. freemap_search dev s =
      Inr (Some (datastart (super_block s) + of_nat (leading_ones 8 (first_byte s))), t) \<and>
    cache_idle t \<and> blk t = blk s \<and> same_meta s t"
proof -
  let ?sb = "super_block s"
  have lt: "unat (bmapstart ?sb) < unat (datastart ?sb)" "unat (datastart ?sb) < 2 ^ 28"
    using assms(2) by (auto simp: wf_map_def Let_def)
  then have "blockno_ok (bmapstart ?sb)" by (simp add: blockno_ok_def)
  then obtain b t where t: "bcache_read dev (bmapstart ?sb) False s = Inr (b, t)"
    "b_cache (buffer t b) = blk s (bmapstart ?sb)" "same_meta s t"
    "cache_idle (bcache_release b t)" "blk (bcache_release b t) = blk s" "same_meta s (bcache_release b t)"
    using bc.session [OF assms(1), of "bmapstart ?sb" dev False] by blast
  have "length (blk s (bmapstart ?sb)) = 512" using assms(2) by (simp add: wf_map_def)
  then have "blk s (bmapstart ?sb) \<noteq> []" by auto
  note f = search_bytes_first [OF this]
  obtain k where k: "unat (datastart ?sb - bmapstart ?sb) = Suc k"
    using lt by (cases "unat (datastart ?sb - bmapstart ?sb)") (auto simp: unat_eq_0)
  have "freemap_search dev s =
      Inr (Some (datastart ?sb + of_nat (leading_ones 8 (first_byte s))), bcache_release b t)"
    using t(1-3) f k by (simp add: freemap_search_def first_byte_def same_meta_def)
  then show ?thesis using t(4-6) by blast
qed

lemma first_bits:
  assumes "k < 8" and that: "blk s (bmapstart (super_block s)) \<noteq> []"
  shows "used_bit s (datastart (super_block s) + of_nat k) = bit (first_byte s) (7 - k)"
proof -
  have k: "unat (of_nat k :: u32) = k" using assms by (simp add: unat_of_nat32)
  have "(of_nat k :: u32) div 4096 = 0" using k assms by (simp add: word32_eq_iff unat_div)
  then show ?thesis
    using k assms by (simp add: used_bit_def map_block_def map_bit_def first_byte_def hd_conv_nth Let_def)
qed

lemma alloc_ok:
  assumes "cache_idle s" "wf_map s" "unat (datastart (super_block s)) + 8 \<le> unat (nblocks (super_block s))"
    and n: "n = datastart (super_block s) + of_nat (leading_ones 8 (first_byte s))"
  shows "\<exists>t. block_alloc dev s = Inr (n, t) \<and> cache_idle t \<and> same_meta s t \<and> wf_map t \<and> data_block s n \<and>
    (\<forall>m. data_block s m \<longrightarrow> used_bit t m = (m = n \<or> used_bit s m)) \<and>
    (\<forall>m. datastart (super_block s) \<le> m \<longrightarrow> blk t m = blk s m)"
proof -
  let ?sb = "super_block s" and ?k = "leading_ones 8 (first_byte s)"
  have k: "?k \<le> 8" by (rule leading_ones_le)
  have "unat (datastart ?sb) + ?k < 4294967296" using assms(2,3) k by (auto simp: wf_map_def Let_def)
  then have un: "unat n = unat (datastart ?sb) + ?k" using k by (simp add: n unat_add32 unat_of_nat32)
  then have db: "data_block s n" using k assms(3) by (simp add: data_block_def word_le_nat_alt)
  have "0 < unat (datastart ?sb)" using assms(2) by (auto simp: wf_map_def Let_def)
  then have n0: "n \<noteq> 0" using un by auto
  obtain t where t: "freemap_search dev s = Inr (Some n, t)" "cache_idle t" "blk t = blk s" "same_meta s t"
    using search_ok [OF assms(1,2)] n by blast
  have sb: "super_block t = ?sb" using t(4) by (simp add: same_meta_def)
  have t2: "wf_map t" "data_block t n" using assms(2) db t(3) sb by (simp_all add: wf_map_def data_block_def)
  obtain u where u: "freemap_set dev n True t = Inr u" "cache_idle u" "same_meta t u" "wf_map u"
    "\<forall>m. data_block t m \<longrightarrow> used_bit u m = (if m = n then True else used_bit t m)"
    "\<forall>m. datastart (super_block t) \<le> m \<longrightarrow> blk u m = blk t m"
    using set_bits [OF t(2) t2] by blast
  have "used_bit t m = used_bit s m" for m using t(3) sb by (simp add: used_bit_def)
  moreover have "block_alloc dev s = Inr (n, u)" using t(1) u(1) n0 by (simp add: block_alloc_def)
  ultimately show ?thesis
    using u(2-6) t(3,4) sb db by (auto simp: data_block_def same_meta_def)
qed

section \<open>Properties\<close>

lemma sample_wf_map: "wf_map sample_fs" "data_block sample_fs n \<longleftrightarrow> 21 \<le> n \<and> n \<le> 1000"
proof -
  have "length (blk sample_fs k) = BSIZE" for k by (simp add: sample_fs_ok(3))
  then show "wf_map sample_fs" by (simp add: wf_map_def) (simp add: sample_fs_def)
  show "data_block sample_fs n \<longleftrightarrow> 21 \<le> n \<and> n \<le> 1000" by (simp add: data_block_def sample_fs_def)
qed

text \<open>the free map is a faithful set of bits.  After \<open>freemap_set\<close> of a data block,
  \<open>freemap_check\<close> answers for that block what was set and for every other data block what it
  answered before, and no data block has changed; so \<open>block_free\<close> of a used block makes it
  free and a second \<open>block_free\<close> panics.\<close>

theorem freemap_set_check:
  assumes "cache_idle s" "wf_map s" "data_block s n" "data_block s m"
  shows "\<exists>t u v. freemap_set dev n used s = Inr t \<and> freemap_check dev m t = Inr (if m = n then used else used_bit s m, u) \<and>
    freemap_check dev m s = Inr (used_bit s m, v) \<and>
    (\<forall>k. datastart (super_block s) \<le> k \<longrightarrow> blk t k = blk s k) \<and>
    (if used_bit s n
     then \<exists>w. block_free dev n s = Inr w \<and> \<not> used_bit w n \<and>
       block_free dev n w = Inl (Panic ''block_free: block is already free'')
     else block_free dev n s = Inl (Panic ''block_free: block is already free''))"
proof -
  have free: "block_free dev n s = (if used_bit s n then freemap_set dev n False t
      else Inl (Panic ''block_free: block is already free''))"
    if "freemap_check dev n s = Inr (used_bit s n, t)" for s t
    using that by (simp add: block_free_def)
  obtain t where t: "freemap_set dev n used s = Inr t" "cache_idle t" "same_meta s t" "wf_map t"
    "\<forall>k. data_block s k \<longrightarrow> used_bit t k = (if k = n then used else used_bit s k)"
    "\<forall>k. datastart (super_block s) \<le> k \<longrightarrow> blk t k = blk s k"
    using set_bits [OF assms(1-3)] by blast
  have dt: "data_block t m" using assms(4) t(3) by (simp add: data_block_def same_meta_def)
  obtain u v where "freemap_check dev m t = Inr (used_bit t m, u)" "freemap_check dev m s = Inr (used_bit s m, v)"
    using check_ok [OF t(2,4) dt] check_ok [OF assms(1,2,4)] by blast
  moreover obtain c where c: "freemap_check dev n s = Inr (used_bit s n, c)" "cache_idle c" "blk c = blk s" "same_meta s c"
    using check_ok [OF assms(1-3)] by blast
  have dc: "wf_map c" "data_block c n" using assms(2,3) c(3,4) by (simp_all add: wf_map_def data_block_def same_meta_def)
  obtain w where w: "freemap_set dev n False c = Inr w" "cache_idle w" "same_meta c w" "wf_map w"
    "\<forall>k. data_block c k \<longrightarrow> used_bit w k = (if k = n then False else used_bit c k)"
    using set_bits [OF c(2) dc] by blast
  have dw: "data_block w n" "\<not> used_bit w n" using w(3,5) dc(2) by (auto simp: data_block_def same_meta_def)
  obtain x where "freemap_check dev n w = Inr (used_bit w n, x)" using check_ok [OF w(2,4) dw(1)] by blast
  then have "block_free dev n w = Inl (Panic ''block_free: block is already free'')" using free dw(2) by simp
  ultimately show ?thesis using t assms(4) free [OF c(1)] w(1) dw(2) by auto
qed

theorem freemap_set_check_witness:
  "\<exists>t u. freemap_set 1 30 True sample_fs = Inr t \<and> freemap_check 1 30 t = Inr (True, u)"
  using freemap_set_check [OF sample_fs_ok(1) sample_wf_map(1), of 30 30 1 True] by (auto simp: sample_wf_map(2))


definition full_fs :: fs where
  "full_fs = sample_fs\<lparr>drive := sample_drive\<lparr>sectors := (\<lambda>_ _. replicate BSIZE (- 1))\<rparr>\<rparr>"


end
