(* ===== verification/Inode.thy ===== *)
theory Inode
  imports Block
begin

text \<open>
  kernel/fs/inode.c: the inode cache, the block map of an inode, reading and writing of
  files.  Bytes that a read stores to its buffer are returned as a list; a write takes them
  as one.  \<open>devices[]\<close> is the table of device drivers, an argument of the operations: a
  driver function gets the inode and the bytes or their number.
\<close>

lemma unat_mod_512 [simp]: "unat ((x :: u32) mod 512) < 512"
  by (simp add: unat_mod)

section \<open>The inode cache\<close>

type_synonym dev_read = "nat \<Rightarrow> u32 \<Rightarrow> fs \<Rightarrow> (int \<times> u8 list \<times> fs) res"
type_synonym dev_write = "nat \<Rightarrow> u8 list \<Rightarrow> fs \<Rightarrow> (int \<times> fs) res"

definition upd_ino :: "nat \<Rightarrow> (inode \<Rightarrow> inode) \<Rightarrow> fs \<Rightarrow> fs" where
  "upd_ino i f s = s\<lparr>icache := (icache s)[i := f (icache s ! i)]\<rparr>"

definition inode_block :: "u32 \<Rightarrow> fs \<Rightarrow> u32" where
  "inode_block inum s = get_inode_block inum (super_block s)"

definition dinode_read :: "nat \<Rightarrow> nat \<Rightarrow> fs \<Rightarrow> bool \<times> fs" where
  "dinode_read i b s =
     (let inum = i_inum (icache s ! i) in
      if b_blockno (buffer s b) \<noteq> inode_block inum s then (False, s)
      else
        let k = inum mod inode_per_block;
            d = bytes_dinode (slice (unat k * DINODE_SZ) DINODE_SZ (b_cache (buffer s b)))
        in (True, upd_ino i (\<lambda>n. n\<lparr>i_d := d\<rparr>) s))"

definition dinode_write :: "nat \<Rightarrow> nat \<Rightarrow> fs \<Rightarrow> bool \<times> fs" where
  "dinode_write i b s =
     (let inum = i_inum (icache s ! i) in
      if b_blockno (buffer s b) \<noteq> inode_block inum s then (False, s)
      else
        let k = inum mod inode_per_block
        in (True, set_cache b (blit (unat k * DINODE_SZ) (dinode_bytes (i_d (icache s ! i))) (b_cache (buffer s b))) s))"

text \<open>The loop runs to \<open>sizeof(icache.inodes)\<close>, far behind the 128 entries: with no entry
  found it reads outside of the table.\<close>

fun getc_loop :: "nat list \<Rightarrow> u32 \<Rightarrow> u32 \<Rightarrow> fs \<Rightarrow> (nat \<times> fs) res" where
  "getc_loop [] dev inum s = Inl OutOfBounds"
| "getc_loop (i # is) dev inum s =
     (let ino = icache s ! i in
      if i_nref ino \<ge> 0 \<and> i_dev ino = dev \<and> i_inum ino = inum
      then Inr (i, upd_ino i (\<lambda>n. n\<lparr>i_nref := i_nref n + 1\<rparr>) s)
      else if i_nref ino = 0
      then Inr (i, upd_ino i (\<lambda>n. n\<lparr>i_nref := 1, i_dev := dev, i_inum := inum, i_read := False\<rparr>) s)
      else getc_loop is dev inum s)"

definition inode_getc :: "u32 \<Rightarrow> u32 \<Rightarrow> fs \<Rightarrow> (nat \<times> fs) res" where
  "inode_getc dev inum s = getc_loop [0..<NINODES] dev inum s"

definition inode_load :: "nat \<Rightarrow> fs \<Rightarrow> (bool \<times> fs) res" where
  "inode_load i s =
     (if i_nref (icache s ! i) = 0 then Inr (False, s)
      else if i_read (icache s ! i) then Inr (True, s)
      else
        let blockno = inode_block (i_inum (icache s ! i)) s in
        rbind (bcache_read (i_dev (icache s ! i)) blockno False s) (\<lambda>(b, s).
        let s = snd (dinode_read i b s);
            s = bcache_release b s;
            s = upd_ino i (\<lambda>n. n\<lparr>i_read := True\<rparr>) s
        in if d_type (i_d (icache s ! i)) = 0 then Inl (Panic ''inode_load: inode has no file type'')
           else Inr (True, s)))"

definition inode_flush :: "nat \<Rightarrow> fs \<Rightarrow> fs res" where
  "inode_flush i s =
     rbind (bcache_read (i_dev (icache s ! i)) (inode_block (i_inum (icache s ! i)) s) False s) (\<lambda>(b, s).
     let s = snd (dinode_write i b s) in
     rbind (bcache_write b False s) (\<lambda>s. Inr (bcache_release b s)))"

text \<open>\<open>inode_allocate\<close>: the loop over the inode numbers; the result is none when a buffer
  turns out not to be the one asked for.\<close>

fun allocate_loop :: "nat \<Rightarrow> u32 \<Rightarrow> u32 \<Rightarrow> u32 \<Rightarrow> fs \<Rightarrow> (nat option \<times> fs) res" where
  "allocate_loop 0 inum dev type s = Inl (Panic ''inode_allocate: no more space for inodes'')"
| "allocate_loop (Suc n) inum dev type s =
     rbind (bcache_read dev (inode_block inum s) False s) (\<lambda>(b, s).
     rbind (inode_getc dev inum s) (\<lambda>(i, s).
     let (ok, s) = dinode_read i b s in
     if \<not> ok then Inr (None, s)
     else if d_type (i_d (icache s ! i)) = 0
     then
       let s = upd_ino i (\<lambda>n. n\<lparr>i_dev := dev, i_d := (i_d n)\<lparr>d_type := type\<rparr>\<rparr>) s;
           (ok, s) = dinode_write i b s
       in if \<not> ok then Inr (None, s)
          else rbind (bcache_write b False s) (\<lambda>s. Inr (Some i, bcache_release b s))
     else allocate_loop n (inum + 1) dev type (bcache_release b s)))"

definition inode_allocate :: "u32 \<Rightarrow> u32 \<Rightarrow> fs \<Rightarrow> (nat option \<times> fs) res" where
  "inode_allocate dev type s =
     allocate_loop (unat (ninodes (super_block s)) - unat (ROOTINO + 1)) (ROOTINO + 1) dev type s"

definition inode_dup :: "nat \<Rightarrow> fs \<Rightarrow> fs" where
  "inode_dup i s = upd_ino i (\<lambda>n. n\<lparr>i_nref := i_nref n + 1\<rparr>) s"

definition inode_drop :: "nat \<Rightarrow> fs \<Rightarrow> fs" where
  "inode_drop i s = upd_ino i (\<lambda>n. n\<lparr>i_nref := i_nref n - 1\<rparr>) s"

section \<open>The block map\<close>

definition set_addr :: "nat \<Rightarrow> nat \<Rightarrow> u32 \<Rightarrow> fs \<Rightarrow> fs" where
  "set_addr i k a s = upd_ino i (\<lambda>n. n\<lparr>i_d := (i_d n)\<lparr>d_addrs := (d_addrs (i_d n))[k := a]\<rparr>\<rparr>) s"

definition bmap0 :: "nat \<Rightarrow> nat \<Rightarrow> fs \<Rightarrow> (u32 \<times> fs) res" where
  "bmap0 i k s =
     (let blockno = d_addrs (i_d (icache s ! i)) ! k in
      if blockno = 0
      then
        rbind (block_alloc (i_dev (icache s ! i)) s) (\<lambda>(blockno, s).
        rbind (inode_flush i (set_addr i k blockno s)) (\<lambda>s. Inr (blockno, s)))
      else Inr (blockno, s))"

text \<open>\<open>bmap1\<close>: the entry is read at its index but stored at the byte offset of that number.
  An index of 128 or more lies outside of the buffer.\<close>

definition bmap1 :: "nat \<Rightarrow> nat \<Rightarrow> fs \<Rightarrow> (u32 \<times> fs) res" where
  "bmap1 i k s =
     (let offset = k - NDIRECT; ptrsno = d_addrs (i_d (icache s ! i)) ! NDIRECT in
      rbind (if ptrsno = 0
             then
               rbind (block_alloc (i_dev (icache s ! i)) s) (\<lambda>(ptrsno, s).
               rbind (inode_flush i (set_addr i NDIRECT ptrsno s)) (\<lambda>s. Inr (ptrsno, s)))
             else Inr (ptrsno, s)) (\<lambda>(ptrsno, s).
      rbind (bcache_read (i_dev (icache s ! i)) ptrsno False s) (\<lambda>(p, s).
      if offset \<ge> 128 then Inl OutOfBounds
      else
        let blockno = rd32 (b_cache (buffer s p)) (4 * offset) in
        if blockno = 0
        then
          rbind (block_alloc (i_dev (icache s ! i)) s) (\<lambda>(blockno, s).
          rbind (bcache_write p False (set_cache p (blit offset (le32 blockno) (b_cache (buffer s p))) s)) (\<lambda>s.
          Inr (blockno, bcache_release p s)))
        else Inr (blockno, bcache_release p s))))"

definition inode_bmap :: "nat \<Rightarrow> nat \<Rightarrow> fs \<Rightarrow> (u32 \<times> fs) res" where
  "inode_bmap i k s = (if k < NDIRECT then bmap0 i k s else bmap1 i k s)"

fun offmap_loop :: "nat list \<Rightarrow> nat \<Rightarrow> fs \<Rightarrow> fs res" where
  "offmap_loop [] i s = Inr s"
| "offmap_loop (n # ns) i s =
     rbind (inode_bmap i n s) (\<lambda>(a, s). if a = 0 then Inl (Panic ''inode_offmap'') else offmap_loop ns i s)"

definition inode_offmap :: "nat \<Rightarrow> u32 \<Rightarrow> fs \<Rightarrow> fs res" where
  "inode_offmap i offset s =
     (if d_size (i_d (icache s ! i)) > offset then Inr s
      else
        let n = unat (offset div 512) + 1 in
        rbind (offmap_loop [0..<n] i s) (\<lambda>s.
        rbind (if offset > 512 \<and> offset mod 512 \<noteq> 0 then offmap_loop [n] i s else Inr s) (\<lambda>s.
        Inr (upd_ino i (\<lambda>n. n\<lparr>i_d := (i_d n)\<lparr>d_size := offset\<rparr>\<rparr>) s))))"

section \<open>Reading and writing\<close>

text \<open>The loop of \<open>inode_read\<close>: \<open>n\<close> bytes are left to read.\<close>

function read_loop :: "nat \<Rightarrow> u32 \<Rightarrow> nat \<Rightarrow> fs \<Rightarrow> (u8 list \<times> fs) res" where
  "read_loop i offset n s =
     (if n = 0 then Inr ([], s)
      else
        rbind (inode_bmap i (unat (offset div 512)) s) (\<lambda>(blockno, s).
        rbind (bcache_read (i_dev (icache s ! i)) blockno False s) (\<lambda>(b, s).
        let m = min n (BSIZE - unat (offset mod 512));
            bs = slice (unat (offset mod 512)) m (b_cache (buffer s b))
        in rbind (read_loop i (offset + of_nat m) (n - m) (bcache_release b s)) (\<lambda>(rest, s).
           Inr (bs @ rest, s)))))"
  by pat_completeness auto
termination
  by (relation "measure (\<lambda>(i, offset, n, s). n)") (auto simp: less_imp_le)

definition inode_read :: "(nat \<Rightarrow> dev_read option) \<Rightarrow> nat \<Rightarrow> u32 \<Rightarrow> u32 \<Rightarrow> fs \<Rightarrow> (int \<times> u8 list \<times> fs) res" where
  "inode_read devices i offset sz s =
     rbind (if i_read (icache s ! i) then Inr s else rbind (inode_load i s) (\<lambda>(_, s). Inr s)) (\<lambda>s.
     let d = i_d (icache s ! i) in
     if d_type d = F_DEV
     then
       if d_major d > of_nat NDEV then Inr (- 1, [], s)
       else if unat (d_major d) = NDEV then Inl OutOfBounds
       else
         case devices (unat (d_major d)) of
           None \<Rightarrow> Inr (- 1, [], s)
         | Some read \<Rightarrow> read i sz s
     else if d_type d = F_DIR \<or> d_type d = F_FILE
     then
       if d_size d < offset then Inr (- 1, [], s)
       else if - 1 - offset < sz then Inr (- 1, [], s)
       else
         let sz = (if offset + sz > d_size d then d_size d - offset else sz) in
         rbind (read_loop i offset (unat sz) s) (\<lambda>(bs, s). Inr (sint sz, bs, s))
     else Inl OutOfBounds)"

text \<open>The loop of \<open>inode_write\<close>; it returns the offset it ends at.\<close>

function write_loop :: "nat \<Rightarrow> u32 \<Rightarrow> u8 list \<Rightarrow> fs \<Rightarrow> (u32 \<times> fs) res" where
  "write_loop i offset buf s =
     (if buf = [] then Inr (offset, s)
      else
        rbind (inode_bmap i (unat (offset div 512)) s) (\<lambda>(blockno, s).
        rbind (bcache_read (i_dev (icache s ! i)) blockno False s) (\<lambda>(b, s).
        let m = min (length buf) (BSIZE - unat (offset mod 512));
            s = set_cache b (blit (unat (offset mod 512)) (take m buf) (b_cache (buffer s b))) s
        in rbind (bcache_write b False s) (\<lambda>s.
           write_loop i (offset + of_nat m) (drop m buf) (bcache_release b s)))))"
  by pat_completeness auto
termination
  by (relation "measure (\<lambda>(i, offset, buf, s). length buf)") (auto simp: less_imp_le)

definition inode_write :: "(nat \<Rightarrow> dev_write option) \<Rightarrow> nat \<Rightarrow> u8 list \<Rightarrow> u32 \<Rightarrow> fs \<Rightarrow> (int \<times> fs) res" where
  "inode_write devices i buf offset s =
     rbind (if i_read (icache s ! i) then Inr s else rbind (inode_load i s) (\<lambda>(_, s). Inr s)) (\<lambda>s.
     let d = i_d (icache s ! i); sz = of_nat (length buf) :: u32 in
     if d_type d = F_DEV
     then
       if d_major d > of_nat NDEV then Inr (- 1, s)
       else if unat (d_major d) = NDEV then Inl OutOfBounds
       else
         case devices (unat (d_major d)) of
           None \<Rightarrow> Inr (- 1, s)
         | Some write \<Rightarrow> write i buf s
     else if d_type d = F_DIR \<or> d_type d = F_FILE
     then
       if d_size d < offset then Inr (- 1, s)
       else if - 1 - offset < sz then Inr (- 1, s)
       else if offset + sz > of_nat MAXFILE then Inr (- 1, s)
       else
         rbind (write_loop i offset buf s) (\<lambda>(offset, s).
         rbind (if offset > d_size (i_d (icache s ! i))
                then inode_flush i (upd_ino i (\<lambda>n. n\<lparr>i_d := (i_d n)\<lparr>d_size := offset\<rparr>\<rparr>) s)
                else Inr s) (\<lambda>s.
         Inr (sint sz, s)))
     else Inl OutOfBounds)"

record stat =
  st_type :: u16
  st_dev :: u32
  st_inum :: u32
  st_nlink :: u16
  st_size :: u32

definition inode_stat :: "nat \<Rightarrow> stat \<Rightarrow> fs \<Rightarrow> stat" where
  "inode_stat i st s =
     (let ino = icache s ! i in
      st\<lparr>st_dev := i_dev ino, st_inum := i_inum ino, st_nlink := d_nlink (i_d ino), st_size := d_size (i_d ino)\<rparr>)"

declare read_loop.simps [simp del] write_loop.simps [simp del]

end
