(* ===== verification/File_Data.thy ===== *)
theory File_Data
  imports Inode
begin

text \<open>
  Files as sequences of bytes.  \<open>file_bytes\<close> is the abstraction of an inode and the blocks it
  maps: byte \<open>k\<close> of the file is byte \<open>k mod 512\<close> of the block entered at \<open>k div 512\<close>.
  \<open>inode_read\<close> and \<open>inode_write\<close> of kernel/fs/inode.c refine reading and overwriting of
  that sequence, as long as the blocks are direct ones; growing a file over its twelve
  direct blocks panics the kernel.
\<close>

section \<open>The abstraction\<close>

definition ino_d :: "fs \<Rightarrow> nat \<Rightarrow> dinode" where
  "ino_d s i = i_d (icache s ! i)"

definition ino_block :: "fs \<Rightarrow> nat \<Rightarrow> u32" where
  "ino_block s i = inode_block (i_inum (icache s ! i)) s"

definition file_byte :: "fs \<Rightarrow> nat \<Rightarrow> nat \<Rightarrow> u8" where
  "file_byte s i k = blk s (d_addrs (ino_d s i) ! (k div BSIZE)) ! (k mod BSIZE)"

definition file_bytes :: "fs \<Rightarrow> nat \<Rightarrow> u8 list" where
  "file_bytes s i = map (file_byte s i) [0..<unat (d_size (ino_d s i))]"

text \<open>The first \<open>n\<close> bytes of inode \<open>i\<close> lie in direct blocks of their own.\<close>

definition mapped :: "fs \<Rightarrow> nat \<Rightarrow> nat \<Rightarrow> bool" where
  "mapped s i n \<longleftrightarrow>
     n \<le> NDIRECT * BSIZE \<and>
     (\<forall>k. k * BSIZE < n \<longrightarrow> d_addrs (ino_d s i) ! k \<noteq> 0 \<and> blockno_ok (d_addrs (ino_d s i) ! k) \<and>
        d_addrs (ino_d s i) ! k \<noteq> ino_block s i) \<and>
     (\<forall>k l. k * BSIZE < n \<and> l * BSIZE < n \<and> k \<noteq> l \<longrightarrow> d_addrs (ino_d s i) ! k \<noteq> d_addrs (ino_d s i) ! l)"

definition open_file :: "fs \<Rightarrow> nat \<Rightarrow> bool" where
  "open_file s i \<longleftrightarrow>
     cache_idle s \<and> (\<forall>n. length (blk s n) = BSIZE) \<and> i < length (icache s) \<and> i_read (icache s ! i) \<and>
     d_type (ino_d s i) \<in> {F_DIR, F_FILE} \<and> length (d_addrs (ino_d s i)) = NINOBLKS \<and> blockno_ok (ino_block s i)"

lemma mapped_div:
  assumes "mapped s i n" "k < n"
  shows "k div BSIZE < NDIRECT" "d_addrs (ino_d s i) ! (k div BSIZE) \<noteq> 0" "blockno_ok (d_addrs (ino_d s i) ! (k div BSIZE))"
    "d_addrs (ino_d s i) ! (k div BSIZE) \<noteq> ino_block s i"
proof -
  have "k div 512 * 512 \<le> k" by simp
  then have "k div 512 * 512 < n" using assms(2) by (rule order_le_less_trans)
  then show "d_addrs (ino_d s i) ! (k div BSIZE) \<noteq> 0" "blockno_ok (d_addrs (ino_d s i) ! (k div BSIZE))"
    "d_addrs (ino_d s i) ! (k div BSIZE) \<noteq> ino_block s i"
    using assms(1) unfolding mapped_def by blast+
  have "k < NDIRECT * BSIZE" using assms unfolding mapped_def by linarith
  then show "k div BSIZE < NDIRECT" by (rule less_mult_imp_div_less)
qed

lemma mapped_inj:
  assumes "mapped s i n" "k < n" "l < n" "d_addrs (ino_d s i) ! (k div BSIZE) = d_addrs (ino_d s i) ! (l div BSIZE)"
  shows "k div BSIZE = l div BSIZE"
proof -
  have "k div 512 * 512 < n" "l div 512 * 512 < n"
    using assms(2,3) div_times_less_eq_dividend [of k 512] div_times_less_eq_dividend [of l 512] by linarith+
  then show ?thesis using assms(1,4) unfolding mapped_def by blast
qed

lemma same_meta_ino:
  "same_meta s t \<Longrightarrow> ino_d t i = ino_d s i" "same_meta s t \<Longrightarrow> ino_block t i = ino_block s i"
  "same_meta s t \<Longrightarrow> mapped t i n = mapped s i n" "same_meta s t \<Longrightarrow> icache t = icache s"
  by (simp_all add: same_meta_def ino_d_def ino_block_def inode_block_def mapped_def)

lemma bmap_mapped:
  assumes "mapped s i n" "k < n"
  shows "inode_bmap i (k div BSIZE) s = Inr (d_addrs (ino_d s i) ! (k div BSIZE), s)"
  using mapped_div [OF assms] by (simp add: inode_bmap_def bmap0_def ino_d_def)

lemma chunk_div:
  assumes "j < 512 - off mod (512 :: nat)"
  shows "(off + j) div 512 = off div 512" "(off + j) mod 512 = off mod 512 + j"
proof -
  define q r where "q = off div 512" and "r = off mod 512"
  have off: "off = q * 512 + r" unfolding q_def r_def by simp
  have lt: "r + j < 512" using assms unfolding r_def by linarith
  have e: "off + j = (r + j) + q * 512" using off by simp
  show "(off + j) div 512 = off div 512" "(off + j) mod 512 = off mod 512 + j"
    unfolding e q_def [symmetric] r_def [symmetric] using lt by simp_all
qed

section \<open>Reading\<close>

lemma read_chunk:
  assumes "\<And>n. length (blk s n) = BSIZE" "m \<le> 512 - off mod 512"
  shows "slice (off mod 512) m (blk s (d_addrs (ino_d s i) ! (off div 512))) = map (file_byte s i) [off..<off + m]"
proof (rule nth_equalityI)
  have le: "off mod 512 + m \<le> 512" using assms(2) by (simp add: le_diff_conv2 less_imp_le)
  then show "length (slice (off mod 512) m (blk s (d_addrs (ino_d s i) ! (off div 512)))) =
      length (map (file_byte s i) [off..<off + m])" using assms(1) by simp
  fix j
  assume "j < length (slice (off mod 512) m (blk s (d_addrs (ino_d s i) ! (off div 512))))"
  then have j: "j < m" using le assms(1) by simp
  then have "j < 512 - off mod 512" using assms(2) by simp
  note c = chunk_div [OF this]
  show "slice (off mod 512) m (blk s (d_addrs (ino_d s i) ! (off div 512))) ! j = map (file_byte s i) [off..<off + m] ! j"
    using j le assms(1) c by (simp add: slice_nth file_byte_def)
qed

lemma read_loop_ok:
  assumes "cache_idle s" "\<And>n. length (blk s n) = BSIZE" "mapped s i (unat off + n)"
  shows "\<exists>t. read_loop i off n s = Inr (map (file_byte s i) [unat off..<unat off + n], t) \<and>
    cache_idle t \<and> blk t = blk s \<and> same_meta s t"
  using assms
proof (induction n arbitrary: off s rule: less_induct)
  case (less n)
  show ?case
  proof (cases "n = 0")
    case True
    then show ?thesis using less.prems(1) by (subst read_loop.simps) (simp add: same_meta_def)
  next
    case False
    let ?o = "unat off"
    define m where "m = min n (BSIZE - ?o mod 512)"
    have um: "unat (off mod 512) = ?o mod 512" "unat (off div 512) = ?o div 512" by (simp_all add: unat_mod unat_div)
    have m: "0 < m" "m \<le> n" "m \<le> 512 - ?o mod 512" using False by (simp_all add: m_def)
    have lim: "?o + n \<le> 6144" using less.prems(3) by (simp add: mapped_def)
    have lt: "?o < ?o + n" using False by simp
    note md = mapped_div [OF less.prems(3) lt]
    let ?a = "d_addrs (ino_d s i) ! (?o div 512)"
    obtain b t where t: "bcache_read (i_dev (icache s ! i)) ?a False s = Inr (b, t)" "b_cache (buffer t b) = blk s ?a"
      "cache_idle (bcache_release b t)" "blk (bcache_release b t) = blk s" "same_meta s (bcache_release b t)"
      using bc.session [OF less.prems(1) md(3), of "i_dev (icache s ! i)" False] by blast
    let ?t = "bcache_release b t"
    have off': "unat (off + of_nat m) = ?o + m" using lim m(2) by (simp add: unat_add32 unat_of_nat32)
    have "mapped ?t i (unat (off + of_nat m) + (n - m))" using less.prems(3) same_meta_ino(3) [OF t(5)] off' m(2) by simp
    moreover have "length (blk ?t k) = BSIZE" for k using less.prems(2) t(4) by simp
    ultimately obtain u where u: "read_loop i (off + of_nat m) (n - m) ?t =
        Inr (map (file_byte ?t i) [?o + m..<?o + m + (n - m)], u)" "cache_idle u" "blk u = blk ?t" "same_meta ?t u"
      using less.IH [of "n - m" ?t "off + of_nat m"] m(1) False t(3) off' by auto
    have fb: "file_byte ?t i = file_byte s i" using t(4) same_meta_ino(1) [OF t(5)] by (simp add: fun_eq_iff file_byte_def)
    have "read_loop i off n s = Inr (slice (?o mod 512) m (blk s ?a) @ map (file_byte s i) [?o + m..<?o + n], u)"
      using False bmap_mapped [OF less.prems(3) lt] t(1,2) u(1) fb m(2) um
      by (subst read_loop.simps) (simp add: m_def [symmetric] Let_def)
    moreover have "slice (?o mod 512) m (blk s ?a) @ map (file_byte s i) [?o + m..<?o + n] = map (file_byte s i) [?o..<?o + n]"
      using read_chunk [OF less.prems(2) m(3), of i] m(2) upt_add_eq_append [of ?o "?o + m" "n - m"] by simp
    moreover have "same_meta s u" using bc.same_trans [OF t(5) u(4)] .
    ultimately show ?thesis using u(2,3) t(4) by simp
  qed
qed

section \<open>Writing\<close>

text \<open>The bytes of the file after \<open>buf\<close> was written at \<open>off\<close>.\<close>

definition overwritten :: "fs \<Rightarrow> nat \<Rightarrow> nat \<Rightarrow> u8 list \<Rightarrow> nat \<Rightarrow> u8" where
  "overwritten s i off buf k = (if off \<le> k \<and> k < off + length buf then buf ! (k - off) else file_byte s i k)"

lemma write_chunk:
  assumes "\<And>n. length (blk s n) = BSIZE" "mapped s i n" "off + m \<le> n" "m = length new" "0 < m" "m \<le> 512 - off mod 512"
    and a: "a = d_addrs (ino_d s i) ! (off div 512)" and t: "same_meta s t" "blk t = (blk s)(a := blit (off mod 512) new (blk s a))"
    and k: "k < n"
  shows "file_byte t i k = overwritten s i off new k"
proof (cases "k div 512 = off div 512")
  case True
  have le: "off mod 512 + length new \<le> length (blk s a)" using assms(1,4,6) by (simp add: le_diff_conv2 less_imp_le)
  have "file_byte t i k = blit (off mod 512) new (blk s a) ! (k mod 512)"
    using t True same_meta_ino(1) [OF t(1)] by (simp add: file_byte_def a)
  also have "\<dots> = (if off mod 512 \<le> k mod 512 \<and> k mod 512 < off mod 512 + length new then new ! (k mod 512 - off mod 512)
      else blk s a ! (k mod 512))"
    using blit_nth [OF le, of "k mod 512"] assms(1) by simp
  moreover have "k = off div 512 * 512 + k mod 512" "off = off div 512 * 512 + off mod 512"
    using True by (metis div_mult_mod_eq)+
  then have "off mod 512 \<le> k mod 512 \<longleftrightarrow> off \<le> k" "k mod 512 < off mod 512 + length new \<longleftrightarrow> k < off + length new"
    "k mod 512 - off mod 512 = k - off" by linarith+
  ultimately show ?thesis using True by (simp add: overwritten_def file_byte_def a)
next
  case False
  have off: "off < n" using assms(3,5) by simp
  then have "d_addrs (ino_d s i) ! (k div 512) \<noteq> a" using mapped_inj [OF assms(2) k off] False a by auto
  then have "file_byte t i k = file_byte s i k" using t same_meta_ino(1) [OF t(1)] by (simp add: file_byte_def)
  moreover have "\<not> (off \<le> k \<and> k < off + length new)"
  proof
    assume "off \<le> k \<and> k < off + length new"
    then have "k - off < 512 - off mod 512" "k = off + (k - off)" using assms(4,6) by linarith+
    then show False using chunk_div(1) [of "k - off" off] False by metis
  qed
  ultimately show ?thesis by (auto simp: overwritten_def)
qed

lemma overwritten_two:
  assumes "file_byte t i k = overwritten s i off (take m buf) k" "m \<le> length buf"
  shows "overwritten t i (off + m) (drop m buf) k = overwritten s i off buf k"
  using assms by (auto simp: overwritten_def)

lemma write_loop_ok:
  assumes "cache_idle s" "\<And>n. length (blk s n) = BSIZE" "mapped s i n" "unat off + length buf \<le> n"
  shows "\<exists>t. write_loop i off buf s = Inr (off + of_nat (length buf), t) \<and> cache_idle t \<and> same_meta s t \<and>
    (\<forall>n. length (blk t n) = BSIZE) \<and> (\<forall>k < n. file_byte t i k = overwritten s i (unat off) buf k) \<and>
    (\<forall>a. (\<forall>k < n. a \<noteq> d_addrs (ino_d s i) ! (k div BSIZE)) \<longrightarrow> blk t a = blk s a)"
  using assms
proof (induction "length buf" arbitrary: off s buf rule: less_induct)
  case less
  show ?case
  proof (cases "buf = []")
    case True
    then show ?thesis using less.prems by (subst write_loop.simps) (auto simp: same_meta_def overwritten_def)
  next
    case False
    let ?o = "unat off"
    define m where "m = min (length buf) (BSIZE - ?o mod 512)"
    have um: "unat (off mod 512) = ?o mod 512" "unat (off div 512) = ?o div 512" by (simp_all add: unat_mod unat_div)
    have m: "0 < m" "m \<le> length buf" "m \<le> 512 - ?o mod 512" using False by (simp_all add: m_def)
    have lim: "?o + length buf \<le> 6144" using less.prems(3,4) by (simp add: mapped_def)
    have lt: "?o < n" using False less.prems(4) by (cases buf) auto
    note md = mapped_div [OF less.prems(3) lt]
    let ?a = "d_addrs (ino_d s i) ! (?o div 512)"
    let ?new = "blit (?o mod 512) (take m buf) (blk s ?a)"
    obtain b t where t: "bcache_read (i_dev (icache s ! i)) ?a False s = Inr (b, t)" "b_cache (buffer t b) = blk s ?a"
      "\<And>bs. \<exists>u. bcache_write b False (set_cache b bs t) = Inr u \<and> cache_idle (bcache_release b u) \<and>
        blk (bcache_release b u) = (blk s)(?a := bs) \<and> same_meta s (bcache_release b u)"
      using bc.session [OF less.prems(1) md(3), of "i_dev (icache s ! i)" False] by blast
    obtain u where u: "bcache_write b False (set_cache b ?new t) = Inr u" "cache_idle (bcache_release b u)"
      "blk (bcache_release b u) = (blk s)(?a := ?new)" "same_meta s (bcache_release b u)"
      using t(3) by blast
    let ?u = "bcache_release b u"
    have off': "unat (off + of_nat m) = ?o + m" using lim m(2) by (simp add: unat_add32 unat_of_nat32)
    have lenu: "length (blk ?u k) = BSIZE" for k
      using less.prems(2) u(3) m(2,3) by (simp add: le_diff_conv2 less_imp_le)
    have fu: "file_byte ?u i k = overwritten s i ?o (take m buf) k" if "k < n" for k
      using write_chunk [OF less.prems(2,3) _ _ m(1,3) refl u(4,3) that] m(2) less.prems(4) by simp
    have short: "length (drop m buf) < length buf" using m(1,2) by simp
    have "mapped ?u i n" "unat (off + of_nat m) + length (drop m buf) \<le> n"
      using less.prems(3,4) same_meta_ino(3) [OF u(4)] off' m(2) by simp_all
    then obtain v where v: "write_loop i (off + of_nat m) (drop m buf) ?u =
        Inr (off + of_nat m + of_nat (length (drop m buf)), v)" "cache_idle v" "same_meta ?u v"
      "\<forall>n. length (blk v n) = BSIZE" "\<forall>k < n. file_byte v i k = overwritten ?u i (?o + m) (drop m buf) k"
      "\<forall>a. (\<forall>k < n. a \<noteq> d_addrs (ino_d ?u i) ! (k div BSIZE)) \<longrightarrow> blk v a = blk ?u a"
      using less.hyps [OF short u(2) lenu, of "off + of_nat m"] off' by auto
    have "write_loop i off buf s = Inr (off + of_nat (length buf), v)"
      using False bmap_mapped [OF less.prems(3) lt] t(1,2) u(1) v(1) um m(2)
      by (subst write_loop.simps) (simp add: m_def [symmetric] Let_def of_nat_diff)
    moreover have "file_byte v i k = overwritten s i ?o buf k" if "k < n" for k
      using v(5) that overwritten_two [OF fu [OF that] m(2)] by simp
    moreover have "blk v a = blk s a" if "\<forall>k < n. a \<noteq> d_addrs (ino_d s i) ! (k div BSIZE)" for a
      using v(6) that same_meta_ino(1) [OF u(4)] u(3) lt by auto
    moreover have "same_meta s v" using bc.same_trans [OF u(4) v(3)] .
    ultimately show ?thesis using v(2,4) by blast
  qed
qed

section \<open>Flushing and loading\<close>

definition ino_slot :: "fs \<Rightarrow> nat \<Rightarrow> nat" where
  "ino_slot s i = unat (i_inum (icache s ! i) mod inode_per_block) * DINODE_SZ"

lemma ino_slot_fits: "ino_slot s i + DINODE_SZ \<le> BSIZE"
proof -
  have "unat (i_inum (icache s ! i) mod 7) < 7" by (simp add: unat_mod)
  then show ?thesis unfolding ino_slot_def by linarith
qed

lemma flush_ok:
  assumes "open_file s i"
  shows "\<exists>t. inode_flush i s = Inr t \<and> cache_idle t \<and> same_meta s t \<and>
    blk t = (blk s)(ino_block s i := blit (ino_slot s i) (dinode_bytes (ino_d s i)) (blk s (ino_block s i))) \<and>
    (\<forall>n. length (blk t n) = BSIZE)"
proof -
  let ?a = "ino_block s i"
  have o: "cache_idle s" "blockno_ok ?a" "length (d_addrs (ino_d s i)) = NINOBLKS" "\<And>n. length (blk s n) = BSIZE"
    using assms by (simp_all add: open_file_def)
  let ?new = "blit (ino_slot s i) (dinode_bytes (ino_d s i)) (blk s ?a)"
  obtain b t where t: "bcache_read (i_dev (icache s ! i)) ?a False s = Inr (b, t)" "b_cache (buffer t b) = blk s ?a"
    "b_blockno (buffer t b) = ?a" "same_meta s t"
    "\<And>bs. \<exists>u. bcache_write b False (set_cache b bs t) = Inr u \<and> cache_idle (bcache_release b u) \<and>
      blk (bcache_release b u) = (blk s)(?a := bs) \<and> same_meta s (bcache_release b u)"
    using bc.session [OF o(1,2), of "i_dev (icache s ! i)" False] by blast
  obtain u where u: "bcache_write b False (set_cache b ?new t) = Inr u" "cache_idle (bcache_release b u)"
    "blk (bcache_release b u) = (blk s)(?a := ?new)" "same_meta s (bcache_release b u)"
    using t(5) by blast
  have "dinode_write i b t = (True, set_cache b ?new t)"
    using t(2-4) by (simp add: dinode_write_def ino_block_def inode_block_def ino_slot_def ino_d_def same_meta_def Let_def)
  then have "inode_flush i s = Inr (bcache_release b u)"
    using t(1) u(1) by (simp add: inode_flush_def ino_block_def)
  moreover have "length (blk (bcache_release b u) n) = BSIZE" for n
    using u(3) o(3,4) ino_slot_fits [of s i] by simp
  ultimately show ?thesis using u(2-4) by blast
qed

section \<open>The operations\<close>

lemma open_file_same:
  "open_file s i \<Longrightarrow> same_meta s t \<Longrightarrow> cache_idle t \<Longrightarrow> \<forall>n. length (blk t n) = BSIZE \<Longrightarrow> open_file t i"
  by (simp add: open_file_def same_meta_ino)

lemma file_bytes_nth: "k < unat (d_size (ino_d s i)) \<Longrightarrow> file_bytes s i ! k = file_byte s i k"
  by (simp add: file_bytes_def)

lemma file_bytes_length [simp]: "length (file_bytes s i) = unat (d_size (ino_d s i))"
  by (simp add: file_bytes_def)

lemma sint_small: "unat (x :: u32) < 2147483648 \<Longrightarrow> sint x = int (unat x)"
proof -
  assume a: "unat x < 2147483648"
  have u: "int (unat x) = uint x" by (rule uint_nat [symmetric])
  have lt: "uint x < 2147483648" using a u by linarith
  have "0 \<le> uint x" by simp
  then have ge: "- 2147483648 \<le> uint x" by linarith
  have p: "(2 :: int) ^ 31 = 2147483648" by simp
  have "signed_take_bit 31 (uint x) = uint x" by (rule signed_take_bit_int_eq_self) (use lt ge p in linarith)+
  moreover have "sint x = signed_take_bit 31 (uint x)" using sint_uint [of x] by simp
  ultimately show ?thesis using u by simp
qed

lemma read_ok:
  assumes "open_file s i" "off \<le> d_size (ino_d s i)" "mapped s i (unat (d_size (ino_d s i)))" "unat off + unat sz < 2 ^ 32"
  shows "\<exists>t. inode_read devices i off sz s =
      Inr (int (length (take (unat sz) (drop (unat off) (file_bytes s i)))), take (unat sz) (drop (unat off) (file_bytes s i)), t) \<and>
    open_file t i \<and> same_meta s t \<and> blk t = blk s"
proof -
  let ?d = "ino_d s i"
  have o: "cache_idle s" "i_read (icache s ! i)" "\<And>n. length (blk s n) = BSIZE" "d_type ?d \<in> {F_DIR, F_FILE}"
    using assms(1) by (simp_all add: open_file_def)
  have small: "unat (d_size ?d) \<le> 6144" using assms(3) by (simp add: mapped_def)
  have ole: "unat off \<le> unat (d_size ?d)" using assms(2) by (simp add: word_le_nat_alt)
  define n where "n = (if off + sz > d_size ?d then d_size ?d - off else sz)"
  have sum: "unat (off + sz) = unat off + unat sz" using assms(4) by (simp add: unat_add32)
  have n: "unat n = min (unat sz) (unat (d_size ?d) - unat off)"
    using sum ole unat_sub [OF assms(2)] by (auto simp: n_def word_less_nat_alt)
  have m: "mapped s i (unat off + unat n)"
  proof -
    have "unat off + unat n \<le> unat (d_size ?d)" using n ole by simp
    then show ?thesis using assms(3) unfolding mapped_def by (meson le_trans less_le_trans)
  qed
  obtain t where t: "read_loop i off (unat n) s = Inr (map (file_byte s i) [unat off..<unat off + unat n], t)"
    "cache_idle t" "blk t = blk s" "same_meta s t"
    using read_loop_ok [OF o(1,3) m] by blast
  have bytes: "map (file_byte s i) [unat off..<unat off + unat n] = take (unat sz) (drop (unat off) (file_bytes s i))"
    using n ole by (auto simp: file_bytes_def drop_map take_map min_def intro!: arg_cong [where f = "map (file_byte s i)"])
  have "\<not> - 1 - off < sz"
    using assms(4) unat_lt32 [of off] by (auto simp: word_less_nat_alt unat_sub [OF word_n1_ge])
  then have "inode_read devices i off sz s = rbind (read_loop i off (unat n) s) (\<lambda>(bs, s). Inr (sint n, bs, s))"
    using o(2,4) assms(2) unfolding n_def by (auto simp: inode_read_def ino_d_def Let_def not_less)
  moreover have "sint n = int (unat n)" using n small by (intro sint_small) auto
  moreover have "unat n = length (take (unat sz) (drop (unat off) (file_bytes s i)))" using n by simp
  ultimately have "inode_read devices i off sz s =
      Inr (int (length (take (unat sz) (drop (unat off) (file_bytes s i)))), take (unat sz) (drop (unat off) (file_bytes s i)), t)"
    using t(1) bytes by simp
  moreover have "open_file t i" using open_file_same [OF assms(1) t(4,2)] o(3) t(3) by simp
  ultimately show ?thesis using t(3,4) by blast
qed

text \<open>Changing the size alone.\<close>

definition resize :: "nat \<Rightarrow> u32 \<Rightarrow> fs \<Rightarrow> fs" where
  "resize i n s = upd_ino i (\<lambda>m. m\<lparr>i_d := (i_d m)\<lparr>d_size := n\<rparr>\<rparr>) s"

lemma resize_sel:
  assumes "i < length (icache s)"
  shows "ino_d (resize i n s) i = (ino_d s i)\<lparr>d_size := n\<rparr>" "ino_block (resize i n s) i = ino_block s i"
    "blk (resize i n s) = blk s" "file_byte (resize i n s) i = file_byte s i" "mapped (resize i n s) i m = mapped s i m"
    "open_file s i \<Longrightarrow> open_file (resize i n s) i"
  using assms
  by (simp_all add: resize_def upd_ino_def ino_d_def ino_block_def inode_block_def blk_def file_byte_def mapped_def
      open_file_def cache_idle_def fun_eq_iff Let_def)

lemma flush_file:
  assumes "open_file s i" "mapped s i n"
  shows "\<exists>t. inode_flush i s = Inr t \<and> open_file t i \<and> same_meta s t \<and> (\<forall>k < n. file_byte t i k = file_byte s i k) \<and>
    (\<forall>a. a \<noteq> ino_block s i \<longrightarrow> blk t a = blk s a)"
proof -
  obtain t where t: "inode_flush i s = Inr t" "cache_idle t" "same_meta s t"
    "blk t = (blk s)(ino_block s i := blit (ino_slot s i) (dinode_bytes (ino_d s i)) (blk s (ino_block s i)))"
    "\<forall>n. length (blk t n) = BSIZE"
    using flush_ok [OF assms(1)] by blast
  have "file_byte t i k = file_byte s i k" if "k < n" for k
    using mapped_div(4) [OF assms(2) that] t(4) same_meta_ino(1) [OF t(3)] by (simp add: file_byte_def)
  then show ?thesis using t open_file_same [OF assms(1) t(3,2,5)] by auto
qed

lemma overwritten_bytes:
  assumes "unat off \<le> unat (d_size (ino_d s i))" "unat (d_size (ino_d t i)) = max (unat (d_size (ino_d s i))) (unat off + length buf)"
    and "\<And>k. k < unat (d_size (ino_d t i)) \<Longrightarrow> file_byte t i k = overwritten s i (unat off) buf k"
  shows "file_bytes t i = take (unat off) (file_bytes s i) @ buf @ drop (unat off + length buf) (file_bytes s i)"
proof (rule nth_equalityI)
  show len: "length (file_bytes t i) =
      length (take (unat off) (file_bytes s i) @ buf @ drop (unat off + length buf) (file_bytes s i))"
    using assms(1,2) by simp
  fix k
  assume "k < length (file_bytes t i)"
  then have k: "k < unat (d_size (ino_d t i))" by simp
  then show "file_bytes t i ! k = (take (unat off) (file_bytes s i) @ buf @ drop (unat off + length buf) (file_bytes s i)) ! k"
    using assms by (auto simp: file_bytes_nth overwritten_def nth_append min_def less_max_iff_disj)
qed

lemma write_ok:
  assumes "open_file s i" "off \<le> d_size (ino_d s i)" "n = max (unat (d_size (ino_d s i))) (unat off + length buf)" "mapped s i n"
  shows "\<exists>t. inode_write devices i buf off s = Inr (int (length buf), t) \<and> open_file t i \<and> mapped t i n \<and>
    unat (d_size (ino_d t i)) = n \<and>
    file_bytes t i = take (unat off) (file_bytes s i) @ buf @ drop (unat off + length buf) (file_bytes s i) \<and>
    (\<forall>a. a \<noteq> ino_block s i \<and> (\<forall>k < n. a \<noteq> d_addrs (ino_d s i) ! (k div BSIZE)) \<longrightarrow> blk t a = blk s a)"
proof -
  let ?d = "ino_d s i"
  have o: "cache_idle s" "i_read (icache s ! i)" "\<And>n. length (blk s n) = BSIZE" "d_type ?d \<in> {F_DIR, F_FILE}" "i < length (icache s)"
    using assms(1) by (simp_all add: open_file_def)
  have small: "n \<le> 6144" using assms(4) by (simp add: mapped_def)
  have le: "unat off + length buf \<le> n" "unat (d_size ?d) \<le> n" using assms(3) by simp_all
  have len: "unat (of_nat (length buf) :: u32) = length buf" "unat (off + of_nat (length buf)) = unat off + length buf"
    using le small by (simp_all add: unat_add32 unat_of_nat32)
  have ole: "unat off \<le> unat (d_size ?d)" using assms(2) by (simp add: word_le_nat_alt)
  obtain u where u: "write_loop i off buf s = Inr (off + of_nat (length buf), u)" "cache_idle u" "same_meta s u"
    "\<forall>n. length (blk u n) = BSIZE" "\<forall>k < n. file_byte u i k = overwritten s i (unat off) buf k"
    "\<forall>a. (\<forall>k < n. a \<noteq> d_addrs ?d ! (k div BSIZE)) \<longrightarrow> blk u a = blk s a"
    using write_loop_ok [OF o(1,3) assms(4) le(1)] by blast
  have ou: "open_file u i" "ino_d u i = ?d" "mapped u i n" "ino_block u i = ino_block s i" "i < length (icache u)"
    using open_file_same [OF assms(1) u(3,2,4)] same_meta_ino [OF u(3)] assms(4) o(5) by simp_all
  have "\<not> - 1 - off < of_nat (length buf)"
    using len le small unat_lt32 [of off] by (auto simp: word_less_nat_alt unat_sub [OF word_n1_ge])
  moreover have "\<not> off + of_nat (length buf) > of_nat MAXFILE" using len le small by (simp add: word_less_nat_alt)
  moreover have "sint (of_nat (length buf) :: u32) = int (length buf)" using len(1) le small by (simp add: sint_small)
  ultimately have eq: "inode_write devices i buf off s =
      rbind (if off + of_nat (length buf) > d_size ?d then inode_flush i (resize i (off + of_nat (length buf)) u) else Inr u)
        (\<lambda>s. Inr (int (length buf), s))"
    using o(2,4) assms(2) u(1) ou(2) by (auto simp: inode_write_def ino_d_def Let_def not_less resize_def)
  show ?thesis
  proof (cases "off + of_nat (length buf) > d_size ?d")
    case True
    let ?v = "resize i (off + of_nat (length buf)) u"
    note r = resize_sel [OF ou(5), of "off + of_nat (length buf)"]
    have v: "open_file ?v i" "mapped ?v i n" "unat (d_size (ino_d ?v i)) = n"
      using r ou True len(2) assms(3) by (simp_all add: word_less_nat_alt)
    obtain t where t: "inode_flush i ?v = Inr t" "open_file t i" "same_meta ?v t" "\<forall>k < n. file_byte t i k = file_byte ?v i k"
      "\<forall>a. a \<noteq> ino_block ?v i \<longrightarrow> blk t a = blk ?v a"
      using flush_file [OF v(1,2)] by blast
    have "unat (d_size (ino_d t i)) = n" "mapped t i n" using same_meta_ino [OF t(3)] v by simp_all
    moreover from this have "file_bytes t i = take (unat off) (file_bytes s i) @ buf @ drop (unat off + length buf) (file_bytes s i)"
      using overwritten_bytes [OF ole, of t buf] assms(3) t(4) u(5) r(4) by simp
    moreover have "blk t a = blk s a" if "a \<noteq> ino_block s i" "\<forall>k < n. a \<noteq> d_addrs ?d ! (k div BSIZE)" for a
      using t(5) u(6) that r(2,3) ou(4) by simp
    ultimately show ?thesis using True eq t(1,2) by auto
  next
    case False
    then have "unat (d_size (ino_d u i)) = n" using ou(2) len(2) assms(3) by (simp add: word_less_nat_alt not_less max_def)
    moreover from this have "file_bytes u i = take (unat off) (file_bytes s i) @ buf @ drop (unat off + length buf) (file_bytes s i)"
      using overwritten_bytes [OF ole, of u buf] assms(3) u(5) by simp
    ultimately show ?thesis using False eq ou(1,3) u(6) by auto
  qed
qed

section \<open>Loading what was flushed\<close>

lemma load_ok:
  assumes "cache_idle s" "i < length (icache s)" "i_nref (icache s ! i) \<noteq> 0" "\<not> i_read (icache s ! i)"
    "blockno_ok (ino_block s i)" "blk s (ino_block s i) = bs" "d_type (bytes_dinode (slice (ino_slot s i) DINODE_SZ bs)) \<noteq> 0"
  shows "\<exists>t. inode_load i s = Inr (True, t) \<and> cache_idle t \<and> blk t = blk s \<and>
    ino_d t i = bytes_dinode (slice (ino_slot s i) DINODE_SZ bs) \<and> i_read (icache t ! i) \<and> super_block t = super_block s \<and>
    icache t = (icache s)[i := (icache s ! i)\<lparr>i_d := bytes_dinode (slice (ino_slot s i) DINODE_SZ bs), i_read := True\<rparr>]"
proof -
  let ?a = "ino_block s i" and ?d = "bytes_dinode (slice (ino_slot s i) DINODE_SZ bs)"
  obtain t where t: "bcache_read (i_dev (icache s ! i)) ?a False s = Inr (bhead s, t)" "cache_holds (i_dev (icache s ! i)) ?a (blk s ?a) t"
    "blk t = blk s" "same_meta s t"
    using idle_read [OF assms(1,5)] by blast
  let ?u = "upd_ino i (\<lambda>n. n\<lparr>i_d := ?d\<rparr>) t"
  have bt: "b_cache (buffer t (bhead s)) = bs \<and> b_blockno (buffer t (bhead s)) = ?a" "icache t = icache s"
    "super_block t = super_block s" "bhead t = bhead s"
    using bc.data_ok [OF t(2)] bc.same_cur [OF t(4)] assms(6) t(4) by (simp_all add: same_meta_def)
  then have rd: "dinode_read i (bhead s) t = (True, ?u)"
    by (simp add: dinode_read_def ino_block_def inode_block_def ino_slot_def Let_def)
  have "cache_holds (i_dev (icache s ! i)) ?a (blk s ?a) ?u" "bhead ?u = bhead s" "blk ?u = blk s" "i < length (icache ?u)"
    using t(2,3) bt assms(2) by (simp_all add: cache_holds_def upd_ino_def blk_def fun_eq_iff)
  moreover note rel = holds_release [OF this(1)]
  ultimately have r: "cache_idle (bcache_release (bhead s) ?u)" "blk (bcache_release (bhead s) ?u) = blk s"
    "icache (bcache_release (bhead s) ?u) = icache ?u" "super_block (bcache_release (bhead s) ?u) = super_block ?u"
    by (simp_all add: same_meta_def)
  let ?t = "upd_ino i (\<lambda>n. n\<lparr>i_read := True\<rparr>) (bcache_release (bhead s) ?u)"
  have d: "i_d (icache ?t ! i) = ?d" "i_read (icache ?t ! i)" using r(3) bt(2) assms(2) by (simp_all add: upd_ino_def)
  have "inode_load i s = Inr (True, ?t)"
    using assms(3,4,7) t(1) rd d by (simp add: inode_load_def ino_block_def Let_def)
  moreover have "cache_idle ?t" "blk ?t = blk s" using r by (simp_all add: upd_ino_def cache_idle_def blk_def fun_eq_iff)
  moreover have "super_block ?t = super_block s" "icache ?t = (icache s)[i := (icache s ! i)\<lparr>i_d := ?d, i_read := True\<rparr>]"
    using r(3,4) bt assms(2) by (simp_all add: upd_ino_def)
  ultimately show ?thesis using d by (auto simp: ino_d_def)
qed

section \<open>A concrete file\<close>

text \<open>A file of 600 bytes in blocks 30 and 31, its indirect block (all zero) being 256.\<close>

definition sample_inode :: inode where
  "sample_inode = \<lparr>i_dev = 1, i_inum = 2, i_nref = 1, i_lk = new_mutex, i_read = True,
     i_d = \<lparr>d_type = F_FILE, d_major = 0, d_minor = 0, d_nlink = 1, d_size = 600,
       d_addrs = [30, 31, 0, 0, 0, 0, 0, 0, 0, 0, 0, 0, 256]\<rparr>\<rparr>"

definition file_fs :: fs where
  "file_fs = sample_fs\<lparr>icache := [sample_inode]\<rparr>"

lemma file_fs_blk: "blk file_fs n = replicate BSIZE (ucast n)"
  using sample_fs_ok(3) [of n] by (simp add: blk_def file_fs_def)

lemma file_fs_d: "ino_d file_fs 0 = i_d sample_inode" "ino_block file_fs 0 = 1"
proof -
  have "(2 :: u32) div 7 = 0" by (simp add: word32_eq_iff unat_div)
  then show "ino_block file_fs 0 = 1"
    by (simp add: ino_block_def inode_block_def get_inode_block_def file_fs_def sample_inode_def sample_fs_def)
qed (simp add: ino_d_def file_fs_def)

lemma file_fs_open: "open_file file_fs 0"
proof -
  have "cache_idle file_fs" using sample_fs_ok(1) by (simp add: cache_idle_def file_fs_def)
  then show ?thesis
    unfolding open_file_def file_fs_d file_fs_blk
    by (simp add: blockno_ok_def) (simp add: file_fs_def sample_inode_def)
qed

lemma file_fs_mapped: "n \<le> 1024 \<Longrightarrow> mapped file_fs 0 n"
proof -
  assume n: "n \<le> 1024"
  have k: "k = 0 \<or> k = 1" if "k * 512 < n" for k :: nat using that n by linarith
  have "[30, 31, 0, 0, 0, 0, 0, 0, 0, 0, 0, 0, 256 :: u32] ! k \<in> {30, 31}" if "k * 512 < n" for k
    using k [OF that] by auto
  moreover have "[30, 31, 0, 0, 0, 0, 0, 0, 0, 0, 0, 0, 256 :: u32] ! k \<noteq> [30, 31, 0, 0, 0, 0, 0, 0, 0, 0, 0, 0, 256] ! l"
    if "k * 512 < n" "l * 512 < n" "k \<noteq> l" for k l
    using k [OF that(1)] k [OF that(2)] that(3) by auto
  ultimately show ?thesis
    unfolding mapped_def file_fs_d using n by (fastforce simp: sample_inode_def blockno_ok_def)
qed

lemma file_fs_wf_map: "wf_map file_fs"
  using sample_wf_map(1) file_fs_blk by (simp add: wf_map_def file_fs_def sample_fs_def)

section \<open>Properties\<close>

text \<open>C25: reading an open file or directory whose contents lie in direct blocks.  For an
  offset within the file \<open>inode_read\<close> returns exactly the bytes of the file from the offset
  on, at most as many as asked for and cut at the end of the file, and changes neither the
  disk nor the file; behind the end it returns -1.\<close>

theorem inode_read_refines:
  assumes "open_file s i" "mapped s i (unat (d_size (ino_d s i)))" "unat off + unat sz < 2 ^ 32"
  shows "if off \<le> d_size (ino_d s i)
    then \<exists>bs t. bs = take (unat sz) (drop (unat off) (file_bytes s i)) \<and>
      inode_read devices i off sz s = Inr (int (length bs), bs, t) \<and>
      open_file t i \<and> blk t = blk s \<and> file_bytes t i = file_bytes s i
    else inode_read devices i off sz s = Inr (- 1, [], s)"
proof (cases "off \<le> d_size (ino_d s i)")
  case True
  obtain t where "inode_read devices i off sz s =
      Inr (int (length (take (unat sz) (drop (unat off) (file_bytes s i)))), take (unat sz) (drop (unat off) (file_bytes s i)), t)"
    "open_file t i" "same_meta s t" "blk t = blk s"
    using read_ok [OF assms(1) True assms(2,3)] by blast
  moreover from this have "file_bytes t i = file_bytes s i"
    using same_meta_ino(1) [of s t i] by (simp add: file_bytes_def file_byte_def)
  ultimately show ?thesis using True by auto
next
  case False
  have "i_read (icache s ! i)" "d_type (ino_d s i) \<in> {F_DIR, F_FILE}" using assms(1) by (simp_all add: open_file_def)
  then show ?thesis using False by (auto simp: inode_read_def ino_d_def Let_def not_le)
qed

theorem inode_read_refines_witness:
  "\<exists>t. inode_read (\<lambda>_. None) 0 510 4 file_fs = Inr (4, [30, 30, 31, 31], t)"
proof -
  have "file_bytes file_fs 0 = replicate 512 30 @ replicate 88 31"
  proof (rule nth_equalityI)
    fix k
    assume "k < length (file_bytes file_fs 0)"
    then have k: "k < 600" by (simp add: file_fs_d sample_inode_def)
    then have "k div 512 = (if k < 512 then 0 else 1)" by auto
    then show "file_bytes file_fs 0 ! k = (replicate 512 30 @ replicate 88 31) ! k"
      using k by (simp add: file_bytes_def file_byte_def file_fs_d file_fs_blk sample_inode_def nth_append)
  qed (simp add: file_fs_d sample_inode_def)
  then have "take 4 (drop 510 (file_bytes file_fs 0)) = [30, 30, 31, 31]" by (simp add: numeral_eq_Suc)
  moreover have "mapped file_fs 0 (unat (d_size (ino_d file_fs 0)))"
    by (rule file_fs_mapped) (simp add: file_fs_d sample_inode_def)
  ultimately show ?thesis
    using inode_read_refines [OF file_fs_open, of 510 4 "\<lambda>_. None"] by (auto simp: file_fs_d sample_inode_def)
qed



text \<open>C27: what \<open>inode_flush\<close> writes is what \<open>inode_load\<close> reads: after a flush, an entry of
  the inode cache with the same inode number, not yet loaded and whatever it contains, is
  filled with the flushed inode, down to every block address; and the flush has changed no
  block but the inode's.\<close>

theorem inode_flush_load:
  assumes "open_file s i" "i_nref (icache s ! i) \<noteq> 0"
  shows "\<exists>t u. inode_flush i s = Inr t \<and> (\<forall>a. a \<noteq> ino_block s i \<longrightarrow> blk t a = blk s a) \<and>
    inode_load i (upd_ino i (\<lambda>n. n\<lparr>i_read := False, i_d := d\<rparr>) t) = Inr (True, u) \<and> ino_d u i = ino_d s i"
proof -
  let ?bs = "blit (ino_slot s i) (dinode_bytes (ino_d s i)) (blk s (ino_block s i))"
  obtain t where t: "inode_flush i s = Inr t" "cache_idle t" "same_meta s t" "blk t = (blk s)(ino_block s i := ?bs)"
    using flush_ok [OF assms(1)] by blast
  have o: "length (d_addrs (ino_d s i)) = NINOBLKS" "i < length (icache s)" "d_type (ino_d s i) \<noteq> 0" "blockno_ok (ino_block s i)"
    "length (blk s (ino_block s i)) = BSIZE" using assms(1) by (auto simp: open_file_def)
  have dec: "bytes_dinode (slice (ino_slot s i) DINODE_SZ ?bs) = ino_d s i"
    using slice_blit [of "ino_slot s i" "dinode_bytes (ino_d s i)" "blk s (ino_block s i)"] ino_slot_fits [of s i] o
      bytes_dinode_bytes [OF o(1), of "[]"] by simp
  let ?t = "upd_ino i (\<lambda>n. n\<lparr>i_read := False, i_d := d\<rparr>) t"
  have ic: "icache t = icache s" "super_block t = super_block s" using t(3) by (simp_all add: same_meta_def)
  have u: "cache_idle ?t" "i < length (icache ?t)" "i_nref (icache ?t ! i) \<noteq> 0" "\<not> i_read (icache ?t ! i)"
    "ino_block ?t i = ino_block s i" "ino_slot ?t i = ino_slot s i" "blk ?t = blk t"
    using t(2) ic o(2) assms(2)
    by (simp_all add: upd_ino_def cache_idle_def ino_block_def inode_block_def ino_slot_def blk_def fun_eq_iff)
  have "\<exists>u. inode_load i ?t = Inr (True, u) \<and> ino_d u i = ino_d s i"
    using load_ok [OF u(1-4), of ?bs] u(5-7) o(3,4) t(4) dec by auto
  then show ?thesis using t(1,4) by auto
qed

theorem inode_flush_load_witness:
  "\<exists>t u. inode_flush 0 file_fs = Inr t \<and>
    inode_load 0 (upd_ino 0 (\<lambda>n. n\<lparr>i_read := False, i_d := bytes_dinode []\<rparr>) t) = Inr (True, u) \<and> d_size (ino_d u 0) = 600"
proof -
  have "i_nref (icache file_fs ! 0) \<noteq> 0" by (simp add: file_fs_def sample_inode_def)
  then show ?thesis
    using inode_flush_load [OF file_fs_open, of "bytes_dinode []"] by (auto simp: file_fs_d sample_inode_def)
qed



end
