(* ===== verification/Dir.thy ===== *)
theory Dir
  imports File_Data Lib_String
begin

text \<open>
  kernel/fs/dir.c and \<open>fs_create\<close> of kernel/fs.c: directories and path names.  A directory
  is a file of entries of 28 bytes, an inode number and a name of 24.  Path names are C
  strings in the kernel's memory, and so are the local buffers of the functions; their
  addresses (\<open>loc\<close> and what follows it) and that of the literal \<open>"/"\<close> are arguments.
  \<open>dr\<close> and \<open>dw\<close> are the driver tables for \<open>inode_read\<close> and \<open>inode_write\<close>.
\<close>

section \<open>Entries\<close>

abbreviation (input) DIRNAMESZ :: u32 where "DIRNAMESZ \<equiv> 24"
abbreviation (input) DIRENT_SZ :: u32 where "DIRENT_SZ \<equiv> 28"
abbreviation (input) PATH_MAX :: u32 where "PATH_MAX \<equiv> 1024"

fun poke :: "mem \<Rightarrow> u32 \<Rightarrow> u8 list \<Rightarrow> mem" where
  "poke m a [] = m"
| "poke m a (b # bs) = poke (m(a := b)) (a + 1) bs"

definition peek :: "mem \<Rightarrow> u32 \<Rightarrow> nat \<Rightarrow> u8 list" where
  "peek m a n = map (\<lambda>k. m (a + of_nat k)) [0..<n]"

definition dir_init :: "fs \<Rightarrow> fs res" where
  "dir_init s = rbind (inode_getc ROOTDEV ROOTINO s) (\<lambda>(_, s). Inr s)"

definition dir_namecmp :: "mem \<Rightarrow> u32 \<Rightarrow> u32 \<Rightarrow> int" where
  "dir_namecmp m a b = strncmp m a b DIRNAMESZ"

text \<open>The local variable \<open>entry\<close> is at address \<open>e\<close>.  The loop of \<open>dir_lookup\<close> makes one round
  for each 28 bytes of the directory.\<close>

fun lookup_loop :: "nat \<Rightarrow> (nat \<Rightarrow> dev_read option) \<Rightarrow> u32 \<Rightarrow> nat \<Rightarrow> u32 \<Rightarrow> u32 \<Rightarrow> mem \<Rightarrow> fs \<Rightarrow>
    ((nat \<times> u32) option \<times> mem \<times> fs) res" where
  "lookup_loop 0 dr e dir name off m s =
     (if off < d_size (i_d (icache s ! dir)) then Inl Hang else Inr (None, m, s))"
| "lookup_loop (Suc n) dr e dir name off m s =
     (if off < d_size (i_d (icache s ! dir))
      then
        rbind (inode_read dr dir off DIRENT_SZ s) (\<lambda>(r, bs, s).
        let m = poke m e bs in
        if r \<noteq> 28 then Inl (Panic ''dir_lookup: invalid dir'')
        else if rd32 bs 0 = 0 then lookup_loop n dr e dir name (off + DIRENT_SZ) m s
        else if dir_namecmp m (e + 4) name = 0
        then rbind (inode_getc (i_dev (icache s ! dir)) (rd32 bs 0) s) (\<lambda>(i, s). Inr (Some (i, off), m, s))
        else lookup_loop n dr e dir name (off + DIRENT_SZ) m s)
      else Inr (None, m, s))"

definition entries_of :: "fs \<Rightarrow> nat \<Rightarrow> nat" where
  "entries_of s dir = unat (d_size (i_d (icache s ! dir))) div 28 + 1"

definition dir_lookup :: "(nat \<Rightarrow> dev_read option) \<Rightarrow> u32 \<Rightarrow> nat \<Rightarrow> u32 \<Rightarrow> mem \<Rightarrow> fs \<Rightarrow>
    ((nat \<times> u32) option \<times> mem \<times> fs) res" where
  "dir_lookup dr e dir name m s =
     (if d_type (i_d (icache s ! dir)) \<noteq> F_DIR then Inl (Panic ''dir_lookup, not a dir'')
      else lookup_loop (entries_of s dir) dr e dir name 0 m s)"

text \<open>The loop of \<open>dir_link\<close> that looks for an empty entry: its offset, or where the search ended.\<close>

fun empty_loop :: "nat \<Rightarrow> (nat \<Rightarrow> dev_read option) \<Rightarrow> u32 \<Rightarrow> nat \<Rightarrow> u32 \<Rightarrow> mem \<Rightarrow> fs \<Rightarrow> (bool \<times> u32 \<times> mem \<times> fs) res" where
  "empty_loop 0 dr e dir off m s =
     (if off < d_size (i_d (icache s ! dir)) then Inl Hang else Inr (False, off, m, s))"
| "empty_loop (Suc n) dr e dir off m s =
     (if off < d_size (i_d (icache s ! dir))
      then
        rbind (inode_read dr dir off DIRENT_SZ s) (\<lambda>(r, bs, s).
        let m = poke m e bs in
        if r \<noteq> 28 then Inl (Panic ''dir_link: invalid dir'')
        else if rd32 bs 0 = 0 then Inr (True, off, m, s)
        else empty_loop n dr e dir (off + DIRENT_SZ) m s)
      else Inr (False, off, m, s))"

text \<open>The argument \<open>new_entry\<close> is at address \<open>ne\<close>; \<open>e\<close> and \<open>e2\<close> are the local variables
  \<open>entry\<close> of \<open>dir_link\<close> and of \<open>dir_lookup\<close>.\<close>

definition dir_link :: "(nat \<Rightarrow> dev_read option) \<Rightarrow> (nat \<Rightarrow> dev_write option) \<Rightarrow> u32 \<Rightarrow> u32 \<Rightarrow> nat \<Rightarrow> u32 \<Rightarrow> mem \<Rightarrow> fs \<Rightarrow>
    (bool \<times> mem \<times> fs) res" where
  "dir_link dr dw e e2 dir ne m s =
     (if d_type (i_d (icache s ! dir)) \<noteq> F_DIR then Inl (Panic ''dir_link: not a dir'')
      else
        rbind (dir_lookup dr e2 dir (ne + 4) m s) (\<lambda>(r, m, s).
        if r \<noteq> None then Inr (False, m, s)
        else
          rbind (empty_loop (entries_of s dir) dr e dir 0 m s) (\<lambda>(found, off, m, s).
          rbind (if found then Inr s else inode_offmap dir (off + DIRENT_SZ) s) (\<lambda>s.
          rbind (inode_write dw dir (peek m ne 28) off s) (\<lambda>(r, s).
          if r \<noteq> 28 then Inl (Panic ''dir_link: write error'') else Inr (True, m, s))))))"

section \<open>Paths\<close>

text \<open>\<open>strtok_r\<close> and the other scans return when the string ends in the buffer they are given;
  a scan that does not end reads all of memory.\<close>

definition scanned :: "'a option \<Rightarrow> 'a res" where
  "scanned r = (case r of None \<Rightarrow> Inl OutOfBounds | Some x \<Rightarrow> Inr x)"

fun pathidx_loop :: "nat \<Rightarrow> int \<Rightarrow> int \<Rightarrow> bool \<Rightarrow> u32 \<Rightarrow> u32 \<Rightarrow> u32 \<Rightarrow> u32 \<Rightarrow> mem \<Rightarrow> (bool \<times> mem) res" where
  "pathidx_loop 0 i n neg slash tok saved part m = Inl OutOfBounds"
| "pathidx_loop (Suc f) i n neg slash tok saved part m =
     (if tok = 0 then Inr (False, m)
      else if i = n
      then
        let m = strncpy m part tok DIRNAMESZ in
        if neg then rbind (scanned (strrev m part)) (\<lambda>m. Inr (True, m)) else Inr (True, m)
      else rbind (scanned (strtok_r m 0 slash saved)) (\<lambda>(tok, saved, m).
           pathidx_loop f (i + 1) n neg slash tok saved part m))"

text \<open>\<open>dir_pathidx\<close> copies 24 bytes of the path to the buffer at \<open>loc\<close>, whether or not a NUL is
  among them; if none is, \<open>strtok_r\<close> runs off its end.  A string in the buffer has at most 24
  components.\<close>

definition dir_pathidx :: "u32 \<Rightarrow> u32 \<Rightarrow> u32 \<Rightarrow> int \<Rightarrow> u32 \<Rightarrow> mem \<Rightarrow> (bool \<times> mem) res" where
  "dir_pathidx slash loc path n part m =
     (let m = memmove m loc path DIRNAMESZ in
      if 0 \<notin> set (peek m loc 24) then Inl OutOfBounds
      else
        rbind (if n < 0 then scanned (strrev m loc) else Inr m) (\<lambda>m.
        rbind (scanned (strtok_r m loc slash 0)) (\<lambda>(tok, saved, m).
        pathidx_loop 26 1 \<bar>n\<bar> (n < 0) slash tok saved part m)))"

definition more_path :: "u32 \<Rightarrow> u32 \<Rightarrow> mem \<Rightarrow> bool res" where
  "more_path loc saved m = scanned (map_option (\<lambda>a. a \<noteq> 0) (strchr m loc saved 47))"

text \<open>The loop of \<open>dir_abspath\<close> never comes to a second round: the case \<open>F_DIR\<close> of the switch
  falls through to the next, and every branch returns or panics.\<close>

definition abspath_round :: "(nat \<Rightarrow> dev_read option) \<Rightarrow> u32 \<Rightarrow> bool \<Rightarrow> nat \<Rightarrow> u32 \<Rightarrow> u32 \<Rightarrow> mem \<Rightarrow> fs \<Rightarrow>
    (nat option \<times> mem \<times> fs) res" where
  "abspath_round dr loc par dir tok saved m s =
     (if tok = 0 then Inr (None, m, s)
      else
        rbind (if par then more_path loc saved m else Inr True) (\<lambda>more.
        if \<not> more then Inr (Some dir, m, inode_drop dir s)
        else
          rbind (dir_lookup dr (loc + 4) dir tok m s) (\<lambda>(r, m, s).
          case r of
            None \<Rightarrow> Inr (None, m, inode_drop dir s)
          | Some (ino, off) \<Rightarrow>
              rbind (inode_load ino s) (\<lambda>(_, s).
              let type = d_type (i_d (icache s ! ino)) in
              if type = F_DIR \<or> type = F_DEV \<or> type = F_FILE
              then
                rbind (more_path loc saved m) (\<lambda>more.
                if type = F_DIR \<and> \<not> more then Inr (Some ino, m, inode_drop ino s)
                else
                  let s = (if type = F_DIR then inode_drop dir s else s) in
                  if more then Inl (Panic ''dir_abspath: file is not the last path'')
                  else Inr (Some ino, m, inode_drop ino s))
              else Inl (Panic ''dir_abspath'')))))"

definition dir_abspath :: "(nat \<Rightarrow> dev_read option) \<Rightarrow> u32 \<Rightarrow> u32 \<Rightarrow> u32 \<Rightarrow> bool \<Rightarrow> mem \<Rightarrow> fs \<Rightarrow>
    (nat option \<times> mem \<times> fs) res" where
  "dir_abspath dr slash loc path par m s =
     (if path = 0 then Inr (None, m, s)
      else if m path \<noteq> 47 then Inr (None, m, s)
      else
        let m = strncpy m loc path (PATH_MAX - 1);
            m = m(loc + 1023 := 0)
        in
          rbind (inode_getc ROOTDEV ROOTINO s) (\<lambda>(dir, s).
          rbind (inode_load dir s) (\<lambda>(_, s).
          rbind (scanned (strtok_r m loc slash 0)) (\<lambda>(tok, saved, m).
          abspath_round dr (loc + 1024) par dir tok saved m s))))"

section \<open>Creating files\<close>

text \<open>A directory entry at address \<open>a\<close>, padded with zeros as a structure literal is.\<close>

definition put_entry :: "mem \<Rightarrow> u32 \<Rightarrow> u32 \<Rightarrow> u8 list \<Rightarrow> mem" where
  "put_entry m a inum name = poke m a (le32 inum @ name @ replicate (24 - length name) 0)"

text \<open>\<open>fs_create\<close>: \<open>loc\<close> is the local \<open>name\<close>, followed by \<open>entry\<close> and the frames of the callees.\<close>

definition fs_create :: "(nat \<Rightarrow> dev_read option) \<Rightarrow> (nat \<Rightarrow> dev_write option) \<Rightarrow> u32 \<Rightarrow> u32 \<Rightarrow> u32 \<Rightarrow> u32 \<Rightarrow> u16 \<Rightarrow> u16 \<Rightarrow> mem \<Rightarrow> fs \<Rightarrow>
    (nat option \<times> mem \<times> fs) res" where
  "fs_create dr dw slash loc path type major minor m s =
     rbind (dir_abspath dr slash (loc + 56) path True m s) (\<lambda>(d, m, s).
     case d of None \<Rightarrow> Inr (None, m, s)
     | Some dir \<Rightarrow>
       rbind (dir_pathidx slash (loc + 56) path (- 1) loc m) (\<lambda>(ok, m).
       if \<not> ok then Inr (None, m, s)
       else
         let dev = i_dev (icache s ! dir) in
         rbind (inode_load dir s) (\<lambda>(_, s).
         rbind (dir_lookup dr (loc + 56) dir loc m s) (\<lambda>(r, m, s).
         case r of
           Some (ino, _) \<Rightarrow> Inr (if d_type (i_d (icache s ! ino)) = type then Some ino else None, m, s)
         | None \<Rightarrow>
             rbind (inode_allocate dev type s) (\<lambda>(a, s).
             case a of None \<Rightarrow> Inl (Panic ''fs_create: alloc'')
             | Some ino \<Rightarrow>
               let s = upd_ino ino (\<lambda>n. n\<lparr>i_d := (i_d n)\<lparr>d_major := major, d_minor := minor, d_nlink := 1\<rparr>\<rparr>) s in
               rbind (inode_flush ino s) (\<lambda>s.
               rbind (if d_type (i_d (icache s ! ino)) = F_DIR
                      then
                        let s = upd_ino dir (\<lambda>n. n\<lparr>i_d := (i_d n)\<lparr>d_nlink := d_nlink (i_d n) + 1\<rparr>\<rparr>) s in
                        rbind (inode_flush ino s) (\<lambda>s.
                        let m = put_entry m (loc + 24) (i_inum (icache s ! ino)) [46] in
                        rbind (dir_link dr dw (loc + 56) (loc + 84) ino (loc + 24) m s) (\<lambda>(ok, m, s).
                        if \<not> ok then Inl (Panic ''fs_create: link .'')
                        else
                          let m = put_entry m (loc + 24) (i_inum (icache s ! dir)) [46, 46] in
                          rbind (dir_link dr dw (loc + 56) (loc + 84) ino (loc + 24) m s) (\<lambda>(ok, m, s).
                          if \<not> ok then Inl (Panic ''fs_create: link ..'') else Inr (m, s))))
                      else Inr (m, s)) (\<lambda>(m, s).
               let m = put_entry m (loc + 24) (i_inum (icache s ! ino)) [];
                   m = strncpy m (loc + 28) loc DIRNAMESZ
               in rbind (dir_link dr dw (loc + 56) (loc + 84) dir (loc + 24) m s) (\<lambda>(ok, m, s).
                  if \<not> ok then Inl (Panic ''fs_create: link '') else Inr (Some ino, m, s)))))))))"

text \<open>\<open>fs_init\<close>; \<open>ftable_init\<close> and \<open>inode_init\<close> only create spin locks.\<close>

definition fs_init :: "fs \<Rightarrow> fs res" where
  "fs_init s =
     rbind (disk_init (bcache_init s)) (\<lambda>s.
     rbind (block_super 0 True s) (\<lambda>(_, s).
     dir_init s))"

text \<open>\<open>fs_fdalloc\<close> on the open file table of the current process.\<close>

fun fdalloc_loop :: "nat list \<Rightarrow> nat \<Rightarrow> kstate \<Rightarrow> (int \<times> kstate) res" where
  "fdalloc_loop [] f k = Inr (- 1, k)"
| "fdalloc_loop (fd # fds) f k =
     rbind (this_proc k) (\<lambda>(p, k).
     case p of None \<Rightarrow> Inl OutOfBounds
     | Some i \<Rightarrow>
         if ofile (ptable k ! i) ! fd = None
         then rbind (this_proc k) (\<lambda>(p, k). Inr (int fd, upd_proc i (\<lambda>q. q\<lparr>ofile := (ofile q)[fd := Some f]\<rparr>) k))
         else fdalloc_loop fds f k)"

definition fs_fdalloc :: "nat \<Rightarrow> kstate \<Rightarrow> (int \<times> kstate) res" where
  "fs_fdalloc f k = fdalloc_loop [0..<NOFILE] f k"

end
