(* ===== verification/Pipe.thy ===== *)
theory Pipe
  imports Mutex
begin

text \<open>
  kernel/pipe.c: pipes.  A pipe is a structure in a page of its own; \<open>pipes\<close> maps the address
  of the page to the structure while it is allocated.  Bytes that \<open>pipe_read\<close> stores to its
  buffer are returned as a list, and those \<open>pipe_write\<close> takes from its buffer are given as
  one.  An operation that has to wait is translated up to the point where its caller is
  asleep (\<open>Asleep\<close>, with what is left to write); \<open>pipe_read\<close> and \<open>pipe_write_resume\<close> are
  what the caller does when it runs again.
\<close>

section \<open>Bounded byte queues\<close>

text \<open>The inner loop of \<open>pipe_read\<close> for any queue.\<close>

fun gets :: "('q \<Rightarrow> bool) \<Rightarrow> ('q \<Rightarrow> 'b \<times> 'q) \<Rightarrow> nat \<Rightarrow> 'q \<Rightarrow> 'b list \<times> 'q" where
  "gets isempty get 0 q = ([], q)"
| "gets isempty get (Suc n) q =
     (if isempty q then ([], q)
      else let (b, q) = get q; (bs, q) = gets isempty get n q in (b # bs, q))"

locale byte_queue =
  fixes ok :: "'q \<Rightarrow> bool" and view :: "'q \<Rightarrow> 'b list" and cap :: nat
    and put :: "'b \<Rightarrow> 'q \<Rightarrow> 'q" and get :: "'q \<Rightarrow> 'b \<times> 'q" and isempty :: "'q \<Rightarrow> bool" and isfull :: "'q \<Rightarrow> bool"
  assumes put_ok: "ok q \<Longrightarrow> \<not> isfull q \<Longrightarrow> ok (put b q)"
    and put_view: "ok q \<Longrightarrow> \<not> isfull q \<Longrightarrow> view (put b q) = view q @ [b]"
    and get_ok: "ok q \<Longrightarrow> \<not> isempty q \<Longrightarrow> ok (snd (get q))"
    and get_view: "ok q \<Longrightarrow> \<not> isempty q \<Longrightarrow> view q = fst (get q) # view (snd (get q))"
    and empty_iff: "ok q \<Longrightarrow> isempty q \<longleftrightarrow> view q = []"
    and full_iff: "ok q \<Longrightarrow> isfull q \<longleftrightarrow> length (view q) = cap"
    and bound: "ok q \<Longrightarrow> length (view q) \<le> cap"
begin

lemma puts_view:
  "ok q \<Longrightarrow> length (view q) + length bs \<le> cap \<Longrightarrow> ok (fold put bs q) \<and> view (fold put bs q) = view q @ bs"
proof (induction bs arbitrary: q)
  case (Cons b bs)
  have "\<not> isfull q" using full_iff [OF Cons.prems(1)] Cons.prems(2) by auto
  then show ?case
    using Cons.IH [of "put b q"] put_ok [OF Cons.prems(1), of b] put_view [OF Cons.prems(1), of b] Cons.prems(2) by simp
qed simp

lemma gets_view:
  "ok q \<Longrightarrow> ok (snd (gets isempty get n q)) \<and> fst (gets isempty get n q) = take n (view q) \<and>
     view (snd (gets isempty get n q)) = drop n (view q)"
proof (induction n arbitrary: q)
  case (Suc n)
  show ?case
  proof (cases "isempty q")
    case True
    then show ?thesis using empty_iff [OF Suc.prems] Suc.prems by simp
  next
    case False
    then show ?thesis
      using Suc.IH [OF get_ok [OF Suc.prems False]] get_view [OF Suc.prems False]
      by (auto simp: case_prod_unfold Let_def)
  qed
qed simp

text \<open>First in, first out.\<close>

lemma fifo:
  assumes "ok q" "length (view q) + length bs \<le> cap"
  shows "fst (gets isempty get (length (view q) + length bs) (fold put bs q)) = view q @ bs"
  using puts_view [OF assms] gets_view [of "fold put bs q" "length (view q) + length bs"] by simp

end

section \<open>Rings\<close>

text \<open>\<open>n\<close> entries of a ring of \<open>N\<close>, the oldest at counter \<open>r\<close>.  Counters run modulo \<open>2 ^ 32\<close>,
  which \<open>N\<close> has to divide.\<close>

definition ring_entries :: "nat \<Rightarrow> 'b list \<Rightarrow> nat \<Rightarrow> nat \<Rightarrow> 'b list" where
  "ring_entries N d r n = map (\<lambda>k. d ! ((r + k) mod N)) [0..<n]"

lemma ring_entries_0 [simp]: "ring_entries N d r 0 = []"
  by (simp add: ring_entries_def)

lemma length_ring_entries [simp]: "length (ring_entries N d r n) = n"
  by (simp add: ring_entries_def)

lemma counter_mod: "N dvd 4294967296 \<Longrightarrow> unat (a + b) mod N = (unat a + unat b) mod N" for a b :: u32
  by (simp add: unat_add32 mod_mod_cancel)

lemma ring_distinct: "k < n \<Longrightarrow> n < N \<Longrightarrow> (r + k) mod N \<noteq> (r + n) mod (N :: nat)"
proof
  assume k: "k < n" "n < N" and "(r + k) mod N = (r + n) mod N"
  then have "N dvd (r + n) - (r + k)" by (metis mod_eq_dvd_iff_nat less_imp_le add_left_mono)
  then show False using k by (auto dest: dvd_imp_le)
qed

lemma ring_entries_put:
  assumes "length d = N" "n < N" "w mod N = (r + n) mod N"
  shows "ring_entries N (d[w mod N := b]) r (Suc n) = ring_entries N d r n @ [b]"
proof -
  have "d[w mod N := b] ! ((r + k) mod N) = (if k = n then b else d ! ((r + k) mod N))" if "k \<le> n" for k
    using that assms ring_distinct [of k n N r] by (auto simp: nth_list_update)
  then show ?thesis by (simp add: ring_entries_def)
qed

lemma ring_entries_get:
  assumes "r' mod N = Suc r mod N"
  shows "ring_entries N d r (Suc n) = d ! (r mod N) # ring_entries N d r' n"
proof -
  have "(r' + k) mod N = (r + Suc k) mod N" for k
    using assms mod_add_left_eq [of r' N k] mod_add_left_eq [of "Suc r" N k] by simp
  then show ?thesis by (simp add: ring_entries_def upt_conv_Cons map_Suc_upt [symmetric] comp_def del: upt_Suc)
qed

text \<open>Entries between two counters.\<close>

lemma counter_gap:
  fixes w r :: u32
  assumes "N dvd 4294967296"
  shows "unat w mod N = (unat r + unat (w - r)) mod N"
  using counter_mod [OF assms, of r "w - r"] by simp

lemma counter_gap_get: "r \<noteq> w \<Longrightarrow> unat (w - r) = Suc (unat (w - (r + 1)))" for w r :: u32
  using unat_diff_Suc [of w r] by auto

lemma counter_gap_put: "unat (w - r) < 4294967295 \<Longrightarrow> unat (w + 1 - r) = Suc (unat (w - r))" for w r :: u32
  using unat_add32 [of "w - r" 1] by (simp add: algebra_simps)

section \<open>The ring buffer\<close>

record pipe =
  pdata :: "u8 list"
  plk :: spinlock
  nread :: u32
  nwritten :: u32
  isreadopen :: bool
  iswriteopen :: bool

abbreviation (input) PIPESZ :: nat where "PIPESZ \<equiv> 512"

definition pipe_empty :: "pipe \<Rightarrow> bool" where
  "pipe_empty p \<longleftrightarrow> nread p = nwritten p"

definition pipe_full :: "pipe \<Rightarrow> bool" where
  "pipe_full p \<longleftrightarrow> nwritten p = nread p + of_nat PIPESZ"

definition pipe_put :: "u8 \<Rightarrow> pipe \<Rightarrow> pipe" where
  "pipe_put b p = p\<lparr>pdata := (pdata p)[unat (nwritten p) mod PIPESZ := b], nwritten := nwritten p + 1\<rparr>"

definition pipe_get :: "pipe \<Rightarrow> u8 \<times> pipe" where
  "pipe_get p = (pdata p ! (unat (nread p) mod PIPESZ), p\<lparr>nread := nread p + 1\<rparr>)"

text \<open>What is in the pipe, oldest byte first.\<close>

definition pipe_len :: "pipe \<Rightarrow> nat" where
  "pipe_len p = unat (nwritten p - nread p)"

definition pipe_view :: "pipe \<Rightarrow> u8 list" where
  "pipe_view p = ring_entries PIPESZ (pdata p) (unat (nread p)) (pipe_len p)"

definition pipe_ok :: "pipe \<Rightarrow> bool" where
  "pipe_ok p \<longleftrightarrow> length (pdata p) = PIPESZ \<and> pipe_len p \<le> PIPESZ"

lemma pipe_len_view: "length (pipe_view p) = pipe_len p"
  by (simp add: pipe_view_def)

lemma pipe_empty_len: "pipe_empty p \<longleftrightarrow> pipe_len p = 0"
  by (auto simp: pipe_empty_def pipe_len_def unat_eq_0)

lemma pipe_full_len: "pipe_full p \<longleftrightarrow> pipe_len p = PIPESZ"
proof -
  have "pipe_full p \<longleftrightarrow> nwritten p - nread p = 512" by (auto simp: pipe_full_def algebra_simps)
  also have "\<dots> \<longleftrightarrow> pipe_len p = PIPESZ" by (simp add: pipe_len_def word32_eq_iff)
  finally show ?thesis .
qed

lemma pipe_len_get: "\<not> pipe_empty p \<Longrightarrow> pipe_len p = Suc (pipe_len (snd (pipe_get p)))"
  using counter_gap_get [of "nread p" "nwritten p"] by (simp add: pipe_len_def pipe_get_def pipe_empty_def)

lemma pipe_len_put: "pipe_ok p \<Longrightarrow> \<not> pipe_full p \<Longrightarrow> pipe_len (pipe_put b p) = Suc (pipe_len p)"
  using counter_gap_put [of "nwritten p" "nread p"] by (auto simp: pipe_len_def pipe_put_def pipe_ok_def)

interpretation pq: byte_queue pipe_ok pipe_view PIPESZ pipe_put pipe_get pipe_empty pipe_full
proof
  fix q b
  assume q: "pipe_ok q" "\<not> pipe_full q"
  show "pipe_ok (pipe_put b q)"
    using q pipe_len_put [OF q, of b] by (auto simp: pipe_ok_def pipe_full_len pipe_put_def)
  have n: "unat (nwritten q) mod 512 = (unat (nread q) + pipe_len q) mod 512"
    using counter_gap [of 512 "nwritten q" "nread q"] by (simp add: pipe_len_def)
  have l: "length (pdata q) = 512" "pipe_len q < 512" using q by (auto simp: pipe_ok_def pipe_full_len)
  show "pipe_view (pipe_put b q) = pipe_view q @ [b]"
    unfolding pipe_view_def pipe_len_put [OF q]
    using ring_entries_put [OF l n, of b] by (simp add: pipe_put_def)
next
  fix q
  assume q: "pipe_ok q" "\<not> pipe_empty q"
  show "pipe_ok (snd (pipe_get q))" using q(1) pipe_len_get [OF q(2)] by (auto simp: pipe_ok_def pipe_get_def)
  have "unat (nread q + 1) mod 512 = Suc (unat (nread q)) mod 512" using counter_mod [of 512 "nread q" 1] by simp
  from ring_entries_get [OF this, of "pdata q" "pipe_len (snd (pipe_get q))"]
  show "pipe_view q = fst (pipe_get q) # pipe_view (snd (pipe_get q))"
    unfolding pipe_view_def pipe_len_get [OF q(2)] by (simp add: pipe_get_def)
qed (auto simp: pipe_len_view pipe_empty_len pipe_full_len pipe_ok_def simp flip: length_0_conv)

section \<open>Operations\<close>

record pstate =
  kst :: kstate
  pipes :: "u32 \<Rightarrow> pipe option"

datatype outcome = Ret int "u8 list" | Asleep "u8 list" nat

definition on_kst :: "(kstate \<Rightarrow> kstate res) \<Rightarrow> pstate \<Rightarrow> pstate res" where
  "on_kst f s = rbind (f (kst s)) (\<lambda>k. Inr (s\<lparr>kst := k\<rparr>))"

definition on_pipe :: "u32 \<Rightarrow> (pipe \<Rightarrow> pipe) \<Rightarrow> pstate \<Rightarrow> pstate" where
  "on_pipe a f s = s\<lparr>pipes := (pipes s)(a := map_option f (pipes s a))\<rparr>"

definition lock_pipe :: "u32 \<Rightarrow> pstate \<Rightarrow> pstate res" where
  "lock_pipe a s =
     (case pipes s a of None \<Rightarrow> Inl OutOfBounds
      | Some p \<Rightarrow> rbind (lock (plk p) (the_cpu (kst s))) (\<lambda>(l, c).
          Inr (on_pipe a (\<lambda>p. p\<lparr>plk := l\<rparr>) (s\<lparr>kst := (kst s)\<lparr>the_cpu := c\<rparr>\<rparr>))))"

definition unlock_pipe :: "u32 \<Rightarrow> pstate \<Rightarrow> pstate res" where
  "unlock_pipe a s =
     (case pipes s a of None \<Rightarrow> Inl OutOfBounds
      | Some p \<Rightarrow> rbind (unlock (plk p) (the_cpu (kst s))) (\<lambda>(l, c).
          Inr (on_pipe a (\<lambda>p. p\<lparr>plk := l\<rparr>) (s\<lparr>kst := (kst s)\<lparr>the_cpu := c\<rparr>\<rparr>))))"

definition sleep_pipe :: "u32 \<Rightarrow> chan \<Rightarrow> pstate \<Rightarrow> pstate res" where
  "sleep_pipe a ch s =
     (case pipes s a of None \<Rightarrow> Inl OutOfBounds
      | Some p \<Rightarrow> rbind (sleep ch (plk p) (kst s)) (\<lambda>(l, k).
          Inr (on_pipe a (\<lambda>p. p\<lparr>plk := l\<rparr>) (s\<lparr>kst := k\<rparr>))))"

definition this_proc_killed :: "pstate \<Rightarrow> (bool \<times> pstate) res" where
  "this_proc_killed s =
     rbind (this_proc (kst s)) (\<lambda>(tp, k).
     case tp of None \<Rightarrow> Inl OutOfBounds | Some i \<Rightarrow> Inr (killed (ptable k ! i), s\<lparr>kst := k\<rparr>))"

text \<open>The fields \<open>nread\<close> and \<open>nwritten\<close> are at offsets 524 and 528 of the structure; their
  addresses are the sleep channels.\<close>

definition nread_chan :: "u32 \<Rightarrow> chan" where
  "nread_chan a = CObj (a + 524)"

definition nwritten_chan :: "u32 \<Rightarrow> chan" where
  "nwritten_chan a = CObj (a + 528)"

text \<open>From the first \<open>while\<close> of \<open>pipe_read\<close>, with the lock held.\<close>

definition pipe_read_locked :: "u32 \<Rightarrow> nat \<Rightarrow> pstate \<Rightarrow> (outcome \<times> pstate) res" where
  "pipe_read_locked a n s =
     (case pipes s a of None \<Rightarrow> Inl OutOfBounds
      | Some p \<Rightarrow>
          if pipe_empty p \<and> iswriteopen p
          then rbind (this_proc_killed s) (\<lambda>(k, s).
               if k then rbind (unlock_pipe a s) (\<lambda>s. Inr (Ret (- 1) [], s))
               else rbind (sleep_pipe a (nread_chan a) s) (\<lambda>s. Inr (Asleep [] 0, s)))
          else
            let (bs, p') = gets pipe_empty pipe_get n p;
                s = on_pipe a (\<lambda>_. p') s
            in rbind (on_kst (wakeup (nwritten_chan a)) s) (\<lambda>s.
               rbind (unlock_pipe a s) (\<lambda>s. Inr (Ret (int (length bs)) bs, s))))"

definition pipe_read_resume :: "u32 \<Rightarrow> nat \<Rightarrow> pstate \<Rightarrow> (outcome \<times> pstate) res" where
  "pipe_read_resume a n s = rbind (lock_pipe a s) (pipe_read_locked a n)"

definition kassert_order :: "u32 \<Rightarrow> pstate \<Rightarrow> unit res" where
  "kassert_order a s =
     (case pipes s a of None \<Rightarrow> Inl OutOfBounds
      | Some p \<Rightarrow> if nread p \<le> nwritten p then Inr () else Inl (Panic ''assert: pipe->nread <= pipe->nwritten''))"

definition pipe_read :: "u32 \<Rightarrow> nat \<Rightarrow> pstate \<Rightarrow> (outcome \<times> pstate) res" where
  "pipe_read a n s = rbind (kassert_order a s) (\<lambda>_. rbind (lock_pipe a s) (pipe_read_locked a n))"

text \<open>The loop of \<open>pipe_write\<close>, with the lock held: the bytes still to write and the number
  written.\<close>

fun pipe_write_locked :: "u32 \<Rightarrow> u8 list \<Rightarrow> nat \<Rightarrow> pstate \<Rightarrow> (outcome \<times> pstate) res" where
  "pipe_write_locked a [] w s =
     rbind (on_kst (wakeup (nread_chan a)) s) (\<lambda>s.
     rbind (unlock_pipe a s) (\<lambda>s. Inr (Ret (int w) [], s)))"
| "pipe_write_locked a (b # bs) w s =
     (case pipes s a of None \<Rightarrow> Inl OutOfBounds
      | Some p \<Rightarrow>
          if pipe_full p
          then
            rbind (if \<not> isreadopen p then Inr (True, s) else this_proc_killed s) (\<lambda>(q, s).
            if q then rbind (unlock_pipe a s) (\<lambda>s. Inr (Ret (- 1) [], s))
            else
              rbind (on_kst (wakeup (nread_chan a)) s) (\<lambda>s.
              rbind (sleep_pipe a (nwritten_chan a) s) (\<lambda>s. Inr (Asleep (b # bs) w, s))))
          else pipe_write_locked a bs (w + 1) (on_pipe a (pipe_put b) s))"

definition pipe_write_resume :: "u32 \<Rightarrow> u8 list \<Rightarrow> nat \<Rightarrow> pstate \<Rightarrow> (outcome \<times> pstate) res" where
  "pipe_write_resume a bs w s = rbind (lock_pipe a s) (pipe_write_locked a bs w)"

definition pipe_write :: "u32 \<Rightarrow> u8 list \<Rightarrow> pstate \<Rightarrow> (outcome \<times> pstate) res" where
  "pipe_write a bs s = rbind (kassert_order a s) (\<lambda>_. rbind (lock_pipe a s) (pipe_write_locked a bs 0))"

definition pipe_close :: "u32 \<Rightarrow> bool \<Rightarrow> pstate \<Rightarrow> pstate res" where
  "pipe_close a close_write_end s =
     rbind (lock_pipe a s) (\<lambda>s.
     rbind (if close_write_end
            then on_kst (wakeup (nread_chan a)) (on_pipe a (\<lambda>p. p\<lparr>iswriteopen := False\<rparr>) s)
            else on_kst (wakeup (nwritten_chan a)) (on_pipe a (\<lambda>p. p\<lparr>isreadopen := False\<rparr>) s)) (\<lambda>s.
     rbind (unlock_pipe a s) (\<lambda>s.
     case pipes s a of None \<Rightarrow> Inl OutOfBounds
     | Some p \<Rightarrow>
         if \<not> isreadopen p \<and> \<not> iswriteopen p
         then rbind (on_kst (on_mach (pfree a)) s) (\<lambda>s. Inr (s\<lparr>pipes := (pipes s)(a := None)\<rparr>))
         else Inr s)))"

section \<open>Blocking writes and reads\<close>

text \<open>The caller of an operation: a running process with no lock, and a pipe nobody has locked.\<close>

definition at_pipe :: "nat \<Rightarrow> u32 \<Rightarrow> pipe \<Rightarrow> pstate \<Rightarrow> bool" where
  "at_pipe i a p s \<longleftrightarrow>
     kinv (kst s) \<and> proc (the_cpu (kst s)) = Some i \<and> pipes s a = Some p \<and> plk p = new_lock \<and> pipe_ok p"

definition locked_pipe :: "nat \<Rightarrow> u32 \<Rightarrow> pipe \<Rightarrow> pstate \<Rightarrow> bool" where
  "locked_pipe i a p s \<longleftrightarrow> in_proc_at i 1 (kst s) \<and> pipes s a = Some p \<and> plk p = held_lock \<and> pipe_ok p"

lemma on_pipe_sel [simp]: "kst (on_pipe a f s) = kst s" "pipes (on_pipe a f s) = (pipes s)(a := map_option f (pipes s a))"
  by (simp_all add: on_pipe_def)

lemma pipe_lk_view [simp]:
  "pipe_view (p\<lparr>plk := l\<rparr>) = pipe_view p" "pipe_ok (p\<lparr>plk := l\<rparr>) = pipe_ok p" "pipe_empty (p\<lparr>plk := l\<rparr>) = pipe_empty p"
  by (simp_all add: pipe_view_def pipe_ok_def pipe_len_def pipe_empty_def)

lemma lock_pipe_ok:
  assumes "at_pipe i a p s"
  shows "\<exists>t. lock_pipe a s = Inr t \<and> locked_pipe i a (p\<lparr>plk := held_lock\<rparr>) t \<and> ptable (kst t) = ptable (kst s)"
proof -
  have k: "in_proc_at i 0 (kst s)" and p: "pipes s a = Some p" "plk p = new_lock" "pipe_ok p"
    using assms in_proc_at_kinv by (auto simp: at_pipe_def)
  show ?thesis
    using lock_nested [OF k, of new_lock] in_proc_at_pushed [OF k] p
    by (simp add: lock_pipe_def locked_pipe_def new_lock_def)
qed

lemma unlock_pipe_ok:
  assumes "locked_pipe i a p s"
  shows "\<exists>t. unlock_pipe a s = Inr t \<and> at_pipe i a (p\<lparr>plk := new_lock\<rparr>) t \<and> ptable (kst t) = ptable (kst s)"
proof -
  have k: "in_proc_at i 1 (kst s)" and p: "pipes s a = Some p" "plk p = held_lock" "pipe_ok p"
    using assms by (auto simp: locked_pipe_def)
  have "in_proc_at i 0 ((kst s)\<lparr>the_cpu := popped (the_cpu (kst s))\<rparr>)" using in_proc_at_popped [of i 0 "kst s"] k by simp
  then show ?thesis
    using unlock_nested [OF k] p in_proc_at_kinv [of i] by (simp add: unlock_pipe_def at_pipe_def)
qed

lemma wakeup_pipe_ok:
  assumes "locked_pipe i a p s"
  shows "\<exists>t. on_kst (wakeup ch) s = Inr t \<and> locked_pipe i a p t \<and> ptable (kst t) = map (woken ch) (ptable (kst s))"
proof -
  have k: "in_proc_at i 1 (kst s)" using assms by (simp add: locked_pipe_def)
  have "ptable (wakeup_unlocked ch (kst s)) = map (woken ch) (ptable (kst s))"
    by (auto simp: wakeup_unlocked_def woken_def)
  then show ?thesis
    using wakeup_nested [OF k, of ch] wakeup_in_proc_at [OF k, of ch] assms by (simp add: on_kst_def locked_pipe_def)
qed

lemma sleep_pipe_ok:
  assumes "locked_pipe i a p s"
  shows "\<exists>t. sleep_pipe a ch s = Inr t \<and> pipes t a = Some (p\<lparr>plk := new_lock\<rparr>) \<and> kinv (kst t) \<and> in_sched (kst t) \<and>
    state (ptable (kst t) ! i) = PROC_SLEEPING"
proof -
  have k: "in_proc_at i 1 (kst s)" and p: "pipes s a = Some p" "plk p = held_lock"
    using assms by (auto simp: locked_pipe_def)
  show ?thesis using sleep_nested [OF k, of ch] p by (auto simp: sleep_pipe_def)
qed

lemma killed_pipe:
  assumes "locked_pipe i a p s"
  shows "this_proc_killed s = Inr (killed (ptable (kst s) ! i), s)"
  using assms this_proc_nested [of i 1 "kst s"] by (simp add: locked_pipe_def this_proc_killed_def)

lemma put_lock_open [simp]:
  "plk (pipe_put b p) = plk p" "isreadopen (pipe_put b p) = isreadopen p" "iswriteopen (pipe_put b p) = iswriteopen p"
  by (simp_all add: pipe_put_def)

lemma locked_put:
  "locked_pipe i a p s \<Longrightarrow> \<not> pipe_full p \<Longrightarrow> locked_pipe i a (pipe_put b p) (on_pipe a (pipe_put b) s)"
  using pq.put_ok [of p b] by (simp add: locked_pipe_def)

text \<open>\<open>pipe_write\<close> with the lock held: it writes what fits; if that is not all, the caller
  is asleep with the rest.\<close>

lemma write_locked_fits:
  assumes "locked_pipe i a p s" "length (pipe_view p) + length bs \<le> PIPESZ"
  shows "\<exists>t q. pipe_write_locked a bs w s = Inr (Ret (int (w + length bs)) [], t) \<and> at_pipe i a q t \<and>
    pipe_view q = pipe_view p @ bs \<and> ptable (kst t) = map (woken (nread_chan a)) (ptable (kst s))"
  using assms
proof (induction bs arbitrary: w s p)
  case Nil
  then obtain t where t: "on_kst (wakeup (nread_chan a)) s = Inr t" "locked_pipe i a p t"
    "ptable (kst t) = map (woken (nread_chan a)) (ptable (kst s))"
    using wakeup_pipe_ok by blast
  then obtain u where "unlock_pipe a t = Inr u" "at_pipe i a (p\<lparr>plk := new_lock\<rparr>) u" "ptable (kst u) = ptable (kst t)"
    using unlock_pipe_ok by blast
  then show ?case using t by (intro exI [of _ u] exI [of _ "p\<lparr>plk := new_lock\<rparr>"]) simp
next
  case (Cons b bs)
  have p: "pipes s a = Some p" "pipe_ok p" using Cons.prems(1) by (auto simp: locked_pipe_def)
  have nf: "\<not> pipe_full p" using pq.full_iff [OF p(2)] Cons.prems(2) by simp
  have v: "pipe_view (pipe_put b p) = pipe_view p @ [b]" using pq.put_view [OF p(2) nf] .
  show ?case
    using Cons.IH [OF locked_put [OF Cons.prems(1) nf], of b "w + 1"] Cons.prems(2) p(1) nf v by simp
qed

lemma write_locked_full:
  assumes "locked_pipe i a p s" "PIPESZ < length (pipe_view p) + length bs" "isreadopen p"
    "\<not> killed (ptable (kst s) ! i)" "k = PIPESZ - length (pipe_view p)"
  shows "\<exists>t q. pipe_write_locked a bs w s = Inr (Asleep (drop k bs) (w + k), t) \<and> pipes t a = Some q \<and> plk q = new_lock \<and>
    pipe_ok q \<and> pipe_view q = pipe_view p @ take k bs \<and> kinv (kst t) \<and> in_sched (kst t) \<and>
    state (ptable (kst t) ! i) = PROC_SLEEPING"
  using assms
proof (induction bs arbitrary: w s p k)
  case Nil
  then show ?case using pq.bound [of p] by (simp add: locked_pipe_def)
next
  case (Cons b bs)
  have p: "pipes s a = Some p" "pipe_ok p" using Cons.prems(1) by (auto simp: locked_pipe_def)
  show ?case
  proof (cases "pipe_full p")
    case True
    then have k: "k = 0" using pq.full_iff [OF p(2)] Cons.prems(5) by simp
    obtain t where t: "on_kst (wakeup (nread_chan a)) s = Inr t" "locked_pipe i a p t"
      using wakeup_pipe_ok [OF Cons.prems(1)] by blast
    obtain u where "sleep_pipe a (nwritten_chan a) t = Inr u" "pipes u a = Some (p\<lparr>plk := new_lock\<rparr>)" "kinv (kst u)"
      "in_sched (kst u)" "state (ptable (kst u) ! i) = PROC_SLEEPING"
      using sleep_pipe_ok [OF t(2)] by blast
    then show ?thesis
      using True t(1) p Cons.prems(3,4) killed_pipe [OF Cons.prems(1)] k by simp
  next
    case False
    have v: "pipe_view (pipe_put b p) = pipe_view p @ [b]" using pq.put_view [OF p(2) False] .
    have "0 < k" using pq.full_iff [OF p(2)] pq.bound [OF p(2)] False Cons.prems(5) by simp
    then obtain m where m: "k = Suc m" by (cases k) auto
    have mm: "m = PIPESZ - length (pipe_view (pipe_put b p))" using v m Cons.prems(5) by simp
    have "PIPESZ < length (pipe_view (pipe_put b p)) + length bs" using v Cons.prems(2) by simp
    moreover have "isreadopen (pipe_put b p)" "\<not> killed (ptable (kst (on_pipe a (pipe_put b) s)) ! i)"
      using Cons.prems(3,4) by simp_all
    ultimately obtain t q where "pipe_write_locked a bs (w + 1) (on_pipe a (pipe_put b) s) =
        Inr (Asleep (drop m bs) (w + 1 + m), t)" "pipes t a = Some q" "plk q = new_lock" "pipe_ok q"
      "pipe_view q = pipe_view (pipe_put b p) @ take m bs" "kinv (kst t)" "in_sched (kst t)"
      "state (ptable (kst t) ! i) = PROC_SLEEPING"
      using Cons.IH [OF locked_put [OF Cons.prems(1) False] _ _ _ mm, of "w + 1"] by blast
    then show ?thesis using p(1) False v by (simp add: m)
  qed
qed

lemma read_locked_data:
  assumes "locked_pipe i a p s" "pipe_view p \<noteq> [] \<or> \<not> iswriteopen p"
  shows "\<exists>t q. pipe_read_locked a n s = Inr (Ret (int (min n (length (pipe_view p)))) (take n (pipe_view p)), t) \<and>
    at_pipe i a q t \<and> pipe_view q = drop n (pipe_view p) \<and>
    ptable (kst t) = map (woken (nwritten_chan a)) (ptable (kst s))"
proof -
  have p: "pipes s a = Some p" "pipe_ok p" using assms(1) by (auto simp: locked_pipe_def)
  let ?q = "snd (gets pipe_empty pipe_get n p)"
  note g = pq.gets_view [OF p(2), of n]
  have lk: "plk (snd (gets pipe_empty pipe_get n p')) = plk p'" for p'
    by (induction n arbitrary: p') (auto simp: case_prod_unfold Let_def pipe_get_def)
  have "locked_pipe i a ?q (on_pipe a (\<lambda>_. ?q) s)" using assms(1) g lk by (simp add: locked_pipe_def)
  then obtain t where t: "on_kst (wakeup (nwritten_chan a)) (on_pipe a (\<lambda>_. ?q) s) = Inr t" "locked_pipe i a ?q t"
    "ptable (kst t) = map (woken (nwritten_chan a)) (ptable (kst s))"
    using wakeup_pipe_ok by fastforce
  obtain u where u: "unlock_pipe a t = Inr u" "at_pipe i a (?q\<lparr>plk := new_lock\<rparr>) u" "ptable (kst u) = ptable (kst t)"
    using unlock_pipe_ok [OF t(2)] by blast
  have "\<not> (pipe_empty p \<and> iswriteopen p)" using assms(2) pq.empty_iff [OF p(2)] by blast
  then have "pipe_read_locked a n s = Inr (Ret (int (length (take n (pipe_view p)))) (take n (pipe_view p)), u)"
    using t(1) u(1) p(1) g by (auto simp: pipe_read_locked_def case_prod_unfold Let_def)
  then show ?thesis
    using u(2,3) t(3) g by (intro exI [of _ u] exI [of _ "?q\<lparr>plk := new_lock\<rparr>"]) (simp add: min.commute)
qed

lemma read_locked_empty:
  assumes "locked_pipe i a p s" "pipe_view p = []" "iswriteopen p" "\<not> killed (ptable (kst s) ! i)"
  shows "\<exists>t. pipe_read_locked a n s = Inr (Asleep [] 0, t) \<and> pipes t a = Some (p\<lparr>plk := new_lock\<rparr>) \<and>
    kinv (kst t) \<and> in_sched (kst t) \<and> state (ptable (kst t) ! i) = PROC_SLEEPING"
proof -
  have p: "pipes s a = Some p" "pipe_ok p" using assms(1) by (auto simp: locked_pipe_def)
  then have "pipe_empty p" using pq.empty_iff assms(2) by blast
  then show ?thesis
    using sleep_pipe_ok [OF assms(1), of "nread_chan a"] killed_pipe [OF assms(1)] p assms(3,4)
    by (auto simp: pipe_read_locked_def)
qed

section \<open>Properties\<close>

definition sample_pipe :: pipe where
  "sample_pipe = \<lparr>pdata = replicate PIPESZ 0, plk = new_lock, nread = 7, nwritten = 7, isreadopen = True, iswriteopen = True\<rparr>"

definition sample_pstate :: "pipe \<Rightarrow> pstate" where
  "sample_pstate p = \<lparr>kst = kstate_run, pipes = [0x80300000 \<mapsto> p]\<rparr>"

lemma sample_at_pipe: "plk p = new_lock \<Longrightarrow> pipe_ok p \<Longrightarrow> at_pipe 2 0x80300000 p (sample_pstate p)"
proof -
  have "proc (the_cpu kstate_run) = Some 2" by (simp add: sample_defs)
  then show "plk p = new_lock \<Longrightarrow> pipe_ok p \<Longrightarrow> at_pipe 2 0x80300000 p (sample_pstate p)"
    using kstate_run_kinv by (simp add: at_pipe_def sample_pstate_def)
qed

lemma sample_pipe_ok: "plk sample_pipe = new_lock" "pipe_ok sample_pipe" "pipe_view sample_pipe = []"
  by (simp_all add: sample_pipe_def pipe_ok_def pipe_view_def pipe_len_def)

text \<open>C19: \<open>pipe_write\<close> by a running process to a pipe with an open read end.  If everything
  fits, all of it is appended behind what the pipe holds, every reader asleep on the pipe is
  made ready and the number of bytes is returned.  Otherwise exactly the free space is
  filled, in order, and the caller is asleep with the remaining bytes still to write, the
  pipe unlocked and the kernel's invariant intact.\<close>

theorem pipe_write_appends:
  assumes "at_pipe i a p s" "nread p \<le> nwritten p" "isreadopen p" "\<not> killed (ptable (kst s) ! i)"
  shows "if length (pipe_view p) + length bs \<le> PIPESZ
    then \<exists>t q. pipe_write a bs s = Inr (Ret (int (length bs)) [], t) \<and> at_pipe i a q t \<and>
      pipe_view q = pipe_view p @ bs \<and> ptable (kst t) = map (woken (nread_chan a)) (ptable (kst s))
    else \<exists>t q k. k = PIPESZ - length (pipe_view p) \<and> pipe_write a bs s = Inr (Asleep (drop k bs) k, t) \<and>
      pipes t a = Some q \<and> plk q = new_lock \<and> pipe_view q = pipe_view p @ take k bs \<and>
      kinv (kst t) \<and> state (ptable (kst t) ! i) = PROC_SLEEPING"
proof -
  obtain u where u: "lock_pipe a s = Inr u" "locked_pipe i a (p\<lparr>plk := held_lock\<rparr>) u" "ptable (kst u) = ptable (kst s)"
    using lock_pipe_ok [OF assms(1)] by blast
  have "pipe_write a bs s = pipe_write_locked a bs 0 u"
    using assms(1,2) u(1) by (simp add: pipe_write_def kassert_order_def at_pipe_def)
  then show ?thesis
    using write_locked_fits [OF u(2), of bs 0] write_locked_full [OF u(2), of bs _ 0] u(3) assms(3,4)
    by (auto simp: not_le)
qed

theorem pipe_write_appends_witness:
  "\<exists>t q. pipe_write 0x80300000 [104, 105] (sample_pstate sample_pipe) = Inr (Ret 2 [], t) \<and>
     at_pipe 2 0x80300000 q t \<and> pipe_view q = [104, 105]"
proof -
  have "\<not> killed (ptable (kst (sample_pstate sample_pipe)) ! 2)"
    by (simp add: sample_pstate_def kstate_run_def sample_nth sample_process_def unused_process_def)
  then show ?thesis
    using pipe_write_appends [OF sample_at_pipe [OF sample_pipe_ok(1,2)], of "[104, 105]"] sample_pipe_ok(3)
    by (auto simp: sample_pipe_def)
qed

text \<open>C20: \<open>pipe_read\<close> by a running process returns the oldest bytes of the pipe, up to the
  number asked for, in the order they were written, takes exactly those out and makes every
  writer asleep on the pipe ready; with the write end closed and nothing left it returns 0.
  On an empty pipe that may still be written the caller is asleep and the pipe unchanged.\<close>

theorem pipe_read_takes:
  assumes "at_pipe i a p s" "nread p \<le> nwritten p" "\<not> killed (ptable (kst s) ! i)"
  shows "if pipe_view p \<noteq> [] \<or> \<not> iswriteopen p
    then \<exists>t q. pipe_read a n s = Inr (Ret (int (min n (length (pipe_view p)))) (take n (pipe_view p)), t) \<and>
      at_pipe i a q t \<and> pipe_view q = drop n (pipe_view p) \<and>
      ptable (kst t) = map (woken (nwritten_chan a)) (ptable (kst s))
    else \<exists>t. pipe_read a n s = Inr (Asleep [] 0, t) \<and> pipes t a = Some p \<and>
      kinv (kst t) \<and> state (ptable (kst t) ! i) = PROC_SLEEPING"
proof -
  obtain u where u: "lock_pipe a s = Inr u" "locked_pipe i a (p\<lparr>plk := held_lock\<rparr>) u" "ptable (kst u) = ptable (kst s)"
    using lock_pipe_ok [OF assms(1)] by blast
  have p: "p\<lparr>plk := new_lock\<rparr> = p" using assms(1) by (auto simp: at_pipe_def)
  have eq: "pipe_read a n s = pipe_read_locked a n u"
    using assms(1,2) u(1) by (simp add: pipe_read_def kassert_order_def at_pipe_def)
  show ?thesis
  proof (cases "pipe_view p \<noteq> [] \<or> \<not> iswriteopen p")
    case True
    then show ?thesis using read_locked_data [OF u(2), of n] eq u(3) by simp
  next
    case False
    then show ?thesis using read_locked_empty [OF u(2), of n] eq u(3) assms(3) p by auto
  qed
qed

theorem pipe_read_takes_witness:
  "\<exists>t. pipe_read 0x80300000 10 (sample_pstate (pipe_put 105 (pipe_put 104 sample_pipe))) = Inr (Ret 2 [104, 105], t)"
proof -
  let ?p = "pipe_put 105 (pipe_put 104 sample_pipe)"
  have p: "pipe_ok ?p \<and> pipe_view ?p = [104, 105]"
    using pq.puts_view [OF sample_pipe_ok(2), of "[104, 105]"] sample_pipe_ok(3) by simp
  have k: "\<not> killed (ptable (kst (sample_pstate ?p)) ! 2)"
    by (simp add: sample_pstate_def kstate_run_def sample_nth sample_process_def unused_process_def)
  have "at_pipe 2 0x80300000 ?p (sample_pstate ?p)"
    using sample_at_pipe [of ?p] p sample_pipe_ok(1) by simp
  then show ?thesis using pipe_read_takes [of 2 "0x80300000" ?p "sample_pstate ?p" 10] k p
    by (auto simp: sample_pipe_def pipe_put_def)
qed

text \<open>the counters of a pipe are 32 bits wide and the assertion at the head of
  \<open>pipe_read\<close> and \<open>pipe_write\<close> compares them as numbers.  The ring buffer itself survives
  their overflow (the byte below is appended correctly), but once the write counter has
  wrapped around and the read counter has not, the next call of either panics the kernel.\<close>

theorem pipe_counter_overflow_panics:
  assumes "at_pipe i a p s" "nwritten p = - 1" "\<not> pipe_full p"
  shows "pipe_view (pipe_put b p) = pipe_view p @ [b] \<and>
    pipe_read a n (on_pipe a (pipe_put b) s) = Inl (Panic ''assert: pipe->nread <= pipe->nwritten'')"
proof -
  have "pipe_ok p" using assms(1) by (simp add: at_pipe_def)
  then have "nread p \<noteq> 0" using assms(2) by (auto simp: pipe_ok_def pipe_len_def)
  then have "\<not> nread p \<le> nwritten p + 1" using assms(2) by simp
  then show ?thesis
    using assms pq.put_view [of p b] by (simp add: pipe_read_def kassert_order_def at_pipe_def pipe_put_def)
qed

definition worn_pipe :: pipe where
  "worn_pipe = sample_pipe\<lparr>nread := - 1, nwritten := - 1\<rparr>"

theorem pipe_counter_overflow_panics_witness:
  "pipe_read 0x80300000 1 (on_pipe 0x80300000 (pipe_put 9) (sample_pstate worn_pipe)) =
     Inl (Panic ''assert: pipe->nread <= pipe->nwritten'')"
proof -
  have "at_pipe 2 0x80300000 worn_pipe (sample_pstate worn_pipe)"
    by (rule sample_at_pipe) (simp_all add: worn_pipe_def sample_pipe_def pipe_ok_def pipe_len_def)
  then show ?thesis
    using pipe_counter_overflow_panics [of 2 "0x80300000" worn_pipe "sample_pstate worn_pipe" 9 1]
    by (auto simp: worn_pipe_def sample_pipe_def pipe_full_def)
qed

end
