(* ===== verification/Filesys.thy ===== *)
theory Filesys
  imports Dir Pipe
begin

text \<open>
  Open files: kernel/fs/file.c and \<open>pipe_allocate\<close> of kernel/pipe.c.  \<open>sys\<close> is the state the
  system calls work on: processes and pipes, the file system, the address \<open>frame\<close> of the local
  variables of the running call, the address of the literal \<open>"/"\<close>, and the value \<open>junk\<close> of what
  the code leaves uninitialised.  \<open>dr\<close> and \<open>dw\<close> are the device drivers.
\<close>

record sys =
  ps :: pstate
  fsys :: fs
  frame :: u32
  sym_slash :: u32
  junk :: u32

abbreviation (input) kern :: "sys \<Rightarrow> kstate" where "kern s \<equiv> kst (ps s)"

definition with_kern :: "kstate \<Rightarrow> sys \<Rightarrow> sys" where
  "with_kern k s = s\<lparr>ps := (ps s)\<lparr>kst := k\<rparr>\<rparr>"

definition upd_file :: "nat \<Rightarrow> (File \<Rightarrow> File) \<Rightarrow> sys \<Rightarrow> sys" where
  "upd_file fi f s = with_kern ((kern s)\<lparr>ftable := (ftable (kern s))[fi := f (ftable (kern s) ! fi)]\<rparr>) s"

definition the_file :: "nat \<Rightarrow> sys \<Rightarrow> File" where
  "the_file fi s = ftable (kern s) ! fi"

section \<open>Files\<close>

definition file_close :: "nat \<Rightarrow> sys \<Rightarrow> sys res" where
  "file_close fi s =
     (if f_nref (the_file fi s) < 1 then Inl (Panic ''file_close'')
      else
        let s = upd_file fi (\<lambda>f. f\<lparr>f_nref := f_nref f - 1\<rparr>) s in
        if f_nref (the_file fi s) > 0 then Inr s
        else
          let fcpy = the_file fi s;
              s = upd_file fi (\<lambda>f. f\<lparr>f_nref := 0, f_type := FD_NONE\<rparr>) s
          in
            case f_type fcpy of
              FD_INODE \<Rightarrow>
                (case f_ino fcpy of None \<Rightarrow> Inl OutOfBounds
                 | Some i \<Rightarrow> Inr (s\<lparr>fsys := inode_drop i (fsys s)\<rparr>))
            | _ \<Rightarrow> Inr s)"

definition file_read :: "(nat \<Rightarrow> dev_read option) \<Rightarrow> nat \<Rightarrow> int \<Rightarrow> sys \<Rightarrow> (outcome \<times> sys) res" where
  "file_read dr fi n s =
     (let f = the_file fi s in
      if \<not> f_readable f then Inr (Ret (- 1) [], s)
      else
        case f_type f of
          FD_NONE \<Rightarrow> Inl (Panic ''file read'')
        | FD_PIPE \<Rightarrow>
            rbind (pipe_read (f_pipe f) (unat (word_of_int n :: u32)) (ps s)) (\<lambda>(r, p). Inr (r, s\<lparr>ps := p\<rparr>))
        | FD_INODE \<Rightarrow>
            (case f_ino f of None \<Rightarrow> Inl OutOfBounds
             | Some i \<Rightarrow>
                 rbind (inode_read dr i (f_offset f) (word_of_int n) (fsys s)) (\<lambda>(rd, bs, fs').
                 let s = s\<lparr>fsys := fs'\<rparr>;
                     s = (if rd > 0 then upd_file fi (\<lambda>f. f\<lparr>f_offset := f_offset f + word_of_int rd\<rparr>) s else s)
                 in Inr (Ret rd bs, s))))"

text \<open>The bytes to write are given as a list, none when \<open>n\<close> is negative.  \<open>inode_write\<close> refuses a
  negative count, which is a huge unsigned one, for anything but a device.\<close>

definition inode_write_n :: "(nat \<Rightarrow> dev_write option) \<Rightarrow> nat \<Rightarrow> u8 list \<Rightarrow> int \<Rightarrow> u32 \<Rightarrow> fs \<Rightarrow> (int \<times> fs) res" where
  "inode_write_n dw i bs n offset s =
     (if 0 \<le> n then inode_write dw i bs offset s
      else
        rbind (if i_read (icache s ! i) then Inr s else rbind (inode_load i s) (\<lambda>(_, s). Inr s)) (\<lambda>s.
        if d_type (i_d (icache s ! i)) = F_DEV then inode_write dw i [] offset s else Inr (- 1, s)))"

definition file_write :: "(nat \<Rightarrow> dev_write option) \<Rightarrow> nat \<Rightarrow> u8 list \<Rightarrow> int \<Rightarrow> sys \<Rightarrow> (outcome \<times> sys) res" where
  "file_write dw fi bs n s =
     (let f = the_file fi s in
      if \<not> f_writable f then Inr (Ret (- 1) [], s)
      else
        case f_type f of
          FD_NONE \<Rightarrow> Inl (Panic ''file read'')
        | FD_PIPE \<Rightarrow> rbind (pipe_write (f_pipe f) bs (ps s)) (\<lambda>(r, p). Inr (r, s\<lparr>ps := p\<rparr>))
        | FD_INODE \<Rightarrow>
            (case f_ino f of None \<Rightarrow> Inl OutOfBounds
             | Some i \<Rightarrow>
                 rbind (inode_write_n dw i bs n (f_offset f) (fsys s)) (\<lambda>(wt, fs').
                 let s = s\<lparr>fsys := fs'\<rparr>;
                     s = (if wt \<noteq> 0 then upd_file fi (\<lambda>f. f\<lparr>f_offset := f_offset f + word_of_int wt\<rparr>) s else s)
                 in Inr (Ret wt [], s))))"

section \<open>Allocating a pipe\<close>

definition file_allocate_sys :: "sys \<Rightarrow> nat option \<times> sys" where
  "file_allocate_sys s = (let (f, k) = file_allocate (kern s) in (f, with_kern k s))"

definition palloc_sys :: "sys \<Rightarrow> u32 \<times> sys" where
  "palloc_sys s = (let (a, m) = palloc (mach (kern s)) in (a, with_kern ((kern s)\<lparr>mach := m\<rparr>) s))"

text \<open>The page is not cleared: what was in it becomes the contents of the ring.\<close>

definition new_pipe :: "u32 \<Rightarrow> sys \<Rightarrow> pipe" where
  "new_pipe a s = \<lparr>pdata = peek (ram (mach (kern s))) a PIPESZ, plk = new_lock, nread = 0, nwritten = 0,
     isreadopen = True, iswriteopen = True\<rparr>"

definition pipe_allocate :: "sys \<Rightarrow> ((nat \<times> nat) option \<times> sys) res" where
  "pipe_allocate s =
     (let (r, s) = file_allocate_sys s in
      case r of None \<Rightarrow> Inr (None, s)
      | Some r \<Rightarrow>
          let (w, s) = file_allocate_sys s in
          case w of None \<Rightarrow> rbind (file_close r s) (\<lambda>s. Inr (None, s))
          | Some w \<Rightarrow>
              let (a, s) = palloc_sys s in
              if a = 0
              then rbind (file_close r s) (\<lambda>s. rbind (file_close w s) (\<lambda>s. Inr (None, s)))
              else
                let s = s\<lparr>ps := (ps s)\<lparr>pipes := (pipes (ps s))(a \<mapsto> new_pipe a s)\<rparr>\<rparr>;
                    s = upd_file r (\<lambda>f. f\<lparr>f_type := FD_PIPE, f_readable := True, f_writable := False, f_pipe := a\<rparr>) s;
                    s = upd_file w (\<lambda>f. f\<lparr>f_type := FD_PIPE, f_readable := False, f_writable := True, f_pipe := a\<rparr>) s
                in Inr (Some (r, w), s))"

section \<open>Locking an inode\<close>

text \<open>\<open>inode_lock\<close> and \<open>inode_unlock\<close> of kernel/fs/inode.c; \<open>a\<close> is the address of the mutex.  A caller
  that has to wait is asleep and starts again when it runs.\<close>

definition with_ino_lk :: "nat \<Rightarrow> mutex \<Rightarrow> kstate \<Rightarrow> sys \<Rightarrow> sys" where
  "with_ino_lk i l k s = (with_kern k s)\<lparr>fsys := upd_ino i (\<lambda>n. n\<lparr>i_lk := l\<rparr>) (fsys s)\<rparr>"

definition inode_lock :: "u32 \<Rightarrow> nat \<Rightarrow> sys \<Rightarrow> (bool \<times> sys) res" where
  "inode_lock a i s =
     (if i_nref (icache (fsys s) ! i) = 0 then Inl (Panic ''inode_lock, inode is not used'')
      else
        rbind (lock_mutex a (i_lk (icache (fsys s) ! i)) (kern s)) (\<lambda>(got, l, k).
        let s = with_ino_lk i l k s in
        if \<not> got then Inr (False, s)
        else
          rbind (inode_load i (fsys s)) (\<lambda>(ok, f).
          let s = s\<lparr>fsys := f\<rparr> in
          if ok then Inr (True, s)
          else rbind (unlock_mutex a (i_lk (icache (fsys s) ! i)) (kern s)) (\<lambda>(l, k).
               Inr (True, with_ino_lk i l k s)))))"

definition inode_unlock :: "u32 \<Rightarrow> nat \<Rightarrow> sys \<Rightarrow> sys res" where
  "inode_unlock a i s =
     rbind (holding_mutex (i_lk (icache (fsys s) ! i)) (kern s)) (\<lambda>(h, l, k).
     let s = with_ino_lk i l k s in
     if \<not> h then Inl (Panic ''inode_unlock: mutex not locked'')
     else if i_nref (icache (fsys s) ! i) < 1 then Inl (Panic ''inode_unlock: inode is not being used'')
     else rbind (unlock_mutex a (i_lk (icache (fsys s) ! i)) (kern s)) (\<lambda>(l, k). Inr (with_ino_lk i l k s)))"

end
