(* ===== verification/Syscall.thy ===== *)
theory Syscall
  imports Filesys
begin

text \<open>
  kernel/sys/syscall.c without \<open>exec\<close>: the arguments of a system call are on the user's stack,
  and pointers among them are virtual addresses of the running process.  An access to an
  address that is not mapped is a page fault in the kernel, on which \<open>trap\<close> panics.  The
  buffer of a write is read when the call starts, that of a read is written when it is done.
\<close>

section \<open>User memory\<close>

definition cur_proc :: "sys \<Rightarrow> (nat \<times> sys) res" where
  "cur_proc s =
     rbind (this_proc (kern s)) (\<lambda>(p, k).
     case p of None \<Rightarrow> Inl OutOfBounds | Some i \<Rightarrow> Inr (i, with_kern k s))"

text \<open>Where the processor finds a virtual address: the kernel's addresses are mapped in every
  address space.\<close>

definition cur_pgdir :: "sys \<Rightarrow> u32" where
  "cur_pgdir s = (case proc (the_cpu (kern s)) of Some i \<Rightarrow> pgdir (ptable (kern s) ! i) | None \<Rightarrow> kpgdir (kern s))"

definition kaddr :: "sys \<Rightarrow> u32 \<Rightarrow> u32 option" where
  "kaddr s va =
     (if KERN_BASE \<le> va then Some va
      else map_option (\<lambda>pte. P2KA (pte_addr pte) + vaddr_offset va) (pte_at (ram (mach (kern s))) (cur_pgdir s) va))"

definition page_fault :: fault where
  "page_fault = Panic ''trap''"

definition mapped_bytes :: "sys \<Rightarrow> u32 \<Rightarrow> nat \<Rightarrow> bool" where
  "mapped_bytes s a n \<longleftrightarrow> list_all (\<lambda>k. kaddr s (a + of_nat k) \<noteq> None) [0..<n]"

definition vview :: "sys \<Rightarrow> mem" where
  "vview s va = (case kaddr s va of Some a \<Rightarrow> ram (mach (kern s)) a | None \<Rightarrow> 0)"

definition uread :: "sys \<Rightarrow> u32 \<Rightarrow> nat \<Rightarrow> u8 list res" where
  "uread s a n = (if mapped_bytes s a n then Inr (peek (vview s) a n) else Inl page_fault)"

definition with_ram :: "mem \<Rightarrow> sys \<Rightarrow> sys" where
  "with_ram m s = with_kern ((kern s)\<lparr>mach := (mach (kern s))\<lparr>ram := m\<rparr>\<rparr>) s"

fun uwrite :: "u32 \<Rightarrow> u8 list \<Rightarrow> sys \<Rightarrow> sys res" where
  "uwrite a [] s = Inr s"
| "uwrite a (b # bs) s =
     (case kaddr s a of None \<Rightarrow> Inl page_fault
      | Some ka \<Rightarrow> uwrite (a + 1) bs (with_ram ((ram (mach (kern s)))(ka := b)) s))"

text \<open>A C string of the user that the kernel is going to read to its end.\<close>

definition check_string :: "sys \<Rightarrow> u32 \<Rightarrow> unit res" where
  "check_string s a =
     (case strlen (vview s) a of None \<Rightarrow> Inl page_fault
      | Some n \<Rightarrow> if kaddr s (a + n) = None then Inl page_fault else Inr ())"

text \<open>What kernel code stored at kernel addresses while it worked on the view of a process.\<close>

definition commit :: "mem \<Rightarrow> sys \<Rightarrow> sys" where
  "commit m s = with_ram (\<lambda>a. if KERN_BASE \<le> a then m a else ram (mach (kern s)) a) s"

section \<open>Arguments\<close>

text \<open>\<open>esp\<close> is at offset 68 of the trap frame, \<open>eax\<close> at 28.\<close>

definition getarg :: "u32 \<Rightarrow> sys \<Rightarrow> (u32 \<times> sys) res" where
  "getarg n s =
     rbind (cur_proc s) (\<lambda>(i, s).
     let esp = load32 (ram (mach (kern s))) (trapframe (ptable (kern s) ! i) + 68)
     in Inr (esp + 4 + 4 * n, s))"

definition getptr :: "u32 \<Rightarrow> sys \<Rightarrow> (u32 \<times> sys) res" where
  "getptr n s =
     rbind (getarg n s) (\<lambda>(a, s).
     rbind (uread s a 4) (\<lambda>bs. Inr (rd32 bs 0, s)))"

definition getint :: "u32 \<Rightarrow> sys \<Rightarrow> (int \<times> sys) res" where
  "getint n s = rbind (getptr n s) (\<lambda>(v, s). Inr (sint v, s))"

definition getchr :: "u32 \<Rightarrow> sys \<Rightarrow> (u8 \<times> sys) res" where
  "getchr n s =
     rbind (getarg n s) (\<lambda>(a, s).
     rbind (uread s a 1) (\<lambda>bs. Inr (hd bs, s)))"

definition getfile :: "u32 \<Rightarrow> sys \<Rightarrow> (nat option \<times> sys) res" where
  "getfile n s =
     rbind (getint n s) (\<lambda>(fd, s).
     if fd < 0 then Inr (None, s)
     else if fd \<ge> int NOFILE then Inr (None, s)
     else rbind (cur_proc s) (\<lambda>(i, s). Inr (ofile (ptable (kern s) ! i) ! nat fd, s)))"

section \<open>Calls of the process layer\<close>

text \<open>A call returns a value, has put its caller to sleep, or has ended it.\<close>

datatype sysret = Val int | Blocked | Gone

definition on_kern :: "(kstate \<Rightarrow> kstate res) \<Rightarrow> sys \<Rightarrow> sys res" where
  "on_kern f s = rbind (f (kern s)) (\<lambda>k. Inr (with_kern k s))"

definition sys_fork :: "sys \<Rightarrow> (sysret \<times> sys) res" where
  "sys_fork s = rbind (fork (kern s)) (\<lambda>(r, k). Inr (Val r, with_kern k s))"

definition sys_exit :: "sys \<Rightarrow> (sysret \<times> sys) res" where
  "sys_exit s = rbind (on_kern exit_proc s) (\<lambda>s. Inr (Gone, s))"

text \<open>When growing fails, \<open>sys_sbrk\<close> ends without a \<open>return\<close>.\<close>

definition sys_sbrk :: "sys \<Rightarrow> (sysret \<times> sys) res" where
  "sys_sbrk s =
     rbind (getint 0 s) (\<lambda>(brk, s).
     rbind (cur_proc s) (\<lambda>(i, s).
     let addr = sint (psize (ptable (kern s) ! i)) in
     rbind (grow_process brk (kern s)) (\<lambda>(r, k).
     let s = with_kern k s in
     Inr (Val (if r = 0 then addr else sint (junk s)), s))))"

definition sys_getpid :: "sys \<Rightarrow> (sysret \<times> sys) res" where
  "sys_getpid s = rbind (cur_proc s) (\<lambda>(i, s). Inr (Val (sint (pid (ptable (kern s) ! i))), s))"

definition sys_wait :: "sys \<Rightarrow> (sysret \<times> sys) res" where
  "sys_wait s =
     rbind (wait (kern s)) (\<lambda>(r, k).
     Inr (case r of Some v \<Rightarrow> Val v | None \<Rightarrow> Blocked, with_kern k s))"

section \<open>Calls on open files\<close>

text \<open>What was read is stored to the user's buffer.\<close>

definition deliver :: "u32 \<Rightarrow> outcome \<Rightarrow> sys \<Rightarrow> (sysret \<times> sys) res" where
  "deliver buf r s =
     (case r of
        Ret v bs \<Rightarrow> rbind (uwrite buf bs s) (\<lambda>s. Inr (Val v, s))
      | Asleep bs _ \<Rightarrow> rbind (uwrite buf bs s) (\<lambda>s. Inr (Blocked, s)))"

definition sys_read :: "(nat \<Rightarrow> dev_read option) \<Rightarrow> sys \<Rightarrow> (sysret \<times> sys) res" where
  "sys_read dr s =
     rbind (getfile 0 s) (\<lambda>(f, s).
     rbind (getptr 1 s) (\<lambda>(buf, s).
     rbind (getint 2 s) (\<lambda>(sz, s).
     case f of None \<Rightarrow> Inr (Val (- 1), s)
     | Some fi \<Rightarrow>
         if buf = 0 then Inr (Val (- 1), s)
         else rbind (file_read dr fi sz s) (\<lambda>(r, s). deliver buf r s))))"

definition sys_write :: "(nat \<Rightarrow> dev_write option) \<Rightarrow> sys \<Rightarrow> (sysret \<times> sys) res" where
  "sys_write dw s =
     rbind (getfile 0 s) (\<lambda>(f, s).
     rbind (getptr 1 s) (\<lambda>(buf, s).
     rbind (getint 2 s) (\<lambda>(sz, s).
     case f of None \<Rightarrow> Inr (Val (- 1), s)
     | Some fi \<Rightarrow>
         if buf = 0 then Inr (Val (- 1), s)
         else
           let f = the_file fi s;
               count = (if \<not> f_writable f then 0 else if f_type f = FD_PIPE then unat (word_of_int sz :: u32) else nat sz)
           in
           rbind (uread s buf count) (\<lambda>bs.
           rbind (file_write dw fi bs sz s) (\<lambda>(r, s).
           case r of Ret v _ \<Rightarrow> Inr (Val v, s) | Asleep _ _ \<Rightarrow> Inr (Blocked, s))))))"

definition sys_close :: "sys \<Rightarrow> (sysret \<times> sys) res" where
  "sys_close s =
     rbind (getfile 0 s) (\<lambda>(f, s).
     case f of None \<Rightarrow> Inr (Val (- 1), s)
     | Some fi \<Rightarrow> rbind (file_close fi s) (\<lambda>s. Inr (Val 0, s)))"

definition sys_dup :: "sys \<Rightarrow> (sysret \<times> sys) res" where
  "sys_dup s =
     rbind (getfile 0 s) (\<lambda>(f, s).
     case f of None \<Rightarrow> Inr (Val (- 1), s)
     | Some fi \<Rightarrow>
         rbind (fs_fdalloc fi (kern s)) (\<lambda>(fd, k).
         let s = with_kern k s in
         if fd = - 1 then Inr (Val (- 1), s)
         else rbind (on_kern (file_dup fi) s) (\<lambda>s. Inr (Val fd, s))))"

text \<open>\<open>this_proc()->file[fd] = 0\<close>; the descriptor -1 is outside of the table.\<close>

definition clear_fd :: "int \<Rightarrow> sys \<Rightarrow> sys res" where
  "clear_fd fd s =
     rbind (cur_proc s) (\<lambda>(i, s).
     if 0 \<le> fd \<and> fd < int NOFILE
     then Inr (with_kern (upd_proc i (\<lambda>p. p\<lparr>ofile := (ofile p)[nat fd := None]\<rparr>) (kern s)) s)
     else Inl OutOfBounds)"

definition sys_pipe :: "sys \<Rightarrow> (sysret \<times> sys) res" where
  "sys_pipe s =
     rbind (getptr 0 s) (\<lambda>(fds, s).
     rbind (pipe_allocate s) (\<lambda>(rw, s).
     case rw of None \<Rightarrow> Inr (Val (- 1), s)
     | Some (r, w) \<Rightarrow>
         rbind (fs_fdalloc r (kern s)) (\<lambda>(fdr, k).
         rbind (fs_fdalloc w k) (\<lambda>(fdw, k).
         let s = with_kern k s;
             failed = (fdr = - 1 \<or> fdw = - 1)
         in
           rbind (if fdr = - 1 then file_close r s else Inr s) (\<lambda>s.
           rbind (if fdw = - 1 then file_close w s else Inr s) (\<lambda>s.
           rbind (if fdr \<noteq> 0 \<and> failed then clear_fd fdr s else Inr s) (\<lambda>s.
           rbind (if fdw \<noteq> 0 \<and> failed then clear_fd fdw s else Inr s) (\<lambda>s.
           if failed then Inr (Val (- 1), s)
           else
             rbind (uwrite fds (le32 (word_of_int fdr)) s) (\<lambda>s.
             rbind (uwrite (fds + 4) (le32 (word_of_int fdw)) s) (\<lambda>s.
             Inr (Val 0, s))))))))))) "

section \<open>Calls on paths\<close>

definition lookup_path :: "(nat \<Rightarrow> dev_read option) \<Rightarrow> u32 \<Rightarrow> bool \<Rightarrow> sys \<Rightarrow> (nat option \<times> sys) res" where
  "lookup_path dr path par s =
     rbind (if path = 0 then Inr () else check_string s path) (\<lambda>_.
     rbind (dir_abspath dr (sym_slash s) (frame s) path par (vview s) (fsys s)) (\<lambda>(r, m, f).
     Inr (r, (commit m s)\<lparr>fsys := f\<rparr>)))"

text \<open>\<open>dir_pathidx\<close> reads 24 bytes of the path.\<close>

definition create_path :: "(nat \<Rightarrow> dev_read option) \<Rightarrow> (nat \<Rightarrow> dev_write option) \<Rightarrow> u32 \<Rightarrow> u32 \<Rightarrow> u16 \<Rightarrow> u16 \<Rightarrow> sys \<Rightarrow>
    (nat option \<times> sys) res" where
  "create_path dr dw path type major minor s =
     rbind (if path = 0 then Inr () else check_string s path) (\<lambda>_.
     if path \<noteq> 0 \<and> \<not> mapped_bytes s path 24 then Inl page_fault
     else
       rbind (fs_create dr dw (sym_slash s) (frame s) path type major minor (vview s) (fsys s)) (\<lambda>(r, m, f).
       Inr (r, (commit m s)\<lparr>fsys := f\<rparr>)))"

definition drop_ino :: "nat \<Rightarrow> sys \<Rightarrow> sys" where
  "drop_ino i s = s\<lparr>fsys := inode_drop i (fsys s)\<rparr>"

definition sys_mknod :: "(nat \<Rightarrow> dev_read option) \<Rightarrow> (nat \<Rightarrow> dev_write option) \<Rightarrow> sys \<Rightarrow> (sysret \<times> sys) res" where
  "sys_mknod dr dw s =
     rbind (getptr 0 s) (\<lambda>(path, s).
     rbind (getptr 1 s) (\<lambda>(major, s).
     rbind (getptr 2 s) (\<lambda>(minor, s).
     rbind (create_path dr dw path F_DEV (ucast major) (ucast minor) s) (\<lambda>(r, s).
     case r of None \<Rightarrow> Inr (Val (- 1), s) | Some i \<Rightarrow> Inr (Val 0, drop_ino i s)))))"

definition sys_mkdir :: "(nat \<Rightarrow> dev_read option) \<Rightarrow> (nat \<Rightarrow> dev_write option) \<Rightarrow> sys \<Rightarrow> (sysret \<times> sys) res" where
  "sys_mkdir dr dw s =
     rbind (getptr 0 s) (\<lambda>(path, s).
     rbind (create_path dr dw path F_DIR 0 0 s) (\<lambda>(r, s).
     case r of None \<Rightarrow> Inr (Val (- 1), s) | Some i \<Rightarrow> Inr (Val 0, drop_ino i s)))"

abbreviation (input) O_RDONLY :: u32 where "O_RDONLY \<equiv> 0"
abbreviation (input) O_WRONLY :: u32 where "O_WRONLY \<equiv> 1"
abbreviation (input) O_RDWR :: u32 where "O_RDWR \<equiv> 2"
abbreviation (input) O_CREAT :: u32 where "O_CREAT \<equiv> 0x200"

text \<open>The inode to open; \<open>None\<close> is the return of -1.\<close>

definition open_inode :: "(nat \<Rightarrow> dev_read option) \<Rightarrow> (nat \<Rightarrow> dev_write option) \<Rightarrow> u32 \<Rightarrow> u32 \<Rightarrow> sys \<Rightarrow> (nat option \<times> sys) res" where
  "open_inode dr dw path mode s =
     (if mode AND O_CREAT \<noteq> 0 then create_path dr dw path F_FILE 0 0 s
      else
        rbind (lookup_path dr path False s) (\<lambda>(r, s).
        case r of None \<Rightarrow> Inr (None, s)
        | Some i \<Rightarrow>
            rbind (if i_read (icache (fsys s) ! i) then Inr (fsys s)
                   else rbind (inode_load i (fsys s)) (\<lambda>(_, f). Inr f)) (\<lambda>f.
            let s = s\<lparr>fsys := f\<rparr> in
            if d_type (i_d (icache f ! i)) = F_DIR \<and> mode = O_RDONLY then Inr (None, drop_ino i s)
            else Inr (Some i, s))))"

definition sys_open :: "(nat \<Rightarrow> dev_read option) \<Rightarrow> (nat \<Rightarrow> dev_write option) \<Rightarrow> sys \<Rightarrow> (sysret \<times> sys) res" where
  "sys_open dr dw s =
     rbind (getptr 0 s) (\<lambda>(path, s).
     rbind (getptr 1 s) (\<lambda>(mode, s).
     rbind (open_inode dr dw path mode s) (\<lambda>(r, s).
     case r of None \<Rightarrow> Inr (Val (- 1), s)
     | Some i \<Rightarrow>
         let (f, s) = file_allocate_sys s in
         case f of None \<Rightarrow> Inr (Val (- 1), drop_ino i s)
         | Some fi \<Rightarrow>
             rbind (fs_fdalloc fi (kern s)) (\<lambda>(fd, k).
             let s = with_kern k s in
             if fd = - 1 then rbind (file_close fi s) (\<lambda>s. Inr (Val (- 1), drop_ino i s))
             else
               Inr (Val fd, upd_file fi (\<lambda>f. f\<lparr>f_type := FD_INODE, f_ino := Some i, f_offset := 0,
                 f_readable := (mode AND O_WRONLY = 0),
                 f_writable := (mode AND O_WRONLY \<noteq> 0 \<or> mode AND O_RDWR \<noteq> 0)\<rparr>) s)))))"

text \<open>\<open>sys_link\<close>; the entry to add is a local variable.\<close>

definition nlink_add :: "u16 \<Rightarrow> nat \<Rightarrow> sys \<Rightarrow> sys res" where
  "nlink_add d i s =
     rbind (inode_flush i (upd_ino i (\<lambda>n. n\<lparr>i_d := (i_d n)\<lparr>d_nlink := d_nlink (i_d n) + d\<rparr>\<rparr>) (fsys s))) (\<lambda>f.
     Inr (s\<lparr>fsys := f\<rparr>))"

definition link_entry :: "(nat \<Rightarrow> dev_read option) \<Rightarrow> (nat \<Rightarrow> dev_write option) \<Rightarrow> nat \<Rightarrow> nat \<Rightarrow> u32 \<Rightarrow> sys \<Rightarrow> (bool \<times> sys) res" where
  "link_entry dr dw dir i new s =
     (let m = poke (vview s) (frame s) (le32 (i_inum (icache (fsys s) ! i)));
          m = strncpy m (frame s + 4) new DIRNAMESZ
      in rbind (dir_link dr dw (frame s + 32) (frame s + 60) dir (frame s) m (fsys s)) (\<lambda>(ok, m, f).
         Inr (ok, (commit m s)\<lparr>fsys := f\<rparr>)))"

definition sys_link :: "(nat \<Rightarrow> dev_read option) \<Rightarrow> (nat \<Rightarrow> dev_write option) \<Rightarrow> sys \<Rightarrow> (sysret \<times> sys) res" where
  "sys_link dr dw s =
     rbind (getptr 0 s) (\<lambda>(old, s).
     rbind (getptr 1 s) (\<lambda>(new, s).
     if old = 0 \<or> new = 0 then Inr (Val (- 1), s)
     else
       rbind (lookup_path dr old False s) (\<lambda>(r, s).
       case r of None \<Rightarrow> Inr (Val (- 1), s)
       | Some i \<Rightarrow>
           if d_type (i_d (icache (fsys s) ! i)) = F_DIR then Inr (Val (- 1), s)
           else
             rbind (nlink_add 1 i s) (\<lambda>s.
             rbind (lookup_path dr new True s) (\<lambda>(d, s).
             rbind (case d of None \<Rightarrow> Inr (None, s)
                    | Some dir \<Rightarrow>
                        if i_dev (icache (fsys s) ! dir) \<noteq> i_dev (icache (fsys s) ! i) then Inr (None, s)
                        else rbind (link_entry dr dw dir i new s) (\<lambda>(ok, s). Inr (if ok then Some dir else None, s))) (\<lambda>(d, s).
             case d of
               Some dir \<Rightarrow> Inr (Val 0, drop_ino dir s)
             | None \<Rightarrow> rbind (nlink_add (- 1) i s) (\<lambda>s. Inr (Val (- 1), s))))))))"

definition sys_unlink :: "sys \<Rightarrow> (sysret \<times> sys) res" where
  "sys_unlink s = Inr (Val (- 1), s)"

section \<open>Dispatch\<close>

text \<open>\<open>exec\<close> (kernel/exec.c) is an argument here: path and \<open>argv\<close>.\<close>

type_synonym exec_fun = "u32 \<Rightarrow> u32 \<Rightarrow> sys \<Rightarrow> (int \<times> sys) res"

definition sys_exec :: "exec_fun \<Rightarrow> sys \<Rightarrow> (sysret \<times> sys) res" where
  "sys_exec exec s =
     rbind (getptr 0 s) (\<lambda>(path, s).
     rbind (getptr 1 s) (\<lambda>(argv, s).
     if path = 0 then Inr (Val (- 1), s)
     else if argv = 0 then Inr (Val (- 1), s)
     else rbind (exec path argv s) (\<lambda>(r, s). Inr (Val r, s))))"

definition system_calls :: "exec_fun \<Rightarrow> (nat \<Rightarrow> dev_read option) \<Rightarrow> (nat \<Rightarrow> dev_write option) \<Rightarrow>
    (nat \<times> (sys \<Rightarrow> (sysret \<times> sys) res)) list" where
  "system_calls exec dr dw =
     [(1, sys_fork), (2, sys_exit), (3, sys_exec exec), (4, sys_getpid), (5, sys_sbrk), (6, sys_write dw),
      (7, sys_read dr), (8, sys_mknod dr dw), (9, sys_mkdir dr dw), (10, sys_open dr dw), (11, sys_close),
      (12, sys_link dr dw), (13, sys_unlink), (14, sys_dup), (15, sys_wait), (16, sys_pipe)]"

definition set_eax :: "nat \<Rightarrow> u32 \<Rightarrow> sys \<Rightarrow> sys" where
  "set_eax i v s = with_ram (store32 (ram (mach (kern s))) (trapframe (ptable (kern s) ! i) + 28) v) s"

text \<open>A call that blocks stores its result when it is resumed and returns.\<close>

definition syscall :: "exec_fun \<Rightarrow> (nat \<Rightarrow> dev_read option) \<Rightarrow> (nat \<Rightarrow> dev_write option) \<Rightarrow> sys \<Rightarrow> (sysret \<times> sys) res" where
  "syscall exec dr dw s =
     rbind (this_proc (kern s)) (\<lambda>(p, k).
     let s = with_kern k s in
     case p of None \<Rightarrow> Inl (Panic ''syscall: invalid process'')
     | Some i \<Rightarrow>
         let n = unat (load32 (ram (mach k)) (trapframe (ptable k ! i) + 28)) in
         case map_of (system_calls exec dr dw) n of
           None \<Rightarrow> Inr (Val (- 1), set_eax i (- 1) s)
         | Some call \<Rightarrow>
             rbind (call s) (\<lambda>(r, s).
             case r of
               Val v \<Rightarrow> Inr (r, set_eax i (word_of_int v) s)
             | _ \<Rightarrow> Inr (r, s)))"

section \<open>Descriptors\<close>

lemma with_kern_sel [simp]: "kern (with_kern k s) = k" "fsys (with_kern k s) = fsys s" "pipes (ps (with_kern k s)) = pipes (ps s)"
  by (simp_all add: with_kern_def)

lemma cur_proc_eq:
  assumes "wf_cpu (the_cpu (kern s))" "proc (the_cpu (kern s)) = Some i"
  shows "cur_proc s = Inr (i, with_kern ((kern s)\<lparr>the_cpu := popped (pushed (the_cpu (kern s)))\<rparr>) s)"
  using this_proc_eq [OF assms(1)] assms(2) by (simp add: cur_proc_def)

lemma rd32_peek: "rd32 (peek m a 4) 0 = load32 m a"
  by (simp add: rd32_def peek_def load32_def numeral_eq_Suc)

lemma kaddr_cpu [simp]:
  "proc c = proc (the_cpu (kern s)) \<Longrightarrow> kaddr (with_kern ((kern s)\<lparr>the_cpu := c\<rparr>) s) = kaddr s"
  by (simp add: kaddr_def cur_pgdir_def fun_eq_iff split: option.split)

text \<open>An argument is the word at its place of the user's stack, when the stack is mapped.\<close>

lemma getptr_eq:
  assumes "wf_cpu (the_cpu (kern s))" "proc (the_cpu (kern s)) = Some i"
    "a = load32 (ram (mach (kern s))) (trapframe (ptable (kern s) ! i) + 68) + 4 + 4 * n" "mapped_bytes s a 4"
  shows "getptr n s = Inr (load32 (vview s) a, with_kern ((kern s)\<lparr>the_cpu := popped (pushed (the_cpu (kern s)))\<rparr>) s)"
proof -
  let ?s = "with_kern ((kern s)\<lparr>the_cpu := popped (pushed (the_cpu (kern s)))\<rparr>) s"
  have k: "kaddr ?s = kaddr s" by (rule kaddr_cpu) (simp add: popped_def pushed_def)
  have "vview ?s = vview s" by (simp add: vview_def k fun_eq_iff split: option.split)
  moreover have "mapped_bytes ?s a 4" using assms(4) by (simp add: mapped_bytes_def k)
  ultimately show ?thesis
    using cur_proc_eq [OF assms(1,2)] assms(3) by (simp add: getptr_def getarg_def uread_def rd32_peek)
qed

lemma the_file_upd: "fi < length (ftable (kern s)) \<Longrightarrow> the_file fi (upd_file fi f s) = f (the_file fi s)"
  by (simp add: the_file_def upd_file_def)

lemma upd_file_sel [simp]:
  "ptable (kern (upd_file fi f s)) = ptable (kern s)" "length (ftable (kern (upd_file fi f s))) = length (ftable (kern s))"
  by (simp_all add: upd_file_def)

lemma file_close_last:
  assumes "fi < length (ftable (kern s))" "f_nref (the_file fi s) = 1" "f_type (the_file fi s) = FD_INODE \<longrightarrow> f_ino (the_file fi s) \<noteq> None"
  shows "\<exists>t. file_close fi s = Inr t \<and> f_nref (the_file fi t) = 0 \<and> f_type (the_file fi t) = FD_NONE \<and>
    f_readable (the_file fi t) = f_readable (the_file fi s) \<and> f_writable (the_file fi t) = f_writable (the_file fi s) \<and>
    ptable (kern t) = ptable (kern s)"
proof -
  let ?u = "upd_file fi (\<lambda>f. f\<lparr>f_nref := f_nref f - 1\<rparr>) s"
  let ?t = "upd_file fi (\<lambda>f. f\<lparr>f_nref := 0, f_type := FD_NONE\<rparr>) ?u"
  have u: "the_file fi ?u = (the_file fi s)\<lparr>f_nref := 0\<rparr>" using the_file_upd [OF assms(1)] assms(2) by simp
  have t: "the_file fi ?t = (the_file fi s)\<lparr>f_nref := 0, f_type := FD_NONE\<rparr>"
    using the_file_upd [of fi ?u] assms(1) u by simp
  have d: "the_file fi (?t\<lparr>fsys := x\<rparr>) = the_file fi ?t" for x by (simp add: the_file_def)
  show ?thesis
    using assms(2,3) u t d by (cases "f_type (the_file fi s)") (auto simp: file_close_def Let_def)
qed

text \<open>C36: A closed descriptor stays in the table.  When \<open>sys_close\<close> drops the last reference, it succeeds
  and leaves the descriptors of every process as they were, so the descriptor still leads to
  the file; a read from it, a write to it and a second close are then kernel panics.\<close>
theorem close_keeps_descriptor:
  assumes "getfile 0 s = Inr (Some fi, s1)" "fi < length (ftable (kern s1))" "f_nref (the_file fi s1) = 1"
    "f_type (the_file fi s1) = FD_INODE \<longrightarrow> f_ino (the_file fi s1) \<noteq> None"
  shows "\<exists>t. sys_close s = Inr (Val 0, t) \<and> ptable (kern t) = ptable (kern s1) \<and>
    (f_readable (the_file fi s1) \<longrightarrow> file_read dr fi n t = Inl (Panic ''file read'')) \<and>
    (f_writable (the_file fi s1) \<longrightarrow> file_write dw fi bs n t = Inl (Panic ''file read'')) \<and>
    file_close fi t = Inl (Panic ''file_close'')"
proof -
  obtain t where t: "file_close fi s1 = Inr t" "f_nref (the_file fi t) = 0" "f_type (the_file fi t) = FD_NONE"
    "f_readable (the_file fi t) = f_readable (the_file fi s1)" "f_writable (the_file fi t) = f_writable (the_file fi s1)"
    "ptable (kern t) = ptable (kern s1)"
    using file_close_last [OF assms(2-4)] by blast
  then show ?thesis using assms(1) by (simp add: sys_close_def file_read_def file_write_def file_close_def)
qed

text \<open>A running process with the file 0 open for reading as descriptor 0; its trap frame has the
  stack pointer 0x80500000, and the words behind it are 0.\<close>

definition sys_file :: File where
  "sys_file = \<lparr>f_ino = None, f_pipe = 0x80300000, f_offset = 0, f_type = FD_PIPE, f_nref = 1, f_readable = True, f_writable = False\<rparr>"

definition sys0 :: sys where
  "sys0 = \<lparr>ps = \<lparr>kst = upd_proc 2 (\<lambda>p. p\<lparr>ofile := (replicate 32 None)[0 := Some 0], trapframe := 0x80400000\<rparr>)
      (kstate_run\<lparr>mach := machine1\<lparr>ram := store32 (\<lambda>_. 0) 0x80400044 0x80500000\<rparr>, ftable := [sys_file]\<rparr>), pipes = (\<lambda>_. None)\<rparr>,
     fsys = sample_fs, frame = 0x80600000, sym_slash = 0x80700000, junk = 0\<rparr>"

lemma sys0_sel:
  "ram (mach (kern sys0)) = store32 (\<lambda>_. 0) 0x80400044 0x80500000" "ftable (kern sys0) = [sys_file]"
  "ofile (ptable (kern sys0) ! 2) = (replicate 32 None)[0 := Some 0]" "trapframe (ptable (kern sys0) ! 2) = 0x80400000"
  "the_cpu (kern sys0) = cpu0\<lparr>proc := Some 2\<rparr>"
  by (simp_all add: sys0_def upd_proc_def kstate_run_def sample_kstate_def)

theorem close_keeps_descriptor_witness:
  "\<exists>t. sys_close sys0 = Inr (Val 0, t) \<and> file_read (\<lambda>_. None) 0 10 t = Inl (Panic ''file read'')"
proof -
  let ?c = "popped (pushed (cpu0\<lparr>proc := Some 2\<rparr>))"
  let ?s = "with_kern ((kern sys0)\<lparr>the_cpu := ?c\<rparr>) sys0"
  have wf: "wf_cpu (the_cpu (kern sys0))" "proc (the_cpu (kern sys0)) = Some 2" "wf_cpu ?c" "proc ?c = Some 2"
      "popped (pushed ?c) = ?c"
    by (simp_all add: sys0_sel wf_cpu_def cpu0_def pushed_def popped_def)
  have esp: "load32 (ram (mach (kern sys0))) (trapframe (ptable (kern sys0) ! 2) + 68) + 4 + 4 * 0 = 0x80500004"
    by (simp add: sys0_sel)
  have v: "load32 (vview sys0) 0x80500004 = load32 (ram (mach (kern sys0))) 0x80500004"
    by (simp add: load32_def vview_def kaddr_def)
  have "load32 (\<lambda>_. 0) 0x80500004 = 0" by (simp add: load32_def)
  then have "load32 (vview sys0) 0x80500004 = 0" unfolding v sys0_sel by (simp add: aligned4_def)
  then have g: "getptr 0 sys0 = Inr (0, ?s)"
    using getptr_eq [OF wf(1,2) esp [symmetric]] by (simp add: sys0_sel(5) mapped_bytes_def kaddr_def upt_rec)
  have "getfile 0 sys0 = Inr (Some 0, with_kern ((kern ?s)\<lparr>the_cpu := ?c\<rparr>) ?s)"
    using g cur_proc_eq [of ?s 2] wf(3,4,5) by (simp add: getfile_def getint_def sys0_sel)
  from close_keeps_descriptor [OF this, of "\<lambda>_. None" 10 "\<lambda>_. None" "[]"] show ?thesis
    by (auto simp: sys0_sel the_file_def sys_file_def)
qed

end
