(* ===== verification/Exec.thy ===== *)
theory Exec
  imports Syscall
begin

text \<open>
  kernel/exec.c and the part of lib/elf.h it uses: replacing the address space of the running
  process by a program.  The headers read from the file are byte lists; the words of the new
  stack are put together in \<open>buffer\<close>, a local variable at \<open>frame\<close>.  The code behind the label
  \<open>bad\<close> tests a page directory that may not have been set: \<open>junk\<close> is what it finds.
\<close>

section \<open>ELF files\<close>

text \<open>\<open>ELF32Header\<close> has 52 bytes with \<open>e_entry\<close> at 24, \<open>e_phoff\<close> at 28 and \<open>e_phnum\<close> at 44; \<open>ELF32ProgramHeader\<close> has 32.\<close>

abbreviation (input) ELF32Header_SZ :: u32 where "ELF32Header_SZ \<equiv> 52"
abbreviation (input) ELF32ProgramHeader_SZ :: u32 where "ELF32ProgramHeader_SZ \<equiv> 32"

definition is_elf :: "u8 list \<Rightarrow> bool" where
  "is_elf hdr \<longleftrightarrow> take 4 hdr = [0x7F, 0x45, 0x4C, 0x46]"

definition e_entry :: "u8 list \<Rightarrow> u32" where "e_entry hdr = rd32 hdr 24"

definition e_phoff :: "u8 list \<Rightarrow> u32" where "e_phoff hdr = rd32 hdr 28"

definition e_phnum :: "u8 list \<Rightarrow> u16" where "e_phnum hdr = rd16 hdr 44"

record prog_header =
  p_type :: u32
  p_offset :: u32
  p_vaddr :: u32
  p_filesz :: u32
  p_memsz :: u32

definition bytes_prog_header :: "u8 list \<Rightarrow> prog_header" where
  "bytes_prog_header bs = \<lparr>p_type = rd32 bs 0, p_offset = rd32 bs 4, p_vaddr = rd32 bs 8, p_filesz = rd32 bs 16, p_memsz = rd32 bs 20\<rparr>"

abbreviation (input) PT_LOAD :: u32 where "PT_LOAD \<equiv> 1"

section \<open>Loading the segments\<close>

abbreviation (input) ram_of :: "sys \<Rightarrow> machine" where "ram_of s \<equiv> mach (kern s)"

definition with_mach :: "machine \<Rightarrow> sys \<Rightarrow> sys" where
  "with_mach m s = with_kern ((kern s)\<lparr>mach := m\<rparr>) s"

definition read_into :: "(nat \<Rightarrow> dev_read option) \<Rightarrow> nat \<Rightarrow> u32 \<Rightarrow> u32 \<Rightarrow> u32 \<Rightarrow> machine \<Rightarrow> fs \<Rightarrow> (int \<times> machine \<times> fs) res" where
  "read_into dr ino dst off n m f =
     rbind (inode_read dr ino off n f) (\<lambda>(r, bs, f). Inr (r, m\<lparr>ram := poke (ram m) dst bs\<rparr>, f))"

text \<open>The loop over the program headers; \<open>None\<close> is a jump to \<open>bad\<close>.\<close>

fun load_segments :: "(nat \<Rightarrow> dev_read option) \<Rightarrow> nat \<Rightarrow> nat \<Rightarrow> u32 \<Rightarrow> u32 \<Rightarrow> u32 \<Rightarrow> sys \<Rightarrow> (u32 option \<times> sys) res" where
  "load_segments dr ino 0 pgtbl offset sz s = Inr (Some sz, s)"
| "load_segments dr ino (Suc n) pgtbl offset sz s =
     rbind (inode_read dr ino offset ELF32ProgramHeader_SZ (fsys s)) (\<lambda>(r, bs, f).
     let s = s\<lparr>fsys := f\<rparr>; ph = bytes_prog_header bs in
     if r \<noteq> 32 then Inr (None, s)
     else if p_type ph \<noteq> PT_LOAD then load_segments dr ino n pgtbl (offset + ELF32ProgramHeader_SZ) sz s
     else if p_memsz ph < p_filesz ph then Inr (None, s)
     else if p_vaddr ph + p_memsz ph < p_vaddr ph then Inr (None, s)
     else
       rbind (uvm_allocate pgtbl sz (p_vaddr ph + p_memsz ph) (ram_of s)) (\<lambda>(sz, m).
       let s = with_mach m s in
       if sz = 0 then Inr (None, s)
       else if p_vaddr ph mod PAGE_SZ \<noteq> 0 then Inr (None, s)
       else
         rbind (uvm_load (read_into dr ino) pgtbl (p_vaddr ph) (p_offset ph) (p_filesz ph) (ram_of s) (fsys s)) (\<lambda>(r, m, f).
         let s = (with_mach m s)\<lparr>fsys := f\<rparr> in
         if r = - 1 then Inr (None, s)
         else load_segments dr ino n pgtbl (offset + ELF32ProgramHeader_SZ) sz s)))"

section \<open>The stack of the new program\<close>

abbreviation (input) MAXARGS :: nat where "MAXARGS \<equiv> 32"

text \<open>The strings of \<open>argv\<close> go to the top of the stack; at most 33 of them before the loop
  gives up.\<close>

fun copy_args :: "nat \<Rightarrow> u32 \<Rightarrow> u32 \<Rightarrow> nat \<Rightarrow> u32 \<Rightarrow> u32 list \<Rightarrow> sys \<Rightarrow> ((u32 \<times> nat \<times> u32 list) option \<times> sys) res" where
  "copy_args 0 pgtbl argv argc sp buf s = Inl Hang"
| "copy_args (Suc n) pgtbl argv argc sp buf s =
     rbind (uread s (argv + 4 * of_nat argc) 4) (\<lambda>bs.
     let a = rd32 bs 0 in
     if a = 0 then Inr (Some (sp, argc, buf), s)
     else if argc > MAXARGS then Inr (None, s)
     else
       rbind (check_string s a) (\<lambda>_.
       case strlen (vview s) a of None \<Rightarrow> Inl page_fault
       | Some len \<Rightarrow>
           let sp = sp - (len + 1);
               (r, m) = uvm_memcpy pgtbl sp a (len + 1) (vview s);
               s = commit m s
           in
             if r = - 1 then Inr (None, s)
             else if 3 + argc < length buf then copy_args n pgtbl argv (argc + 1) sp (buf[3 + argc := sp]) s
             else Inl OutOfBounds))"

definition buffer_words :: nat where
  "buffer_words = 3 + MAXARGS + 1"

definition put_buffer :: "u32 list \<Rightarrow> sys \<Rightarrow> sys" where
  "put_buffer buf s = with_ram (poke (ram (ram_of s)) (frame s) (concat (map le32 buf))) s"

text \<open>The words below the strings, and the stack pointer.\<close>

definition build_stack :: "u32 \<Rightarrow> u32 \<Rightarrow> u32 \<Rightarrow> sys \<Rightarrow> (u32 option \<times> sys) res" where
  "build_stack pgtbl argv sz s =
     rbind (copy_args (MAXARGS + 3) pgtbl argv 0 sz (replicate buffer_words 0) s) (\<lambda>(r, s).
     case r of None \<Rightarrow> Inr (None, s)
     | Some (sp, argc, buf) \<Rightarrow>
         if 3 + argc \<ge> length buf then Inl OutOfBounds
         else
           let buf = buf[3 + argc := 0];
               buf = buf[2 := sp - (of_nat argc + 1) * 4, 1 := of_nat argc, 0 := 0xffffffff];
               sp = sp - (3 + of_nat argc + 1) * 4;
               s = put_buffer buf s;
               (r, m) = uvm_memcpy pgtbl sp (frame s) ((3 + of_nat argc + 1) * 4) (ram (ram_of s));
               s = with_ram m s
           in Inr (if r = - 1 then None else Some sp, s))"

section \<open>exec\<close>

definition exec_bad :: "u32 \<Rightarrow> nat option \<Rightarrow> sys \<Rightarrow> (int \<times> sys) res" where
  "exec_bad pgtbl ino s =
     rbind (if pgtbl \<noteq> 0 then rbind (vmfree pgtbl (ram_of s)) (\<lambda>m. Inr (with_mach m s)) else Inr s) (\<lambda>s.
     Inr (- 1, case ino of Some i \<Rightarrow> drop_ino i s | None \<Rightarrow> s))"

text \<open>The process takes over the new address space and leaves the old one.\<close>

definition exec_switch :: "u32 \<Rightarrow> u32 \<Rightarrow> u32 \<Rightarrow> u32 \<Rightarrow> u32 \<Rightarrow> sys \<Rightarrow> (int \<times> sys) res" where
  "exec_switch path pgtbl sz sp entry s =
     rbind (cur_proc s) (\<lambda>(i, s).
     let s = commit (strncpy (vview s) (name_addr i (kern s)) path 16) s;
         old_pgtbl = pgdir (ptable (kern s) ! i);
         s = with_kern (upd_proc i (\<lambda>p. p\<lparr>pgdir := pgtbl, psize := sz\<rparr>) (kern s)) s;
         tf = trapframe (ptable (kern s) ! i);
         s = with_ram (store32 (store32 (ram (ram_of s)) (tf + 56) entry) (tf + 68) sp) s
     in
       rbind (on_kern (uvm_switch i) s) (\<lambda>s.
       rbind (vmfree old_pgtbl (ram_of s)) (\<lambda>m.
       Inr (0, with_mach m s))))"

definition exec_image :: "(nat \<Rightarrow> dev_read option) \<Rightarrow> u32 \<Rightarrow> u32 \<Rightarrow> u8 list \<Rightarrow> nat \<Rightarrow> u32 \<Rightarrow> sys \<Rightarrow> (int \<times> sys) res" where
  "exec_image dr path argv hdr ino pgtbl s =
     rbind (load_segments dr ino (unat (e_phnum hdr)) pgtbl (e_phoff hdr) 0 s) (\<lambda>(r, s).
     case r of None \<Rightarrow> exec_bad pgtbl (Some ino) s
     | Some sz \<Rightarrow>
         let s = drop_ino ino s;
             sz = page_alignup sz
         in
           rbind (uvm_allocate pgtbl sz (sz + PAGE_SZ * 2) (ram_of s)) (\<lambda>(sz, m).
           let s = with_mach m s in
           if sz = 0 then exec_bad pgtbl None s
           else
             rbind (clear_pte_flag pgtbl (sz - 2 * PAGE_SZ) PTE_U (ram_of s)) (\<lambda>m.
             let s = with_mach m s in
             rbind (build_stack pgtbl argv sz s) (\<lambda>(r, s).
             case r of None \<Rightarrow> exec_bad pgtbl None s
             | Some sp \<Rightarrow> exec_switch path pgtbl sz sp (e_entry hdr) s))))"

definition exec :: "(nat \<Rightarrow> dev_read option) \<Rightarrow> exec_fun" where
  "exec dr path argv s =
     rbind (lookup_path dr path False s) (\<lambda>(r, s).
     case r of None \<Rightarrow> Inr (- 1, s)
     | Some ino \<Rightarrow>
         rbind (inode_read dr ino 0 ELF32Header_SZ (fsys s)) (\<lambda>(r, hdr, f).
         let s = s\<lparr>fsys := f\<rparr> in
         if r \<noteq> 52 then exec_bad (junk s) (Some ino) s
         else if \<not> is_elf hdr then exec_bad (junk s) (Some ino) s
         else
           rbind (kvm_allocate (kmap (kern s)) (ram_of s)) (\<lambda>(ok, pgtbl, m).
           let s = with_mach m s in
           if \<not> ok then exec_bad pgtbl (Some ino) s
           else exec_image dr path argv hdr ino pgtbl s)))"

section \<open>The number of arguments\<close>

lemma copy_args_bound:
  assumes "n + argc = MAXARGS + 3" "argc \<le> MAXARGS + 1" "length buf = buffer_words"
  shows "copy_args n pgtbl argv argc sp buf s \<noteq> Inl Hang" "copy_args n pgtbl argv argc sp buf s \<noteq> Inl OutOfBounds"
    "copy_args n pgtbl argv argc sp buf s = Inr (Some (sp', argc', buf'), t) \<Longrightarrow> argc' \<le> MAXARGS + 1 \<and> length buf' = buffer_words"
proof -
  have "copy_args n pgtbl argv argc sp buf s \<noteq> Inl Hang \<and> copy_args n pgtbl argv argc sp buf s \<noteq> Inl OutOfBounds \<and>
      (\<forall>sp' argc' buf' t. copy_args n pgtbl argv argc sp buf s = Inr (Some (sp', argc', buf'), t) \<longrightarrow>
         argc' \<le> MAXARGS + 1 \<and> length buf' = buffer_words)"
    using assms
  proof (induction n arbitrary: argc sp buf s)
    case (Suc n)
    have u: "uread s a k \<noteq> Inl Hang" "uread s a k \<noteq> Inl OutOfBounds" for a k by (simp_all add: uread_def page_fault_def)
    have c: "check_string s a \<noteq> Inl Hang" "check_string s a \<noteq> Inl OutOfBounds" for a
      by (simp_all add: check_string_def page_fault_def split: option.split)
    show ?case
    proof (cases "uread s (argv + 4 * of_nat argc) 4")
      case (Inr bs)
      show ?thesis
      proof (cases "rd32 bs 0 = 0 \<or> argc > MAXARGS")
        case True
        then show ?thesis using Suc.prems Inr by (cases "rd32 bs 0 = 0") (simp_all add: Let_def)
      next
        case False
        then have ib: "3 + argc < length buf" using Suc.prems by (simp add: buffer_words_def)
        show ?thesis
        proof (cases "check_string s (rd32 bs 0)")
          case (Inr x)
          obtain len where len: "strlen (vview s) (rd32 bs 0) = Some len"
            using Inr by (auto simp: check_string_def split: option.splits)
          obtain r m where rm: "uvm_memcpy pgtbl (sp - (len + 1)) (rd32 bs 0) (len + 1) (vview s) = (r, m)" by fastforce
          have step: "copy_args (Suc n) pgtbl argv argc sp buf s =
              (if r = - 1 then Inr (None, commit m s)
               else copy_args n pgtbl argv (argc + 1) (sp - (len + 1)) (buf[3 + argc := sp - (len + 1)]) (commit m s))"
            using \<open>uread s _ 4 = Inr bs\<close> False Inr len rm ib by (simp add: Let_def)
          have "copy_args n pgtbl argv (argc + 1) (sp - (len + 1)) (buf[3 + argc := sp - (len + 1)]) (commit m s) \<noteq> Inl Hang \<and>
              copy_args n pgtbl argv (argc + 1) (sp - (len + 1)) (buf[3 + argc := sp - (len + 1)]) (commit m s) \<noteq> Inl OutOfBounds \<and>
              (\<forall>sp' argc' buf' t. copy_args n pgtbl argv (argc + 1) (sp - (len + 1)) (buf[3 + argc := sp - (len + 1)]) (commit m s) =
                 Inr (Some (sp', argc', buf'), t) \<longrightarrow> argc' \<le> MAXARGS + 1 \<and> length buf' = buffer_words)"
            by (rule Suc.IH) (use Suc.prems False in simp_all)
          then show ?thesis unfolding step by simp
        next
          case (Inl e)
          then show ?thesis using c \<open>uread s _ 4 = Inr bs\<close> False by (auto simp: Let_def)
        qed
      qed
    next
      case (Inl e)
      then show ?thesis using u by auto
    qed
  qed simp
  then show "copy_args n pgtbl argv argc sp buf s \<noteq> Inl Hang" "copy_args n pgtbl argv argc sp buf s \<noteq> Inl OutOfBounds"
    "copy_args n pgtbl argv argc sp buf s = Inr (Some (sp', argc', buf'), t) \<Longrightarrow> argc' \<le> MAXARGS + 1 \<and> length buf' = buffer_words"
    by blast+
qed



end
