(* ===== verification/Lib_Std.thy ===== *)
theory Lib_Std
  imports Melon_Prelude
begin

text \<open>
  lib/ctype.c, lib/stdlib.c and lib/fmt.c.  A pointer into a C string is what is left of the
  string, without its NUL; the code below never steps back.  \<open>char\<close> is signed.  The signed
  overflows of \<open>atoi\<close> and \<open>strtol\<close>, undefined in C, wrap.
\<close>

type_synonym cstr = "u8 list"

section \<open>Characters (ctype.c)\<close>

definition isdigit :: "int \<Rightarrow> bool" where
  "isdigit c \<longleftrightarrow> 48 \<le> c \<and> c \<le> 57"

definition islower :: "int \<Rightarrow> bool" where
  "islower c \<longleftrightarrow> 97 \<le> c \<and> c \<le> 122"

definition isupper :: "int \<Rightarrow> bool" where
  "isupper c \<longleftrightarrow> 65 \<le> c \<and> c \<le> 90"

definition isalpha :: "int \<Rightarrow> bool" where
  "isalpha c \<longleftrightarrow> isupper c \<or> islower c"

definition isalnum :: "int \<Rightarrow> bool" where
  "isalnum c \<longleftrightarrow> isalpha c \<or> isdigit c"

definition iscntrl :: "int \<Rightarrow> bool" where
  "iscntrl c \<longleftrightarrow> 0 < c \<and> c < 31 \<or> c = 127"

definition isblank :: "int \<Rightarrow> bool" where
  "isblank c \<longleftrightarrow> c = 32 \<or> c = 9"

definition isspace :: "int \<Rightarrow> bool" where
  "isspace c \<longleftrightarrow> c = 32 \<or> c = 9 \<or> c = 10 \<or> c = 11 \<or> c = 12 \<or> c = 13"

definition toupper :: "int \<Rightarrow> int" where
  "toupper c = (if 97 \<le> c \<or> c \<le> 122 then c - 97 + 65 else c)"

definition tolower :: "int \<Rightarrow> int" where
  "tolower c = (if 65 \<le> c \<or> c \<le> 90 then c - 65 + 97 else c)"

lemma toupper_shift: "toupper c = c - 32"
  by (auto simp: toupper_def)

section \<open>Numbers (stdlib.c)\<close>

fun skip_space :: "cstr \<Rightarrow> cstr" where
  "skip_space [] = []"
| "skip_space (c # p) = (if isspace (sint c) then skip_space p else c # p)"

definition take_sign :: "cstr \<Rightarrow> bool \<times> cstr" where
  "take_sign p = (case p of [] \<Rightarrow> (False, []) | c # q \<Rightarrow>
     if c = 43 then (False, q) else if c = 45 then (True, q) else (False, p))"

fun dec_loop :: "u32 \<Rightarrow> cstr \<Rightarrow> u32 \<times> cstr" where
  "dec_loop k [] = (k, [])"
| "dec_loop k (c # p) =
     (if isdigit (sint c) then dec_loop (k * 10 + word_of_int (sint c - 48)) p else (k, c # p))"

definition atoi :: "cstr \<Rightarrow> int" where
  "atoi p =
     (let p = skip_space p;
          (neg, p) = take_sign p;
          (k, p) = dec_loop 0 p
      in sint (if neg then - k else k))"

text \<open>The hexadecimal loop; \<open>True\<close> in the result is the jump to \<open>abort\<close>.\<close>

fun hex_loop :: "u32 \<Rightarrow> cstr \<Rightarrow> bool \<times> u32 \<times> cstr" where
  "hex_loop k [] = (False, k, [])"
| "hex_loop k (c # p) =
     (let n = sint c in
      if isdigit n \<or> 97 \<le> n \<and> n \<le> 102 \<or> 65 \<le> n \<and> n \<le> 70
      then
        let k = k * 16 in
        if isdigit n then hex_loop (k + word_of_int (n - 48)) p
        else if 97 \<le> n \<and> n \<le> 102 then hex_loop (k + word_of_int (n - 97 + 10)) p
        else if 65 \<le> n \<and> n \<le> 70 then hex_loop (k + word_of_int (n - 65 + 10)) p
        else (True, k, c # p)
      else (False, k, c # p))"

fun oct_loop :: "u32 \<Rightarrow> cstr \<Rightarrow> u32 \<times> cstr" where
  "oct_loop k [] = (k, [])"
| "oct_loop k (c # p) =
     (if 48 \<le> sint c \<and> sint c \<le> 55 then oct_loop (k * 8 + word_of_int (sint c - 48)) p else (k, c # p))"

text \<open>\<open>strtol\<close>: the value, \<open>*endptr\<close> and whether \<open>errno\<close> was set to \<open>ERANGE\<close>.\<close>

definition strtol :: "cstr \<Rightarrow> int \<times> cstr \<times> bool" where
  "strtol str =
     (let p = skip_space str;
          (neg, p) = take_sign p;
          p = skip_space p;
          (ab, k, p) =
            (case p of
               [] \<Rightarrow> (False, 0, p)
             | c # q \<Rightarrow>
                 if c = 48 \<and> q \<noteq> [] \<and> hd q = 120 then hex_loop 0 (tl q)
                 else if c = 48 then (False, oct_loop 0 q)
                 else if isdigit (sint c) then (False, dec_loop 0 p)
                 else (False, 0, p))
      in if ab then (0, p, True) else (sint (if neg then - k else k), p, False))"

section \<open>Formatted output (fmt.c)\<close>

text \<open>
  \<open>putchar_f\<close>: it prints at least the first character of the string it is given and returns
  where to go on; \<open>None\<close> is a pointer past the NUL of the string.  \<open>'s\<close> is the state of the device.
\<close>

type_synonym 's putchar = "cstr \<Rightarrow> 's \<Rightarrow> (cstr option \<times> 's) res"

fun write_loop :: "'s putchar \<Rightarrow> nat \<Rightarrow> cstr option \<Rightarrow> 's \<Rightarrow> 's res" where
  "write_loop pc n None s = Inr s"
| "write_loop pc n (Some []) s = Inr s"
| "write_loop pc 0 (Some (c # p)) s = Inl Hang"
| "write_loop pc (Suc n) (Some (c # p)) s = rbind (pc (c # p) s) (\<lambda>(q, s). write_loop pc n q s)"

definition write_string :: "'s putchar \<Rightarrow> cstr \<Rightarrow> 's \<Rightarrow> 's res" where
  "write_string pc data s = write_loop pc (length data) (Some data) s"

record print_ctl =
  upper :: bool
  flush :: bool
  signd :: bool
  base :: int

definition digit_chars :: cstr where
  "digit_chars = [48, 49, 50, 51, 52, 53, 54, 55, 56, 57, 97, 98, 99, 100, 101, 102]"

text \<open>The digits, last first, in \<open>buf[32]\<close>; one byte of it is for the NUL.\<close>

fun digit_loop :: "nat \<Rightarrow> print_ctl \<Rightarrow> u32 \<Rightarrow> cstr res" where
  "digit_loop 0 ctl n = Inl OutOfBounds"
| "digit_loop (Suc room) ctl n =
     (let b = word_of_int (base ctl);
          c = digit_chars ! unat (n mod b);
          c = (if upper ctl then word_of_int (toupper (sint c)) else c);
          n = n div b
      in if n = 0 then Inr [c] else rbind (digit_loop room ctl n) (\<lambda>cs. Inr (c # cs)))"

definition print_uint :: "'s putchar \<Rightarrow> u32 \<Rightarrow> print_ctl \<Rightarrow> 's \<Rightarrow> (nat \<times> 's) res" where
  "print_uint pc n ctl s =
     rbind (digit_loop 31 ctl n) (\<lambda>cs.
     let buf = rev cs in
     rbind (if flush ctl then write_string pc buf s else Inr s) (\<lambda>s.
     Inr (length buf, s)))"

definition print_int :: "'s putchar \<Rightarrow> u32 \<Rightarrow> print_ctl \<Rightarrow> 's \<Rightarrow> (nat \<times> 's) res" where
  "print_int pc n ctl s =
     (if signd ctl
      then
        let n = (if sint n < 0 then - n else n) in
        print_uint pc n ctl s
      else print_uint pc n ctl s)"

fun pad_loop :: "'s putchar \<Rightarrow> nat \<Rightarrow> u8 \<Rightarrow> 's \<Rightarrow> 's res" where
  "pad_loop pc 0 c s = Inr s"
| "pad_loop pc (Suc n) c s = rbind (pc [c] s) (\<lambda>(_, s). pad_loop pc n c s)"

definition pad :: "'s putchar \<Rightarrow> int \<Rightarrow> u8 \<Rightarrow> 's \<Rightarrow> 's res" where
  "pad pc n c s = pad_loop pc (nat n) c s"

definition PCTL_d :: "bool \<Rightarrow> print_ctl" where
  "PCTL_d f = \<lparr>upper = False, flush = f, signd = True, base = 10\<rparr>"

definition PCTL_x :: "bool \<Rightarrow> print_ctl" where
  "PCTL_x f = \<lparr>upper = False, flush = f, signd = False, base = 16\<rparr>"

definition PCTL_X :: "bool \<Rightarrow> print_ctl" where
  "PCTL_X f = \<lparr>upper = True, flush = f, signd = False, base = 16\<rparr>"

record fmt_flags =
  pad0 :: bool
  leftpad :: bool
  alt_hex :: bool

fun parse_flags :: "fmt_flags \<Rightarrow> cstr \<Rightarrow> fmt_flags \<times> cstr" where
  "parse_flags fl [] = (fl, [])"
| "parse_flags fl (c # p) =
     (if c = 35 then parse_flags (fl\<lparr>alt_hex := True\<rparr>) p
      else if c = 48 then parse_flags (fl\<lparr>pad0 := True\<rparr>) p
      else if c = 45 then parse_flags (fl\<lparr>leftpad := True\<rparr>) p
      else (fl, c # p))"

text \<open>The macro \<open>TRY_PAD\<close>.  \<open>width\<close> is unsigned, so the difference is, and it is not
  positive only when it is 0; \<open>pad\<close> reads it as a signed number.\<close>

definition TRY_PAD :: "'s putchar \<Rightarrow> fmt_flags \<Rightarrow> u32 \<Rightarrow> ('s \<Rightarrow> 's res) \<Rightarrow> 's \<Rightarrow> 's res" where
  "TRY_PAD pc fl padn WRITE s =
     (if padn = 0 then WRITE s
      else if pad0 fl then rbind (pad pc (sint padn) 48 s) WRITE
      else if leftpad fl then rbind (pad pc (sint padn) 32 s) WRITE
      else rbind (WRITE s) (pad pc (sint padn) 32))"

datatype fmt_arg = AInt u32 | AStr cstr

definition print_padded :: "'s putchar \<Rightarrow> fmt_flags \<Rightarrow> u32 \<Rightarrow> (bool \<Rightarrow> print_ctl) \<Rightarrow> u32 \<Rightarrow> 's \<Rightarrow> 's res" where
  "print_padded pc fl width ctl n s =
     rbind (print_int pc n (ctl False) s) (\<lambda>(w, s).
     TRY_PAD pc fl (width - of_nat w) (\<lambda>s. rbind (print_int pc n (ctl True) s) (\<lambda>(_, s). Inr s)) s)"

text \<open>The format specifier at the head of \<open>p\<close>; an unknown one is left in place.  Fetching
  an argument that is not there, or not of the type asked for, is outside of the list.\<close>

definition specifier :: "'s putchar \<Rightarrow> fmt_flags \<Rightarrow> u32 \<Rightarrow> cstr \<Rightarrow> fmt_arg list \<Rightarrow> 's \<Rightarrow>
    (cstr \<times> fmt_arg list \<times> 's) res" where
  "specifier pc fl width p args s =
     (case p of
        [] \<Rightarrow> Inr ([], args, s)
      | c # q \<Rightarrow>
          let num = (\<lambda>ctl s. case args of
                  AInt n # args \<Rightarrow> rbind (print_padded pc fl width ctl n s) (\<lambda>s. Inr (q, args, s))
                | _ \<Rightarrow> Inl OutOfBounds)
          in
          if c = 100 then num PCTL_d s
          else if c = 120 then rbind (if alt_hex fl then write_string pc [48, 120] s else Inr s) (num PCTL_x)
          else if c = 88 then rbind (if alt_hex fl then write_string pc [48, 120] s else Inr s) (num PCTL_X)
          else if c = 112 then rbind (write_string pc [48, 120] s) (num PCTL_X)
          else if c = 99
          then (case args of
                  AInt n # args \<Rightarrow>
                    rbind (TRY_PAD pc fl (width - 1)
                      (\<lambda>s. rbind (pc [ucast n] s) (\<lambda>(_, s). Inr s)) s) (\<lambda>s. Inr (q, args, s))
                | _ \<Rightarrow> Inl OutOfBounds)
          else if c = 115
          then (case args of
                  AStr t # args \<Rightarrow>
                    rbind (TRY_PAD pc fl (width - of_nat (length t)) (write_string pc t) s) (\<lambda>s. Inr (q, args, s))
                | _ \<Rightarrow> Inl OutOfBounds)
          else Inr (p, args, s))"

fun format_loop :: "'s putchar \<Rightarrow> nat \<Rightarrow> fmt_flags \<Rightarrow> cstr option \<Rightarrow> fmt_arg list \<Rightarrow> 's \<Rightarrow> 's res" where
  "format_loop pc n fl None args s = Inl OutOfBounds"
| "format_loop pc n fl (Some []) args s = Inr s"
| "format_loop pc 0 fl (Some (c # p)) args s = Inl Hang"
| "format_loop pc (Suc n) fl (Some (c # p)) args s =
     (if c = 37
      then
        let (fl, p) = parse_flags fl p;
            (width, p, _) = strtol p
        in rbind (specifier pc fl (word_of_int width) p args s) (\<lambda>(p, args, s).
           format_loop pc n fl (Some p) args s)
      else rbind (pc (c # p) s) (\<lambda>(q, s). format_loop pc n fl q args s))"

definition format :: "'s putchar \<Rightarrow> cstr \<Rightarrow> fmt_arg list \<Rightarrow> 's \<Rightarrow> 's res" where
  "format pc fmt args s =
     format_loop pc (length fmt) \<lparr>pad0 = False, leftpad = False, alt_hex = False\<rparr> (Some fmt) args s"

section \<open>Reading numbers\<close>

lemma hex_loop_no_abort: "\<not> fst (hex_loop k p)"
  by (induction k p rule: hex_loop.induct) (simp_all add: Let_def)

lemma skip_space_le: "length (skip_space p) \<le> length p"
  by (induction p) auto

lemma take_sign_le: "length (snd (take_sign p)) \<le> length p"
  by (auto simp: take_sign_def split: list.splits)

lemma dec_loop_le: "length (snd (dec_loop k p)) \<le> length p"
  by (induction k p rule: dec_loop.induct) auto

lemma oct_loop_le: "length (snd (oct_loop k p)) \<le> length p"
  by (induction k p rule: oct_loop.induct) auto

lemma hex_loop_le: "length (snd (snd (hex_loop k p))) \<le> length p"
  by (induction p arbitrary: k) (simp_all add: Let_def le_SucI)

definition strtol_scan :: "cstr \<Rightarrow> bool \<times> u32 \<times> cstr" where
  "strtol_scan p = (case p of
               [] \<Rightarrow> (False, 0, p)
             | c # q \<Rightarrow>
                 if c = 48 \<and> q \<noteq> [] \<and> hd q = 120 then hex_loop 0 (tl q)
                 else if c = 48 then (False, oct_loop 0 q)
                 else if isdigit (sint c) then (False, dec_loop 0 p)
                 else (False, 0, p))"

lemma strtol_scan: "strtol p =
   (let (neg, q) = take_sign (skip_space p); (ab, k, r) = strtol_scan (skip_space q) in
    (if ab then (0, r, True) else (sint (if neg then - k else k), r, False)))"
  by (simp add: strtol_def strtol_scan_def Let_def)

lemma strtol_scan_no_abort: "\<not> fst (strtol_scan p)"
  using hex_loop_no_abort by (simp add: strtol_scan_def split: list.split)

lemma strtol_no_erange: "snd (snd (strtol p)) = False"
proof -
  obtain neg q where q: "take_sign (skip_space p) = (neg, q)" by fastforce
  obtain ab k r where r: "strtol_scan (skip_space q) = (ab, k, r)" by (metis prod.exhaust)
  show ?thesis using strtol_scan_no_abort [of "skip_space q"] q r by (simp add: strtol_scan)
qed

lemma strtol_scan_le: "length (snd (snd (strtol_scan p))) \<le> length p"
proof (cases p)
  case (Cons c q)
  have h: "length (snd (snd (hex_loop 0 (tl q)))) \<le> Suc (length q)"
    using hex_loop_le [of 0 "tl q"] length_tl [of q] by linarith
  have o8: "length (snd (oct_loop 0 q)) \<le> Suc (length q)"
    using oct_loop_le [of 0 q] by simp
  have d: "length (snd (dec_loop 0 p)) \<le> length p" by (rule dec_loop_le)
  from h o8 d show ?thesis
    unfolding strtol_scan_def Cons by (simp del: dec_loop.simps split: if_split)
qed (simp add: strtol_scan_def)

lemma strtol_le: "length (fst (snd (strtol p))) \<le> length p"
proof -
  obtain neg q where q: "take_sign (skip_space p) = (neg, q)" by fastforce
  obtain ab k r where r: "strtol_scan (skip_space q) = (ab, k, r)" by (metis prod.exhaust)
  have "length r \<le> length (skip_space q)" using strtol_scan_le [of "skip_space q"] r by simp
  also have "\<dots> \<le> length p"
    using skip_space_le [of q] take_sign_le [of "skip_space p"] skip_space_le [of p] q by simp
  finally show ?thesis using q r by (simp add: strtol_scan)
qed

section \<open>Output ports\<close>

definition rmap :: "('a \<Rightarrow> 'b) \<Rightarrow> 'a res \<Rightarrow> 'b res" where
  "rmap f r = (case r of Inl e \<Rightarrow> Inl e | Inr x \<Rightarrow> Inr (f x))"

lemma rmap_simps [simp]: "rmap f (Inl e) = Inl e" "rmap f (Inr x) = Inr (f x)"
  by (simp_all add: rmap_def)

lemma rmap_rbind: "rmap f (rbind r k) = rbind r (\<lambda>x. rmap f (k x))"
  by (cases r) simp_all

lemma rbind_rmap: "rbind (rmap f r) k = rbind r (\<lambda>x. k (f x))"
  by (cases r) simp_all

text \<open>
  The interface between \<open>format\<close> and a device.  \<open>pc'\<close> behaves on the states \<open>h s\<close> as \<open>pc\<close> does
  on \<open>s\<close>; then so does everything \<open>format\<close> prints through it.
\<close>

locale port_refinement =
  fixes pc :: "'s putchar" and pc' :: "'t putchar" and h :: "'s \<Rightarrow> 't"
  assumes port: "p \<noteq> [] \<Longrightarrow> pc' p (h s) = rmap (map_prod id h) (pc p s)"
begin

lemma sim_write_loop: "write_loop pc' n q (h s) = rmap h (write_loop pc n q s)"
proof (induction n arbitrary: q s)
  case 0
  then show ?case by (cases q rule: option.exhaust; cases "the q") auto
next
  case (Suc n)
  then show ?case
    by (cases q rule: option.exhaust; cases "the q")
      (auto simp: port rbind_rmap rmap_rbind intro!: rbind_cong)
qed

lemma sim_write_string: "write_string pc' d (h s) = rmap h (write_string pc d s)"
  by (simp add: write_string_def sim_write_loop)

lemma sim_print_int: "print_int pc' n ctl (h s) = rmap (map_prod id h) (print_int pc n ctl s)"
  by (auto simp: print_int_def print_uint_def Let_def sim_write_string rbind_rmap rmap_rbind intro!: rbind_cong)

lemma sim_pad: "pad pc' n c (h s) = rmap h (pad pc n c s)"
proof -
  have "pad_loop pc' k c (h s) = rmap h (pad_loop pc k c s)" for k
    by (induction k arbitrary: s) (auto simp: port rbind_rmap rmap_rbind intro!: rbind_cong)
  then show ?thesis by (simp add: pad_def)
qed

lemma sim_TRY_PAD:
  assumes "\<And>s. w' (h s) = rmap h (w s)"
  shows "TRY_PAD pc' fl n w' (h s) = rmap h (TRY_PAD pc fl n w s)"
  by (auto simp: TRY_PAD_def assms sim_pad rbind_rmap rmap_rbind intro!: rbind_cong)

lemma sim_print_padded: "print_padded pc' fl w ctl n (h s) = rmap h (print_padded pc fl w ctl n s)"
  unfolding print_padded_def
  by (auto simp: sim_print_int rbind_rmap rmap_rbind split: prod.splits
      intro!: rbind_cong sim_TRY_PAD)

lemma sim_specifier: "specifier pc' fl w p args (h s) = rmap (map_prod id (map_prod id h)) (specifier pc fl w p args s)"
proof (cases p)
  case (Cons c q)
  have c1: "TRY_PAD pc' fl (w - 1) (\<lambda>s. rbind (pc' [ucast n] s) (\<lambda>(_, s). Inr s)) (h s) =
      rmap h (TRY_PAD pc fl (w - 1) (\<lambda>s. rbind (pc [ucast n] s) (\<lambda>(_, s). Inr s)) s)" for n :: u32
    by (rule sim_TRY_PAD) (auto simp: port rbind_rmap rmap_rbind intro!: rbind_cong)
  have s1: "TRY_PAD pc' fl k (write_string pc' t) (h s) = rmap h (TRY_PAD pc fl k (write_string pc t) s)" for k t
    by (rule sim_TRY_PAD) (rule sim_write_string)
  show ?thesis
    unfolding specifier_def Cons
    by (auto simp: Let_def c1 s1 sim_print_padded sim_write_string rbind_rmap rmap_rbind
        split: list.split fmt_arg.split intro!: rbind_cong)
qed (simp add: specifier_def)

lemma sim_format_loop: "format_loop pc' n fl q args (h s) = rmap h (format_loop pc n fl q args s)"
proof (induction n arbitrary: fl q args s)
  case 0
  then show ?case by (cases q; cases "the q") auto
next
  case (Suc n)
  show ?case
  proof (cases q; cases "the q")
    fix q' c p
    assume q: "q = Some q'" "the q = c # p"
    show ?thesis
    proof (cases "c = 37")
      case True
      obtain fl1 p1 where f: "parse_flags fl p = (fl1, p1)" by fastforce
      obtain w p2 e where t: "strtol p1 = (w, p2, e)" by (metis prod.exhaust)
      show ?thesis
        using q True f t by (auto simp: Suc sim_specifier rbind_rmap rmap_rbind intro!: rbind_cong)
    next
      case False
      then show ?thesis
        using q by (auto simp: Suc port rbind_rmap rmap_rbind intro!: rbind_cong)
    qed
  qed auto
qed

lemma sim_format: "format pc' fmt args (h s) = rmap h (format pc fmt args s)"
  by (simp add: format_def sim_format_loop)

end

section \<open>What is printed\<close>

text \<open>The plainest device: the characters printed so far.\<close>

fun text_port :: "cstr putchar" where
  "text_port [] out = Inr (None, out)"
| "text_port (c # p) out = Inr (Some p, out @ [c])"

interpretation tp: port_refinement text_port text_port "\<lambda>t. out @ t" for out
  by unfold_locales (auto simp: neq_Nil_conv)

lemma write_loop_text: "length p \<le> n \<Longrightarrow> write_loop text_port n (Some p) out = Inr (out @ p)"
proof (induction n arbitrary: p out)
  case (Suc n)
  then show ?case by (cases p) auto
qed simp

lemma write_string_text [simp]: "write_string text_port p out = Inr (out @ p)"
  by (simp add: write_string_def write_loop_text)

lemma pad_text [simp]: "pad text_port n c out = Inr (out @ replicate (nat n) c)"
proof -
  have "pad_loop text_port k c out = Inr (out @ replicate k c)" for k
    by (induction k arbitrary: out) auto
  then show ?thesis by (simp add: pad_def)
qed

definition int_text :: "print_ctl \<Rightarrow> u32 \<Rightarrow> cstr res" where
  "int_text ctl n = rbind (digit_loop 31 ctl (if signd ctl \<and> sint n < 0 then - n else n)) (\<lambda>cs. Inr (rev cs))"

lemma print_int_text: "print_int text_port n ctl out =
    rbind (int_text ctl n) (\<lambda>t. Inr (length t, if flush ctl then out @ t else out))"
  by (cases "flush ctl") (simp_all add: print_int_def print_uint_def int_text_def Let_def rbind_assoc)

lemma digit_loop_room:
  assumes "unat n < unat (word_of_int (base ctl) :: u32) ^ room" "2 \<le> unat (word_of_int (base ctl) :: u32)" "0 < room"
  shows "\<exists>cs. digit_loop room ctl n = Inr cs \<and> cs \<noteq> [] \<and> length cs \<le> room"
  using assms(1,3)
proof (induction room arbitrary: n)
  case (Suc room)
  let ?b = "word_of_int (base ctl) :: u32"
  show ?case
  proof (cases "n div ?b = 0")
    case False
    have lt: "unat (n div ?b) < unat ?b ^ room"
      using Suc.prems(1) by (simp add: unat_div less_mult_imp_div_less mult.commute)
    moreover have "0 < room"
    proof (rule ccontr)
      assume "\<not> 0 < room"
      then have "unat (n div ?b) = 0" using lt by simp
      then show False using False by (simp add: unat_eq_zero)
    qed
    ultimately show ?thesis using Suc.IH [of "n div ?b"] False by (auto simp: Let_def)
  qed (simp add: Let_def)
qed simp

lemma digits_fit:
  fixes n :: u32
  assumes "ctl \<in> {PCTL_d f, PCTL_x f, PCTL_X f}"
  shows "\<exists>cs. digit_loop 31 ctl n = Inr cs \<and> cs \<noteq> [] \<and> length cs \<le> 31"
proof -
  have n: "unat n < 4294967296" by (rule unat_lt32)
  have "base ctl = 10 \<or> base ctl = 16" using assms by (auto simp: PCTL_d_def PCTL_x_def PCTL_X_def)
  then have b: "unat (word_of_int (base ctl) :: u32) = 10 \<or> unat (word_of_int (base ctl) :: u32) = 16" by auto
  have "(4294967296 :: nat) < 10 ^ 31" "(4294967296 :: nat) < 16 ^ 31" by simp_all
  then have "unat n < 10 ^ 31" "unat n < 16 ^ 31" using n by linarith+
  then have "unat n < unat (word_of_int (base ctl) :: u32) ^ 31" using b by (elim disjE) (simp_all only:)
  moreover have "2 \<le> unat (word_of_int (base ctl) :: u32)" using b by linarith
  ultimately show ?thesis by (rule digit_loop_room) simp
qed

lemma int_text_returns:
  assumes "ctl \<in> {PCTL_d f, PCTL_x f, PCTL_X f}"
  shows "\<exists>t. int_text ctl n = Inr t \<and> t \<noteq> []"
proof -
  obtain cs where "digit_loop 31 ctl (if signd ctl \<and> sint n < 0 then - n else n) = Inr cs" "cs \<noteq> []"
    using digits_fit [OF assms] by blast
  then show ?thesis by (simp add: int_text_def)
qed

section \<open>Round trip of decimal numbers\<close>

lemma digit_cases:
  assumes "i < 10"
  shows "isdigit (sint (digit_chars ! i))" "\<not> isspace (sint (digit_chars ! i))"
    "word_of_int (sint (digit_chars ! i) - 48) = (of_nat i :: u32)"
    "digit_chars ! i \<noteq> 43" "digit_chars ! i \<noteq> 45" "digit_chars ! i = 48 \<longleftrightarrow> i = 0"
proof -
  have "i \<in> {0, 1, 2, 3, 4, 5, 6, 7, 8, 9}" using assms by auto
  then show "isdigit (sint (digit_chars ! i))" "\<not> isspace (sint (digit_chars ! i))"
    "word_of_int (sint (digit_chars ! i) - 48) = (of_nat i :: u32)"
    "digit_chars ! i \<noteq> 43" "digit_chars ! i \<noteq> 45" "digit_chars ! i = 48 \<longleftrightarrow> i = 0"
    by (auto simp: digit_chars_def isdigit_def isspace_def)
qed

definition dec_ctl :: "print_ctl \<Rightarrow> bool" where
  "dec_ctl ctl \<longleftrightarrow> base ctl = 10 \<and> \<not> upper ctl"

lemma mod10_lt: "unat (n mod 10 :: u32) < 10"
  by (simp add: unat_mod)

lemma digit_loop_dec:
  assumes "dec_ctl ctl" "digit_loop room ctl n = Inr cs"
  shows "dec_loop k (rev cs @ rest) = dec_loop (k * 10 ^ length cs + n) rest \<and>
    cs \<noteq> [] \<and> (\<forall>c \<in> set cs. \<exists>i < 10. c = digit_chars ! i) \<and> (n \<noteq> 0 \<longrightarrow> last cs \<noteq> 48) \<and> (n = 0 \<longrightarrow> cs = [48])"
  using assms(2)
proof (induction room arbitrary: n cs rest)
  case (Suc room)
  let ?i = "unat (n mod 10)"
  have i: "?i < 10" by (rule mod10_lt)
  have c: "digit_loop (Suc room) ctl n =
      (if n div 10 = 0 then Inr [digit_chars ! ?i]
       else rbind (digit_loop room ctl (n div 10)) (\<lambda>cs. Inr (digit_chars ! ?i # cs)))"
    using assms(1) by (simp add: dec_ctl_def Let_def)
  have w: "word_of_int (sint (digit_chars ! ?i) - 48) = n mod 10"
    using digit_cases(3) [OF i] by simp
  have d: "isdigit (sint (digit_chars ! ?i))" by (rule digit_cases(1) [OF i])
  show ?case
  proof (cases "n div 10 = 0")
    case True
    then have n: "n mod 10 = n" using div_mult_mod_eq [of n 10] by simp
    have cs: "cs = [digit_chars ! ?i]" using Suc.prems c True by simp
    have "?i = 0 \<longleftrightarrow> n = 0" using n by (simp add: unat_eq_0)
    then show ?thesis
      using cs d w n digit_cases(6) [OF i] i by (auto simp: digit_chars_def)
  next
    case False
    then obtain cs' where cs': "digit_loop room ctl (n div 10) = Inr cs'" "cs = digit_chars ! ?i # cs'"
      using Suc.prems unfolding c if_not_P [OF False] rbind_Inr_iff by auto
    note IH = Suc.IH [OF cs'(1)]
    have e: "(k * 10 ^ length cs' + n div 10) * 10 + n mod 10 = k * 10 ^ length cs + n"
      using cs'(2) div_mult_mod_eq [of n 10] by (simp add: algebra_simps)
    have "dec_loop k (rev cs @ rest) = dec_loop k (rev cs' @ digit_chars ! ?i # rest)" using cs'(2) by simp
    also have "\<dots> = dec_loop (k * 10 ^ length cs' + n div 10) (digit_chars ! ?i # rest)"
      using IH [of "digit_chars ! ?i # rest"] by blast
    also have "\<dots> = dec_loop ((k * 10 ^ length cs' + n div 10) * 10 + n mod 10) rest"
      by (simp only: dec_loop.simps d w if_True)
    finally have "dec_loop k (rev cs @ rest) = dec_loop (k * 10 ^ length cs + n) rest" unfolding e .
    moreover have "n \<noteq> 0" using False by auto
    ultimately show ?thesis using IH cs'(2) False i by auto
  qed
qed simp

definition ends_number :: "cstr \<Rightarrow> bool" where
  "ends_number rest \<longleftrightarrow> rest = [] \<or> \<not> isdigit (sint (hd rest)) \<and> hd rest \<noteq> 120"

lemma ends_number_loops:
  assumes "ends_number rest"
  shows "dec_loop k rest = (k, rest)" "oct_loop k rest = (k, rest)"
  using assms by (cases rest; auto simp: ends_number_def isdigit_def)+

lemma read_digits:
  assumes "digit_loop 31 (PCTL_d f) n = Inr cs" "ends_number rest"
  shows "strtol (rev cs @ rest) = (sint n, rest, False)" "atoi (rev cs @ rest) = sint n"
proof -
  have D: "dec_ctl (PCTL_d f)" by (simp add: dec_ctl_def PCTL_d_def)
  note facts = digit_loop_dec [OF D assms(1)]
  obtain c q where cq: "rev cs @ rest = c # q" "c = last cs"
    using facts by (metis append_Cons hd_rev list.collapse rev_is_Nil_conv)
  obtain i where i: "i < 10" "c = digit_chars ! i" using facts cq(2) last_in_set by metis
  note dc = digit_cases [OF i(1), folded i(2)]
  have skip: "skip_space (rev cs @ rest) = rev cs @ rest" "take_sign (rev cs @ rest) = (False, rev cs @ rest)"
    unfolding cq(1) using dc(2,4,5) by (simp_all add: take_sign_def)
  have dec: "dec_loop 0 (rev cs @ rest) = (n, rest)"
    using facts [of 0 rest] ends_number_loops(1) [OF assms(2), of n] by simp
  then show "atoi (rev cs @ rest) = sint n" by (simp add: atoi_def skip)
  have "strtol_scan (rev cs @ rest) = (False, n, rest)"
  proof (cases "n = 0")
    case True
    then have "rev cs @ rest = 48 # rest" using facts by auto
    then show ?thesis
      using True assms(2) ends_number_loops(2) [OF assms(2)] by (auto simp: strtol_scan_def ends_number_def)
  next
    case False
    then have "c \<noteq> 48" using facts cq(2) by auto
    then show ?thesis using dec dc(1) unfolding strtol_scan_def cq(1) by simp
  qed
  then show "strtol (rev cs @ rest) = (sint n, rest, False)" by (simp add: strtol_scan skip)
qed

lemma sint_uminus:
  fixes n :: u32
  assumes "0 \<le> sint n"
  shows "sint (- n) = - sint n"
proof -
  have "sint n < 2 ^ 31" using sint_lt [of n] by simp
  then have "signed_take_bit 31 (- sint n) = - sint n"
    using assms by (intro signed_take_bit_int_eq_self) linarith+
  then show ?thesis by (simp add: sint_word_ariths)
qed

text \<open>C30: Round trip of \<open>%d\<close>.  What \<open>print_int\<close> prints for a number that is not negative is read
  back by \<open>strtol\<close> and by \<open>atoi\<close>, whatever follows it unless that is a digit or an \<open>x\<close>, and
  \<open>strtol\<close> stops right behind it.  For a negative number the very same text is printed as for
  its opposite: the sign is lost.\<close>
theorem print_int_strtol_roundtrip:
  assumes "0 \<le> sint n" "ends_number rest"
  shows "\<exists>t. print_int text_port n (PCTL_d True) out = Inr (length t, out @ t) \<and>
    strtol (t @ rest) = (sint n, rest, False) \<and> atoi (t @ rest) = sint n \<and>
    print_int text_port (- n) (PCTL_d True) out = Inr (length t, out @ t)"
proof -
  obtain cs where cs: "digit_loop 31 (PCTL_d True) n = Inr cs" using digits_fit by blast
  have "int_text (PCTL_d True) n = Inr (rev cs)" using cs assms(1) by (simp add: int_text_def)
  moreover have "int_text (PCTL_d True) (- n) = Inr (rev cs)"
  proof (cases "sint (- n) < 0")
    case False
    then have "sint n = 0" using assms(1) sint_uminus [OF assms(1)] by simp
    then have "n = 0" by (metis signed_0 signed_word_eqI)
    then show ?thesis using cs by (simp add: int_text_def PCTL_d_def)
  qed (use cs in \<open>simp add: int_text_def PCTL_d_def\<close>)
  ultimately show ?thesis
    using read_digits [OF cs assms(2)] by (simp add: print_int_text PCTL_d_def)
qed

theorem print_int_strtol_roundtrip_witness:
  "0 \<le> sint (2024 :: u32) \<and> ends_number [59] \<and>
   (\<exists>t. print_int text_port 2024 (PCTL_d True) [] = Inr (length t, [] @ t) \<and>
    strtol (t @ [59]) = (sint (2024 :: u32), [59], False) \<and> atoi (t @ [59]) = sint (2024 :: u32) \<and>
    print_int text_port (- 2024) (PCTL_d True) [] = Inr (length t, [] @ t))"
proof -
  have h: "0 \<le> sint (2024 :: u32)" "ends_number [59]" by (simp_all add: ends_number_def isdigit_def)
  show ?thesis using h print_int_strtol_roundtrip [OF h, of "[]"] by blast
qed

text \<open>\<open>%X\<close> and \<open>%p\<close> print no digits.  \<open>toupper\<close> moves every character down by 32, so a
  decimal digit \<open>d\<close> of an upper case hexadecimal number comes out as the control character
  \<open>16 + d\<close>; only the digits above 9 are letters.\<close>
theorem print_upper_hex_controls:
  "print_int text_port n (PCTL_X True) out =
     rbind (int_text (PCTL_x True) n) (\<lambda>t. Inr (length t, out @ map (\<lambda>c. c - 32) t)) \<and>
   (n < 10 \<longrightarrow> print_int text_port n (PCTL_X True) out = Inr (1, out @ [16 + ucast n]))"
proof -
  have up: "word_of_int (toupper (sint c)) = c - 32" for c :: u8
    by (simp add: toupper_shift of_int_diff)
  have "digit_loop room (PCTL_X True) m = rbind (digit_loop room (PCTL_x True) m) (\<lambda>cs. Inr (map (\<lambda>c. c - 32) cs))"
    for room m
    by (induction room arbitrary: m) (simp_all add: PCTL_x_def PCTL_X_def Let_def up rbind_assoc)
  then have *: "print_int text_port n (PCTL_X True) out =
     rbind (int_text (PCTL_x True) n) (\<lambda>t. Inr (length t, out @ map (\<lambda>c. c - 32) t))"
    by (simp add: print_int_text int_text_def rbind_assoc rev_map PCTL_x_def PCTL_X_def)
  have "print_int text_port n (PCTL_X True) out = Inr (1, out @ [16 + ucast n])" if "n < 10"
  proof -
    have n: "unat n < 10" using that by (simp add: word_less_nat_alt)
    have d: "n div 16 = 0" "n mod 16 = n"
      using n by (simp_all add: word_unat_eq_iff unat_div unat_mod)
    have "digit_loop 31 (PCTL_x True) n = Inr [digit_chars ! unat n]"
      using d by (simp add: numeral_eq_Suc PCTL_x_def Let_def)
    moreover have "digit_chars ! unat n - 32 = 16 + ucast n"
    proof -
      have "unat n \<in> {0, 1, 2, 3, 4, 5, 6, 7, 8, 9}" using n by auto
      moreover have "ucast n = (of_nat (unat n) :: u8)" by simp
      ultimately show ?thesis by (auto simp: digit_chars_def simp del: of_nat_unat)
    qed
    ultimately show ?thesis by (simp add: * int_text_def PCTL_x_def)
  qed
  with * show ?thesis by blast
qed

theorem print_upper_hex_controls_witness:
  "(5 :: u32) < 10 \<and> print_int text_port 5 (PCTL_X True) [] = Inr (1, [] @ [16 + ucast (5 :: u32)])"
proof -
  have h: "(5 :: u32) < 10" by simp
  show ?thesis using h print_upper_hex_controls [of 5 "[]"] by blast
qed

section \<open>Every format string is printed in full\<close>

lemma parse_flags_le: "length (snd (parse_flags fl p)) \<le> length p"
  by (induction fl p rule: parse_flags.induct) auto

lemma TRY_PAD_text:
  assumes "\<And>out. \<exists>t. w out = Inr (out @ t)"
  shows "\<exists>t. TRY_PAD text_port fl n w out = Inr (out @ t)"
proof -
  obtain t where "w out = Inr (out @ t)" using assms by blast
  moreover obtain t0 where "w (out @ replicate (nat (sint n)) 48) = Inr ((out @ replicate (nat (sint n)) 48) @ t0)"
    using assms by blast
  moreover obtain t1 where "w (out @ replicate (nat (sint n)) 32) = Inr ((out @ replicate (nat (sint n)) 32) @ t1)"
    using assms by blast
  ultimately show ?thesis by (auto simp: TRY_PAD_def)
qed

lemma print_padded_text:
  assumes "c \<in> {PCTL_d, PCTL_x, PCTL_X}"
  shows "\<exists>t. print_padded text_port fl w c n out = Inr (out @ t)"
proof -
  have ctl: "c f \<in> {PCTL_d f, PCTL_x f, PCTL_X f}" "flush (c f) = f" for f
    using assms by (auto simp: PCTL_d_def PCTL_x_def PCTL_X_def)
  obtain t where t: "int_text (c False) n = Inr t" using int_text_returns [OF ctl(1)] by blast
  obtain t' where t': "int_text (c True) n = Inr t'" using int_text_returns [OF ctl(1)] by blast
  show ?thesis
    unfolding print_padded_def
    by (simp add: print_int_text t t' ctl(2)) (rule TRY_PAD_text, simp)
qed

text \<open>A step of \<open>format\<close> either finds no fitting argument or appends to the output.\<close>

definition appends :: "cstr \<Rightarrow> cstr \<Rightarrow> (cstr \<times> fmt_arg list \<times> cstr) res \<Rightarrow> bool" where
  "appends p out r \<longleftrightarrow> r = Inl OutOfBounds \<or> (\<exists>q as t. r = Inr (q, as, out @ t) \<and> length q \<le> length p)"

lemma appends_intro:
  "appends p out (Inl OutOfBounds)"
  "\<exists>t. r = Inr (out @ t) \<Longrightarrow> length q \<le> length p \<Longrightarrow> appends p out (rbind r (\<lambda>s. Inr (q, as, s)))"
  "appends p (out @ t) x \<Longrightarrow> appends p out x"
  by (auto simp: appends_def)

lemma appends_if: "(c \<Longrightarrow> appends p out x) \<Longrightarrow> (\<not> c \<Longrightarrow> appends p out y) \<Longrightarrow> appends p out (if c then x else y)"
  by simp

lemma appends_num:
  assumes "ctl \<in> {PCTL_d, PCTL_x, PCTL_X}" "length q \<le> length p"
  shows "appends p out (case args of AInt n # args \<Rightarrow> rbind (print_padded text_port fl w ctl n out) (\<lambda>s. Inr (q, args, s))
      | _ \<Rightarrow> Inl OutOfBounds)"
  using appends_intro(2) [OF print_padded_text [OF assms(1)] assms(2)]
  by (auto split: list.split fmt_arg.split intro: appends_intro(1))

lemma appends_char:
  assumes "length q \<le> length p"
  shows "appends p out (case args of AInt n # args \<Rightarrow>
      rbind (TRY_PAD text_port fl w (\<lambda>s. rbind (text_port [ucast n] s) (\<lambda>(_, s). Inr s)) out) (\<lambda>s. Inr (q, args, s))
      | _ \<Rightarrow> Inl OutOfBounds)"
proof -
  have "\<exists>t. TRY_PAD text_port fl w (\<lambda>s. rbind (text_port [ucast n] s) (\<lambda>(_, s). Inr s)) out = Inr (out @ t)"
    for n :: u32 by (rule TRY_PAD_text) simp
  from appends_intro(2) [OF this assms] show ?thesis
    by (auto split: list.split fmt_arg.split intro: appends_intro(1))
qed

lemma appends_str:
  assumes "length q \<le> length p"
  shows "appends p out (case args of AStr t # args \<Rightarrow>
      rbind (TRY_PAD text_port fl (w - of_nat (length t)) (write_string text_port t) out) (\<lambda>s. Inr (q, args, s))
      | _ \<Rightarrow> Inl OutOfBounds)"
proof -
  have "\<exists>u. TRY_PAD text_port fl k (write_string text_port t) out = Inr (out @ u)" for k t
    by (rule TRY_PAD_text) simp
  from appends_intro(2) [OF this assms] show ?thesis
    by (auto split: list.split fmt_arg.split intro: appends_intro(1))
qed

lemma specifier_text: "appends p out (specifier text_port fl w p args out)"
proof (cases p)
  case (Cons c q)
  have l: "length q \<le> length p" using Cons by simp
  have hexed: "appends p out (rbind (if b then write_string text_port [48, 120] out else Inr out) (\<lambda>s.
      case args of AInt n # args \<Rightarrow> rbind (print_padded text_port fl w ctl n s) (\<lambda>s. Inr (q, args, s))
      | _ \<Rightarrow> Inl OutOfBounds))" if "ctl \<in> {PCTL_d, PCTL_x, PCTL_X}" for b ctl
    using appends_num [OF that l, of out] appends_intro(3) [OF appends_num [OF that l, of "out @ [48, 120]"]]
    by simp
  have x: "appends p out (Inr (c # q, args, out))" using Cons by (simp add: appends_def)
  have h: "appends p out (rbind (write_string text_port [48, 120] out) (\<lambda>s.
      case args of AInt n # args \<Rightarrow> rbind (print_padded text_port fl w PCTL_X n s) (\<lambda>s. Inr (q, args, s))
      | _ \<Rightarrow> Inl OutOfBounds))" using hexed [of PCTL_X True] by simp
  have "appends p out (specifier text_port fl w (c # q) args out)"
    unfolding specifier_def list.case(2) Let_def
    apply (intro appends_if)
    apply (rule appends_num [OF _ l], simp)
    apply (rule hexed, simp)
    apply (rule hexed, simp)
    apply (rule h)
    apply (rule appends_char [OF l])
    apply (rule appends_str [OF l])
    apply (rule x)
    done
  then show ?thesis using Cons by simp
qed (simp add: specifier_def appends_def)


end
