(* ===== verification/Screen.thy ===== *)
theory Screen
  imports Lib_Std
begin

text \<open>
  lib/ansi.c, the parser of escape codes, and kernel/driver/vga.c, the text screen.  The video
  memory is a function from cell numbers to cells; \<open>screen.buffer\<close> is its start.  The parser
  fills a structure its caller left uninitialised: \<open>ansi\<close> is its contents before.
\<close>

section \<open>Escape codes (ansi.c)\<close>

datatype ansi_tag = ANSI_CURSOR | ANSI_COLOR | ANSI_ERASE

datatype ANSICursor =
  ANSICursor_MOVE | ANSICursor_MOVEX | ANSICursor_UP | ANSICursor_DOWN | ANSICursor_RIGHT
| ANSICursor_LEFT | ANSICursor_REP | ANSICursor_SAVE | ANSICursor_RESTORE

datatype ANSIErase =
  ANSIErase_J | ANSIErase_0J | ANSIErase_1J | ANSIErase_2J | ANSIErase_3J
| ANSIErase_K | ANSIErase_0K | ANSIErase_1K | ANSIErase_2K

text \<open>The union \<open>value\<close>; an \<open>ANSIColor\<close> is the number in the escape code.\<close>

datatype ansi_value = VColor int | VCursor ANSICursor | VErase ANSIErase

abbreviation (input) ANSI_BUFSZ :: nat where "ANSI_BUFSZ \<equiv> 64"

text \<open>\<open>buf_top\<close> is an index into \<open>buf\<close>.\<close>

record ansi_state =
  tag :: ansi_tag
  val :: ansi_value
  abuf :: "int list"
  buf_top :: int

definition arity_check :: "ansi_state \<Rightarrow> int \<Rightarrow> bool" where
  "arity_check s arity \<longleftrightarrow> buf_top s = arity"

definition set_cursor :: "ANSICursor \<Rightarrow> ansi_state \<Rightarrow> ansi_state" where
  "set_cursor v s = s\<lparr>tag := ANSI_CURSOR, val := VCursor v\<rparr>"

text \<open>The two switches on the argument of \<open>J\<close> and \<open>K\<close>.\<close>

definition erase_of :: "(int \<Rightarrow> ANSIErase option) \<Rightarrow> ANSIErase \<Rightarrow> ansi_state \<Rightarrow> ansi_state \<times> bool" where
  "erase_of sel none s =
     (let s = s\<lparr>tag := ANSI_ERASE\<rparr> in
      if arity_check s 0 then (s\<lparr>val := VErase none\<rparr>, True)
      else if arity_check s 1
      then (case sel (abuf s ! 0) of Some v \<Rightarrow> (s\<lparr>val := VErase v\<rparr>, True) | None \<Rightarrow> (s, False))
      else (s, False))"

definition erase_J :: "int \<Rightarrow> ANSIErase option" where
  "erase_J n = (if n = 0 then Some ANSIErase_0J else if n = 1 then Some ANSIErase_1J
     else if n = 2 then Some ANSIErase_2J else if n = 3 then Some ANSIErase_3J else None)"

definition erase_K :: "int \<Rightarrow> ANSIErase option" where
  "erase_K n = (if n = 0 then Some ANSIErase_0K else if n = 1 then Some ANSIErase_1K
     else if n = 2 then Some ANSIErase_2K else None)"

definition set_state :: "ansi_state \<Rightarrow> u8 \<Rightarrow> ansi_state \<times> bool" where
  "set_state s c =
     (if c = 72 then (set_cursor ANSICursor_MOVE s, arity_check s 2 \<or> arity_check s 0)
      else if c = 102 then (set_cursor ANSICursor_MOVEX s, arity_check s 2)
      else if c = 65 then (set_cursor ANSICursor_UP s, arity_check s 1)
      else if c = 66 then (set_cursor ANSICursor_DOWN s, arity_check s 1)
      else if c = 67 then (set_cursor ANSICursor_RIGHT s, arity_check s 1)
      else if c = 68 then (set_cursor ANSICursor_LEFT s, arity_check s 1)
      else if c = 82 then (set_cursor ANSICursor_REP s, arity_check s 1)
      else if c = 115 then (set_cursor ANSICursor_SAVE s, arity_check s 0)
      else if c = 117 then (set_cursor ANSICursor_RESTORE s, arity_check s 0)
      else if c = 74 then erase_of erase_J ANSIErase_J s
      else if c = 75 then erase_of erase_K ANSIErase_K s
      else if c = 109
      then
        let s = s\<lparr>tag := ANSI_COLOR\<rparr> in
        if arity_check s 1 then (s\<lparr>val := VColor (abuf s ! 0)\<rparr>, True) else (s, False)
      else (s, False))"

text \<open>\<open>parse_list\<close>: the stack, its top, the rest of the string.  Nothing keeps the top within
  the stack.  \<open>errno\<close> is whether the global variable is \<open>ERANGE\<close>; \<open>*cbegin\<close> is a pointer and
  never 0.\<close>

function parse_list :: "bool \<Rightarrow> int list \<Rightarrow> nat \<Rightarrow> cstr \<Rightarrow> (int list \<times> nat \<times> cstr) res" where
  "parse_list errno buf sp c =
     (let (n, c, e) = strtol c;
          errno = (errno \<or> e)
      in if n \<noteq> 0 \<or> \<not> errno
         then if sp < length buf
              then
                let buf = buf[sp := n]; sp = sp + 1 in
                if c \<noteq> [] \<and> hd c = 59 then parse_list errno buf sp (tl c) else Inr (buf, sp, c)
              else Inl OutOfBounds
         else Inr (buf, sp, c))"
  by pat_completeness auto

termination
proof (relation "measure (\<lambda>(_, _, _, c). length c)", goal_cases)
  case (2 errno buf sp c x xa y x2 y2 x3 x4 x5)
  then have "strtol c = (xa, x2, y2)" by simp
  then have "length x2 \<le> length c" using strtol_le [of c] by simp
  then show ?case using 2 by (cases x2) auto
qed simp

declare parse_list.simps [simp del]

definition ansi_parse :: "ansi_state \<Rightarrow> cstr \<Rightarrow> (cstr option \<times> ansi_state) res" where
  "ansi_parse state c =
     (case c of
        x # y # c \<Rightarrow>
          if x = 27 \<and> y = 91
          then
            (case c of
               [] \<Rightarrow> Inr (None, state)
             | z # c' \<Rightarrow>
                 if isalpha (sint z)
                 then let (state, ok) = set_state state z in Inr (if ok then Some c' else None, state)
                 else if isdigit (sint z)
                 then
                   rbind (parse_list False (abuf state) 0 c) (\<lambda>(buf, sp, c).
                   let state = state\<lparr>abuf := buf, buf_top := int sp\<rparr> in
                   case c of
                     [] \<Rightarrow> Inr (None, state)
                   | z # c' \<Rightarrow>
                       let (state, ok) = set_state state z in Inr (if ok then Some c' else None, state))
                 else Inr (None, state))
          else Inr (None, state)
      | _ \<Rightarrow> Inr (None, state))"

section \<open>The screen (vga.c)\<close>

record screen =
  row :: u32
  column :: u32
  color :: u8
  cells :: "u32 \<Rightarrow> u16"
  vcursor :: u32

abbreviation (input) VGA_WIDTH :: u32 where "VGA_WIDTH \<equiv> 80"
abbreviation (input) VGA_HEIGHT :: u32 where "VGA_HEIGHT \<equiv> 25"
abbreviation (input) VGA_COLOR_BLACK :: u8 where "VGA_COLOR_BLACK \<equiv> 0"
abbreviation (input) VGA_COLOR_BLUE :: u8 where "VGA_COLOR_BLUE \<equiv> 1"
abbreviation (input) VGA_COLOR_GREEN :: u8 where "VGA_COLOR_GREEN \<equiv> 2"
abbreviation (input) VGA_COLOR_CYAN :: u8 where "VGA_COLOR_CYAN \<equiv> 3"
abbreviation (input) VGA_COLOR_RED :: u8 where "VGA_COLOR_RED \<equiv> 4"
abbreviation (input) VGA_COLOR_LIGHT_MAGENTA :: u8 where "VGA_COLOR_LIGHT_MAGENTA \<equiv> 13"
abbreviation (input) VGA_COLOR_LIGHT_BROWN :: u8 where "VGA_COLOR_LIGHT_BROWN \<equiv> 14"
abbreviation (input) VGA_COLOR_WHITE :: u8 where "VGA_COLOR_WHITE \<equiv> 15"

definition vga_entry_color :: "u8 \<Rightarrow> u8 \<Rightarrow> u8" where
  "vga_entry_color fg bg = fg OR push_bit 4 bg"

definition vga_entry :: "u8 \<Rightarrow> u8 \<Rightarrow> u16" where
  "vga_entry uc col = ucast uc OR push_bit 8 (ucast col)"

definition set_bg_color :: "u8 \<Rightarrow> screen \<Rightarrow> screen" where
  "set_bg_color bg s = s\<lparr>color := color s OR push_bit 4 bg\<rparr>"

definition set_fg_color :: "u8 \<Rightarrow> screen \<Rightarrow> screen" where
  "set_fg_color fg s = s\<lparr>color := vga_entry_color fg (drop_bit 4 (color s))\<rparr>"

definition vga_clear :: "screen \<Rightarrow> screen" where
  "vga_clear s =
     (let s = s\<lparr>row := 0, column := 0\<rparr>
      in s\<lparr>cells := (\<lambda>i. if i < VGA_HEIGHT * VGA_WIDTH then vga_entry 32 (color s) else cells s i)\<rparr>)"

definition newline :: "screen \<Rightarrow> screen" where
  "newline s = s\<lparr>column := 0, row := row s + 1\<rparr>"

definition vga_set_cursor :: "u16 \<Rightarrow> u16 \<Rightarrow> screen \<Rightarrow> screen" where
  "vga_set_cursor x y s = s\<lparr>vcursor := ucast y * VGA_WIDTH + ucast x\<rparr>"

definition vga_set_color :: "u8 \<Rightarrow> screen \<Rightarrow> screen" where
  "vga_set_color c s = s\<lparr>color := c\<rparr>"

definition put_entry_at :: "u8 \<Rightarrow> screen \<Rightarrow> screen" where
  "put_entry_at c s =
     (let x = column s; y = row s
      in s\<lparr>cells := (cells s)(y * VGA_WIDTH + x := vga_entry c (color s))\<rparr>)"

definition vga_putchar :: "u8 \<Rightarrow> screen \<Rightarrow> screen" where
  "vga_putchar c s =
     (let s = (if VGA_HEIGHT < row s then vga_clear s else s) in
      if c = 10 then newline s
      else
        let s = put_entry_at c s;
            s = s\<lparr>column := column s + 1\<rparr>
        in if column s = VGA_WIDTH
           then
             let s = s\<lparr>column := 0, row := row s + 1\<rparr>
             in if row s = VGA_HEIGHT then s\<lparr>row := 0\<rparr> else s
           else s)"

definition ansi_cntl :: "ansi_state \<Rightarrow> screen \<Rightarrow> screen" where
  "ansi_cntl ansi s =
     (case tag ansi of
        ANSI_COLOR \<Rightarrow>
          (case val ansi of
             VColor n \<Rightarrow>
               if n = 40 then set_bg_color VGA_COLOR_BLACK s
               else if n = 41 then set_bg_color VGA_COLOR_RED s
               else if n = 42 then set_bg_color VGA_COLOR_GREEN s
               else if n = 43 then set_bg_color VGA_COLOR_LIGHT_BROWN s
               else if n = 44 then set_bg_color VGA_COLOR_BLUE s
               else if n = 45 then set_bg_color VGA_COLOR_LIGHT_MAGENTA s
               else if n = 46 then set_bg_color VGA_COLOR_CYAN s
               else if n = 47 then set_bg_color VGA_COLOR_WHITE s
               else if n = 49 then set_bg_color VGA_COLOR_BLACK s
               else if n = 30 then set_fg_color VGA_COLOR_BLACK s
               else if n = 31 then set_fg_color VGA_COLOR_RED s
               else if n = 32 then set_fg_color VGA_COLOR_GREEN s
               else if n = 33 then set_fg_color VGA_COLOR_LIGHT_BROWN s
               else if n = 34 then set_fg_color VGA_COLOR_BLUE s
               else if n = 35 then set_fg_color VGA_COLOR_LIGHT_MAGENTA s
               else if n = 36 then set_fg_color VGA_COLOR_CYAN s
               else if n = 37 then set_fg_color VGA_COLOR_WHITE s
               else if n = 39 then set_fg_color VGA_COLOR_WHITE s
               else if n = 0 then s\<lparr>color := vga_entry_color VGA_COLOR_WHITE VGA_COLOR_BLACK\<rparr>
               else s
           | _ \<Rightarrow> s)
      | ANSI_CURSOR \<Rightarrow> s
      | ANSI_ERASE \<Rightarrow> s)"

text \<open>\<open>vga_writec\<close>: a pointer past the NUL, \<open>None\<close>, comes back when an escape code ends the string.\<close>

definition vga_writec :: "ansi_state \<Rightarrow> screen putchar" where
  "vga_writec ansi data s =
     rbind (if data \<noteq> [] \<and> hd data = 27
            then
              rbind (ansi_parse ansi data) (\<lambda>(p, ansi).
              case p of Some q \<Rightarrow> Inr (q, ansi_cntl ansi s) | None \<Rightarrow> Inr (data, s))
            else Inr (data, s)) (\<lambda>(data, s).
     case data of
       [] \<Rightarrow> Inr (None, vga_putchar 0 s)
     | c # q \<Rightarrow> Inr (Some q, vga_putchar c s))"

definition vga_vprintf :: "ansi_state \<Rightarrow> cstr \<Rightarrow> fmt_arg list \<Rightarrow> screen \<Rightarrow> screen res" where
  "vga_vprintf ansi fmt args s = format (vga_writec ansi) fmt args s"

definition vga_init :: "ansi_state \<Rightarrow> screen \<Rightarrow> screen res" where
  "vga_init ansi s =
     (let s = s\<lparr>row := 0, column := 0, color := vga_entry_color VGA_COLOR_WHITE VGA_COLOR_BLACK\<rparr>;
          s = vga_clear s
      in vga_vprintf ansi [109, 101, 108, 111, 110, 111, 115, 32, 48, 46, 48, 46, 49, 10] [] s)"

section \<open>Escape codes with parameters\<close>

definition dec_text :: "u32 \<Rightarrow> cstr" where
  "dec_text n = (case int_text (PCTL_d True) n of Inr t \<Rightarrow> t | Inl _ \<Rightarrow> [])"

fun params :: "u32 list \<Rightarrow> cstr" where
  "params [] = []"
| "params [n] = dec_text n"
| "params (n # m # ns) = dec_text n @ 59 # params (m # ns)"

lemma dec_text_read:
  assumes "0 \<le> sint n" "ends_number rest"
  shows "strtol (dec_text n @ rest) = (sint n, rest, False)" "dec_text n \<noteq> []" "isdigit (sint (hd (dec_text n)))"
proof -
  obtain cs where cs: "digit_loop 31 (PCTL_d True) n = Inr cs" using digits_fit by blast
  have D: "dec_ctl (PCTL_d True)" by (simp add: dec_ctl_def PCTL_d_def)
  note facts = digit_loop_dec [OF D cs]
  have t: "dec_text n = rev cs" using cs assms(1) by (simp add: dec_text_def int_text_def)
  show "strtol (dec_text n @ rest) = (sint n, rest, False)" using read_digits [OF cs assms(2)] t by simp
  show "dec_text n \<noteq> []" using facts t by simp
  show "isdigit (sint (hd (dec_text n)))"
    using facts t digit_cases(1) by (metis hd_rev last_in_set)
qed

fun store_all :: "int list \<Rightarrow> nat \<Rightarrow> int list \<Rightarrow> int list" where
  "store_all buf k [] = buf"
| "store_all buf k (x # xs) = store_all (buf[k := x]) (k + 1) xs"

lemma parse_params:
  assumes "ns \<noteq> []" "\<forall>n \<in> set ns. 0 \<le> sint n" "ends_number (z # rest)" "z \<noteq> 59"
  shows "parse_list False buf k (params ns @ z # rest) =
    (if k + length ns \<le> length buf then Inr (store_all buf k (map sint ns), k + length ns, z # rest) else Inl OutOfBounds)"
  using assms(1,2)
proof (induction ns arbitrary: buf k rule: params.induct)
  case (2 n)
  have "strtol (dec_text n @ z # rest) = (sint n, z # rest, False)"
    by (rule dec_text_read) (use 2 assms in auto)
  then show ?case using assms(4) by (subst parse_list.simps) (auto simp: Let_def)
next
  case (3 n m ns)
  have "strtol (dec_text n @ 59 # params (m # ns) @ z # rest) = (sint n, 59 # params (m # ns) @ z # rest, False)"
    by (rule dec_text_read) (use 3 in \<open>auto simp: ends_number_def isdigit_def\<close>)
  then show ?case using 3 by (subst parse_list.simps) (auto simp: Let_def)
qed simp

lemma color_code:
  assumes "0 \<le> sint n" "length (abuf st) = 64"
  shows "\<exists>st'. ansi_parse st (27 # 91 # dec_text n @ 109 # rest) = Inr (Some rest, st') \<and>
    tag st' = ANSI_COLOR \<and> val st' = VColor (sint n)"
proof -
  obtain d ds where d: "dec_text n = d # ds" "isdigit (sint d)"
    using dec_text_read [of n "[]"] assms(1) by (cases "dec_text n") (auto simp: ends_number_def)
  have na: "\<not> isalpha (sint d)" using d(2) by (auto simp: isalpha_def isdigit_def isupper_def islower_def)
  have e: "ends_number (109 # rest)" by (simp add: ends_number_def isdigit_def)
  have "parse_list False (abuf st) 0 (d # ds @ 109 # rest) = Inr ((abuf st)[0 := sint n], 1, 109 # rest)"
    using parse_params [of "[n]" 109 rest "abuf st" 0] e assms d(1) by simp
  then show ?thesis
    using d na assms(2) by (simp add: ansi_parse_def set_state_def arity_check_def Let_def)
qed

text \<open>Colour escape codes.  \<open>ESC [ n m\<close> is recognised for every number \<open>n\<close> and leaves the pointer
  right behind it; with two to 64 numbers separated by semicolons it is rejected; and with
  more than 64 the numbers are stored past the end of the buffer of the parser.\<close>
theorem ansi_parse_params:
  assumes "ns \<noteq> []" "\<forall>n \<in> set ns. 0 \<le> sint n" "length (abuf st) = ANSI_BUFSZ"
  shows "(length ns = 1 \<longrightarrow> (\<exists>st'. ansi_parse st (27 # 91 # params ns @ 109 # rest) = Inr (Some rest, st') \<and>
           tag st' = ANSI_COLOR \<and> val st' = VColor (sint (hd ns)))) \<and>
         (1 < length ns \<and> length ns \<le> ANSI_BUFSZ \<longrightarrow>
           (\<exists>st'. ansi_parse st (27 # 91 # params ns @ 109 # rest) = Inr (None, st'))) \<and>
         (ANSI_BUFSZ < length ns \<longrightarrow> ansi_parse st (27 # 91 # params ns @ 109 # rest) = Inl OutOfBounds)"
proof -
  have e: "ends_number (109 # rest)" by (simp add: ends_number_def isdigit_def)
  obtain n ns' where n: "ns = n # ns'" using assms(1) by (cases ns) auto
  have hd: "isdigit (sint (hd (dec_text n)))" "dec_text n \<noteq> []"
    using dec_text_read [of n "[]"] assms(2) n by (auto simp: ends_number_def)
  obtain d ds where d: "params ns @ 109 # rest = d # ds" "isdigit (sint d)"
    using hd n by (cases ns'; cases "dec_text n") auto
  have na: "\<not> isalpha (sint d)" using d(2) by (auto simp: isalpha_def isdigit_def isupper_def islower_def)
  have p: "ansi_parse st (27 # 91 # params ns @ 109 # rest) =
      rbind (parse_list False (abuf st) 0 (params ns @ 109 # rest)) (\<lambda>(buf, top, c).
        let state = st\<lparr>abuf := buf, buf_top := int top\<rparr> in
        case c of [] \<Rightarrow> Inr (None, state)
        | z # c' \<Rightarrow> let (state, ok) = set_state state z in Inr (if ok then Some c' else None, state))"
    unfolding ansi_parse_def d(1) using d(2) na by simp
  have pl: "parse_list False (abuf st) 0 (params ns @ 109 # rest) =
      (if length ns \<le> 64 then Inr (store_all (abuf st) 0 (map sint ns), length ns, 109 # rest) else Inl OutOfBounds)"
    using parse_params [OF assms(1,2) e, of "abuf st" 0] assms(3) by simp
  have "length ns = 1 \<longrightarrow> (\<exists>st'. ansi_parse st (27 # 91 # params ns @ 109 # rest) = Inr (Some rest, st') \<and>
           tag st' = ANSI_COLOR \<and> val st' = VColor (sint (hd ns)))"
    using assms(3) n unfolding p pl by (auto simp: set_state_def arity_check_def Let_def)
  moreover have "1 < length ns \<and> length ns \<le> ANSI_BUFSZ \<longrightarrow>
           (\<exists>st'. ansi_parse st (27 # 91 # params ns @ 109 # rest) = Inr (None, st'))"
    using assms(3) unfolding p pl by (auto simp: set_state_def arity_check_def Let_def)
  moreover have "ANSI_BUFSZ < length ns \<longrightarrow> ansi_parse st (27 # 91 # params ns @ 109 # rest) = Inl OutOfBounds"
    using assms(3) unfolding p pl by simp
  ultimately show ?thesis by blast
qed

definition ansi0 :: ansi_state where
  "ansi0 = \<lparr>tag = ANSI_CURSOR, val = VCursor ANSICursor_MOVE, abuf = replicate 64 0, buf_top = 0\<rparr>"

theorem ansi_parse_params_witness:
  "\<exists>st'. ansi_parse ansi0 (27 # 91 # params [32] @ 109 # [111, 107]) = Inr (Some [111, 107], st') \<and>
     tag st' = ANSI_COLOR \<and> val st' = VColor (sint (hd [32 :: u32]))"
proof -
  have h: "[32 :: u32] \<noteq> []" "\<forall>n \<in> set [32 :: u32]. 0 \<le> sint n" "length (abuf ansi0) = 64"
    by (simp_all add: ansi0_def)
  show ?thesis using ansi_parse_params [OF h, of "[111, 107]"] by simp
qed

section \<open>The bounds of the screen\<close>

definition screen_ok :: "screen \<Rightarrow> bool" where
  "screen_ok s \<longleftrightarrow> column s < 80 \<and> row s \<le> 26"

lemma cell_index:
  assumes "column s < 80" "row s \<le> 25"
  shows "row s * 80 + column s < (2080 :: u32)"
proof -
  have "unat (column s) < 80" "unat (row s) \<le> 25"
    using assms by (simp_all add: word_less_nat_alt word_le_nat_alt)
  moreover have "unat (row s * 80 + column s) = unat (row s) * 80 + unat (column s)"
    using calculation by (simp add: unat_word_ariths)
  ultimately show ?thesis by (simp add: word_less_nat_alt)
qed

lemma clear_ok:
  "row (vga_clear s) = 0" "column (vga_clear s) = 0"
  "2080 \<le> i \<Longrightarrow> cells (vga_clear s) i = cells s i"
proof -
  have "\<not> i < 2000" if "2080 \<le> (i :: u32)" using that by (simp add: word_less_nat_alt word_le_nat_alt)
  then show "row (vga_clear s) = 0" "column (vga_clear s) = 0" "2080 \<le> i \<Longrightarrow> cells (vga_clear s) i = cells s i"
    by (simp_all add: vga_clear_def Let_def)
qed

lemma step_row:
  fixes r :: u32
  assumes "r \<le> 25"
  shows "r \<le> 26" "r + 1 \<le> 26"
  using assms by (simp_all add: word_le_nat_alt unat_word_ariths)

lemma step_column:
  fixes c :: u32
  assumes "c < 80" "c + 1 \<noteq> 80"
  shows "c + 1 < 80"
proof -
  have "unat c < 80" using assms(1) by (simp add: word_less_nat_alt)
  moreover have u: "unat (c + 1) = unat c + 1" using calculation by (simp add: unat_word_ariths)
  moreover have "unat (c + 1) \<noteq> unat (80 :: u32)" using assms(2) unfolding word_unat_eq_iff .
  ultimately show ?thesis unfolding word_less_nat_alt by simp
qed

text \<open>\<open>vga_putchar\<close> once the screen is cleared if necessary.\<close>

definition put_and_advance :: "u8 \<Rightarrow> screen \<Rightarrow> screen" where
  "put_and_advance c s =
     (if c = 10 then newline s
      else
        let s = put_entry_at c s;
            s = s\<lparr>column := column s + 1\<rparr>
        in if column s = VGA_WIDTH
           then
             let s = s\<lparr>column := 0, row := row s + 1\<rparr>
             in if row s = VGA_HEIGHT then s\<lparr>row := 0\<rparr> else s
           else s)"

lemma vga_putchar_alt: "vga_putchar c s = put_and_advance c (if 25 < row s then vga_clear s else s)"
  by (simp add: vga_putchar_def put_and_advance_def Let_def)

lemma put_and_advance_bounds:
  assumes "column s < 80" "row s \<le> 25"
  shows "screen_ok (put_and_advance c s)" "2080 \<le> i \<Longrightarrow> cells (put_and_advance c s) i = cells s i"
    "c \<noteq> 10 \<Longrightarrow> cells (put_and_advance c s) (row s * 80 + column s) = vga_entry c (color s)"
proof -
  show "screen_ok (put_and_advance c s)"
    using step_row [OF assms(2)] step_column [OF assms(1)] assms(1,2)
    by (auto simp: put_and_advance_def screen_ok_def newline_def put_entry_at_def Let_def)
  have "i \<noteq> row s * 80 + column s" if "2080 \<le> i"
    using that cell_index [OF assms] by auto
  then show "2080 \<le> i \<Longrightarrow> cells (put_and_advance c s) i = cells s i"
    by (auto simp: put_and_advance_def newline_def put_entry_at_def Let_def)
  show "c \<noteq> 10 \<Longrightarrow> cells (put_and_advance c s) (row s * 80 + column s) = vga_entry c (color s)"
    by (auto simp: put_and_advance_def put_entry_at_def Let_def)
qed

text \<open>Where the screen writes.  A character never moves the position beyond column 79 or row 26
  and never touches a cell from 2080 on.  The screen has 2000 cells: in row 25, which a newline
  in the last row reaches and which \<open>vga_putchar\<close> does not clear, a character is written
  behind them.\<close>
theorem vga_putchar_bounds:
  assumes "screen_ok s"
  shows "screen_ok (vga_putchar c s) \<and> (\<forall>i. 2080 \<le> i \<longrightarrow> cells (vga_putchar c s) i = cells s i) \<and>
    (row s = 25 \<and> c \<noteq> 10 \<longrightarrow> cells (vga_putchar c s) (2000 + column s) = vga_entry c (color s))"
proof (cases "25 < row s")
  case True
  have "column (vga_clear s) < 80" "row (vga_clear s) \<le> 25" by (simp_all add: clear_ok)
  from put_and_advance_bounds [OF this] show ?thesis using True clear_ok(3) by (auto simp: vga_putchar_alt)
next
  case False
  have "column s < 80" "row s \<le> 25" using assms False by (simp_all add: screen_ok_def)
  from put_and_advance_bounds [OF this] show ?thesis using False by (auto simp: vga_putchar_alt)
qed

definition screen0 :: screen where
  "screen0 = \<lparr>row = 25, column = 3, color = 15, cells = (\<lambda>_. 0), vcursor = 0\<rparr>"

theorem vga_putchar_bounds_witness:
  "screen_ok screen0 \<and> screen_ok (vga_putchar 65 screen0) \<and> cells (vga_putchar 65 screen0) 2003 = vga_entry 65 15"
  using vga_putchar_bounds [of screen0 65] by (simp add: screen_ok_def screen0_def)

text \<open>A format string that ends in a colour escape code.  \<open>vga_writec\<close> consumes the code and then
  prints the character behind it, here the NUL, so \<open>format\<close> goes on reading behind the end of
  the string.\<close>
theorem trailing_escape_overruns:
  assumes "0 \<le> sint n" "length (abuf ansi) = ANSI_BUFSZ"
  shows "vga_vprintf ansi (27 # 91 # dec_text n @ [109]) args s = Inl OutOfBounds"
proof -
  obtain st' where st: "ansi_parse ansi (27 # 91 # dec_text n @ [109]) = Inr (Some [], st')"
    using color_code [OF assms, of "[]"] by blast
  then have w: "vga_writec ansi (27 # 91 # dec_text n @ [109]) s = Inr (None, vga_putchar 0 (ansi_cntl st' s))"
    by (simp add: vga_writec_def)
  show ?thesis by (simp add: vga_vprintf_def format_def w)
qed

theorem trailing_escape_overruns_witness:
  "vga_vprintf ansi0 (27 # 91 # dec_text 0 @ [109]) [] screen0 = Inl OutOfBounds"
  by (rule trailing_escape_overruns) (simp_all add: ansi0_def)

end
