(* ===== verification/Serial.thy ===== *)
theory Serial
  imports Lib_Std Pipe
begin

text \<open>
  kernel/driver/uart.c: the serial ports.  The chip is a log of the bytes written to its
  registers (\<open>outs\<close>), the bytes that have arrived (\<open>rx\<close>), the number of polls of the line
  status after which the transmitter is ready again (\<open>busy\<close>, \<open>delay\<close> after a byte), and whether
  it passes its self test.  The input buffers of the two ports and the buffer of the
  keyboard driver are rings of the same shape.
\<close>

section \<open>The ring of 256 entries\<close>

record 'a ring =
  rdata :: "'a list"
  rhead :: u32
  rtail :: u32

abbreviation (input) BUF_SZ :: nat where "BUF_SZ \<equiv> 256"

definition ring_empty :: "'a ring \<Rightarrow> bool" where
  "ring_empty b \<longleftrightarrow> rhead b = rtail b"

text \<open>\<open>buffer_full\<close>: the remainder of the constant 1 is taken, not that of the sum.\<close>

definition ring_full :: "'a ring \<Rightarrow> bool" where
  "ring_full b \<longleftrightarrow> rhead b = rtail b + 1 mod of_nat BUF_SZ"

definition ring_store :: "'a \<Rightarrow> 'a ring \<Rightarrow> 'a ring" where
  "ring_store v b = b\<lparr>rdata := (rdata b)[unat (rtail b) mod BUF_SZ := v], rtail := rtail b + 1\<rparr>"

definition ring_put :: "'a \<Rightarrow> 'a ring \<Rightarrow> bool \<times> 'a ring" where
  "ring_put v b = (if ring_full b then (False, b) else (True, ring_store v b))"

definition ring_fetch :: "'a ring \<Rightarrow> 'a \<times> 'a ring" where
  "ring_fetch b = (rdata b ! (unat (rhead b) mod BUF_SZ), b\<lparr>rhead := rhead b + 1\<rparr>)"

definition ring_get :: "'a ring \<Rightarrow> 'a option \<times> 'a ring" where
  "ring_get b = (if ring_empty b then (None, b) else let (v, b) = ring_fetch b in (Some v, b))"

section \<open>The driver\<close>

abbreviation (input) COM1 :: u16 where "COM1 \<equiv> 0x3f8"
abbreviation (input) COM2 :: u16 where "COM2 \<equiv> 0x2f8"

record uart =
  outs :: "(u16 \<times> u8) list"
  rx :: "u16 \<Rightarrow> u8 list"
  busy :: nat
  delay :: nat
  healthy :: bool
  com1_buffer :: "u8 ring"
  com2_buffer :: "u8 ring"

definition get_buffer :: "u16 \<Rightarrow> uart \<Rightarrow> u8 ring option" where
  "get_buffer com u = (if com = COM1 then Some (com1_buffer u) else if com = COM2 then Some (com2_buffer u) else None)"

definition set_buffer :: "u16 \<Rightarrow> u8 ring \<Rightarrow> uart \<Rightarrow> uart" where
  "set_buffer com b u = (if com = COM1 then u\<lparr>com1_buffer := b\<rparr> else u\<lparr>com2_buffer := b\<rparr>)"

definition buffer_empty :: "u16 \<Rightarrow> uart \<Rightarrow> bool res" where
  "buffer_empty com u = (case get_buffer com u of None \<Rightarrow> Inl OutOfBounds | Some b \<Rightarrow> Inr (ring_empty b))"

definition buffer_full :: "u16 \<Rightarrow> uart \<Rightarrow> bool res" where
  "buffer_full com u = (case get_buffer com u of None \<Rightarrow> Inl OutOfBounds | Some b \<Rightarrow> Inr (ring_full b))"

definition buffer_put :: "u16 \<Rightarrow> u8 \<Rightarrow> uart \<Rightarrow> (bool \<times> uart) res" where
  "buffer_put com v u =
     (case get_buffer com u of None \<Rightarrow> Inl OutOfBounds
      | Some b \<Rightarrow>
          rbind (buffer_full com u) (\<lambda>full.
          if full then Inr (False, u) else Inr (True, set_buffer com (ring_store v b) u)))"

definition buffer_get :: "u16 \<Rightarrow> uart \<Rightarrow> (u8 option \<times> uart) res" where
  "buffer_get com u =
     (case get_buffer com u of None \<Rightarrow> Inl OutOfBounds
      | Some b \<Rightarrow>
          rbind (buffer_empty com u) (\<lambda>empt.
          if empt then Inr (None, u) else let (v, b) = ring_fetch b in Inr (Some v, set_buffer com b u)))"

definition out_b :: "u16 \<Rightarrow> u8 \<Rightarrow> uart \<Rightarrow> uart" where
  "out_b port v u = u\<lparr>outs := outs u @ [(port, v)]\<rparr>"

text \<open>Reading the line status register: bit 0 is data received, bit 5 transmitter ready.\<close>

definition line_status :: "u16 \<Rightarrow> uart \<Rightarrow> u8 \<times> uart" where
  "line_status com u =
     ((if rx u com \<noteq> [] then 1 else 0) OR (if busy u = 0 then 0x20 else 0), u\<lparr>busy := busy u - 1\<rparr>)"

definition init_serial :: "u16 \<Rightarrow> uart \<Rightarrow> bool \<times> uart" where
  "init_serial com u =
     (let u = fold (\<lambda>(r, v). out_b (com + r) v)
            [(1, 0x00), (3, 0x80), (0, 0x03), (1, 0x00), (3, 0x03), (2, 0xC7), (4, 0x0B), (4, 0x1E), (0, 0xAE)] u;
          echo = (if healthy u then 0xAE else 0 :: u8)
      in if echo \<noteq> 0xAE then (False, u)
         else (True, out_b (com + 4) 0x0F (out_b (com + 1) 0x01 u)))"

definition uart_init :: "u16 \<Rightarrow> uart \<Rightarrow> uart res" where
  "uart_init com u = (let (ok, u) = init_serial com u in if \<not> ok then Inl (Panic ''init serial'') else Inr u)"

definition is_transmit_empty :: "u16 \<Rightarrow> uart \<Rightarrow> u8 \<times> uart" where
  "is_transmit_empty com u = (let (s, u) = line_status com u in (s AND 0x20, u))"

definition serial_received :: "u16 \<Rightarrow> uart \<Rightarrow> u8 \<times> uart" where
  "serial_received com u = (let (s, u) = line_status com u in (s AND 1, u))"

text \<open>The interrupt handler reads a byte that has arrived; otherwise it would poll for ever.\<close>

definition read_serial :: "u16 \<Rightarrow> uart \<Rightarrow> (u8 \<times> uart) res" where
  "read_serial com u =
     (let (s, u) = serial_received com u in
      if s = 0 then Inl Hang
      else Inr (hd (rx u com), u\<lparr>rx := (rx u)(com := tl (rx u com))\<rparr>))"

function wait_transmit :: "u16 \<Rightarrow> uart \<Rightarrow> uart" where
  "wait_transmit com u = (let (s, u) = is_transmit_empty com u in if s = 0 then wait_transmit com u else u)"
  by pat_completeness auto

termination
  by (relation "measure (\<lambda>(_, u). busy u)") (auto simp: is_transmit_empty_def line_status_def Let_def split: if_splits)

declare wait_transmit.simps [simp del]

definition write_serial :: "u16 \<Rightarrow> u8 \<Rightarrow> uart \<Rightarrow> uart" where
  "write_serial com a u = (let u = wait_transmit com u in (out_b com a u)\<lparr>busy := delay u\<rparr>)"

definition uart_read :: "u16 \<Rightarrow> uart \<Rightarrow> uart res" where
  "uart_read com u =
     rbind (read_serial com u) (\<lambda>(c, u).
     rbind (buffer_put com c u) (\<lambda>(_, u). Inr u))"

definition uart_getc :: "u16 \<Rightarrow> uart \<Rightarrow> (u8 \<times> uart) res" where
  "uart_getc com u =
     rbind (buffer_get com u) (\<lambda>(c, u).
     case c of Some v \<Rightarrow> Inr (v, u) | None \<Rightarrow> Inr (- 1, u))"

definition uart_putc :: "u16 \<Rightarrow> u8 \<Rightarrow> uart \<Rightarrow> uart" where
  "uart_putc com c u = write_serial com c u"

fun uart_putc_com1 :: "uart putchar" where
  "uart_putc_com1 [] u = Inr (None, uart_putc COM1 0 u)"
| "uart_putc_com1 (c # p) u = Inr (Some p, uart_putc COM1 c u)"

fun uart_putc_com2 :: "uart putchar" where
  "uart_putc_com2 [] u = Inr (None, uart_putc COM2 0 u)"
| "uart_putc_com2 (c # p) u = Inr (Some p, uart_putc COM2 c u)"

definition uart_vprintf :: "u16 \<Rightarrow> cstr \<Rightarrow> fmt_arg list \<Rightarrow> uart \<Rightarrow> uart res" where
  "uart_vprintf com fmt args u =
     (if com = COM1 then format uart_putc_com1 fmt args u
      else if com = COM2 then format uart_putc_com2 fmt args u
      else Inl (Panic ''invalid uart port''))"

section \<open>Printing\<close>

text \<open>The port after the bytes \<open>t\<close> were transmitted.\<close>

definition transmitted :: "u16 \<Rightarrow> uart \<Rightarrow> cstr \<Rightarrow> uart" where
  "transmitted com u t =
     (if t = [] then u else u\<lparr>outs := outs u @ map (Pair com) t, busy := delay u\<rparr>)"

lemma wait_transmit_ready: "wait_transmit com u = u\<lparr>busy := 0\<rparr>"
proof (induction "busy u" arbitrary: u)
  case 0
  then show ?case
    by (subst wait_transmit.simps) (auto simp: is_transmit_empty_def line_status_def)
next
  case (Suc n)
  have "wait_transmit com u = wait_transmit com (u\<lparr>busy := busy u - 1\<rparr>)"
    using Suc(2) by (subst wait_transmit.simps) (auto simp: is_transmit_empty_def line_status_def)
  also have "\<dots> = u\<lparr>busy := 0\<rparr>" using Suc(1) [of "u\<lparr>busy := busy u - 1\<rparr>"] Suc(2) by simp
  finally show ?case .
qed

lemma uart_putc_transmitted: "uart_putc com c (transmitted com u t) = transmitted com u (t @ [c])"
  by (simp add: uart_putc_def write_serial_def wait_transmit_ready out_b_def transmitted_def Let_def)

interpretation com1: port_refinement text_port uart_putc_com1 "transmitted COM1 u" for u
  by unfold_locales (auto simp: neq_Nil_conv uart_putc_transmitted)

interpretation com2: port_refinement text_port uart_putc_com2 "transmitted COM2 u" for u
  by unfold_locales (auto simp: neq_Nil_conv uart_putc_transmitted)

text \<open>Printing on a serial port sends exactly the text that \<open>format\<close> produces, in order, however long
  the transmitter takes for each byte; on any other port it panics.\<close>
theorem uart_vprintf_sends:
  "(com = COM1 \<or> com = COM2 \<longrightarrow> uart_vprintf com fmt args u = rmap (transmitted com u) (format text_port fmt args [])) \<and>
   (com \<noteq> COM1 \<and> com \<noteq> COM2 \<longrightarrow> uart_vprintf com fmt args u = Inl (Panic ''invalid uart port''))"
  using com1.sim_format [where u = u and fmt = fmt and args = args and s = "[]"]
    com2.sim_format [where u = u and fmt = fmt and args = args and s = "[]"]
  by (auto simp: uart_vprintf_def transmitted_def [of _ _ "[]"])

definition uart0 :: uart where
  "uart0 = \<lparr>outs = [], rx = (\<lambda>_. []), busy = 2, delay = 3, healthy = True,
     com1_buffer = \<lparr>rdata = replicate 256 0, rhead = 0, rtail = 0\<rparr>,
     com2_buffer = \<lparr>rdata = replicate 256 0, rhead = 0, rtail = 0\<rparr>\<rparr>"

theorem uart_vprintf_sends_witness:
  "COM1 = 0x3f8 \<and> uart_vprintf COM1 [104, 105] [] uart0 = Inr (transmitted COM1 uart0 [104, 105])"
  using uart_vprintf_sends [of COM1 "[104, 105]" "[]" uart0] by (simp add: format_def)

section \<open>The ring as a queue\<close>

definition ring_len :: "'a ring \<Rightarrow> nat" where
  "ring_len b = unat (rtail b - rhead b)"

definition ring_view :: "'a ring \<Rightarrow> 'a list" where
  "ring_view b = ring_entries BUF_SZ (rdata b) (unat (rhead b)) (ring_len b)"

definition ring_ok :: "'a ring \<Rightarrow> bool" where
  "ring_ok b \<longleftrightarrow> length (rdata b) = BUF_SZ \<and> ring_len b \<le> BUF_SZ"

definition ring_at_cap :: "'a ring \<Rightarrow> bool" where
  "ring_at_cap b \<longleftrightarrow> ring_len b = BUF_SZ"

lemma ring_view_len [simp]: "length (ring_view b) = ring_len b"
  by (simp add: ring_view_def)

lemma ring_empty_len: "ring_empty b \<longleftrightarrow> ring_len b = 0"
  by (auto simp: ring_empty_def ring_len_def unat_eq_0)

lemma ring_len_fetch: "\<not> ring_empty b \<Longrightarrow> ring_len b = Suc (ring_len (snd (ring_fetch b)))"
  using counter_gap_get [of "rhead b" "rtail b"] by (simp add: ring_len_def ring_fetch_def ring_empty_def)

lemma ring_len_store: "ring_ok b \<Longrightarrow> ring_len (ring_store v b) = Suc (ring_len b)"
  using counter_gap_put [of "rtail b" "rhead b"] by (auto simp: ring_len_def ring_store_def ring_ok_def)

interpretation rq: byte_queue ring_ok ring_view BUF_SZ ring_store ring_fetch ring_empty ring_at_cap
proof
  fix q :: "'a ring" and b
  assume q: "ring_ok q" "\<not> ring_at_cap q"
  show "ring_ok (ring_store b q)"
    using q ring_len_store [OF q(1), of b] by (auto simp: ring_ok_def ring_at_cap_def ring_store_def)
  have n: "unat (rtail q) mod 256 = (unat (rhead q) + ring_len q) mod 256"
    using counter_gap [of 256 "rtail q" "rhead q"] by (simp add: ring_len_def)
  have l: "length (rdata q) = 256" "ring_len q < 256" using q by (auto simp: ring_ok_def ring_at_cap_def)
  show "ring_view (ring_store b q) = ring_view q @ [b]"
    unfolding ring_view_def ring_len_store [OF q(1)]
    using ring_entries_put [OF l n, of b] by (simp add: ring_store_def)
next
  fix q :: "'a ring"
  assume q: "ring_ok q" "\<not> ring_empty q"
  show "ring_ok (snd (ring_fetch q))" using q(1) ring_len_fetch [OF q(2)] by (auto simp: ring_ok_def ring_fetch_def)
  have "unat (rhead q + 1) mod 256 = Suc (unat (rhead q)) mod 256" using counter_mod [of 256 "rhead q" 1] by simp
  from ring_entries_get [OF this, of "rdata q" "ring_len (snd (ring_fetch q))"]
  show "ring_view q = fst (ring_fetch q) # ring_view (snd (ring_fetch q))"
    unfolding ring_view_def ring_len_fetch [OF q(2)] by (simp add: ring_fetch_def)
qed (auto simp: ring_empty_len ring_at_cap_def ring_ok_def simp flip: length_0_conv)

lemma ring_full_never:
  assumes "ring_ok b"
  shows "\<not> ring_full b"
proof
  assume "ring_full b"
  then have "rtail b - rhead b = - 1" by (simp add: ring_full_def word_eq_iff_unsigned)
  then show False using assms by (simp add: ring_ok_def ring_len_def)
qed

lemma ring_at_cap_index:
  assumes "ring_at_cap b"
  shows "unat (rtail b) mod 256 = unat (rhead b) mod 256"
  using assms counter_gap [of 256 "rtail b" "rhead b"] by (simp add: ring_at_cap_def ring_len_def)

text \<open>The input buffer of a serial port is a queue as long as no more than 256 characters wait in
  it: what arrives is put at its end and \<open>uart_getc\<close> takes the oldest.  It is never found to
  be full; the character that arrives when 256 wait overwrites the oldest one, and
  \<open>uart_getc\<close> delivers the new character in its place.\<close>
theorem uart_buffer_queue:
  assumes "get_buffer com u = Some b" "ring_ok b"
  shows "(ring_len b < BUF_SZ \<longrightarrow> (\<exists>b'. buffer_put com v u = Inr (True, set_buffer com b' u) \<and> ring_ok b' \<and>
            ring_view b' = ring_view b @ [v])) \<and>
    (ring_view b = c # cs \<longrightarrow> (\<exists>b'. uart_getc com u = Inr (c, set_buffer com b' u) \<and> ring_ok b' \<and> ring_view b' = cs)) \<and>
    (ring_view b = [] \<longrightarrow> uart_getc com u = Inr (- 1, u)) \<and>
    (ring_len b = BUF_SZ \<longrightarrow> (\<exists>u'. buffer_put com v u = Inr (True, u') \<and> (\<exists>u''. uart_getc com u' = Inr (v, u''))))"
proof -
  have nf: "\<not> ring_full b" by (rule ring_full_never [OF assms(2)])
  have put: "buffer_put com v u = Inr (True, set_buffer com (ring_store v b) u)"
    using assms(1) nf by (simp add: buffer_put_def buffer_full_def)
  have get: "uart_getc com u = (if ring_empty b then Inr (- 1, u)
      else Inr (fst (ring_fetch b), set_buffer com (snd (ring_fetch b)) u))"
    using assms(1) by (simp add: uart_getc_def buffer_get_def buffer_empty_def case_prod_unfold Let_def)
  have 1: "\<exists>b'. buffer_put com v u = Inr (True, set_buffer com b' u) \<and> ring_ok b' \<and> ring_view b' = ring_view b @ [v]"
    if "ring_len b < 256"
    using put rq.put_ok [OF assms(2)] rq.put_view [OF assms(2)] that by (auto simp: ring_at_cap_def)
  have 2: "\<exists>b'. uart_getc com u = Inr (c, set_buffer com b' u) \<and> ring_ok b' \<and> ring_view b' = cs"
    if "ring_view b = c # cs"
    using get rq.get_ok [OF assms(2)] rq.get_view [OF assms(2)] rq.empty_iff [OF assms(2)] that by auto
  have 3: "uart_getc com u = Inr (- 1, u)" if "ring_view b = []"
    using get rq.empty_iff [OF assms(2)] that by simp
  have 4: "\<exists>u'. buffer_put com v u = Inr (True, u') \<and> (\<exists>u''. uart_getc com u' = Inr (v, u''))" if "ring_len b = 256"
  proof -
    let ?b = "ring_store v b"
    have g: "get_buffer com (set_buffer com ?b u) = Some ?b"
      using assms(1) by (auto simp: get_buffer_def set_buffer_def split: if_splits)
    have ne: "\<not> ring_empty ?b" using ring_len_store [OF assms(2)] by (simp add: ring_empty_len)
    have "fst (ring_fetch ?b) = v"
      using ring_at_cap_index [of b] that assms(2)
      by (simp add: ring_fetch_def ring_store_def ring_at_cap_def ring_ok_def)
    then have "uart_getc com (set_buffer com ?b u) = Inr (v, set_buffer com (snd (ring_fetch ?b)) (set_buffer com ?b u))"
      using g ne by (simp add: uart_getc_def buffer_get_def buffer_empty_def case_prod_unfold Let_def)
    then show ?thesis using put by blast
  qed
  show ?thesis using 1 2 3 4 by blast
qed

theorem uart_buffer_queue_witness:
  "\<exists>b'. buffer_put COM1 65 uart0 = Inr (True, set_buffer COM1 b' uart0) \<and> ring_view b' = [65]"
proof -
  have h: "get_buffer COM1 uart0 = Some (com1_buffer uart0)" "ring_ok (com1_buffer uart0)"
    by (simp_all add: get_buffer_def uart0_def ring_ok_def ring_len_def)
  have "ring_len (com1_buffer uart0) < 256" "ring_view (com1_buffer uart0) = []"
    by (simp_all add: uart0_def ring_len_def ring_view_def ring_entries_def)
  then show ?thesis using uart_buffer_queue [OF h, of 65 0 "[]"] by auto
qed

end
