(* ===== verification/Devices.thy ===== *)
theory Devices
  imports Serial
begin

text \<open>
  The drivers of the keyboard (kernel/driver/kbd.c), of its controller (kernel/driver/ps2.c) and
  of the interrupt controllers (kernel/driver/pic.c).
\<close>

section \<open>The keyboard controller (ps2.c)\<close>

text \<open>The ports: what the next reads of a port return (0xff when nothing is there), what was
  written, and the messages of \<open>perror\<close>.\<close>

record ps2 =
  port_in :: "u16 \<Rightarrow> u8 list"
  port_out :: "(u16 \<times> u8) list"
  errors :: "string list"

abbreviation (input) KBP_STAT :: u16 where "KBP_STAT \<equiv> 0x64"
abbreviation (input) KBP_DATA :: u16 where "KBP_DATA \<equiv> 0x60"
abbreviation (input) KBP_CMD :: u16 where "KBP_CMD \<equiv> 0x64"
abbreviation (input) KBS_OB :: u16 where "KBS_OB \<equiv> 0"
abbreviation (input) KBS_IB :: u16 where "KBS_IB \<equiv> 1"

definition ps2_inb :: "u16 \<Rightarrow> ps2 \<Rightarrow> u8 \<times> ps2" where
  "ps2_inb port s = (case port_in s port of [] \<Rightarrow> (0xff, s) | b # bs \<Rightarrow> (b, s\<lparr>port_in := (port_in s)(port := bs)\<rparr>))"

definition ps2_outb :: "u16 \<Rightarrow> u8 \<Rightarrow> ps2 \<Rightarrow> ps2" where
  "ps2_outb port v s = s\<lparr>port_out := port_out s @ [(port, v)]\<rparr>"

definition perror :: "string \<Rightarrow> ps2 \<Rightarrow> ps2" where
  "perror msg s = s\<lparr>errors := errors s @ [msg]\<rparr>"

text \<open>The polling loops.  The port they read is the truth value of a comparison: port 1 in
  \<open>waiti\<close> and port 0 in \<open>waito\<close>, not the status port.\<close>

fun poll_loop :: "nat \<Rightarrow> u16 \<Rightarrow> ps2 \<Rightarrow> ps2" where
  "poll_loop 0 port s = s"
| "poll_loop (Suc n) port s = (let (v, s) = ps2_inb port s in if v \<noteq> 0 then s else poll_loop n port s)"

definition waiti :: "ps2 \<Rightarrow> ps2" where
  "waiti s = poll_loop 0x1000 (if KBP_STAT AND KBS_IB = 0 then 1 else 0) s"

definition waito :: "ps2 \<Rightarrow> ps2" where
  "waito s = poll_loop 0x100 (if KBP_STAT AND KBS_OB \<noteq> 0 then 1 else 0) s"

definition ps2out :: "u16 \<Rightarrow> u8 \<Rightarrow> ps2 \<Rightarrow> ps2" where
  "ps2out port v s = ps2_outb port v (waito s)"

definition ps2in :: "u16 \<Rightarrow> ps2 \<Rightarrow> u8 \<times> ps2" where
  "ps2in port s = ps2_inb port (waiti s)"

definition disable_p1 :: "ps2 \<Rightarrow> ps2" where "disable_p1 s = ps2out KBP_CMD 0xad s"

definition disable_p2 :: "ps2 \<Rightarrow> ps2" where "disable_p2 s = ps2out KBP_CMD 0xa7 s"

definition enable_p1 :: "ps2 \<Rightarrow> ps2" where "enable_p1 s = ps2out KBP_CMD 0xae s"

definition enable_p2 :: "ps2 \<Rightarrow> ps2" where "enable_p2 s = ps2out KBP_CMD 0xa8 s"

definition self_test1 :: "ps2 \<Rightarrow> bool \<times> ps2" where
  "self_test1 s = (let (d, s) = ps2in KBP_DATA (ps2out KBP_CMD 0xaa s) in (d = 0x55, s))"

definition self_test2 :: "ps2 \<Rightarrow> bool \<times> ps2" where
  "self_test2 s = (let (d, s) = ps2in KBP_DATA (ps2out KBP_CMD 0xa9 s) in (d = 0x00, s))"

definition flush_datap :: "ps2 \<Rightarrow> ps2" where "flush_datap s = snd (ps2in KBP_DATA s)"

definition read_ccb :: "ps2 \<Rightarrow> u8 \<times> ps2" where
  "read_ccb s = ps2in KBP_DATA (ps2out KBP_CMD 0x20 s)"

definition write_ccb :: "u8 \<Rightarrow> ps2 \<Rightarrow> ps2" where
  "write_ccb b s = ps2out KBP_DATA b (ps2out KBP_CMD 0x60 s)"

definition ps2_reset :: "ps2 \<Rightarrow> ps2" where
  "ps2_reset s =
     (let (d, s) = ps2in KBP_DATA (ps2out KBP_DATA 0xff s) in
      if d \<noteq> 0xfa then perror ''failed to reset'' s
      else
        let (d, s) = ps2in KBP_DATA s in
        if d \<noteq> 0xaa then perror ''failed to reset'' s else s)"

definition echo_test :: "ps2 \<Rightarrow> ps2" where
  "echo_test s =
     (let (d, s) = ps2in KBP_DATA (ps2out KBP_DATA 0xee s) in
      if d \<noteq> 0xee then perror ''failed to echo'' s else s)"

definition scancode :: "u8 \<Rightarrow> ps2 \<Rightarrow> u8 \<times> ps2" where
  "scancode sc s =
     (if sc > 0x3 then (0, perror ''invalid scan code'' s)
      else
        let (d, s) = ps2in KBP_DATA (ps2out KBP_DATA 0xf0 s) in
        if d \<noteq> 0xfa \<and> d \<noteq> 0xfe then (0, perror ''can't set scan code'' s)
        else
          let (d, s) = ps2in KBP_DATA (ps2out KBP_DATA sc s) in
          if d \<noteq> 0xfa \<and> d \<noteq> 0xfe then (0, perror ''can't set scan code'' s)
          else ps2in KBP_DATA s)"

definition ps2_init :: "ps2 \<Rightarrow> ps2" where
  "ps2_init s =
     (let s = echo_test s;
          s = flush_datap (disable_p2 (disable_p1 s));
          (c, s) = read_ccb s;
          s = write_ccb (c AND NOT (push_bit 0 1 OR push_bit 6 1)) s;
          (ok, s) = self_test1 s;
          s = (if \<not> ok then perror ''failed self test: second p/s2'' s else s);
          (ok, s) = self_test2 s;
          s = (if \<not> ok then perror ''failed self test: second p/s2'' s else s);
          (_, s) = scancode 0x2 s;
          s = enable_p2 (enable_p1 s);
          (c, s) = read_ccb s
      in write_ccb (c OR push_bit 0 1 OR push_bit 6 1) s)"

section \<open>The keyboard (kbd.c)\<close>

abbreviation (input) SHIFT :: u16 where "SHIFT \<equiv> 1"
abbreviation (input) CTL :: u16 where "CTL \<equiv> 2"
abbreviation (input) ALT :: u16 where "ALT \<equiv> 4"
abbreviation (input) CAPSLOCK :: u16 where "CAPSLOCK \<equiv> 8"

text \<open>The three tables; what the source does not initialise is 0.\<close>

definition normalmap :: "u8 list" where
  "normalmap =
     [0, 27, 49, 50, 51, 52, 53, 54, 55, 56, 57, 48, 45, 61, 8, 9,
      113, 119, 101, 114, 116, 121, 117, 105, 111, 112, 91, 93, 10, 0, 97, 115,
      100, 102, 103, 104, 106, 107, 108, 59, 39, 96, 0, 92, 122, 120, 99, 118,
      98, 110, 109, 44, 46, 47, 0, 42, 0, 32, 0, 0, 0, 0, 0, 0,
      0, 0, 0, 0, 0, 0, 0, 55, 56, 57, 45, 52, 53, 54, 43, 49,
      50, 51, 48, 46, 0, 0, 0, 0, 10, 47] @ replicate 166 0"

definition shiftmap :: "u8 list" where
  "shiftmap =
     [0, 27, 33, 64, 35, 36, 37, 94, 38, 42, 40, 41, 95, 43, 8, 9,
      81, 87, 69, 82, 84, 89, 85, 73, 79, 80, 123, 125, 10, 0, 65, 83,
      68, 70, 71, 72, 74, 75, 76, 58, 34, 126, 0, 124, 90, 88, 67, 86,
      66, 78, 77, 60, 62, 63, 0, 42, 0, 32, 0, 0, 0, 0, 0, 0,
      0, 0, 0, 0, 0, 0, 0, 55, 56, 57, 45, 52, 53, 54, 43, 49,
      50, 51, 48, 46, 0, 0, 0, 0] @ replicate 168 0"

definition capslockmap :: "u8 list" where
  "capslockmap = fold (\<lambda>(sc, c) t. t[sc := c])
     [(0x1e, 65), (0x30, 66), (0x2e, 67), (0x20, 68), (0x12, 69), (0x21, 70), (0x22, 71), (0x23, 72), (0x17, 73), 
      (0x24, 74), (0x25, 75), (0x26, 76), (0x32, 77), (0x31, 78), (0x18, 79), (0x19, 80), (0x10, 81), (0x13, 82), 
      (0x1f, 83), (0x14, 84), (0x16, 85), (0x2f, 86), (0x11, 87), (0x2d, 88), (0x15, 89), (0x2c, 90)]
     (replicate 256 0)"

record kbd =
  modifier :: u16
  sc_buffer :: "u16 ring"
  kports :: ps2

definition kbd_buffer_put :: "u16 \<Rightarrow> kbd \<Rightarrow> bool \<times> kbd" where
  "kbd_buffer_put v k = (let (ok, b) = ring_put v (sc_buffer k) in (ok, k\<lparr>sc_buffer := b\<rparr>))"

definition kbd_buffer_get :: "kbd \<Rightarrow> u16 option \<times> kbd" where
  "kbd_buffer_get k = (let (v, b) = ring_get (sc_buffer k) in (v, k\<lparr>sc_buffer := b\<rparr>))"

definition is_break_code :: "u16 \<Rightarrow> bool" where
  "is_break_code sc \<longleftrightarrow> sc AND 0x80 \<noteq> 0"

definition update_modifier :: "u16 \<Rightarrow> kbd \<Rightarrow> bool \<times> kbd" where
  "update_modifier sc k =
     (let set = (\<lambda>m. (True, k\<lparr>modifier := m\<rparr>)); m = modifier k in
      if sc = 0x2a \<or> sc = 0x36 then set (m OR SHIFT)
      else if sc = 0x1d then set (m OR CTL)
      else if sc = 0x3a then set (if m AND CAPSLOCK \<noteq> 0 then m AND NOT CAPSLOCK else m OR CAPSLOCK)
      else if sc = 0x38 then set (m OR ALT)
      else if sc = 0x2a OR 0x80 \<or> sc = 0x36 OR 0x80 then set (m AND NOT SHIFT)
      else if sc = 0x1d OR 0x80 then set (m AND NOT CTL)
      else if sc = 0x38 OR 0x80 then set (m AND NOT ALT)
      else (False, k))"

definition table_at :: "u8 list \<Rightarrow> u16 \<Rightarrow> u8 res" where
  "table_at t sc = (if unat sc < length t then Inr (t ! unat sc) else Inl OutOfBounds)"

text \<open>A scan code is unsigned, so the first test of \<open>kbd_translate\<close> never succeeds.\<close>

definition kbd_translate :: "u16 \<Rightarrow> kbd \<Rightarrow> (u8 \<times> kbd) res" where
  "kbd_translate sc k =
     (let (upd, k) = update_modifier sc k in
      if upd then Inr (- 1, k)
      else if is_break_code sc then Inr (- 1, k)
      else if modifier k AND SHIFT \<noteq> 0 then rbind (table_at shiftmap sc) (\<lambda>c. Inr (c, k))
      else if modifier k AND CAPSLOCK \<noteq> 0 then rbind (table_at capslockmap sc) (\<lambda>c. Inr (c, k))
      else rbind (table_at normalmap sc) (\<lambda>c. Inr (c, k)))"

definition kbd_drain :: "kbd \<Rightarrow> kbd" where
  "kbd_drain k = k\<lparr>kports := snd (ps2in KBP_DATA (kports k))\<rparr>"

definition kbd_read :: "kbd \<Rightarrow> kbd" where
  "kbd_read k =
     (let (d, p) = ps2in KBP_DATA (kports k);
          k = k\<lparr>kports := p\<rparr>
      in if d = 0 \<or> d = 0xff then k else snd (kbd_buffer_put (ucast d) k))"

definition kbd_getscancode :: "kbd \<Rightarrow> int \<times> kbd" where
  "kbd_getscancode k = (let (v, k) = kbd_buffer_get k in (case v of Some sc \<Rightarrow> uint sc | None \<Rightarrow> - 1, k))"

section \<open>The interrupt controllers (pic.c)\<close>

text \<open>
  A chip: its interrupt mask, the vector of its first line, and which initialisation word it
  expects next on its data port (0: none, data is the mask).  The first initialisation word
  clears the mask.
\<close>

record pic =
  imr :: u8
  voff :: u8
  icw :: nat

definition pic_command :: "u8 \<Rightarrow> pic \<Rightarrow> pic" where
  "pic_command v p = (if v AND 0x10 \<noteq> 0 then p\<lparr>imr := 0, icw := 2\<rparr> else p)"

definition pic_data :: "u8 \<Rightarrow> pic \<Rightarrow> pic" where
  "pic_data v p =
     (if icw p = 0 then p\<lparr>imr := v\<rparr>
      else if icw p = 2 then p\<lparr>voff := v, icw := 3\<rparr>
      else if icw p = 3 then p\<lparr>icw := 4\<rparr>
      else p\<lparr>icw := 0\<rparr>)"

text \<open>The master and the slave; \<open>io_wait\<close> writes to an unused port.\<close>

type_synonym pics = "pic \<times> pic"

definition PIC1_COMMAND :: "u8 \<Rightarrow> pics \<Rightarrow> pics" where "PIC1_COMMAND v = map_prod (pic_command v) id"

definition PIC2_COMMAND :: "u8 \<Rightarrow> pics \<Rightarrow> pics" where "PIC2_COMMAND v = map_prod id (pic_command v)"

definition PIC1_DATA :: "u8 \<Rightarrow> pics \<Rightarrow> pics" where "PIC1_DATA v = map_prod (pic_data v) id"

definition PIC2_DATA :: "u8 \<Rightarrow> pics \<Rightarrow> pics" where "PIC2_DATA v = map_prod id (pic_data v)"

definition pic_eoi :: "pics \<Rightarrow> pics" where
  "pic_eoi s = PIC1_COMMAND 0x20 (PIC2_COMMAND 0x20 s)"

definition pic_remap :: "u32 \<Rightarrow> u32 \<Rightarrow> pics \<Rightarrow> pics" where
  "pic_remap pic1_offset pic2_offset s =
     (let p1 = imr (fst s);
          p2 = imr (snd s);
          s = PIC2_COMMAND 0x11 (PIC1_COMMAND 0x11 s);
          s = PIC2_DATA (ucast pic2_offset) (PIC1_DATA (ucast pic1_offset) s);
          s = PIC2_DATA 2 (PIC1_DATA 4 s);
          s = PIC2_DATA 1 (PIC1_DATA 1 s)
      in PIC1_DATA p2 (PIC1_DATA p1 s))"

definition pic_disable :: "pics \<Rightarrow> pics" where
  "pic_disable s = PIC2_DATA 0xff (PIC1_DATA 0xff s)"

definition pic_irq_mask :: "u8 \<Rightarrow> pics \<Rightarrow> pics" where
  "pic_irq_mask line s =
     (if line < 8 then PIC1_DATA (imr (fst s) OR push_bit (unat line) 1) s
      else PIC2_DATA (imr (snd s) OR push_bit (unat (line - 8)) 1) s)"

definition pic_irq_unmask :: "u8 \<Rightarrow> pics \<Rightarrow> pics" where
  "pic_irq_unmask line s =
     (if line < 8 then PIC1_DATA (imr (fst s) AND NOT (push_bit (unat line) 1)) s
      else PIC2_DATA (imr (snd s) AND NOT (push_bit (unat (line - 8)) 1)) s)"

definition pic_init :: "pics \<Rightarrow> pics" where
  "pic_init s = fold pic_irq_unmask [0x00, 0x01, 0x02, 0x04, 0x13, 0x0E, 0x1F] (pic_remap 0x20 (0x20 + 8) s)"

section \<open>What the drivers achieve\<close>

text \<open>The interrupt controllers after \<open>pic_init\<close>.  The vectors start at 0x20 and 0x28.  The masks are
  not what was saved: both saved masks are written to the master, which keeps that of the
  slave, and the mask of the slave stays clear, so that every line of the slave is enabled.\<close>
theorem pic_init_masks:
  assumes "icw m = 0" "icw sl = 0"
  shows "pic_init (m, sl) =
    (m\<lparr>imr := imr sl AND NOT 0x17, voff := 0x20, icw := 0\<rparr>, sl\<lparr>imr := 0, voff := 0x28, icw := 0\<rparr>)"
proof -
  have remap: "pic_remap 0x20 (0x20 + 8) (m, sl) =
      (m\<lparr>imr := imr sl, voff := 0x20, icw := 0\<rparr>, sl\<lparr>imr := 0, voff := 0x28, icw := 0\<rparr>)"
    using assms
    by (simp add: pic_remap_def PIC1_COMMAND_def PIC2_COMMAND_def PIC1_DATA_def PIC2_DATA_def
        pic_command_def pic_data_def Let_def)
  have masks: "((((x AND NOT 1) AND NOT 2) AND NOT 4) AND NOT 16) = x AND NOT 0x17" for x :: u8
    by (simp add: and.assoc)
  show ?thesis
    unfolding pic_init_def remap
    by (simp add: pic_irq_unmask_def PIC1_DATA_def PIC2_DATA_def pic_data_def and.assoc)
qed

definition pic0 :: pic where
  "pic0 = \<lparr>imr = 0xb8, voff = 8, icw = 0\<rparr>"

theorem pic_init_masks_witness:
  "pic_init (pic0, pic0) =
    (pic0\<lparr>imr := imr pic0 AND NOT 0x17, voff := 0x20, icw := 0\<rparr>, pic0\<lparr>imr := 0, voff := 0x28, icw := 0\<rparr>)"
  by (rule pic_init_masks) (simp_all add: pic0_def)

definition letter :: "u8 \<Rightarrow> bool" where
  "letter c \<longleftrightarrow> 97 \<le> c \<and> c \<le> 122"

lemma capslockmap_upper: "capslockmap = map (\<lambda>c. if letter c then c - 32 else 0) normalmap"
  by code_simp

lemma shiftmap_upper: "list_all2 (\<lambda>c d. letter c \<longrightarrow> d = c - 32) normalmap shiftmap"
  by code_simp

lemma table_lengths: "length normalmap = 256" "length shiftmap = 256" "length capslockmap = 256"
  by (simp_all add: normalmap_def shiftmap_def capslockmap_upper)

text \<open>The case of what is typed.  A key that is no modifier and was pressed, not released, gives the
  character \<open>c\<close> of the plain table; with shift a letter is in upper case; with caps lock a
  letter is in upper case too, but any other key gives the NUL character.\<close>
theorem kbd_translate_case:
  assumes "update_modifier sc k = (False, k)" "\<not> is_break_code sc" "unat sc < 256" "c = normalmap ! unat sc"
  shows "(modifier k AND SHIFT = 0 \<and> modifier k AND CAPSLOCK = 0 \<longrightarrow> kbd_translate sc k = Inr (c, k)) \<and>
    (modifier k AND SHIFT \<noteq> 0 \<and> letter c \<longrightarrow> kbd_translate sc k = Inr (c - 32, k)) \<and>
    (modifier k AND SHIFT = 0 \<and> modifier k AND CAPSLOCK \<noteq> 0 \<longrightarrow>
       kbd_translate sc k = Inr (if letter c then c - 32 else 0, k))"
proof -
  have "letter c \<longrightarrow> shiftmap ! unat sc = c - 32"
    using list_all2_nthD [OF shiftmap_upper, of "unat sc"] assms(3,4) by (simp add: table_lengths)
  moreover have "capslockmap ! unat sc = (if letter c then c - 32 else 0)"
    using assms(3,4) by (simp add: capslockmap_upper table_lengths)
  ultimately show ?thesis
    using assms by (auto simp: kbd_translate_def table_at_def table_lengths)
qed

definition kbd0 :: kbd where
  "kbd0 = \<lparr>modifier = 8, sc_buffer = \<lparr>rdata = replicate 256 0, rhead = 0, rtail = 0\<rparr>,
     kports = \<lparr>port_in = (\<lambda>_. []), port_out = [], errors = []\<rparr>\<rparr>"

theorem kbd_translate_case_witness:
  "normalmap ! unat (2 :: u16) = 49 \<and> kbd_translate 2 kbd0 = Inr (0, kbd0)"
proof -
  have n: "normalmap ! unat (2 :: u16) = 49" by (simp add: normalmap_def)
  have h: "update_modifier 2 kbd0 = (False, kbd0)" "\<not> is_break_code 2" "unat (2 :: u16) < 256"
      "normalmap ! unat (2 :: u16) = normalmap ! unat (2 :: u16)"
    by (simp_all add: update_modifier_def is_break_code_def)
  show ?thesis using kbd_translate_case [OF h] n by (simp add: kbd0_def letter_def)
qed

end
