(* ===== verification/Console.thy ===== *)
theory Console
  imports Fs_Defs Screen Devices
begin

text \<open>
  kernel/dev/console.c and kernel/print.c: the console on the first serial port and the screen.
  In cooked mode a line is edited in \<open>line_buffer\<close> and handed over when it is complete; in raw
  mode characters go through \<open>raw_buffer\<close>.  Readers sleep on the addresses of the buffers.
  Characters read are returned as a list and those written are given as one, as for pipes.
\<close>

section \<open>State\<close>

datatype escape_state = STATE_NORMAL | STATE_ESC | STATE_ESC_BRACKET

datatype console_mode = CONSOLE_COOKED_MODE | CONSOLE_RAW_MODE

abbreviation (input) LINE_BUF_SZ :: nat where "LINE_BUF_SZ \<equiv> 1024"
abbreviation (input) RAW_BUF_SZ :: nat where "RAW_BUF_SZ \<equiv> 32"
abbreviation (input) DEV_CONSOLE :: u16 where "DEV_CONSOLE \<equiv> 1"

record line_buffer =
  ldata :: "u8 list"
  llk :: spinlock
  llen :: int
  lcursor :: int
  lstate :: escape_state
  nnewline :: int

record raw_buffer =
  wdata :: "u8 list"
  wlk :: spinlock
  w_nread :: int
  w_nwritten :: int

record console =
  ck :: kstate
  cuart :: uart
  cscreen :: screen
  cansi :: ansi_state
  cmode :: console_mode
  line :: line_buffer
  raw :: raw_buffer
  sym_line_buffer :: u32
  sym_raw_nread :: u32

definition on_line :: "(line_buffer \<Rightarrow> line_buffer) \<Rightarrow> console \<Rightarrow> console" where
  "on_line f s = s\<lparr>line := f (line s)\<rparr>"

definition echo :: "u8 \<Rightarrow> console \<Rightarrow> console" where
  "echo c s = s\<lparr>cuart := uart_putc COM1 c (cuart s)\<rparr>"

definition lock_line :: "console \<Rightarrow> console res" where
  "lock_line s = rbind (lock (llk (line s)) (the_cpu (ck s))) (\<lambda>(l, c).
     Inr ((on_line (\<lambda>b. b\<lparr>llk := l\<rparr>) s)\<lparr>ck := (ck s)\<lparr>the_cpu := c\<rparr>\<rparr>))"

definition unlock_line :: "console \<Rightarrow> console res" where
  "unlock_line s = rbind (unlock (llk (line s)) (the_cpu (ck s))) (\<lambda>(l, c).
     Inr ((on_line (\<lambda>b. b\<lparr>llk := l\<rparr>) s)\<lparr>ck := (ck s)\<lparr>the_cpu := c\<rparr>\<rparr>))"

definition store_line :: "int \<Rightarrow> u8 \<Rightarrow> console \<Rightarrow> console res" where
  "store_line i v s =
     (if 0 \<le> i \<and> i < int LINE_BUF_SZ then Inr (on_line (\<lambda>b. b\<lparr>ldata := (ldata b)[nat i := v]\<rparr>) s) else Inl OutOfBounds)"

definition wake :: "u32 \<Rightarrow> console \<Rightarrow> console res" where
  "wake a s = rbind (wakeup (CObj a) (ck s)) (\<lambda>k. Inr (s\<lparr>ck := k\<rparr>))"

definition is_console :: "inode \<Rightarrow> bool" where
  "is_console ino \<longleftrightarrow> d_type (i_d ino) = F_DEV \<and> d_major (i_d ino) = DEV_CONSOLE"

section \<open>Cooked mode\<close>

text \<open>The copying loop: up to \<open>n\<close> characters, at most one line.\<close>

fun copy_line :: "int \<Rightarrow> u8 list \<Rightarrow> u8 list" where
  "copy_line n [] = []"
| "copy_line n (c # cs) = (if n \<le> 0 then [] else if c = 10 then [c] else c # copy_line (n - 1) cs)"

text \<open>\<open>console_read_cooked\<close> once it holds the lock; asleep, the caller will take the lock
  again and test again.\<close>

definition read_cooked_locked :: "int \<Rightarrow> console \<Rightarrow> (outcome \<times> console) res" where
  "read_cooked_locked n s =
     (if nnewline (line s) = 0
      then rbind (sleep (CObj (sym_line_buffer s)) (llk (line s)) (ck s)) (\<lambda>(l, k).
           Inr (Asleep [] 0, (on_line (\<lambda>b. b\<lparr>llk := l\<rparr>) s)\<lparr>ck := k\<rparr>))
      else
        let b = line s;
            out = copy_line n (take (nat (llen b)) (ldata b));
            r = int (length out);
            b = b\<lparr>nnewline := nnewline b - 1\<rparr>;
            b = (if llen b > r
                 then b\<lparr>ldata := take (nat (llen b - r)) (drop (nat r) (ldata b)) @ drop (nat (llen b - r)) (ldata b),
                        llen := llen b - r, lcursor := llen b - r\<rparr>
                 else b\<lparr>llen := 0, lcursor := 0\<rparr>)
        in rbind (unlock_line (s\<lparr>line := b\<rparr>)) (\<lambda>s. Inr (Ret r out, s)))"

definition console_read_cooked :: "inode \<Rightarrow> int \<Rightarrow> console \<Rightarrow> (outcome \<times> console) res" where
  "console_read_cooked ino n s =
     (if \<not> is_console ino then Inl (Panic ''wrong device'')
      else rbind (lock_line s) (read_cooked_locked n))"

text \<open>One character in \<open>console_handler_cooked\<close>.\<close>

definition cooked_newline :: "console \<Rightarrow> console res" where
  "cooked_newline s =
     (let s = echo 10 s in
      rbind (store_line (llen (line s)) 10 s) (\<lambda>s.
      let s = on_line (\<lambda>b. b\<lparr>llen := llen b + 1\<rparr>) s in
      rbind (store_line (llen (line s)) 0 s) (\<lambda>s.
      wake (sym_line_buffer s) (on_line (\<lambda>b. b\<lparr>nnewline := nnewline b + 1\<rparr>) s))))"

definition cooked_backspace :: "console \<Rightarrow> console" where
  "cooked_backspace s =
     (let s = (if 0 < llen (line s) then on_line (\<lambda>b. b\<lparr>llen := llen b - 1, lcursor := lcursor b - 1\<rparr>) s else s)
      in echo 8 (echo 32 (echo 8 s)))"

definition cooked_insert :: "u8 \<Rightarrow> console \<Rightarrow> console res" where
  "cooked_insert c s =
     (if llen (line s) < int LINE_BUF_SZ - 1
      then
        rbind (store_line (lcursor (line s)) c s) (\<lambda>s.
        Inr (echo c (on_line (\<lambda>b. b\<lparr>lcursor := lcursor b + 1, llen := llen b + 1\<rparr>) s)))
      else Inr s)"

definition cooked_arrow :: "u8 \<Rightarrow> console \<Rightarrow> console res" where
  "cooked_arrow c s =
     rbind (if c = 68
            then Inr (if 0 < lcursor (line s) then echo 8 (on_line (\<lambda>b. b\<lparr>lcursor := lcursor b - 1\<rparr>) s) else s)
            else if c = 67
            then
              if lcursor (line s) < llen (line s)
              then
                if 0 \<le> lcursor (line s) \<and> lcursor (line s) < int LINE_BUF_SZ
                then Inr (on_line (\<lambda>b. b\<lparr>lcursor := lcursor b + 1\<rparr>) (echo (ldata (line s) ! nat (lcursor (line s))) s))
                else Inl OutOfBounds
              else Inr s
            else Inr s) (\<lambda>s.
     Inr (on_line (\<lambda>b. b\<lparr>lstate := STATE_NORMAL\<rparr>) s))"

definition cooked_char :: "u8 \<Rightarrow> console \<Rightarrow> console res" where
  "cooked_char c s =
     (case lstate (line s) of
        STATE_NORMAL \<Rightarrow>
          if c = 27 then Inr (on_line (\<lambda>b. b\<lparr>lstate := STATE_ESC\<rparr>) s)
          else
            let c = (if c = 13 then 10 else c) in
            if c = 10 then cooked_newline s
            else if c = 8 \<or> c = 0x7f then Inr (cooked_backspace s)
            else if 0x20 \<le> c \<and> c < 0x7f then cooked_insert c s
            else Inr s
      | STATE_ESC \<Rightarrow>
          Inr (on_line (\<lambda>b. b\<lparr>lstate := (if c = 91 then STATE_ESC_BRACKET else STATE_NORMAL)\<rparr>) s)
      | STATE_ESC_BRACKET \<Rightarrow> cooked_arrow c s)"

text \<open>The loop takes the characters that wait at the port, so it makes one more round than
  there are.\<close>

fun cooked_loop :: "nat \<Rightarrow> console \<Rightarrow> console res" where
  "cooked_loop 0 s = Inl Hang"
| "cooked_loop (Suc n) s =
     rbind (uart_getc COM1 (cuart s)) (\<lambda>(c, u).
     let s = s\<lparr>cuart := u\<rparr> in
     if c = - 1 then Inr s else rbind (cooked_char c s) (cooked_loop n))"

definition console_handler_cooked :: "console \<Rightarrow> console res" where
  "console_handler_cooked s =
     rbind (lock_line s) (\<lambda>s.
     rbind (cooked_loop (Suc (ring_len (com1_buffer (cuart s)))) s) unlock_line)"

section \<open>Raw mode\<close>

definition on_raw :: "(raw_buffer \<Rightarrow> raw_buffer) \<Rightarrow> console \<Rightarrow> console" where
  "on_raw f s = s\<lparr>raw := f (raw s)\<rparr>"

definition lock_raw :: "console \<Rightarrow> console res" where
  "lock_raw s = rbind (lock (wlk (raw s)) (the_cpu (ck s))) (\<lambda>(l, c).
     Inr ((on_raw (\<lambda>b. b\<lparr>wlk := l\<rparr>) s)\<lparr>ck := (ck s)\<lparr>the_cpu := c\<rparr>\<rparr>))"

definition unlock_raw :: "console \<Rightarrow> console res" where
  "unlock_raw s = rbind (unlock (wlk (raw s)) (the_cpu (ck s))) (\<lambda>(l, c).
     Inr ((on_raw (\<lambda>b. b\<lparr>wlk := l\<rparr>) s)\<lparr>ck := (ck s)\<lparr>the_cpu := c\<rparr>\<rparr>))"

text \<open>The loop of \<open>console_read_raw\<close> with the lock held: the rounds left and what was read.\<close>

fun read_raw_locked :: "nat \<Rightarrow> u8 list \<Rightarrow> console \<Rightarrow> (outcome \<times> console) res" where
  "read_raw_locked 0 got s = rbind (unlock_raw s) (\<lambda>s. Inr (Ret (int (length got)) got, s))"
| "read_raw_locked (Suc n) got s =
     (if w_nread (raw s) = w_nwritten (raw s)
      then
        rbind (this_proc (ck s)) (\<lambda>(p, k).
        let s = s\<lparr>ck := k\<rparr> in
        case p of None \<Rightarrow> Inl OutOfBounds
        | Some i \<Rightarrow>
            if killed (ptable k ! i) then rbind (unlock_raw s) (\<lambda>s. Inr (Ret (- 1) got, s))
            else rbind (sleep (CObj (sym_raw_nread s)) (wlk (raw s)) k) (\<lambda>(l, k).
                 Inr (Asleep got (Suc n), (on_raw (\<lambda>b. b\<lparr>wlk := l\<rparr>) s)\<lparr>ck := k\<rparr>)))
      else
        let c = wdata (raw s) ! nat (w_nread (raw s) mod int RAW_BUF_SZ)
        in read_raw_locked n (got @ [c]) (on_raw (\<lambda>b. b\<lparr>w_nread := w_nread b + 1\<rparr>) s))"

text \<open>\<open>n\<close> counts down to 0 as a 32-bit number.\<close>

definition console_read_raw :: "inode \<Rightarrow> int \<Rightarrow> console \<Rightarrow> (outcome \<times> console) res" where
  "console_read_raw ino n s =
     (if \<not> w_nread (raw s) \<le> w_nwritten (raw s) then Inl (Panic ''assert: raw_buffer.nread <= raw_buffer.nwritten'')
      else if \<not> is_console ino then Inl (Panic ''wrong device'')
      else rbind (lock_raw s) (read_raw_locked (unat (word_of_int n :: u32)) []))"

fun raw_loop :: "nat \<Rightarrow> console \<Rightarrow> console res" where
  "raw_loop 0 s = Inl Hang"
| "raw_loop (Suc n) s =
     rbind (uart_getc COM1 (cuart s)) (\<lambda>(c, u).
     let s = s\<lparr>cuart := u\<rparr> in
     if c = - 1 then Inr s
     else if sint c < - 1 then raw_loop n s
     else if w_nwritten (raw s) = w_nread (raw s)
     then
       let s = on_raw (\<lambda>b. b\<lparr>wdata := (wdata b)[nat (w_nwritten b mod int RAW_BUF_SZ) := c],
                              w_nwritten := w_nwritten b + 1\<rparr>) s
       in rbind (wake (sym_raw_nread s) s) (raw_loop n)
     else raw_loop n s)"

definition console_handler_raw :: "console \<Rightarrow> console res" where
  "console_handler_raw s =
     rbind (lock_raw s) (\<lambda>s.
     rbind (raw_loop (Suc (ring_len (com1_buffer (cuart s)))) s) unlock_raw)"

section \<open>Writing and the interface\<close>

text \<open>\<open>putc\<close> of print.c, with the bytes from \<open>addr\<close> on.\<close>

definition putc :: "cstr \<Rightarrow> console \<Rightarrow> console res" where
  "putc addr s =
     (case addr of [] \<Rightarrow> Inl OutOfBounds
      | c # _ \<Rightarrow> rbind (vga_writec (cansi s) addr (cscreen s)) (\<lambda>(_, v). Inr (echo c (s\<lparr>cscreen := v\<rparr>))))"

fun putc_loop :: "nat \<Rightarrow> cstr \<Rightarrow> console \<Rightarrow> console res" where
  "putc_loop 0 addr s = Inr s"
| "putc_loop (Suc i) addr s = rbind (putc addr s) (putc_loop i (tl addr))"

definition console_write :: "inode \<Rightarrow> cstr \<Rightarrow> int \<Rightarrow> console \<Rightarrow> (int \<times> console) res" where
  "console_write ino addr n s =
     (if \<not> is_console ino then Inl (Panic ''wrong device'')
      else rbind (putc_loop (nat n) addr s) (\<lambda>s. Inr (n, s)))"

definition console_read :: "inode \<Rightarrow> int \<Rightarrow> console \<Rightarrow> (outcome \<times> console) res" where
  "console_read ino n s =
     (case cmode s of
        CONSOLE_COOKED_MODE \<Rightarrow> console_read_cooked ino n s
      | CONSOLE_RAW_MODE \<Rightarrow> console_read_raw ino n s)"

definition console_handler :: "console \<Rightarrow> console res" where
  "console_handler s =
     (case cmode s of
        CONSOLE_COOKED_MODE \<Rightarrow> console_handler_cooked s
      | CONSOLE_RAW_MODE \<Rightarrow> console_handler_raw s)"

definition console_init :: "console \<Rightarrow> console" where
  "console_init s =
     on_raw (\<lambda>b. b\<lparr>wlk := new_lock, wdata := replicate RAW_BUF_SZ 0\<rparr>)
       (on_line (\<lambda>b. b\<lparr>llk := new_lock, ldata := replicate LINE_BUF_SZ 0\<rparr>) (s\<lparr>cmode := CONSOLE_COOKED_MODE\<rparr>))"

definition vprintf :: "cstr \<Rightarrow> fmt_arg list \<Rightarrow> console \<Rightarrow> console res" where
  "vprintf fmt args s =
     rbind (uart_vprintf COM1 fmt args (cuart s)) (\<lambda>u.
     rbind (vga_vprintf (cansi s) fmt args (cscreen s)) (\<lambda>v.
     Inr (s\<lparr>cuart := u, cscreen := v\<rparr>)))"

definition dvprintf :: "cstr \<Rightarrow> fmt_arg list \<Rightarrow> console \<Rightarrow> console res" where
  "dvprintf fmt args s =
     rbind (uart_vprintf COM1 fmt args (cuart s)) (\<lambda>u.
     rbind (uart_vprintf COM2 fmt args u) (\<lambda>u.
     rbind (vga_vprintf (cansi s) fmt args (cscreen s)) (\<lambda>v.
     Inr (s\<lparr>cuart := u, cscreen := v\<rparr>))))"

section \<open>A line from the keyboard to the reader\<close>

lemma uart_getc_cons:
  assumes "ring_ok (com1_buffer u)" "ring_view (com1_buffer u) = c # cs"
  shows "\<exists>b. uart_getc COM1 u = Inr (c, u\<lparr>com1_buffer := b\<rparr>) \<and> ring_ok b \<and> ring_view b = cs"
  using rq.get_ok [OF assms(1)] rq.get_view [OF assms(1)] rq.empty_iff [OF assms(1)] assms(2)
  by (auto simp: uart_getc_def buffer_get_def buffer_empty_def get_buffer_def set_buffer_def case_prod_unfold Let_def)

lemma uart_getc_nil:
  assumes "ring_ok (com1_buffer u)" "ring_view (com1_buffer u) = []"
  shows "uart_getc COM1 u = Inr (- 1, u)"
  using rq.empty_iff [OF assms(1)] assms(2)
  by (simp add: uart_getc_def buffer_get_def buffer_empty_def get_buffer_def)

lemma uart_putc_buffer [simp]: "com1_buffer (uart_putc com c u) = com1_buffer u"
  by (simp add: uart_putc_def write_serial_def wait_transmit_ready out_b_def Let_def)

lemma uart_putc_outs: "outs (uart_putc com c u) = outs u @ [(com, c)]"
  by (simp add: uart_putc_def write_serial_def wait_transmit_ready out_b_def Let_def)

lemma echo_sel [simp]:
  "line (echo c s) = line s" "ck (echo c s) = ck s" "com1_buffer (cuart (echo c s)) = com1_buffer (cuart s)"
  "outs (cuart (echo c s)) = outs (cuart s) @ [(COM1, c)]" "sym_line_buffer (echo c s) = sym_line_buffer s"
  by (simp_all add: echo_def uart_putc_outs)

lemma on_line_sel [simp]:
  "line (on_line f s) = f (line s)" "ck (on_line f s) = ck s" "cuart (on_line f s) = cuart s"
  "sym_line_buffer (on_line f s) = sym_line_buffer s"
  by (simp_all add: on_line_def)

text \<open>The handler at work for process \<open>i\<close>, with \<open>p\<close> typed on an otherwise empty line and the
  cursor at its end.\<close>

definition typed :: "nat \<Rightarrow> u8 list \<Rightarrow> console \<Rightarrow> bool" where
  "typed i p s \<longleftrightarrow>
     in_proc_at i 1 (ck s) \<and> llk (line s) = held_lock \<and> length (ldata (line s)) = LINE_BUF_SZ \<and>
     llen (line s) = int (length p) \<and> lcursor (line s) = int (length p) \<and> take (length p) (ldata (line s)) = p \<and>
     lstate (line s) = STATE_NORMAL \<and> nnewline (line s) = 0 \<and> ring_ok (com1_buffer (cuart s))"

definition printable :: "u8 \<Rightarrow> bool" where
  "printable c \<longleftrightarrow> 0x20 \<le> c \<and> c < 0x7f"

lemma printable_not:
  assumes "printable c"
  shows "c \<noteq> 27" "c \<noteq> 13" "c \<noteq> 10" "c \<noteq> 8" "c \<noteq> 0x7f" "c \<noteq> - 1"
proof -
  have m1: "(- 1 :: u8) = 255" by simp
  show "c \<noteq> 27" "c \<noteq> 13" "c \<noteq> 10" "c \<noteq> 8" "c \<noteq> 0x7f" "c \<noteq> - 1"
    unfolding m1 using assms by (auto simp: printable_def word_le_nat_alt word_less_nat_alt)
qed

lemma take_update_snoc: "k < length xs \<Longrightarrow> take (Suc k) (xs[k := x]) = take k xs @ [x]"
  by (simp add: take_Suc_conv_app_nth)

lemma typed_insert:
  assumes "typed i p s" "printable c" "length p < 1023"
  shows "\<exists>t. cooked_char c s = Inr t \<and> typed i (p @ [c]) t \<and> cuart t = uart_putc COM1 c (cuart s) \<and>
    ck t = ck s \<and> sym_line_buffer t = sym_line_buffer s"
proof -
  have pr: "0x20 \<le> c \<and> c < 0x7f" using assms(2) by (simp add: printable_def)
  have l: "lstate (line s) = STATE_NORMAL" "llen (line s) = int (length p)" "lcursor (line s) = int (length p)"
    "length (ldata (line s)) = 1024"
    using assms(1) by (simp_all add: typed_def)
  have "cooked_char c s = cooked_insert c s"
    using l(1) pr printable_not [OF assms(2)] by (simp add: cooked_char_def)
  moreover have "cooked_insert c s = Inr (echo c (on_line (\<lambda>b. b\<lparr>lcursor := lcursor b + 1, llen := llen b + 1\<rparr>)
      (on_line (\<lambda>b. b\<lparr>ldata := (ldata b)[length p := c]\<rparr>) s)))"
    using l assms(3) by (simp add: cooked_insert_def store_line_def)
  ultimately show ?thesis
    using assms(1,3) take_update_snoc [of "length p" "ldata (line s)" c] by (simp add: typed_def echo_def)
qed

text \<open>A complete line waits for its reader.\<close>

definition line_ready :: "u8 list \<Rightarrow> console \<Rightarrow> bool" where
  "line_ready w s \<longleftrightarrow>
     length (ldata (line s)) = LINE_BUF_SZ \<and> llen (line s) = int (length w) + 1 \<and>
     take (length w + 1) (ldata (line s)) = w @ [10] \<and> nnewline (line s) = 1 \<and> lstate (line s) = STATE_NORMAL"

lemma typed_newline:
  assumes "typed i p s" "length p < 1023"
  shows "\<exists>t. cooked_char 10 s = Inr t \<and> in_proc_at i 1 (ck t) \<and> llk (line t) = held_lock \<and> line_ready p t \<and>
    ptable (ck t) = map (woken (CObj (sym_line_buffer s))) (ptable (ck s)) \<and> cuart t = uart_putc COM1 10 (cuart s)"
proof -
  let ?k = "length p"
  let ?d = "(ldata (line s))[?k := 10, Suc ?k := 0]"
  have l: "lstate (line s) = STATE_NORMAL" "llen (line s) = int ?k" "length (ldata (line s)) = 1024"
      "take ?k (ldata (line s)) = p" "nnewline (line s) = 0" "llk (line s) = held_lock" and k: "in_proc_at i 1 (ck s)"
    using assms(1) by (simp_all add: typed_def)
  let ?s = "on_line (\<lambda>b. b\<lparr>llen := int ?k + 1, ldata := ?d, nnewline := 1\<rparr>) (echo 10 s)"
  have "cooked_newline s = wake (sym_line_buffer s) ?s"
    using l assms(2) by (simp add: cooked_newline_def store_line_def on_line_def nat_add_distrib)
  moreover have "wake (sym_line_buffer s) ?s = Inr (?s\<lparr>ck := wakeup_unlocked (CObj (sym_line_buffer s)) (ck s)\<rparr>)"
    using wakeup_nested [OF k] by (simp add: wake_def)
  moreover have "cooked_char 10 s = cooked_newline s" using l(1) by (simp add: cooked_char_def)
  ultimately have e: "cooked_char 10 s = Inr (?s\<lparr>ck := wakeup_unlocked (CObj (sym_line_buffer s)) (ck s)\<rparr>)" by simp
  have "take (?k + 1) ?d = p @ [10]"
    using take_update_snoc [of ?k "ldata (line s)" 10] l(3,4) assms(2) by (simp add: take_update_swap list_update_beyond)
  then show ?thesis
    using e l wakeup_in_proc_at [OF k] by (simp add: line_ready_def echo_def wakeup_unlocked_def woken_def [abs_def])
qed

lemma typed_getc:
  assumes "typed i p s" "ring_view (com1_buffer (cuart s)) = c # cs"
  shows "\<exists>b. uart_getc COM1 (cuart s) = Inr (c, (cuart s)\<lparr>com1_buffer := b\<rparr>) \<and> ring_ok b \<and> ring_view b = cs \<and>
    typed i p (s\<lparr>cuart := (cuart s)\<lparr>com1_buffer := b\<rparr>\<rparr>)"
  using uart_getc_cons [of "cuart s" c cs] assms by (auto simp: typed_def)

lemma typed_line:
  assumes "typed i p s" "ring_view (com1_buffer (cuart s)) = w @ [10]" "list_all printable w"
    "length p + length w < 1023" "length w + 1 < n"
  shows "\<exists>t. cooked_loop n s = Inr t \<and> in_proc_at i 1 (ck t) \<and> llk (line t) = held_lock \<and> line_ready (p @ w) t \<and>
    ptable (ck t) = map (woken (CObj (sym_line_buffer s))) (ptable (ck s)) \<and>
    outs (cuart t) = outs (cuart s) @ map (Pair COM1) (w @ [10])"
  using assms
proof (induction w arbitrary: p s n)
  case Nil
  obtain m where n: "n = Suc (Suc m)" using Nil.prems(5) by (cases n; cases "n - 1") auto
  obtain b where b: "uart_getc COM1 (cuart s) = Inr (10, (cuart s)\<lparr>com1_buffer := b\<rparr>)" "ring_ok b" "ring_view b = []"
    "typed i p (s\<lparr>cuart := (cuart s)\<lparr>com1_buffer := b\<rparr>\<rparr>)"
    using typed_getc [OF Nil.prems(1), of 10 "[]"] Nil.prems(2) by auto
  obtain t where t: "cooked_char 10 (s\<lparr>cuart := (cuart s)\<lparr>com1_buffer := b\<rparr>\<rparr>) = Inr t" "in_proc_at i 1 (ck t)"
    "llk (line t) = held_lock" "line_ready p t" "ptable (ck t) = map (woken (CObj (sym_line_buffer s))) (ptable (ck s))"
    "cuart t = uart_putc COM1 10 ((cuart s)\<lparr>com1_buffer := b\<rparr>)"
    using typed_newline [OF b(4)] Nil.prems(4) by auto
  have "uart_getc COM1 (cuart t) = Inr (- 1, cuart t)" by (rule uart_getc_nil) (use t(6) b in simp_all)
  then have "cooked_loop n s = Inr t" using b(1) t(1) n by simp
  then show ?case using t by (simp add: uart_putc_outs)
next
  case (Cons c w)
  have pc: "printable c" using Cons.prems(3) by simp
  obtain m where n: "n = Suc m" using Cons.prems(5) by (cases n) auto
  obtain b where b: "uart_getc COM1 (cuart s) = Inr (c, (cuart s)\<lparr>com1_buffer := b\<rparr>)" "ring_ok b" "ring_view b = w @ [10]"
    "typed i p (s\<lparr>cuart := (cuart s)\<lparr>com1_buffer := b\<rparr>\<rparr>)"
    using typed_getc [OF Cons.prems(1), of c "w @ [10]"] Cons.prems(2) by auto
  obtain t where t: "cooked_char c (s\<lparr>cuart := (cuart s)\<lparr>com1_buffer := b\<rparr>\<rparr>) = Inr t" "typed i (p @ [c]) t"
    "cuart t = uart_putc COM1 c ((cuart s)\<lparr>com1_buffer := b\<rparr>)" "ck t = ck s" "sym_line_buffer t = sym_line_buffer s"
    using typed_insert [OF b(4) pc] Cons.prems(4) by auto
  have "ring_view (com1_buffer (cuart t)) = w @ [10]" using t(3) b(3) by simp
  from Cons.IH [OF t(2) this, of m] obtain u where "cooked_loop m t = Inr u" "in_proc_at i 1 (ck u)"
    "llk (line u) = held_lock" "line_ready ((p @ [c]) @ w) u"
    "ptable (ck u) = map (woken (CObj (sym_line_buffer t))) (ptable (ck t))"
    "outs (cuart u) = outs (cuart t) @ map (Pair COM1) (w @ [10])"
    using Cons.prems(3,4,5) n by auto
  moreover have "cooked_loop n s = cooked_loop m t" using b(1) t(1) n printable_not(6) [OF pc] by simp
  ultimately show ?case using t(3,4,5) by (simp add: uart_putc_outs)
qed

lemma lock_line_ok:
  assumes "kinv (ck s)" "proc (the_cpu (ck s)) = Some i" "llk (line s) = new_lock"
  shows "lock_line s = Inr ((on_line (\<lambda>b. b\<lparr>llk := held_lock\<rparr>) s)\<lparr>ck := (ck s)\<lparr>the_cpu := pushed (the_cpu (ck s))\<rparr>\<rparr>)"
    "in_proc_at i 1 ((ck s)\<lparr>the_cpu := pushed (the_cpu (ck s))\<rparr>)"
proof -
  have k: "in_proc_at i 0 (ck s)" using assms by (simp add: in_proc_at_kinv)
  show "lock_line s = Inr ((on_line (\<lambda>b. b\<lparr>llk := held_lock\<rparr>) s)\<lparr>ck := (ck s)\<lparr>the_cpu := pushed (the_cpu (ck s))\<rparr>\<rparr>)"
    using lock_nested [OF k, of new_lock] assms(3) by (simp add: lock_line_def new_lock_def)
  show "in_proc_at i 1 ((ck s)\<lparr>the_cpu := pushed (the_cpu (ck s))\<rparr>)" using in_proc_at_pushed [OF k] by simp
qed

lemma unlock_line_ok:
  assumes "in_proc_at i 1 (ck s)" "llk (line s) = held_lock"
  shows "\<exists>k. unlock_line s = Inr ((on_line (\<lambda>b. b\<lparr>llk := new_lock\<rparr>) s)\<lparr>ck := k\<rparr>) \<and> kinv k \<and>
    proc (the_cpu k) = Some i \<and> ptable k = ptable (ck s)"
proof -
  have "in_proc_at i 0 ((ck s)\<lparr>the_cpu := popped (the_cpu (ck s))\<rparr>)"
    using in_proc_at_popped [of i 0 "ck s"] assms(1) by simp
  then have "kinv ((ck s)\<lparr>the_cpu := popped (the_cpu (ck s))\<rparr>) \<and>
      proc (the_cpu ((ck s)\<lparr>the_cpu := popped (the_cpu (ck s))\<rparr>)) = Some i" by (simp only: in_proc_at_kinv)
  then show ?thesis using unlock_nested [OF assms(1)] assms(2) by (auto simp: unlock_line_def)
qed

lemma copy_line_whole: "10 \<notin> set w \<Longrightarrow> int (length w) < n \<Longrightarrow> copy_line n (w @ 10 # rest) = w @ [10]"
  by (induction w arbitrary: n) auto

text \<open>An idle console that process \<open>i\<close> uses: an empty line and nobody in the handler.\<close>

definition console_idle :: "nat \<Rightarrow> console \<Rightarrow> bool" where
  "console_idle i s \<longleftrightarrow>
     kinv (ck s) \<and> proc (the_cpu (ck s)) = Some i \<and> cmode s = CONSOLE_COOKED_MODE \<and>
     ring_ok (com1_buffer (cuart s)) \<and> llk (line s) = new_lock \<and> length (ldata (line s)) = LINE_BUF_SZ \<and>
     llen (line s) = 0 \<and> lcursor (line s) = 0 \<and> lstate (line s) = STATE_NORMAL \<and> nnewline (line s) = 0"

lemma handle_line:
  assumes "console_idle i s" "ring_view (com1_buffer (cuart s)) = w @ [10]" "list_all printable w" "length w < 1023"
  shows "\<exists>t. console_handler s = Inr t \<and> kinv (ck t) \<and> proc (the_cpu (ck t)) = Some i \<and> llk (line t) = new_lock \<and>
    line_ready w t \<and> ptable (ck t) = map (woken (CObj (sym_line_buffer s))) (ptable (ck s)) \<and>
    outs (cuart t) = outs (cuart s) @ map (Pair COM1) (w @ [10])"
proof -
  have c: "kinv (ck s)" "proc (the_cpu (ck s)) = Some i" "llk (line s) = new_lock" "cmode s = CONSOLE_COOKED_MODE"
    using assms(1) by (simp_all add: console_idle_def)
  let ?s = "(on_line (\<lambda>b. b\<lparr>llk := held_lock\<rparr>) s)\<lparr>ck := (ck s)\<lparr>the_cpu := pushed (the_cpu (ck s))\<rparr>\<rparr>"
  note l = lock_line_ok [OF c(1-3)]
  have ty: "typed i [] ?s" using assms(1) l(2) by (simp add: typed_def console_idle_def)
  have v: "ring_view (com1_buffer (cuart ?s)) = w @ [10]" using assms(2) by simp
  have n: "length w + 1 < Suc (ring_len (com1_buffer (cuart ?s)))"
    using arg_cong [OF v, of length] by simp
  obtain t where t: "cooked_loop (Suc (ring_len (com1_buffer (cuart ?s)))) ?s = Inr t" "in_proc_at i 1 (ck t)"
    "llk (line t) = held_lock" "line_ready w t"
    "ptable (ck t) = map (woken (CObj (sym_line_buffer s))) (ptable (ck s))"
    "outs (cuart t) = outs (cuart s) @ map (Pair COM1) (w @ [10])"
    using typed_line [OF ty v assms(3) _ n] assms(4) by auto
  obtain k where k: "unlock_line t = Inr ((on_line (\<lambda>b. b\<lparr>llk := new_lock\<rparr>) t)\<lparr>ck := k\<rparr>)" "kinv k"
    "proc (the_cpu k) = Some i" "ptable k = ptable (ck t)"
    using unlock_line_ok [OF t(2,3)] by blast
  have "console_handler s = Inr ((on_line (\<lambda>b. b\<lparr>llk := new_lock\<rparr>) t)\<lparr>ck := k\<rparr>)"
    unfolding console_handler_def c(4) console_mode.case console_handler_cooked_def l(1) rbind_simps t(1) by (rule k(1))
  then show ?thesis using k t by (simp add: line_ready_def)
qed

lemma read_line:
  assumes "kinv (ck s)" "proc (the_cpu (ck s)) = Some i" "llk (line s) = new_lock" "line_ready w s" "10 \<notin> set w"
    "int (length w) < n" "is_console ino"
  shows "\<exists>u. console_read_cooked ino n s = Inr (Ret (int (length w) + 1) (w @ [10]), u) \<and> kinv (ck u) \<and>
    proc (the_cpu (ck u)) = Some i \<and> llen (line u) = 0 \<and> lcursor (line u) = 0 \<and> nnewline (line u) = 0 \<and>
    llk (line u) = new_lock"
proof -
  let ?s = "(on_line (\<lambda>b. b\<lparr>llk := held_lock\<rparr>) s)\<lparr>ck := (ck s)\<lparr>the_cpu := pushed (the_cpu (ck s))\<rparr>\<rparr>"
  note l = lock_line_ok [OF assms(1-3)]
  have r: "llen (line s) = int (length w) + 1" "nnewline (line s) = 1" "take (length w + 1) (ldata (line s)) = w @ [10]"
    using assms(4) by (simp_all add: line_ready_def)
  have cl: "copy_line n (take (nat (llen (line s))) (ldata (line s))) = w @ [10]"
    using copy_line_whole [OF assms(5,6), of "[]"] r by (simp add: nat_add_distrib)
  let ?t = "?s\<lparr>line := (line ?s)\<lparr>nnewline := 0, llen := 0, lcursor := 0\<rparr>\<rparr>"
  obtain k where "unlock_line ?t = Inr ((on_line (\<lambda>b. b\<lparr>llk := new_lock\<rparr>) ?t)\<lparr>ck := k\<rparr>)" "kinv k" "proc (the_cpu k) = Some i"
    using unlock_line_ok [of i ?t] l(2) by auto
  moreover have "read_cooked_locked n ?s = rbind (unlock_line ?t) (\<lambda>s. Inr (Ret (int (length w) + 1) (w @ [10]), s))"
    using cl r by (simp add: read_cooked_locked_def Let_def add.commute)
  ultimately show ?thesis using l(1) assms(7) by (simp add: console_read_cooked_def)
qed

text \<open>C29: A line typed at the console.  When printable characters and a newline wait at the serial port,
  the handler echoes them, puts them in the line buffer and wakes the readers; a reader that
  then asks for enough characters gets exactly the line with its newline, and the buffer is
  empty again.  Every step keeps the invariant of the process layer.\<close>
theorem console_line_session:
  assumes "console_idle i s" "ring_view (com1_buffer (cuart s)) = w @ [10]" "list_all printable w" "length w < 1023"
    "int (length w) < n" "is_console ino"
  shows "\<exists>t u. console_handler s = Inr t \<and> kinv (ck t) \<and>
    ptable (ck t) = map (woken (CObj (sym_line_buffer s))) (ptable (ck s)) \<and>
    outs (cuart t) = outs (cuart s) @ map (Pair COM1) (w @ [10]) \<and>
    console_read_cooked ino n t = Inr (Ret (int (length w) + 1) (w @ [10]), u) \<and> kinv (ck u) \<and>
    llen (line u) = 0 \<and> lcursor (line u) = 0 \<and> nnewline (line u) = 0"
proof -
  obtain t where t: "console_handler s = Inr t" "kinv (ck t)" "proc (the_cpu (ck t)) = Some i" "llk (line t) = new_lock"
    "line_ready w t" "ptable (ck t) = map (woken (CObj (sym_line_buffer s))) (ptable (ck s))"
    "outs (cuart t) = outs (cuart s) @ map (Pair COM1) (w @ [10])"
    using handle_line [OF assms(1-4)] by blast
  have "10 \<notin> set w" using assms(3) printable_not(3) by (auto simp: list_all_iff)
  from read_line [OF t(2-5) this assms(5,6)] show ?thesis using t by blast
qed

text \<open>Two ways out of the line buffer.  A backspace moves the cursor left even when the left arrow has
  already moved it to the start of the line, and the next character is stored in front of the
  buffer; and the newline that ends a line of 1023 characters puts its NUL behind the buffer.\<close>
theorem console_line_escapes:
  assumes "lstate (line s) = STATE_NORMAL" "printable c"
  shows "(lcursor (line s) = 0 \<and> 0 < llen (line s) \<and> llen (line s) \<le> 1023 \<longrightarrow>
           rbind (cooked_char 8 s) (cooked_char c) = Inl OutOfBounds) \<and>
    (llen (line s) = 1023 \<longrightarrow> cooked_char 10 s = Inl OutOfBounds)"
proof -
  have p: "0x20 \<le> c \<and> c < 0x7f" using assms(2) by (simp add: printable_def)
  have "rbind (cooked_char 8 s) (cooked_char c) = Inl OutOfBounds"
    if "lcursor (line s) = 0" "0 < llen (line s)" "llen (line s) \<le> 1023"
    using that assms(1) p printable_not [OF assms(2)]
    by (simp add: cooked_char_def cooked_backspace_def cooked_insert_def store_line_def Let_def)
  moreover have "cooked_char 10 s = Inl OutOfBounds" if "llen (line s) = 1023"
    using that assms(1) by (simp add: cooked_char_def cooked_newline_def store_line_def Let_def)
  ultimately show ?thesis by blast
qed

section \<open>Samples\<close>

definition console0 :: "u8 list \<Rightarrow> console" where
  "console0 w = \<lparr>ck = kstate_run, cuart = uart0\<lparr>com1_buffer := fold ring_store w (com1_buffer uart0)\<rparr>,
     cscreen = screen0, cansi = ansi0, cmode = CONSOLE_COOKED_MODE,
     line = \<lparr>ldata = replicate 1024 0, llk = new_lock, llen = 0, lcursor = 0, lstate = STATE_NORMAL, nnewline = 0\<rparr>,
     raw = \<lparr>wdata = replicate 32 0, wlk = new_lock, w_nread = 0, w_nwritten = 0\<rparr>,
     sym_line_buffer = 0x80120000, sym_raw_nread = 0x80121000\<rparr>"

definition tty :: inode where
  "tty = \<lparr>i_dev = 1, i_inum = 3, i_nref = 1, i_lk = new_mutex, i_read = True,
     i_d = \<lparr>d_type = F_DEV, d_major = DEV_CONSOLE, d_minor = 0, d_nlink = 1, d_size = 0, d_addrs = replicate 13 0\<rparr>\<rparr>"

lemma ring_ok0: "ring_ok (com1_buffer uart0)" "ring_view (com1_buffer uart0) = []"
  by (simp_all add: uart0_def ring_ok_def ring_len_def ring_view_def)

lemma console0_idle: "length w \<le> 256 \<Longrightarrow> console_idle 2 (console0 w)"
proof -
  have "proc (the_cpu kstate_run) = Some 2" by (simp add: sample_defs)
  then show "length w \<le> 256 \<Longrightarrow> console_idle 2 (console0 w)"
    using kstate_run_kinv rq.puts_view [OF ring_ok0(1), of w] ring_ok0(2)
    by (simp add: console_idle_def console0_def)
qed

theorem console_line_session_witness:
  "\<exists>t u. console_handler (console0 [108, 115, 10]) = Inr t \<and>
     console_read_cooked tty 100 t = Inr (Ret (int (length [108 :: u8, 115]) + 1) ([108, 115] @ [10]), u)"
proof -
  have i: "console_idle 2 (console0 [108, 115, 10])" by (rule console0_idle) simp
  have v: "ring_view (com1_buffer (cuart (console0 [108, 115, 10]))) = [108, 115] @ [10]"
    using rq.puts_view [OF ring_ok0(1), of "[108, 115, 10]"] ring_ok0(2) by (simp add: console0_def)
  have "list_all printable [108, 115]" "length [108 :: u8, 115] < 1023" "int (length [108 :: u8, 115]) < 100" "is_console tty"
    by (simp_all add: printable_def is_console_def tty_def)
  from console_line_session [OF i v this] show ?thesis by blast
qed

theorem console_line_escapes_witness:
  "rbind (cooked_char 8 ((console0 [])\<lparr>line := (line (console0 []))\<lparr>llen := 1\<rparr>\<rparr>)) (cooked_char 98) = Inl OutOfBounds"
proof -
  let ?s = "(console0 [])\<lparr>line := (line (console0 []))\<lparr>llen := 1\<rparr>\<rparr>"
  have h: "lstate (line ?s) = STATE_NORMAL" "printable 98" by (simp_all add: console0_def printable_def)
  show ?thesis using console_line_escapes [OF h] by (simp add: console0_def)
qed

end
