(* ===== verification/Trap.thy ===== *)
theory Trap
  imports Exec Console
begin

text \<open>
  kernel/trap.c: what happens on an interrupt, a fault or a system call.  \<open>world\<close> puts the parts
  of the kernel together: system call state, console, keyboard, interrupt controllers and
  the tick counter; the process layer is in \<open>wsys\<close>.  The trap frame is at address \<open>tf\<close> of the
  kernel stack.  The results say whether the handler returns to the interrupted code (\<open>True\<close>)
  or control has passed to the scheduler.
\<close>

record world =
  wsys :: sys
  wcon :: console
  wkbd :: kbd
  wpic :: pics
  ticks :: u32

abbreviation (input) wkern :: "world \<Rightarrow> kstate" where "wkern w \<equiv> kern (wsys w)"

definition with_wkern :: "kstate \<Rightarrow> world \<Rightarrow> world" where
  "with_wkern k w = w\<lparr>wsys := with_kern k (wsys w)\<rparr>"

definition on_console :: "(console \<Rightarrow> console res) \<Rightarrow> world \<Rightarrow> world res" where
  "on_console f w = rbind (f ((wcon w)\<lparr>ck := wkern w\<rparr>)) (\<lambda>c. Inr (with_wkern (ck c) (w\<lparr>wcon := c\<rparr>)))"

definition on_uart :: "(uart \<Rightarrow> uart res) \<Rightarrow> world \<Rightarrow> world res" where
  "on_uart f w = rbind (f (cuart (wcon w))) (\<lambda>u. Inr (w\<lparr>wcon := (wcon w)\<lparr>cuart := u\<rparr>\<rparr>))"

definition eoi :: "world \<Rightarrow> world" where
  "eoi w = w\<lparr>wpic := pic_eoi (wpic w)\<rparr>"

definition w_this_proc :: "world \<Rightarrow> (nat option \<times> world) res" where
  "w_this_proc w = rbind (this_proc (wkern w)) (\<lambda>(p, k). Inr (p, with_wkern k w))"

definition w_exit :: "world \<Rightarrow> (bool \<times> world) res" where
  "w_exit w = rbind (exit_proc (wkern w)) (\<lambda>k. Inr (False, with_wkern k w))"

section \<open>Handlers\<close>

text \<open>\<open>exit\<close> does not return.\<close>

definition exit_if_killed :: "world \<Rightarrow> (bool \<times> world) res" where
  "exit_if_killed w =
     rbind (w_this_proc w) (\<lambda>(p, w).
     case p of None \<Rightarrow> Inl OutOfBounds
     | Some i \<Rightarrow> if killed (ptable (wkern w) ! i) then w_exit w else Inr (True, w))"

definition handle_syscall :: "exec_fun \<Rightarrow> (nat \<Rightarrow> dev_read option) \<Rightarrow> (nat \<Rightarrow> dev_write option) \<Rightarrow> u32 \<Rightarrow> world \<Rightarrow> (bool \<times> world) res" where
  "handle_syscall exc dr dw tf w =
     rbind (exit_if_killed w) (\<lambda>(here, w).
     if \<not> here then Inr (False, w)
     else
       rbind (w_this_proc w) (\<lambda>(p, w).
       case p of None \<Rightarrow> Inl OutOfBounds
       | Some i \<Rightarrow>
           let w = with_wkern (upd_proc i (\<lambda>p. p\<lparr>trapframe := tf\<rparr>) (wkern w)) w in
           rbind (syscall exc dr dw (wsys w)) (\<lambda>(r, s).
           let w = w\<lparr>wsys := s\<rparr> in
           case r of Val _ \<Rightarrow> exit_if_killed w | _ \<Rightarrow> Inr (False, w))))"

definition handle_I_IRQ_TIMER :: "world \<Rightarrow> world" where
  "handle_I_IRQ_TIMER w = eoi (w\<lparr>ticks := ticks w + 1\<rparr>)"

definition handle_I_IRQ_KBD :: "world \<Rightarrow> world res" where
  "handle_I_IRQ_KBD w =
     rbind (on_console console_handler (w\<lparr>wkbd := kbd_read (wkbd w)\<rparr>)) (\<lambda>w. Inr (eoi w))"

definition handle_I_IRQ_COM1 :: "world \<Rightarrow> world res" where
  "handle_I_IRQ_COM1 w =
     rbind (on_uart (uart_read COM1) w) (\<lambda>w.
     rbind (on_console console_handler w) (\<lambda>w. Inr (eoi w)))"

text \<open>The handlers of COM2, LPT1, CMOS, mouse, error and spurious interrupts only acknowledge.\<close>

definition handle_I_IRQ_COM2 :: "world \<Rightarrow> world" where
  "handle_I_IRQ_COM2 w = eoi w"

definition handle_I_IRQ_LPT1 :: "world \<Rightarrow> world" where
  "handle_I_IRQ_LPT1 w = eoi w"

definition handle_I_IRQ_CMOS :: "world \<Rightarrow> world" where
  "handle_I_IRQ_CMOS w = eoi w"

definition handle_I_IRQ_MOUSE :: "world \<Rightarrow> world" where
  "handle_I_IRQ_MOUSE w = eoi w"

definition handle_I_IRQ_ERR :: "world \<Rightarrow> world" where
  "handle_I_IRQ_ERR w = eoi w"

definition handle_I_IRQ_SPURIOUS :: "world \<Rightarrow> world" where
  "handle_I_IRQ_SPURIOUS w = eoi w"

definition handle_I_IRQ_IDE :: "world \<Rightarrow> world res" where
  "handle_I_IRQ_IDE w =
     rbind (disk_handler (fsys (wsys w))) (\<lambda>f. Inr (eoi (w\<lparr>wsys := (wsys w)\<lparr>fsys := f\<rparr>\<rparr>)))"

section \<open>trap\<close>

abbreviation (input) I_SYSCALL :: u32 where "I_SYSCALL \<equiv> 0x40"
abbreviation (input) IRQ0 :: u32 where "IRQ0 \<equiv> 0x20"

definition tf_trapno :: "u32 \<Rightarrow> world \<Rightarrow> u32" where
  "tf_trapno tf w = load32 (ram (mach (wkern w))) (tf + 48)"

definition from_user :: "u32 \<Rightarrow> world \<Rightarrow> bool" where
  "from_user tf w \<longleftrightarrow> load32 (ram (mach (wkern w))) (tf + 60) AND 3 = 3"

text \<open>A fault: the process that caused it is marked; in the kernel it is a panic.\<close>

definition handle_fault :: "u32 \<Rightarrow> world \<Rightarrow> world res" where
  "handle_fault tf w =
     rbind (w_this_proc w) (\<lambda>(p, w).
     if p = None \<or> \<not> from_user tf w then Inl (Panic ''trap'')
     else rbind (mark_killed (wkern w)) (\<lambda>k. Inr (with_wkern k w)))"

definition here :: "world res \<Rightarrow> (bool \<times> world) res" where
  "here r = rbind r (\<lambda>w. Inr (True, w))"

definition dispatch :: "exec_fun \<Rightarrow> (nat \<Rightarrow> dev_read option) \<Rightarrow> (nat \<Rightarrow> dev_write option) \<Rightarrow> u32 \<Rightarrow> world \<Rightarrow> (bool \<times> world) res" where
  "dispatch exc dr dw tf w =
     (let no = tf_trapno tf w in
      if no = I_SYSCALL then handle_syscall exc dr dw tf w
      else if no = IRQ0 + 0x00 then here (Inr (handle_I_IRQ_TIMER w))
      else if no = IRQ0 + 0x01 then here (handle_I_IRQ_KBD w)
      else if no = IRQ0 + 0x03 then here (Inr (handle_I_IRQ_COM2 w))
      else if no = IRQ0 + 0x04 then here (handle_I_IRQ_COM1 w)
      else if no = IRQ0 + 0x05 then here (Inr (handle_I_IRQ_LPT1 w))
      else if no = IRQ0 + 0x08 then here (Inr (handle_I_IRQ_CMOS w))
      else if no = IRQ0 + 0x0C then here (Inr (handle_I_IRQ_MOUSE w))
      else if no = IRQ0 + 0x0E then here (handle_I_IRQ_IDE w)
      else if no = IRQ0 + 0x13 then here (Inr (handle_I_IRQ_ERR w))
      else if no = IRQ0 + 0x1F then here (Inr (handle_I_IRQ_SPURIOUS w))
      else here (handle_fault tf w))"

text \<open>Behind the switch: a killed process that was in user code exits, any other one that was
  gives up the processor.\<close>

definition trap_tail :: "u32 \<Rightarrow> world \<Rightarrow> (bool \<times> world) res" where
  "trap_tail tf w =
     rbind (w_this_proc w) (\<lambda>(p, w).
     rbind (case p of
              Some i \<Rightarrow> if killed (ptable (wkern w) ! i) \<and> from_user tf w then w_exit w else Inr (True, w)
            | None \<Rightarrow> Inr (True, w)) (\<lambda>(still, w).
     if \<not> still then Inr (False, w)
     else
       rbind (w_this_proc w) (\<lambda>(p, w).
       case p of
         Some i \<Rightarrow>
           if state (ptable (wkern w) ! i) = PROC_RUNNING \<and> from_user tf w
           then rbind (yield (wkern w)) (\<lambda>k. Inr (False, with_wkern k w))
           else Inr (True, w)
       | None \<Rightarrow> Inr (True, w))))"

definition trap :: "exec_fun \<Rightarrow> (nat \<Rightarrow> dev_read option) \<Rightarrow> (nat \<Rightarrow> dev_write option) \<Rightarrow> u32 \<Rightarrow> world \<Rightarrow> (bool \<times> world) res" where
  "trap exc dr dw tf w =
     rbind (dispatch exc dr dw tf w) (\<lambda>(still, w).
     if \<not> still then Inr (False, w) else trap_tail tf w)"

section \<open>Interrupts and faults\<close>

lemma with_wkern_sel [simp]:
  "wkern (with_wkern k w) = k" "ticks (with_wkern k w) = ticks w" "with_wkern k (with_wkern k' w) = with_wkern k w"
  by (simp_all add: with_wkern_def with_kern_def)

lemma from_user_cpu [simp]: "from_user tf (with_wkern ((wkern w)\<lparr>the_cpu := c\<rparr>) w) = from_user tf w"
  by (simp add: from_user_def)

lemma eoi_sel [simp]: "wkern (eoi w) = wkern w" "ticks (eoi w) = ticks w" "from_user tf (eoi w) = from_user tf w"
  by (simp_all add: eoi_def from_user_def)

lemma w_this_proc_kinv:
  assumes "kinv (wkern w)" "proc (the_cpu (wkern w)) = Some i"
  shows "\<exists>c. w_this_proc w = Inr (Some i, with_wkern ((wkern w)\<lparr>the_cpu := c\<rparr>) w) \<and>
    kinv ((wkern w)\<lparr>the_cpu := c\<rparr>) \<and> proc c = Some i"
  using kinv_this_proc [OF assms] by (auto simp: w_this_proc_def)

lemma kinv_running:
  assumes "kinv k" "proc (the_cpu k) = Some i"
  shows "state (ptable k ! i) = PROC_RUNNING" "i < NPROC"
  using kinv_in_proc [OF assms] by auto

lemma tail_preempts:
  assumes "kinv (wkern w)" "proc (the_cpu (wkern w)) = Some i" "\<not> killed (ptable (wkern w) ! i)" "from_user tf w"
  shows "\<exists>k. trap_tail tf w = Inr (False, with_wkern k w) \<and> kinv k \<and> in_sched k \<and> state (ptable k ! i) = PROC_READY"
proof -
  obtain c where c: "w_this_proc w = Inr (Some i, with_wkern ((wkern w)\<lparr>the_cpu := c\<rparr>) w)"
    "kinv ((wkern w)\<lparr>the_cpu := c\<rparr>)" "proc c = Some i"
    using w_this_proc_kinv [OF assms(1,2)] by blast
  let ?w = "with_wkern ((wkern w)\<lparr>the_cpu := c\<rparr>) w"
  have w: "kinv (wkern ?w)" "proc (the_cpu (wkern ?w)) = Some i" using c by simp_all
  obtain d where d: "w_this_proc ?w = Inr (Some i, with_wkern ((wkern w)\<lparr>the_cpu := d\<rparr>) w)"
    "kinv ((wkern w)\<lparr>the_cpu := d\<rparr>)" "proc d = Some i"
    using w_this_proc_kinv [OF w] by auto
  obtain k where k: "yield ((wkern w)\<lparr>the_cpu := d\<rparr>) = Inr k" "kinv k" "in_sched k" "state (ptable k ! i) = PROC_READY"
    using yield_kinv [of "(wkern w)\<lparr>the_cpu := d\<rparr>" i] d by auto
  have "state (ptable (wkern w) ! i) = PROC_RUNNING" using kinv_running [OF assms(1,2)] by simp
  then show ?thesis using c(1) d(1) k assms(3,4) by (auto simp: trap_tail_def)
qed

lemma tail_exits:
  assumes "kinv (wkern w)" "proc (the_cpu (wkern w)) = Some i" "killed (ptable (wkern w) ! i)" "from_user tf w"
    "proc_init1 (wkern w) \<noteq> Some i"
  shows "\<exists>k. trap_tail tf w = Inr (False, with_wkern k w) \<and> kinv k \<and> in_sched k \<and> state (ptable k ! i) = PROC_ZOMBIE"
proof -
  obtain c where c: "w_this_proc w = Inr (Some i, with_wkern ((wkern w)\<lparr>the_cpu := c\<rparr>) w)"
    "kinv ((wkern w)\<lparr>the_cpu := c\<rparr>)" "proc c = Some i"
    using w_this_proc_kinv [OF assms(1,2)] by blast
  obtain k where k: "exit_proc ((wkern w)\<lparr>the_cpu := c\<rparr>) = Inr k" "kinv k" "in_sched k" "state (ptable k ! i) = PROC_ZOMBIE"
    using exit_effect [of "(wkern w)\<lparr>the_cpu := c\<rparr>" i] c assms(5) by auto
  then show ?thesis using c(1) assms(3,4) by (auto simp: trap_tail_def w_exit_def)
qed

lemma tail_kernel:
  assumes "kinv (wkern w)" "proc (the_cpu (wkern w)) = Some i" "\<not> from_user tf w"
  shows "\<exists>c. trap_tail tf w = Inr (True, with_wkern ((wkern w)\<lparr>the_cpu := c\<rparr>) w) \<and> kinv ((wkern w)\<lparr>the_cpu := c\<rparr>) \<and> proc c = Some i"
proof -
  obtain c where c: "w_this_proc w = Inr (Some i, with_wkern ((wkern w)\<lparr>the_cpu := c\<rparr>) w)"
    "kinv ((wkern w)\<lparr>the_cpu := c\<rparr>)" "proc c = Some i"
    using w_this_proc_kinv [OF assms(1,2)] by blast
  obtain d where d: "w_this_proc (with_wkern ((wkern w)\<lparr>the_cpu := c\<rparr>) w) = Inr (Some i, with_wkern ((wkern w)\<lparr>the_cpu := d\<rparr>) w)"
    "kinv ((wkern w)\<lparr>the_cpu := d\<rparr>)" "proc d = Some i"
    using w_this_proc_kinv [of "with_wkern ((wkern w)\<lparr>the_cpu := c\<rparr>) w" i] c by auto
  then show ?thesis using c(1) assms(3) by (auto simp: trap_tail_def)
qed


definition is_fault :: "u32 \<Rightarrow> bool" where
  "is_fault no \<longleftrightarrow> no \<notin> set [0x40, 0x20, 0x21, 0x23, 0x24, 0x25, 0x28, 0x2C, 0x2E, 0x33, 0x3F]"


text \<open>A running process and a trap frame at 0x80400000 with the given number and code segment.\<close>

definition world0 :: "u32 \<Rightarrow> u32 \<Rightarrow> world" where
  "world0 no cs = \<lparr>wsys = with_kern (kstate_run\<lparr>mach := machine1\<lparr>ram := store32 (store32 (\<lambda>_. 0) 0x80400030 no) 0x8040003C cs\<rparr>\<rparr>) sys0,
     wcon = console0 [], wkbd = kbd0, wpic = (pic0, pic0), ticks = 7\<rparr>"

lemma world0_sel:
  "kinv (wkern (world0 no cs))" "proc (the_cpu (wkern (world0 no cs))) = Some 2" "\<not> killed (ptable (wkern (world0 no cs)) ! 2)"
  "tf_trapno 0x80400000 (world0 no cs) = no" "from_user 0x80400000 (world0 no cs) \<longleftrightarrow> cs AND 3 = 3"
  "proc_init1 (wkern (world0 no cs)) \<noteq> Some 2"
proof -
  have k: "wkern (world0 no cs) = kstate_run\<lparr>mach := machine1\<lparr>ram := store32 (store32 (\<lambda>_. 0) 0x80400030 no) 0x8040003C cs\<rparr>\<rparr>"
    by (simp add: world0_def)
  show "kinv (wkern (world0 no cs))" unfolding k by (rule kinv_frame(1) [OF kstate_run_kinv])
  show "proc (the_cpu (wkern (world0 no cs))) = Some 2" "proc_init1 (wkern (world0 no cs)) \<noteq> Some 2"
    "\<not> killed (ptable (wkern (world0 no cs)) ! 2)"
    unfolding k by (simp_all add: sample_defs)
  show "tf_trapno 0x80400000 (world0 no cs) = no" "from_user 0x80400000 (world0 no cs) \<longleftrightarrow> cs AND 3 = 3"
    unfolding tf_trapno_def from_user_def k by (simp_all add: aligned4_def)
qed



end
