(* ===== verification/Mkfs.thy ===== *)
theory Mkfs
  imports File_Data
begin

text \<open>
  mkfs/mkfs.c, the tool that makes the file system image.  The image is the list of its blocks:
  the tool only reads and writes whole blocks, and a write behind the end of the image fills the
  gap with zeros, as the host does.  Messages and the exit with status 1 are the fault \<open>Panic\<close>
  with the message; writing to the image file is taken not to fail.  The files to copy are given
  with their contents, \<open>None\<close> for a file that cannot be opened.
\<close>

section \<open>The tool\<close>

abbreviation (input) NBLKS :: u32 where "NBLKS \<equiv> 1000"

record mkfs =
  img :: "u8 list list"
  freeino :: u32
  freeblock :: u32
  sb :: superblock

definition zeros :: "u8 list" where
  "zeros = replicate BSIZE 0"

definition bwrite :: "u32 \<Rightarrow> u8 list \<Rightarrow> mkfs \<Rightarrow> mkfs" where
  "bwrite sec buf s =
     (let im = img s @ replicate (unat sec + 1 - length (img s)) zeros
      in s\<lparr>img := im[unat sec := buf]\<rparr>)"

definition bread :: "u32 \<Rightarrow> mkfs \<Rightarrow> u8 list res" where
  "bread sec s = (if unat sec < length (img s) then Inr (img s ! unat sec) else Inl (Panic ''read''))"

definition sbconfig :: "mkfs \<Rightarrow> mkfs res" where
  "sbconfig s =
     (let nbitmap = NBLKS div (of_nat BSIZE * 8) + 1;
          ninodeblks = of_nat NINODES div inode_per_block + 1;
          nmeta = 1 + ninodeblks + nbitmap;
          nd = NBLKS - nmeta
      in
        if nd = 0 then Inl (Panic ''assert'')
        else Inr (s\<lparr>sb := \<lparr>nblocks = NBLKS, ninodes = of_nat NINODES, ndata = nd, inodestart = 1,
            bmapstart = 1 + ninodeblks, datastart = nmeta\<rparr>, freeblock := nmeta\<rparr>))"

definition superblock_bytes :: "superblock \<Rightarrow> u8 list" where
  "superblock_bytes b =
     le32 (nblocks b) @ le32 (ninodes b) @ le32 (ndata b) @ le32 (inodestart b) @ le32 (bmapstart b) @ le32 (datastart b)"

definition wsb :: "mkfs \<Rightarrow> mkfs" where
  "wsb s = bwrite 0 (blit 0 (superblock_bytes (sb s)) zeros) s"

definition iread :: "u32 \<Rightarrow> mkfs \<Rightarrow> dinode res" where
  "iread ino s =
     rbind (bread (get_inode_block ino (sb s)) s) (\<lambda>buf.
     Inr (bytes_dinode (slice (DINODE_SZ * unat (ino mod inode_per_block)) DINODE_SZ buf)))"

definition iwrite :: "u32 \<Rightarrow> dinode \<Rightarrow> mkfs \<Rightarrow> mkfs res" where
  "iwrite ino node s =
     (let bn = get_inode_block ino (sb s) in
      rbind (bread bn s) (\<lambda>buf.
      Inr (bwrite bn (blit (DINODE_SZ * unat (ino mod inode_per_block)) (dinode_bytes node) buf) s)))"

definition ialloc :: "u32 \<Rightarrow> mkfs \<Rightarrow> (u32 \<times> mkfs) res" where
  "ialloc type s =
     (let inum = freeino s;
          s = s\<lparr>freeino := freeino s + 1\<rparr>
      in
        rbind (iwrite inum \<lparr>d_type = type, d_major = 0, d_minor = 0, d_nlink = 1, d_size = 0, d_addrs = replicate NINOBLKS 0\<rparr> s) (\<lambda>s.
        Inr (inum, s)))"

text \<open>\<open>iappend\<close>: the block of the file that holds byte \<open>nth * 512\<close>, allocated when it is missing.
  The array \<open>indirect1\<close> has 512 entries; only the first 128 of them come from and go to the disk.\<close>

definition new_block :: "mkfs \<Rightarrow> u32 \<times> mkfs" where
  "new_block s = (freeblock s, s\<lparr>freeblock := freeblock s + 1\<rparr>)"

definition block_words :: "u8 list \<Rightarrow> u32 list" where
  "block_words b = map (\<lambda>k. rd32 b (4 * k)) [0..<128]"

definition need_addr :: "nat \<Rightarrow> dinode \<Rightarrow> mkfs \<Rightarrow> dinode \<times> mkfs" where
  "need_addr k node s =
     (if d_addrs node ! k = 0
      then let (n, s) = new_block s in (node\<lparr>d_addrs := (d_addrs node)[k := n]\<rparr>, s)
      else (node, s))"

definition append_block :: "nat \<Rightarrow> dinode \<Rightarrow> u32 list \<Rightarrow> mkfs \<Rightarrow> (u32 \<times> dinode \<times> u32 list \<times> mkfs) res" where
  "append_block n node ind s =
     (if n < NDIRECT
      then let (node, s) = need_addr n node s in Inr (d_addrs node ! n, node, ind, s)
      else if n < NDIRECT + BSIZE
      then
        let (node, s) = need_addr NDIRECT node s in
        rbind (bread (d_addrs node ! NDIRECT) s) (\<lambda>b.
        let ind = block_words b @ drop 128 ind in
        if ind ! (n - NDIRECT) = 0
        then
          let (fb, s) = new_block s;
              ind = ind[n - NDIRECT := fb];
              s = bwrite (d_addrs node ! NDIRECT) (concat (map le32 (take 128 ind))) s
          in Inr (ind ! (n - NDIRECT), node, ind, s)
        else Inr (ind ! (n - NDIRECT), node, ind, s))
      else Inl (Panic ''file is too big''))"

definition chunk :: "u32 \<Rightarrow> nat" where
  "chunk off = unat ((off div 512 + 1) * 512 - off)"

lemma chunk_eq: "chunk off = 512 - unat off mod 512"
proof -
  have "(off div 512 + 1) * 512 - off = off div 512 * 512 + 512 - off" by (simp add: algebra_simps)
  also have "\<dots> = off - off mod 512 + 512 - off" by (simp only: minus_mod_eq_div_mult)
  finally have "(off div 512 + 1) * 512 - off = 512 - off mod 512" by simp
  then have "chunk off = unat (512 - off mod 512)" unfolding chunk_def by (rule arg_cong)
  moreover have "unat (off mod 512) = unat off mod 512" by (simp add: unat_mod)
  ultimately show ?thesis by (simp add: unat_sub32 less_imp_le)
qed

function append_loop :: "u8 list \<Rightarrow> u32 \<Rightarrow> dinode \<Rightarrow> u32 list \<Rightarrow> mkfs \<Rightarrow> (u32 \<times> dinode \<times> mkfs) res" where
  "append_loop p off node ind s =
     (if p = [] then Inr (off, node, s)
      else
        rbind (append_block (unat (off div 512)) node ind s) (\<lambda>(fb, node, ind, s).
        let realn = min (length p) (chunk off) in
        rbind (bread fb s) (\<lambda>buf.
        append_loop (drop realn p) (off + of_nat realn) node ind
          (bwrite fb (blit (unat (off - off div 512 * 512)) (take realn p) buf) s))))"
  by pat_completeness auto
termination
  by (relation "measure (\<lambda>(p, off, node, ind, s). length p)") (auto simp: chunk_eq)

declare append_loop.simps [simp del]

definition iappend :: "u32 \<Rightarrow> u8 list \<Rightarrow> mkfs \<Rightarrow> mkfs res" where
  "iappend ino p s =
     rbind (iread ino s) (\<lambda>node.
     rbind (append_loop p (d_size node) node (replicate BSIZE 0) s) (\<lambda>(off, node, s).
     iwrite ino (node\<lparr>d_size := off\<rparr>) s))"

text \<open>\<open>balloc\<close>: the bits of the blocks below \<open>usedblks\<close>, the lowest bit of a byte first.\<close>

fun set_bits_below :: "nat \<Rightarrow> u8 list \<Rightarrow> u8 list" where
  "set_bits_below 0 buf = buf"
| "set_bits_below (Suc n) buf =
     (let buf = set_bits_below n buf in buf[n div 8 := buf ! (n div 8) OR push_bit (n mod 8) 1])"

definition balloc :: "u32 \<Rightarrow> mkfs \<Rightarrow> mkfs res" where
  "balloc usedblks s =
     (if unat usedblks > BSIZE * 8 then Inl OutOfBounds
      else Inr (bwrite (bmapstart (sb s)) (set_bits_below (unat usedblks) zeros) s))"

text \<open>\<open>parsename\<close>: the scan for the last \<open>/\<close> starts one byte behind the NUL of the path; \<open>junk\<close>
  is that byte.  Without a \<open>/\<close> the first character is lost.  A name that does not fit into the
  24 bytes of the buffer is copied behind it.\<close>

definition parsename :: "u8 \<Rightarrow> u8 list \<Rightarrow> u8 list res" where
  "parsename junk path =
     (let full = path @ [0, junk];
          cut = (case List.find (\<lambda>k. full ! k = 47) (rev [0..<length full]) of None \<Rightarrow> 0 | Some k \<Rightarrow> k);
          p = drop (cut + 1) path
      in
        if cut \<ge> length path \<or> p = [] \<or> length p - 1 > 24 then Inl OutOfBounds
        else Inr (butlast p @ replicate (24 - (length p - 1)) 0))"

definition dirent :: "u32 \<Rightarrow> u8 list \<Rightarrow> u8 list" where
  "dirent inum name = le32 inum @ name @ replicate (24 - length name) 0"

function append_file :: "u32 \<Rightarrow> u8 list \<Rightarrow> mkfs \<Rightarrow> mkfs res" where
  "append_file ino bs s =
     (if bs = [] then Inr s
      else rbind (iappend ino (take BSIZE bs) s) (\<lambda>s. append_file ino (drop BSIZE bs) s))"
  by pat_completeness auto
termination
  by (relation "measure (\<lambda>(ino, bs, s). length bs)") auto

declare append_file.simps [simp del]

fun copy_programs :: "u8 \<Rightarrow> u32 \<Rightarrow> (u8 list \<times> u8 list option) list \<Rightarrow> mkfs \<Rightarrow> mkfs res" where
  "copy_programs junk root [] s = Inr s"
| "copy_programs junk root ((path, contents) # fs) s =
     rbind (parsename junk path) (\<lambda>namebuf.
     case contents of None \<Rightarrow> Inl (Panic ''open'')
     | Some bs \<Rightarrow>
         rbind (ialloc 2 s) (\<lambda>(ino, s).
         rbind (iappend root (dirent ino (takeWhile (\<lambda>c. c \<noteq> 0) namebuf)) s) (\<lambda>s.
         rbind (append_file ino bs s) (\<lambda>s.
         copy_programs junk root fs s))))"

definition mkfs0 :: mkfs where
  "mkfs0 = \<lparr>img = [], freeino = 1, freeblock = 0,
     sb = \<lparr>nblocks = 0, ninodes = 0, ndata = 0, inodestart = 0, bmapstart = 0, datastart = 0\<rparr>\<rparr>"

definition make_image :: "u8 \<Rightarrow> (u8 list \<times> u8 list option) list \<Rightarrow> mkfs res" where
  "make_image junk progs =
     rbind (sbconfig mkfs0) (\<lambda>s.
     let s = fold (\<lambda>i. bwrite (of_nat i) zeros) [0..<unat (nblocks (sb s)) + 1] s;
         s = wsb s
     in
       rbind (ialloc F_DIR s) (\<lambda>(rootino, s).
       if rootino \<noteq> ROOTINO then Inl (Panic ''assert'')
       else
         rbind (iappend rootino (dirent rootino [46]) s) (\<lambda>s.
         rbind (iappend rootino (dirent 0 [46, 46]) s) (\<lambda>s.
         rbind (copy_programs junk rootino progs s) (\<lambda>s.
         balloc (freeblock s) s)))))"

section \<open>The layout of an image\<close>

text \<open>The blocks of an inode: 0 to 139 hold its data, entry 140 is the block of addresses.\<close>

definition blockat :: "u8 list list \<Rightarrow> dinode \<Rightarrow> nat \<Rightarrow> u32" where
  "blockat im d k =
     (if k < 12 then d_addrs d ! k
      else if k < 140 then (if d_addrs d ! 12 = 0 then 0 else rd32 (im ! unat (d_addrs d ! 12)) (4 * (k - 12)))
      else d_addrs d ! 12)"

definition img_byte :: "u8 list list \<Rightarrow> dinode \<Rightarrow> nat \<Rightarrow> u8" where
  "img_byte im d k = im ! unat (blockat im d (k div 512)) ! (k mod 512)"

definition img_bytes :: "u8 list list \<Rightarrow> dinode \<Rightarrow> u8 list" where
  "img_bytes im d = map (img_byte im d) [0..<unat (d_size d)]"

text \<open>Which of its blocks a file of \<open>n\<close> bytes has, and how many.\<close>

definition covers :: "nat \<Rightarrow> nat \<Rightarrow> bool" where
  "covers n k \<longleftrightarrow> (if k < 140 then k * 512 < n else 6144 < n)"

definition blocks_for :: "nat \<Rightarrow> nat" where
  "blocks_for n = (n + 511) div 512 + (if 6144 < n then 1 else 0)"

abbreviation (input) szof :: "dinode \<Rightarrow> nat" where "szof d \<equiv> unat (d_size d)"

definition well_placed :: "u8 list list \<Rightarrow> dinode \<Rightarrow> nat \<Rightarrow> bool" where
  "well_placed im d fb \<longleftrightarrow>
     length (d_addrs d) = 13 \<and> szof d \<le> 71680 \<and>
     (\<forall>k \<le> 140. if covers (szof d) k then 21 \<le> unat (blockat im d k) \<and> unat (blockat im d k) < fb else blockat im d k = 0)"

definition layout :: "u8 list list \<Rightarrow> (u32 \<Rightarrow> dinode) \<Rightarrow> u32 set \<Rightarrow> nat \<Rightarrow> bool" where
  "layout im D J fb \<longleftrightarrow>
     length im = 1001 \<and> (\<forall>n < 1001. length (im ! n) = 512) \<and> 21 \<le> fb \<and> fb \<le> 1001 \<and>
     (\<forall>n. fb \<le> n \<and> n < 1001 \<longrightarrow> im ! n = zeros) \<and>
     (\<forall>j \<in> J. well_placed im (D j) fb) \<and>
     (\<forall>i \<in> J. \<forall>j \<in> J. \<forall>k \<le> 140. \<forall>l \<le> 140. covers (szof (D i)) k \<and> covers (szof (D j)) l \<and>
        blockat im (D i) k = blockat im (D j) l \<longrightarrow> i = j \<and> k = l)"

lemma layout_block:
  assumes "layout im D J fb" "j \<in> J" "k \<le> 140" "covers (szof (D j)) k"
  shows "21 \<le> unat (blockat im (D j) k)" "unat (blockat im (D j) k) < fb" "unat (blockat im (D j) k) < length im"
    "blockat im (D j) k \<noteq> 0"
proof -
  have "well_placed im (D j) fb" "fb \<le> 1001" "length im = 1001" using assms(1,2) by (auto simp: layout_def)
  then show "21 \<le> unat (blockat im (D j) k)" "unat (blockat im (D j) k) < fb" "unat (blockat im (D j) k) < length im"
    using assms(3,4) by (auto simp: well_placed_def)
  then show "blockat im (D j) k \<noteq> 0" by auto
qed

lemma layout_inj:
  "layout im D J fb \<Longrightarrow> i \<in> J \<Longrightarrow> j \<in> J \<Longrightarrow> k \<le> 140 \<Longrightarrow> l \<le> 140 \<Longrightarrow> covers (szof (D i)) k \<Longrightarrow> covers (szof (D j)) l \<Longrightarrow>
     blockat im (D i) k = blockat im (D j) l \<Longrightarrow> i = j \<and> k = l"
  unfolding layout_def by blast

lemma layout_free:
  "layout im D J fb \<Longrightarrow> j \<in> J \<Longrightarrow> k \<le> 140 \<Longrightarrow> \<not> covers (szof (D j)) k \<Longrightarrow> blockat im (D j) k = 0"
  unfolding layout_def well_placed_def by auto

text \<open>Only the block of addresses matters for where the blocks of a file are.\<close>

lemma blockat_cong:
  "(d_addrs d ! 12 \<noteq> 0 \<Longrightarrow> im' ! unat (d_addrs d ! 12) = im ! unat (d_addrs d ! 12)) \<Longrightarrow> blockat im' d = blockat im d"
  by (auto simp: blockat_def fun_eq_iff)

lemma covers_140 [simp]: "covers n 140 \<longleftrightarrow> 6144 < n" by (simp add: covers_def)

lemma blockat_140 [simp]: "blockat im d 140 = d_addrs d ! 12" by (simp add: blockat_def)

lemma img_byte_cong:
  assumes "layout im D J fb" "j \<in> J" "\<And>k. k \<le> 140 \<Longrightarrow> covers (szof (D j)) k \<Longrightarrow> im' ! unat (blockat im (D j) k) = im ! unat (blockat im (D j) k)"
    "x < szof (D j)"
  shows "img_byte im' (D j) x = img_byte im (D j) x"
proof -
  have sz: "szof (D j) \<le> 71680" using assms(1,2) by (auto simp: layout_def well_placed_def)
  have i: "im' ! unat (d_addrs (D j) ! 12) = im ! unat (d_addrs (D j) ! 12)" if "d_addrs (D j) ! 12 \<noteq> 0"
  proof -
    have "covers (szof (D j)) 140" using layout_free [OF assms(1,2), of 140] that by auto
    then show ?thesis using assms(3) [of 140] by simp
  qed
  then have b: "blockat im' (D j) = blockat im (D j)" by (rule blockat_cong)
  have "x div 512 * 512 \<le> x" by simp
  then have "x div 512 * 512 < szof (D j)" "x div 512 < 140" using assms(4) sz by (linarith, simp add: less_mult_imp_div_less)
  then have "covers (szof (D j)) (x div 512)" "x div 512 \<le> 140" by (auto simp: covers_def)
  then show ?thesis using assms(3) b by (simp add: img_byte_def)
qed

lemma layout_other:
  assumes "layout im D J fb" "i \<in> J" "k \<le> 140" "covers (szof (D i)) k" "j \<in> J" "j \<noteq> i \<or> k < 140"
    "\<And>n. n < fb \<Longrightarrow> n \<noteq> unat (blockat im (D i) k) \<Longrightarrow> im' ! n = im ! n"
  shows "blockat im' (D j) = blockat im (D j)"
proof (rule blockat_cong)
  assume nz: "d_addrs (D j) ! 12 \<noteq> 0"
  then have c: "covers (szof (D j)) 140" using layout_free [OF assms(1,5), of 140] by auto
  then have "unat (d_addrs (D j) ! 12) < fb" using layout_block(2) [OF assms(1,5) _ c] by simp
  moreover have "unat (d_addrs (D j) ! 12) \<noteq> unat (blockat im (D i) k)"
    using layout_inj [OF assms(1,5,2) _ assms(3) c assms(4)] assms(6) by (auto simp: word32_eq_iff)
  ultimately show "im' ! unat (d_addrs (D j) ! 12) = im ! unat (d_addrs (D j) ! 12)" by (rule assms(7))
qed

lemma layout_write:
  assumes "layout im D J fb" "i \<in> J" "k < 140" "covers (szof (D i)) k" "length b = 512"
  shows "layout (im[unat (blockat im (D i) k) := b]) D J fb"
    "j \<in> J \<Longrightarrow> blockat (im[unat (blockat im (D i) k) := b]) (D j) = blockat im (D j)"
proof -
  let ?im = "im[unat (blockat im (D i) k) := b]"
  have b: "blockat ?im (D j) = blockat im (D j)" if "j \<in> J" for j
    using layout_other [OF assms(1,2) _ assms(4) that, of ?im] assms(3) by simp
  then show "j \<in> J \<Longrightarrow> blockat ?im (D j) = blockat im (D j)" .
  have "unat (blockat im (D i) k) < fb" "unat (blockat im (D i) k) < length im"
    using layout_block [OF assms(1,2) _ assms(4)] assms(3) by simp_all
  then have "\<forall>n<1001. length (?im ! n) = 512" "\<forall>n. fb \<le> n \<and> n < 1001 \<longrightarrow> ?im ! n = zeros" "length ?im = 1001"
    using assms(1,5) by (auto simp: layout_def nth_list_update)
  moreover have "\<forall>j \<in> J. well_placed ?im (D j) fb" using assms(1) b by (simp add: layout_def well_placed_def)
  ultimately show "layout ?im D J fb" using assms(1) b unfolding layout_def by auto
qed

text \<open>An inode gets blocks that nobody has.\<close>

lemma layout_grow:
  assumes "layout im D J fb" "i \<in> J" "length im' = 1001" "\<And>n. n < 1001 \<Longrightarrow> length (im' ! n) = 512" "fb \<le> fb'" "fb' \<le> 1001"
    and zero: "\<And>n. fb' \<le> n \<Longrightarrow> n < 1001 \<Longrightarrow> im' ! n = zeros"
    and same: "\<And>n. n < fb \<Longrightarrow> n \<noteq> unat (d_addrs (D i) ! 12) \<or> szof (D i) \<le> 6144 \<Longrightarrow> im' ! n = im ! n"
    and placed: "well_placed im' d' fb'"
    and old: "\<And>k. k \<le> 140 \<Longrightarrow> covers (szof (D i)) k \<Longrightarrow> covers (szof d') k \<and> blockat im' d' k = blockat im (D i) k"
    and new: "\<And>k. k \<le> 140 \<Longrightarrow> covers (szof d') k \<Longrightarrow> \<not> covers (szof (D i)) k \<Longrightarrow> fb \<le> unat (blockat im' d' k)"
    and inj: "\<And>k l. k \<le> 140 \<Longrightarrow> l \<le> 140 \<Longrightarrow> covers (szof d') k \<Longrightarrow> covers (szof d') l \<Longrightarrow> \<not> covers (szof (D i)) k \<Longrightarrow>
      \<not> covers (szof (D i)) l \<Longrightarrow> blockat im' d' k = blockat im' d' l \<Longrightarrow> k = l"
  shows "layout im' (D(i := d')) J fb'" "\<And>j. j \<in> J \<Longrightarrow> j \<noteq> i \<Longrightarrow> blockat im' (D j) = blockat im (D j)"
proof -
  show ot: "blockat im' (D j) = blockat im (D j)" if j: "j \<in> J" "j \<noteq> i" for j
  proof (rule blockat_cong)
    assume nz: "d_addrs (D j) ! 12 \<noteq> 0"
    then have c: "covers (szof (D j)) 140" using layout_free [OF assms(1) j(1), of 140] by auto
    then have "unat (d_addrs (D j) ! 12) < fb" using layout_block(2) [OF assms(1) j(1) _ c] by simp
    moreover have "unat (d_addrs (D j) ! 12) \<noteq> unat (d_addrs (D i) ! 12)" if "6144 < szof (D i)"
      using layout_inj [OF assms(1) j(1) assms(2), of 140 140] c that j(2) by (auto simp: word32_eq_iff)
    ultimately show "im' ! unat (d_addrs (D j) ! 12) = im ! unat (d_addrs (D j) ! 12)" using same by (meson not_le)
  qed
  have wp: "well_placed im' ((D(i := d')) j) fb'" if "j \<in> J" for j
  proof (cases "j = i")
    case True
    then show ?thesis using placed by simp
  next
    case False
    have "well_placed im (D j) fb" using assms(1) that by (simp add: layout_def)
    then show ?thesis using ot [OF that False] False assms(5) by (auto simp: well_placed_def)
  qed
  have key: "covers (szof (D j)) l \<and> blockat im' ((D(i := d')) j) l = blockat im (D j) l \<and> unat (blockat im (D j) l) < fb \<or>
      j = i \<and> \<not> covers (szof (D i)) l \<and> fb \<le> unat (blockat im' ((D(i := d')) j) l)"
    if "j \<in> J" "l \<le> 140" "covers (szof ((D(i := d')) j)) l" for j l
    using ot [OF that(1)] old [OF that(2)] new [OF that(2)] that layout_block(2) [OF assms(1) that(1,2)] by (cases "j = i") auto
  have "j = i' \<and> k = l" if h: "i' \<in> J" "j \<in> J" "k \<le> 140" "l \<le> 140" "covers (szof ((D(i := d')) j)) k" "covers (szof ((D(i := d')) i')) l"
    "blockat im' ((D(i := d')) j) k = blockat im' ((D(i := d')) i') l" for i' j k l
    using key [OF h(2,3,5)]
  proof (elim disjE conjE)
    assume a: "covers (szof (D j)) k" "blockat im' ((D(i := d')) j) k = blockat im (D j) k" "unat (blockat im (D j) k) < fb"
    then have "covers (szof (D i')) l \<and> blockat im' ((D(i := d')) i') l = blockat im (D i') l"
      using key [OF h(1,4,6)] h(7) by auto
    then show ?thesis using layout_inj [OF assms(1) h(2,1,3,4) a(1)] a(2) h(7) by simp
  next
    assume a: "j = i" "\<not> covers (szof (D i)) k" "fb \<le> unat (blockat im' ((D(i := d')) j) k)"
    then have "i' = i \<and> \<not> covers (szof (D i)) l" using key [OF h(1,4,6)] h(7) by auto
    then show ?thesis using inj [OF h(3,4)] a h(5-7) by simp
  qed
  moreover have "21 \<le> fb'" using assms(1,5) by (simp add: layout_def)
  ultimately show "layout im' (D(i := d')) J fb'"
    unfolding layout_def using assms(3,4,6) zero wp by blast
qed

section \<open>Appending\<close>

lemma covers_next:
  assumes "k < 140" "off = k * 512" "off < n" "n \<le> off + 512" "l \<le> 140"
  shows "covers n l \<longleftrightarrow> covers off l \<or> l = k \<or> l = 140 \<and> k = 12"
proof (cases "l < 140")
  case True
  have "l * 512 < n \<longleftrightarrow> l \<le> k" using assms(2-4) by linarith
  then show ?thesis using True assms(2) by (auto simp: covers_def)
next
  case False
  then show ?thesis using assms by (auto simp: covers_def)
qed

lemma blocks_for_next:
  assumes "off = k * 512" "off < n" "n \<le> off + 512"
  shows "blocks_for n = blocks_for off + (if k = 12 then 2 else 1)"
proof -
  have "(n + 511) div 512 = k + 1" "(off + 511) div 512 = k" using assms by (auto intro!: div_nat_eqI)
  then show ?thesis using assms by (auto simp: blocks_for_def)
qed

lemma blocks_for_same:
  assumes "off mod 512 \<noteq> 0" "off < n" "n \<le> (off div 512 + 1) * 512"
  shows "blocks_for n = blocks_for off" "k < 140 \<Longrightarrow> covers n k = covers off k"
proof -
  define q r where "q = off div 512" and "r = off mod 512"
  have o: "off = q * 512 + r" "0 < r" "r < 512" using assms(1) by (simp_all add: q_def r_def)
  have n: "n \<le> (q + 1) * 512" using assms(3) by (simp add: q_def)
  have "(n + 511) div 512 = q + 1" "(off + 511) div 512 = q + 1" using o n assms(2) by (auto intro!: div_nat_eqI)
  moreover have "k * 512 < n \<longleftrightarrow> k * 512 < off" for k
  proof (cases "k \<le> q")
    case True
    then have "k * 512 \<le> q * 512" by simp
    then show ?thesis using o assms(2) by linarith
  next
    case False
    then have "(q + 1) * 512 \<le> k * 512" by (intro mult_le_mono1) simp
    then show ?thesis using o n by auto
  qed
  from this [of 12] this have "6144 < n \<longleftrightarrow> 6144 < off" "\<And>k. k * 512 < n \<longleftrightarrow> k * 512 < off" by simp_all
  ultimately show "blocks_for n = blocks_for off" "k < 140 \<Longrightarrow> covers n k = covers off k"
    by (simp_all add: blocks_for_def covers_def)
qed

lemma block_words_nth [simp]: "k < 128 \<Longrightarrow> block_words b ! k = rd32 b (4 * k)" "length (block_words b) = 128"
  by (simp_all add: block_words_def)

lemma blockat_words:
  "12 \<le> k \<Longrightarrow> k < 140 \<Longrightarrow> d_addrs d ! 12 \<noteq> 0 \<Longrightarrow> im ! unat (d_addrs d ! 12) = concat (map le32 ws) \<Longrightarrow> length ws = 128 \<Longrightarrow>
     blockat im d k = ws ! (k - 12)"
  using rd32_concat [of "k - 12" ws "[]"] by (simp add: blockat_def)

text \<open>What \<open>append_block\<close> leaves for the loop: a layout for the new size \<open>n\<close>, the old blocks where
  they were, and nothing changed but the block of addresses of this file.\<close>

definition appended :: "mkfs \<Rightarrow> (u32 \<Rightarrow> dinode) \<Rightarrow> u32 set \<Rightarrow> u32 \<Rightarrow> u32 \<Rightarrow> nat \<Rightarrow> u32 \<Rightarrow> dinode \<Rightarrow> mkfs \<Rightarrow> bool" where
  "appended s D J i n k fb node' s' \<longleftrightarrow>
     layout (img s') (D(i := node'\<lparr>d_size := n\<rparr>)) J (unat (freeblock s')) \<and>
     blockat (img s') (node'\<lparr>d_size := n\<rparr>) k = fb \<and>
     (\<forall>l < 140. covers (szof (D i)) l \<longrightarrow> blockat (img s') (node'\<lparr>d_size := n\<rparr>) l = blockat (img s) (D i) l) \<and>
     (\<forall>j \<in> J. j \<noteq> i \<longrightarrow> blockat (img s') (D j) = blockat (img s) (D j)) \<and>
     (\<forall>x < unat (freeblock s). x \<noteq> unat (d_addrs (D i) ! 12) \<or> szof (D i) \<le> 6144 \<longrightarrow> img s' ! x = img s ! x) \<and>
     freeino s' = freeino s \<and> sb s' = sb s \<and>
     unat (freeblock s') = unat (freeblock s) + (blocks_for (unat n) - blocks_for (szof (D i))) \<and>
     length (d_addrs node') = 13 \<and> d_type node' = d_type (D i)"

text \<open>The block is there already.\<close>

lemma append_old:
  assumes L: "layout (img s) D J (unat (freeblock s))" "i \<in> J" "D i = node\<lparr>d_size := off\<rparr>"
    and n: "unat off mod 512 \<noteq> 0" "unat off < unat n" "unat n \<le> (unat off div 512 + 1) * 512"
    and k: "k = unat off div 512"
  shows "\<exists>fb ind'. append_block k node ind s = Inr (fb, node, ind', s) \<and> appended s D J i n k fb node s"
proof -
  let ?d = "node\<lparr>d_size := n\<rparr>"
  have sz: "szof (D i) = unat off" "d_addrs (D i) = d_addrs node" using L(3) by simp_all
  have ws: "well_placed (img s) (D i) (unat (freeblock s))" "length (img s) = 1001" "unat (freeblock s) \<le> 1001"
    using L by (auto simp: layout_def)
  then have lim: "unat off \<le> 71680" "length (d_addrs node) = 13" using sz by (simp_all add: well_placed_def)
  have off: "k * 512 < unat off" using n(1) k div_mult_mod_eq [of "unat off" 512] by linarith
  then have k140: "k < 140" using lim by linarith
  have ck: "covers (szof (D i)) k" using off k140 sz by (simp add: covers_def)
  have ba: "blockat (img s) ?d = blockat (img s) (D i)" using sz by (simp add: fun_eq_iff blockat_def)
  have nz: "blockat (img s) node k \<noteq> 0" "k \<ge> 12 \<Longrightarrow> d_addrs node ! 12 \<noteq> 0" "k \<ge> 12 \<Longrightarrow> unat (d_addrs node ! 12) < 1001"
    using layout_block(4) [OF L(1,2) _ ck] layout_block(3,4) [OF L(1,2), of 140] k140 off sz ws(2) L(3) by (auto simp: blockat_def)
  have "\<exists>ind'. append_block k node ind s = Inr (blockat (img s) node k, node, ind', s)"
  proof (cases "k < 12")
    case True
    then show ?thesis using nz(1) by (simp add: append_block_def need_addr_def blockat_def)
  next
    case False
    then have "k - 12 < 128" using k140 by simp
    then have "(block_words (img s ! unat (d_addrs node ! 12)) @ drop 128 ind) ! (k - 12) = blockat (img s) node k"
      using False k140 nz(2) by (simp add: nth_append blockat_def)
    then show ?thesis using False k140 nz ws(2) by (simp add: append_block_def need_addr_def bread_def Let_def)
  qed
  moreover have "covers (unat n) l = covers (unat off) l" if "l \<le> 140" for l
    using blocks_for_same(2) [OF n, of l] blocks_for_same(2) [OF n, of 12] that by (cases "l < 140") (auto simp: covers_def)
  then have "well_placed (img s) ?d (unat (freeblock s))" "\<And>l. l \<le> 140 \<Longrightarrow> covers (szof ?d) l = covers (szof (D i)) l"
    using ws(1) ba sz n k140 k by (auto simp: well_placed_def)
  then have "layout (img s) (D(i := ?d)) J (unat (freeblock s))"
    using ba L(1,2) by (intro layout_grow(1) [OF L(1,2)]) (auto simp: layout_def)
  moreover have "blockat (img s) ?d k = blockat (img s) node k" by (simp add: blockat_def)
  ultimately show ?thesis using ba sz lim blocks_for_same(1) [OF n] L(3) by (auto simp: appended_def)
qed

text \<open>The first byte of a block that the file does not have yet.\<close>

lemma append_new_direct:
  assumes L: "layout (img s) D J (unat (freeblock s))" "i \<in> J" "D i = node\<lparr>d_size := off\<rparr>"
    and k: "unat off = k * 512" "k < 12" and n: "unat off < unat n" "unat n \<le> unat off + 512"
    and room: "unat (freeblock s) + 1 \<le> 1001"
  shows "\<exists>fb node' s'. append_block k node ind s = Inr (fb, node', ind, s') \<and> appended s D J i n k fb node' s'"
proof -
  let ?node = "node\<lparr>d_addrs := (d_addrs node)[k := freeblock s]\<rparr>"
  let ?d = "?node\<lparr>d_size := n\<rparr>"
  let ?s = "s\<lparr>freeblock := freeblock s + 1\<rparr>"
  have len: "length (d_addrs node) = 13" using L by (auto simp: layout_def well_placed_def)
  have sz: "szof (D i) = unat off" using L(3) by simp
  have nc: "\<not> covers (unat off) k" "\<not> covers (unat off) 140" using k by (auto simp: covers_def)
  then have z: "d_addrs node ! k = 0" "d_addrs node ! 12 = 0"
    using layout_free [OF L(1,2), of k] layout_free [OF L(1,2), of 140] k(2) L(3) by (auto simp: blockat_def)
  then have r: "append_block k node ind s = Inr (freeblock s, ?node, ind, ?s)"
    using k(2) len by (simp add: append_block_def need_addr_def new_block_def)
  have ba: "blockat (img s) ?d l = (if l = k then freeblock s else blockat (img s) (D i) l)" if "l \<le> 140" for l
    using that len z k(2) L(3) by (auto simp: blockat_def)
  have cv: "covers (unat n) l \<longleftrightarrow> covers (unat off) l \<or> l = k" if "l \<le> 140" for l
    using covers_next [of k "unat off" "unat n" l] k n that by auto
  have o: "blockat (img s) ?d l = blockat (img s) (D i) l" if "l \<le> 140" "covers (unat off) l" for l
    using ba [OF that(1)] nc that by auto
  have fb: "21 \<le> unat (freeblock s)" using L(1) by (simp add: layout_def)
  have ufb: "unat (freeblock s + 1) = unat (freeblock s) + 1" using room by (simp add: unat_add32)
  have "well_placed (img s) (D i) (unat (freeblock s))" using L by (auto simp: layout_def)
  then have "well_placed (img s) ?d (unat (freeblock s) + 1)"
    using len cv ba sz fb n k nc by (auto simp: well_placed_def)
  then have "layout (img s) (D(i := ?d)) J (unat (freeblock s) + 1)"
    using L room cv ba o nc by (intro layout_grow(1) [OF L(1,2)]) (auto simp: layout_def)
  moreover have "blocks_for (unat n) - blocks_for (unat off) = 1" using blocks_for_next [OF k(1) n] k(2) by simp
  ultimately have "appended s D J i n k (freeblock s) ?node ?s"
    using ufb ba o sz len k(2) L(3) by (auto simp: appended_def)
  then show ?thesis using r by blast
qed

lemma append_new_indirect:
  assumes L: "layout (img s) D J (unat (freeblock s))" "i \<in> J" "D i = node\<lparr>d_size := off\<rparr>"
    and k: "unat off = k * 512" "12 \<le> k" "k < 140" and n: "unat off < unat n" "unat n \<le> unat off + 512"
    and room: "unat (freeblock s) + (if k = 12 then 2 else 1) \<le> 1001"
  shows "\<exists>fb node' ind' s'. append_block k node ind s = Inr (fb, node', ind', s') \<and> appended s D J i n k fb node' s'"
proof -
  let ?fb = "freeblock s"
  have k12: "k - 12 < 128" using k by simp
  have sz: "szof (D i) = unat off" "d_addrs (D i) = d_addrs node" using L(3) by simp_all
  have lay: "length (img s) = 1001" "\<And>n. n < 1001 \<Longrightarrow> length (img s ! n) = 512" "21 \<le> unat ?fb"
    "\<And>n. unat ?fb \<le> n \<Longrightarrow> n < 1001 \<Longrightarrow> img s ! n = zeros" and wp: "well_placed (img s) (D i) (unat ?fb)"
    using L by (auto simp: layout_def)
  have len: "length (d_addrs node) = 13" using wp sz by (simp add: well_placed_def)
  define node' where "node' = (if k = 12 then node\<lparr>d_addrs := (d_addrs node)[12 := ?fb]\<rparr> else node)"
  define a where "a = d_addrs node' ! 12"
  define nb where "nb = (if k = 12 then ?fb + 1 else ?fb)"
  define ws where "ws = (block_words (img s ! unat a))[k - 12 := nb]"
  define im where "im = (img s)[unat a := concat (map le32 ws)]"
  define s' where "s' = s\<lparr>freeblock := nb + 1, img := im\<rparr>"
  have z: "k = 12 \<Longrightarrow> d_addrs node ! 12 = 0" using layout_free [OF L(1,2), of 140] sz k by auto
  have ex: "k \<noteq> 12 \<Longrightarrow> 21 \<le> unat (d_addrs node ! 12) \<and> unat (d_addrs node ! 12) < unat ?fb \<and> d_addrs node ! 12 \<noteq> 0"
    using layout_block [OF L(1,2), of 140] sz k by auto
  have ufb: "unat (?fb + 1) = unat ?fb + 1" if "unat ?fb + 1 \<le> 1001" using that by (simp add: unat_add32)
  have unb: "unat nb = unat ?fb + (if k = 12 then 1 else 0)" "unat (nb + 1) = unat ?fb + (if k = 12 then 2 else 1)"
    using room by (auto simp: nb_def unat_add32)
  have a: "21 \<le> unat a" "unat a < 1001" "a \<noteq> 0" "k = 12 \<Longrightarrow> a = ?fb" "unat a < unat nb"
    using ex room unb(1) lay(3) len by (auto simp: a_def node'_def)
  have len': "length (d_addrs node') = 13" using len by (simp add: node'_def)
  have lws: "length ws = 128" by (simp add: ws_def)
  have entry: "rd32 (img s ! unat a) (4 * (k - 12)) = 0"
  proof (cases "k = 12")
    case True
    then show ?thesis using a(4) lay(4) [of "unat ?fb"] room by (simp add: zeros_def rd32_def)
  next
    case False
    have "blockat (img s) (D i) k = 0" using layout_free [OF L(1,2), of k] k sz by (simp add: covers_def)
    then show ?thesis using ex False k sz by (simp add: blockat_def a_def node'_def)
  qed
  have nd: "need_addr 12 node s = (node', if k = 12 then s\<lparr>freeblock := ?fb + 1\<rparr> else s)"
    using z ex by (auto simp: need_addr_def node'_def new_block_def)
  have r: "append_block k node ind s = Inr (nb, node', ws @ drop 128 ind, s')"
    using k nd a lay(1) entry k12
    by (auto simp: append_block_def bread_def bwrite_def new_block_def Let_def nth_append list_update_append a_def [symmetric]
        ws_def nb_def s'_def im_def)
  let ?d = "node'\<lparr>d_size := n\<rparr>"
  have wsn: "ws ! l = (if l = k - 12 then nb else rd32 (img s ! unat a) (4 * l))" if "l < 128" for l
    using that k12 by (simp add: ws_def)
  have imw: "im ! unat a = concat (map le32 ws)" "\<And>x. x \<noteq> unat a \<Longrightarrow> im ! x = img s ! x" using a(2) lay(1) by (auto simp: im_def)
  have ba: "blockat im ?d l = (if l = k then nb else if l = 140 then a else if l < 12 then d_addrs node ! l
      else rd32 (img s ! unat a) (4 * (l - 12)))" if "l \<le> 140" for l
    using that k a wsn [of "l - 12"] blockat_words [of l ?d im ws, OF _ _ _ _ lws] imw(1) by (auto simp: blockat_def a_def node'_def)
  have cv: "covers (unat n) l \<longleftrightarrow> covers (unat off) l \<or> l = k \<or> l = 140 \<and> k = 12" if "l \<le> 140" for l
    using covers_next [of k "unat off" "unat n" l] k n that by auto
  have o: "blockat im ?d l = blockat (img s) (D i) l" if "l \<le> 140" "covers (unat off) l" for l
  proof -
    have "l \<noteq> k" "k = 12 \<Longrightarrow> l < 12" using that k by (auto simp: covers_def split: if_splits)
    then show ?thesis using that(1) ba [OF that(1)] ex sz by (auto simp: blockat_def a_def node'_def)
  qed
  have f: "blockat im ?d l = 0" if "l \<le> 140" "\<not> covers (unat n) l" for l
  proof -
    have l: "l \<noteq> k" "l \<noteq> 140" "k < l" using that cv [OF that(1)] k n by (auto simp: covers_def split: if_splits)
    show ?thesis
    proof (cases "k = 12")
      case True
      have "4 * (l - 12) + 3 < 512" using that(1) l by simp
      then have "rd32 zeros (4 * (l - 12)) = 0" by (simp add: zeros_def rd32_def)
      then show ?thesis using ba [OF that(1)] l True a(4) lay(4) [of "unat ?fb"] a(2) by simp
    next
      case False
      have "blockat (img s) (D i) l = 0" using layout_free [OF L(1,2) that(1)] cv [OF that(1)] that(2) sz by simp
      then show ?thesis using ba [OF that(1)] l False k(2) ex sz that(1) by (auto simp: blockat_def a_def node'_def)
    qed
  qed
  have pl: "21 \<le> unat (blockat im ?d l) \<and> unat (blockat im ?d l) < unat (nb + 1)" if "l \<le> 140" "covers (unat n) l" for l
  proof (cases "covers (unat off) l")
    case True
    then show ?thesis using o [OF that(1)] layout_block(1,2) [OF L(1,2) that(1)] sz unb(2) by auto
  next
    case False
    then have "l = k \<or> l = 140 \<and> k = 12" using cv [OF that(1)] that(2) by blast
    then show ?thesis using ba [OF that(1)] a unb lay(3) by auto
  qed
  have wp': "well_placed im ?d (unat (nb + 1))" using len' n k pl f by (auto simp: well_placed_def)
  have same: "im ! x = img s ! x" if "x < unat ?fb" "x \<noteq> unat (d_addrs (D i) ! 12) \<or> szof (D i) \<le> 6144" for x
  proof -
    have "x \<noteq> unat a" using that a(4) k sz by (cases "k = 12") (auto simp: a_def node'_def)
    then show ?thesis by (rule imw(2))
  qed
  have im1: "length im = 1001" "\<And>x. x < 1001 \<Longrightarrow> length (im ! x) = 512"
    using lay(1,2) lws a(2) by (auto simp: im_def nth_list_update)
  have im2: "im ! x = zeros" if "unat (nb + 1) \<le> x" "x < 1001" for x
  proof -
    have "unat nb < unat (nb + 1)" "unat ?fb \<le> unat nb" using unb by simp_all
    then have "x \<noteq> unat a" "unat ?fb \<le> x" using a(5) that(1) by linarith+
    then show ?thesis using lay(4) [of x] imw(2) [of x] that(2) by simp
  qed
  have old: "covers (szof ?d) l \<and> blockat im ?d l = blockat (img s) (D i) l" if "l \<le> 140" "covers (szof (D i)) l" for l
    using cv [OF that(1)] o [OF that(1)] that(2) sz by simp
  have new: "l = k \<and> blockat im ?d l = nb \<or> l = 140 \<and> k = 12 \<and> blockat im ?d l = a"
    if "l \<le> 140" "covers (szof ?d) l" "\<not> covers (szof (D i)) l" for l
    using cv [OF that(1)] ba [OF that(1)] that(2,3) sz k by auto
  have new': "unat ?fb \<le> unat (blockat im ?d l)" if "l \<le> 140" "covers (szof ?d) l" "\<not> covers (szof (D i)) l" for l
    using new [OF that] unb(1) a(4) by auto
  have inj: "l = m" if "l \<le> 140" "m \<le> 140" "covers (szof ?d) l" "covers (szof ?d) m" "\<not> covers (szof (D i)) l"
    "\<not> covers (szof (D i)) m" "blockat im ?d l = blockat im ?d m" for l m
    using new [OF that(1,3,5)] new [OF that(2,4,6)] that(7) a(5) by auto
  have fb': "unat ?fb \<le> unat (nb + 1)" "unat (nb + 1) \<le> 1001" using unb(2) room by simp_all
  have g: "layout im (D(i := ?d)) J (unat (nb + 1))"
    by (rule layout_grow(1) [OF L(1,2)]; fact im1 fb' im2 same wp' old new' inj)
  have g2: "blockat im (D j) = blockat (img s) (D j)" if "j \<in> J" "j \<noteq> i" for j
    by (rule layout_grow(2) [OF L(1,2), where d' = ?d and fb' = "unat (nb + 1)"]; fact im1 fb' im2 same wp' old new' inj that)
  have bl: "blocks_for (unat n) - blocks_for (szof (D i)) = (if k = 12 then 2 else 1)" using blocks_for_next [OF k(1) n] sz by simp
  have ty: "d_type node' = d_type (D i)" using L(3) by (simp add: node'_def)
  have s': "img s' = im" "freeblock s' = nb + 1" "freeino s' = freeino s" "sb s' = sb s" by (simp_all add: s'_def)
  have "appended s D J i n k nb node' s'"
    unfolding appended_def s' bl
  proof (intro conjI allI ballI impI)
    show "blockat im ?d k = nb" using ba [of k] k(3) by simp
    show "blockat im ?d l = blockat (img s) (D i) l" if "l < 140" "covers (szof (D i)) l" for l using old that by simp
  qed (fact g g2 same unb(2) len' ty refl)+
  then show ?thesis using r by blast
qed

lemma append_block_ok:
  assumes L: "layout (img s) D J (unat (freeblock s))" "i \<in> J" "D i = node\<lparr>d_size := off\<rparr>"
    and n: "unat off < unat n" "unat n \<le> (unat off div 512 + 1) * 512" "unat n \<le> 71680"
    and room: "unat (freeblock s) + (blocks_for (unat n) - blocks_for (unat off)) \<le> 1001"
  shows "\<exists>fb node' ind' s'. append_block (unat off div 512) node ind s = Inr (fb, node', ind', s') \<and>
    appended s D J i n (unat off div 512) fb node' s'"
proof (cases "unat off mod 512 = 0")
  case False
  then show ?thesis using append_old [OF L False n(1,2) refl] by blast
next
  case True
  define k where "k = unat off div 512"
  have k: "unat off = k * 512" "k < 140" using True n by (auto simp: k_def)
  have n2: "unat n \<le> unat off + 512" using n(2) k by simp
  have b: "blocks_for (unat n) - blocks_for (unat off) = (if k = 12 then 2 else 1)" using blocks_for_next [OF k(1) n(1) n2] by simp
  show ?thesis
  proof (cases "k < 12")
    case True
    then show ?thesis
      using append_new_direct [OF L k(1) True n(1) n2, of ind] room b unfolding k_def [symmetric] by auto
  next
    case False
    then show ?thesis
      using append_new_indirect [OF L k(1) _ k(2) n(1) n2, of ind] room b unfolding k_def [symmetric] by simp
  qed
qed

lemma byte_block:
  assumes "layout im D J fb" "j \<in> J" "x < szof (D j)"
  shows "x div 512 < 140" "covers (szof (D j)) (x div 512)" "x div 512 \<le> 140"
proof -
  have sz: "szof (D j) \<le> 71680" using assms(1,2) by (auto simp: layout_def well_placed_def)
  have "x div 512 * 512 \<le> x" by simp
  then have "x div 512 * 512 < szof (D j)" using assms(3) by linarith
  moreover show "x div 512 < 140" using assms(3) sz by (simp add: less_mult_imp_div_less)
  ultimately show "covers (szof (D j)) (x div 512)" "x div 512 \<le> 140" by (simp_all add: covers_def)
qed

text \<open>One round of the loop of \<open>iappend\<close>.\<close>

definition append_step :: "u8 list \<Rightarrow> u32 \<Rightarrow> u32 \<Rightarrow> mkfs \<Rightarrow> mkfs res" where
  "append_step q off fb s =
     rbind (bread fb s) (\<lambda>buf. Inr (bwrite fb (blit (unat (off - off div 512 * 512)) q buf) s))"

lemma append_loop_step:
  "p \<noteq> [] \<Longrightarrow> append_loop p off node ind s =
     rbind (append_block (unat (off div 512)) node ind s) (\<lambda>(fb, node, ind, s).
     let realn = min (length p) (chunk off) in
     rbind (append_step (take realn p) off fb s) (\<lambda>s.
     append_loop (drop realn p) (off + of_nat realn) node ind s))"
  by (subst append_loop.simps) (cases "append_block (unat (off div 512)) node ind s", auto simp: append_step_def bread_def Let_def)

lemma append_step_ok:
  assumes L: "layout (img s) D J (unat (freeblock s))" "i \<in> J" "D i = node\<lparr>d_size := off\<rparr>"
    and n: "unat n = unat off + length q" "q \<noteq> []" "length q \<le> 512 - unat off mod 512" "unat n \<le> 71680"
    and room: "unat (freeblock s) + (blocks_for (unat n) - blocks_for (unat off)) \<le> 1001"
  shows "\<exists>fb node' ind' s' t. append_block (unat off div 512) node ind s = Inr (fb, node', ind', s') \<and>
    append_step q off fb s' = Inr t \<and> layout (img t) (D(i := node'\<lparr>d_size := n\<rparr>)) J (unat (freeblock t)) \<and>
    img_bytes (img t) (node'\<lparr>d_size := n\<rparr>) = img_bytes (img s) (D i) @ q \<and>
    (\<forall>j \<in> J. j \<noteq> i \<longrightarrow> img_bytes (img t) (D j) = img_bytes (img s) (D j)) \<and>
    (\<forall>x < 21. img t ! x = img s ! x) \<and> freeino t = freeino s \<and> sb t = sb s \<and>
    unat (freeblock t) = unat (freeblock s) + (blocks_for (unat n) - blocks_for (unat off)) \<and> d_type node' = d_type node"
proof -
  define k where "k = unat off div 512"
  have q0: "0 < length q" using n(2) by simp
  have km: "unat off = k * 512 + unat off mod 512" by (simp add: k_def)
  have ck: "unat off < unat n" "unat n \<le> (k + 1) * 512" using n(1,3) q0 km by auto
  obtain fb node' ind' s' where r: "append_block k node ind s = Inr (fb, node', ind', s')" and A: "appended s D J i n k fb node' s'"
    using append_block_ok [OF L ck(1) _ n(4) room, of ind] ck(2) unfolding k_def by blast
  let ?D = "D(i := node'\<lparr>d_size := n\<rparr>)" and ?d = "node'\<lparr>d_size := n\<rparr>"
  have L': "layout (img s') ?D J (unat (freeblock s'))" and fb: "blockat (img s') ?d k = fb"
    and old: "\<And>l. l < 140 \<Longrightarrow> covers (szof (D i)) l \<Longrightarrow> blockat (img s') ?d l = blockat (img s) (D i) l"
    and oth: "\<And>j. j \<in> J \<Longrightarrow> j \<noteq> i \<Longrightarrow> blockat (img s') (D j) = blockat (img s) (D j)"
    and same: "\<And>x. x < unat (freeblock s) \<Longrightarrow> x \<noteq> unat (d_addrs (D i) ! 12) \<or> szof (D i) \<le> 6144 \<Longrightarrow> img s' ! x = img s ! x"
    using A unfolding appended_def by auto
  have k140: "k < 140" using ck n(4) km by linarith
  have cov: "covers (unat n) k" using k140 ck(1) km by (simp add: covers_def)
  have ufb: "21 \<le> unat fb" "unat fb < 1001" "length (img s') = 1001"
    using layout_block [OF L' L(2), of k] cov k140 fb L' by (auto simp: layout_def)
  define b where "b = blit (unat off mod 512) q (img s' ! unat fb)"
  have lb: "length (img s' ! unat fb) = 512" using L' ufb by (simp add: layout_def)
  then have lenb: "length b = 512" using n(3) by (simp add: b_def less_imp_le)
  define t where "t = s'\<lparr>img := (img s')[unat fb := b]\<rparr>"
  have "unat (off - off div 512 * 512) = unat off mod 512" by (simp add: minus_div_mult_eq_mod unat_mod)
  then have st: "append_step q off fb s' = Inr t" using ufb by (simp add: append_step_def bread_def bwrite_def t_def b_def)
  have Lt: "layout (img t) ?D J (unat (freeblock t))" and bt: "\<And>j. j \<in> J \<Longrightarrow> blockat (img t) (?D j) = blockat (img s') (?D j)"
    using layout_write [OF L' L(2) k140 _ lenb] cov fb by (simp_all add: t_def)
  have ch: "img s' ! unat v = img s ! unat v" if "j \<in> J" "l < 140" "covers (szof (D j)) l" "v = blockat (img s) (D j) l" for j l v
  proof (rule same)
    show "unat v < unat (freeblock s)" using layout_block(2) [OF L(1) that(1) _ that(3)] that by simp
    have "\<not> (6144 < szof (D i) \<and> unat v = unat (d_addrs (D i) ! 12))"
      using layout_inj [OF L(1) that(1) L(2), of l 140] that by (auto simp: word32_eq_iff)
    then show "unat v \<noteq> unat (d_addrs (D i) ! 12) \<or> szof (D i) \<le> 6144" by linarith
  qed
  have m21: "\<forall>x < 21. img t ! x = img s ! x"
  proof (intro allI impI)
    fix x :: nat
    assume x: "x < 21"
    have "x \<noteq> unat (d_addrs (D i) ! 12) \<or> szof (D i) \<le> 6144"
      using layout_block(1) [OF L(1,2), of 140] x by (cases "6144 < szof (D i)") auto
    moreover have "x < unat (freeblock s)" using L(1) x by (simp add: layout_def)
    ultimately show "img t ! x = img s ! x" using same [of x] ufb(1) x by (simp add: t_def)
  qed
  have ob: "img_byte (img t) (D j) x = img_byte (img s) (D j) x" if j: "j \<in> J" "j \<noteq> i" "x < szof (D j)" for j x
  proof -
    note l = byte_block [OF L(1) j(1,3)]
    have "blockat (img s') (D j) (x div 512) \<noteq> fb"
      using layout_inj [OF L' j(1) L(2), of "x div 512" k] l j(2) cov k140 fb by auto
    then show ?thesis using bt [OF j(1)] oth [OF j(1,2)] j(2) ch [OF j(1) l(1,2) refl]
      by (auto simp: img_byte_def t_def word32_eq_iff)
  qed
  then have "\<forall>j \<in> J. j \<noteq> i \<longrightarrow> img_bytes (img t) (D j) = img_bytes (img s) (D j)" by (simp add: img_bytes_def)
  moreover have "img_bytes (img t) ?d = img_bytes (img s) (D i) @ q"
  proof (rule nth_equalityI)
    show "length (img_bytes (img t) ?d) = length (img_bytes (img s) (D i) @ q)" using n(1) L(3) by (simp add: img_bytes_def)
    fix x
    assume "x < length (img_bytes (img t) ?d)"
    then have x: "x < unat n" by (simp add: img_bytes_def)
    have x2: "x < szof (?D i)" using x by simp
    note m = byte_block [OF L' L(2) x2]
    have "blockat (img s') ?d (x div 512) \<noteq> fb" if "x div 512 \<noteq> k"
      using layout_inj [OF L' L(2,2) m(3), of k] m(2) cov k140 fb that by auto
    then have ne: "unat fb \<noteq> unat (blockat (img s') ?d (x div 512))" if "x div 512 \<noteq> k" using that by (simp add: word32_eq_iff)
    have bx: "img_byte (img t) ?d x = (if x div 512 = k then b ! (x mod 512)
        else img s' ! unat (blockat (img s') ?d (x div 512)) ! (x mod 512))"
      using bt [OF L(2)] fb ufb(2,3) ne by (simp add: img_byte_def t_def)
    show "img_bytes (img t) ?d ! x = (img_bytes (img s) (D i) @ q) ! x"
    proof (cases "x < unat off")
      case True
      then have x3: "x < szof (D i)" using L(3) by simp
      note l = byte_block [OF L(1,2) x3]
      have e: "img s' ! unat (blockat (img s') ?d (x div 512)) ! (x mod 512) = img_byte (img s) (D i) x"
        using old [OF l(1,2)] ch [OF L(2) l(1,2) refl] by (simp add: img_byte_def)
      have "b ! (x mod 512) = img s' ! unat fb ! (x mod 512)" if "x div 512 = k"
      proof -
        have "x mod 512 < unat off mod 512" using True that km div_mult_mod_eq [of x 512] by linarith
        then show ?thesis using lb n(3) by (simp add: b_def blit_nth less_imp_le)
      qed
      then have "img_byte (img t) ?d x = img_byte (img s) (D i) x" using bx e fb by auto
      then show ?thesis using x True L(3) by (simp add: img_bytes_def nth_append)
    next
      case False
      define y where "y = x - unat off"
      have y: "x = unat off + y" "y < length q" using False x n(1) by (auto simp: y_def)
      then have "y < 512 - unat off mod 512" using n(3) by simp
      note c = chunk_div [OF this]
      have "x div 512 = k" "x mod 512 = unat off mod 512 + y" using c y(1) by (simp_all add: k_def)
      moreover have "b ! (unat off mod 512 + y) = q ! y" using lb n(3) y(2) by (simp add: b_def blit_nth less_imp_le)
      ultimately have "img_byte (img t) ?d x = q ! y" using bx by simp
      then show ?thesis using x False L(3) by (simp add: img_bytes_def nth_append y_def)
    qed
  qed
  moreover have "freeino t = freeino s" "sb t = sb s" "d_type node' = d_type node"
    "unat (freeblock t) = unat (freeblock s) + (blocks_for (unat n) - blocks_for (unat off))"
    using A L(3) by (simp_all add: appended_def t_def)
  ultimately show ?thesis using r st Lt m21 unfolding k_def [symmetric] by blast
qed

lemma blocks_for_mono: "m \<le> n \<Longrightarrow> blocks_for m \<le> blocks_for n"
  unfolding blocks_for_def by (intro add_mono div_le_mono) auto

lemma append_loop_ok:
  assumes "layout (img s) (D(i := node\<lparr>d_size := off\<rparr>)) J (unat (freeblock s))" "i \<in> J" "unat off + length p \<le> 71680"
    "unat (freeblock s) + (blocks_for (unat off + length p) - blocks_for (unat off)) \<le> 1001"
  shows "\<exists>off' node' t. append_loop p off node ind s = Inr (off', node', t) \<and> unat off' = unat off + length p \<and>
    layout (img t) (D(i := node'\<lparr>d_size := off'\<rparr>)) J (unat (freeblock t)) \<and>
    img_bytes (img t) (node'\<lparr>d_size := off'\<rparr>) = img_bytes (img s) (node\<lparr>d_size := off\<rparr>) @ p \<and>
    (\<forall>j \<in> J. j \<noteq> i \<longrightarrow> img_bytes (img t) (D j) = img_bytes (img s) (D j)) \<and>
    (\<forall>x < 21. img t ! x = img s ! x) \<and> freeino t = freeino s \<and> sb t = sb s \<and>
    unat (freeblock t) = unat (freeblock s) + (blocks_for (unat off + length p) - blocks_for (unat off)) \<and>
    d_type node' = d_type node"
  using assms
proof (induction "length p" arbitrary: p off node ind s rule: less_induct)
  case less
  show ?case
  proof (cases "p = []")
    case True
    then show ?thesis using less.prems by (subst append_loop.simps) simp
  next
    case False
    let ?D = "D(i := node\<lparr>d_size := off\<rparr>)"
    define r where "r = min (length p) (chunk off)"
    define n where "n = off + of_nat r"
    have r: "0 < r" "r \<le> length p" "r \<le> 512 - unat off mod 512" using False by (simp_all add: r_def chunk_eq)
    have un: "unat n = unat off + r" using r(2) less.prems(3) by (simp add: n_def unat_add32 unat_of_nat32)
    have le: "blocks_for (unat off) \<le> blocks_for (unat n)" "blocks_for (unat n) \<le> blocks_for (unat off + length p)"
      using un r(2) by (auto intro: blocks_for_mono)
    have q: "unat n = unat off + length (take r p)" "take r p \<noteq> []" "length (take r p) \<le> 512 - unat off mod 512" "unat n \<le> 71680"
      using un r False less.prems(3) by auto
    have rm: "unat (freeblock s) + (blocks_for (unat n) - blocks_for (unat off)) \<le> 1001" using less.prems(4) le by linarith
    have di: "?D i = node\<lparr>d_size := off\<rparr>" by simp
    obtain fb node' ind' s' t where h: "append_block (unat off div 512) node ind s = Inr (fb, node', ind', s')"
      "append_step (take r p) off fb s' = Inr t" "layout (img t) (?D(i := node'\<lparr>d_size := n\<rparr>)) J (unat (freeblock t))"
      "img_bytes (img t) (node'\<lparr>d_size := n\<rparr>) = img_bytes (img s) (?D i) @ take r p"
      "\<forall>j \<in> J. j \<noteq> i \<longrightarrow> img_bytes (img t) (?D j) = img_bytes (img s) (?D j)"
      "\<forall>x < 21. img t ! x = img s ! x" "freeino t = freeino s" "sb t = sb s"
      "unat (freeblock t) = unat (freeblock s) + (blocks_for (unat n) - blocks_for (unat off))" "d_type node' = d_type node"
      using append_step_ok [OF less.prems(1,2) di q rm, of ind] by blast
    have lt: "length (drop r p) < length p" "unat n + length (drop r p) = unat off + length p" using r un by simp_all
    then obtain off' node'' u where u: "append_loop (drop r p) n node' ind' t = Inr (off', node'', u)"
      "unat off' = unat n + length (drop r p)" "layout (img u) (D(i := node''\<lparr>d_size := off'\<rparr>)) J (unat (freeblock u))"
      "img_bytes (img u) (node''\<lparr>d_size := off'\<rparr>) = img_bytes (img t) (node'\<lparr>d_size := n\<rparr>) @ drop r p"
      "\<forall>j \<in> J. j \<noteq> i \<longrightarrow> img_bytes (img u) (D j) = img_bytes (img t) (D j)" "\<forall>x < 21. img u ! x = img t ! x"
      "freeino u = freeino t" "sb u = sb t"
      "unat (freeblock u) = unat (freeblock t) + (blocks_for (unat off + length p) - blocks_for (unat n))" "d_type node'' = d_type node'"
      using less.hyps [OF lt(1), of t n node' ind'] h(3,9) less.prems(2-4) le by auto
    have "append_loop p off node ind s = Inr (off', node'', u)"
      using h(1,2) u(1) by (simp add: append_loop_step [OF False] unat_div r_def [symmetric] n_def Let_def)
    then show ?thesis using u lt(2) h le by auto
  qed
qed

section \<open>Inodes on the image\<close>

definition mkfs_sb :: superblock where
  "mkfs_sb = \<lparr>nblocks = 1000, ninodes = 128, ndata = 979, inodestart = 1, bmapstart = 20, datastart = 21\<rparr>"

definition disk_inode :: "u8 list list \<Rightarrow> u32 \<Rightarrow> dinode" where
  "disk_inode im j = bytes_dinode (slice (DINODE_SZ * unat (j mod 7)) DINODE_SZ (im ! (unat j div 7 + 1)))"

definition img_file :: "mkfs \<Rightarrow> u32 \<Rightarrow> u8 list" where
  "img_file s j = img_bytes (img s) (disk_inode (img s) j)"

definition file_type :: "mkfs \<Rightarrow> u32 \<Rightarrow> u32" where
  "file_type s j = d_type (disk_inode (img s) j)"

definition image_ok :: "mkfs \<Rightarrow> bool" where
  "image_ok s \<longleftrightarrow> sb s = mkfs_sb \<and> img s ! 0 = blit 0 (superblock_bytes mkfs_sb) zeros \<and> 1 \<le> freeino s \<and> unat (freeino s) \<le> 133 \<and>
     layout (img s) (disk_inode (img s)) {1..<freeino s} (unat (freeblock s))"

lemma inode_block_no: "unat j \<le> 132 \<Longrightarrow> unat (get_inode_block j mkfs_sb) = unat j div 7 + 1" "unat j \<le> 132 \<Longrightarrow> unat j div 7 + 1 < 20"
proof -
  assume j: "unat j \<le> 132"
  then have "unat j div 7 \<le> 132 div 7" by (rule div_le_mono)
  then show "unat j div 7 + 1 < 20" "unat (get_inode_block j mkfs_sb) = unat j div 7 + 1"
    by (simp_all add: get_inode_block_def mkfs_sb_def unat_add32 unat_div)
qed

lemma slice_blit_other:
  assumes "k + length new \<le> length bs" "l + n \<le> length bs" "l + n \<le> k \<or> k + length new \<le> l"
  shows "slice l n (blit k new bs) = slice l n bs"
  using assms by (intro nth_equalityI) (auto simp: slice_nth blit_nth)

lemma disk_inode_write:
  assumes "length im = 1001" "\<And>n. n < 1001 \<Longrightarrow> length (im ! n) = 512" "unat i \<le> 132" "unat j \<le> 132" "length (d_addrs d) = 13"
  shows "disk_inode (im[unat i div 7 + 1 := blit (DINODE_SZ * unat (i mod 7)) (dinode_bytes d) (im ! (unat i div 7 + 1))]) j =
    (if j = i then d else disk_inode im j)"
proof -
  let ?b = "im ! (unat i div 7 + 1)" and ?o = "\<lambda>j :: u32. 66 * unat (j mod 7)"
  have o: "?o j + 66 \<le> 512" for j :: u32 using unat_mod [of j 7] mod_less_divisor [of 7 "unat j"] by simp
  have lt: "unat i div 7 + 1 < 1001" "length ?b = 512" using inode_block_no(2) [OF assms(3)] assms(2) by auto
  have ld: "length (dinode_bytes d) = 66" using assms(5) by simp
  show ?thesis
  proof (cases "unat j div 7 = unat i div 7")
    case False
    then have "j \<noteq> i" by auto
    then show ?thesis using False by (simp add: disk_inode_def)
  next
    case True
    show ?thesis
    proof (cases "j = i")
      case True
      then show ?thesis using lt assms(1,5) o [of i] ld slice_blit [of "?o i" "dinode_bytes d" ?b] bytes_dinode_bytes [of d "[]"]
        by (simp add: disk_inode_def)
    next
      case False
      then have "unat j \<noteq> unat i" by (simp add: word32_eq_iff)
      then have "unat (j mod 7) \<noteq> unat (i mod 7)" using True unat_mod [of j 7] unat_mod [of i 7] div_mult_mod_eq [of "unat j" 7]
          div_mult_mod_eq [of "unat i" 7] by (auto simp: unat_mod)
      then have "?o j + 66 \<le> ?o i \<or> ?o i + 66 \<le> ?o j" by linarith
      then have "slice (?o j) 66 (blit (?o i) (dinode_bytes d) ?b) = slice (?o j) 66 ?b"
        using o [of i] o [of j] ld lt(2) by (intro slice_blit_other) auto
      then show ?thesis using False True lt(1) assms(1) by (simp add: disk_inode_def)
    qed
  qed
qed

text \<open>Writes to the blocks in front of the data leave the files alone.\<close>

lemma layout_meta:
  assumes L: "layout im D J fb" and "length im' = 1001" "\<And>n. n < 1001 \<Longrightarrow> length (im' ! n) = 512"
    "\<And>n. 21 \<le> n \<Longrightarrow> n < 1001 \<Longrightarrow> im' ! n = im ! n" "\<And>j. j \<in> J \<Longrightarrow> D' j = D j"
  shows "layout im' D' J fb" "j \<in> J \<Longrightarrow> img_bytes im' (D' j) = img_bytes im (D j)"
proof -
  have ge: "im' ! unat (blockat im (D j) k) = im ! unat (blockat im (D j) k)" if "j \<in> J" "k \<le> 140" "covers (szof (D j)) k" for j k
    using layout_block [OF L that] L assms(4) by (auto simp: layout_def)
  have b: "blockat im' (D j) = blockat im (D j)" if "j \<in> J" for j
  proof (rule blockat_cong)
    assume "d_addrs (D j) ! 12 \<noteq> 0"
    then have "covers (szof (D j)) 140" using layout_free [OF L that, of 140] by auto
    then show "im' ! unat (d_addrs (D j) ! 12) = im ! unat (d_addrs (D j) ! 12)" using ge [OF that, of 140] by simp
  qed
  show "layout im' D' J fb" using L assms(2-5) b unfolding layout_def well_placed_def by simp
  have "img_byte im' (D j) x = img_byte im (D j) x" if "j \<in> J" "x < szof (D j)" for x
    using that by (intro img_byte_cong [OF L]) (auto intro: ge)
  then show "j \<in> J \<Longrightarrow> img_bytes im' (D' j) = img_bytes im (D j)" using assms(5) by (simp add: img_bytes_def)
qed

lemma iread_ok:
  "image_ok s \<Longrightarrow> unat i \<le> 132 \<Longrightarrow> iread i s = Inr (disk_inode (img s) i)"
  using inode_block_no [of i] by (auto simp: iread_def bread_def image_ok_def layout_def disk_inode_def)

text \<open>Storing inode \<open>i\<close> once the data blocks fit it.\<close>

lemma iwrite_ok:
  assumes L: "layout (img s) (D(i := d)) J (unat (freeblock s))" "sb s = mkfs_sb" "unat i \<le> 132" "i \<in> J"
    and J: "\<And>j. j \<in> J \<Longrightarrow> unat j \<le> 132" "\<And>j. j \<in> J \<Longrightarrow> j \<noteq> i \<Longrightarrow> disk_inode (img s) j = D j"
  shows "\<exists>t. iwrite i d s = Inr t \<and> layout (img t) (disk_inode (img t)) J (unat (freeblock t)) \<and> sb t = sb s \<and>
    freeino t = freeino s \<and> freeblock t = freeblock s \<and> img t ! 0 = img s ! 0 \<and>
    (\<forall>j \<in> J. disk_inode (img t) j = (D(i := d)) j \<and> img_file t j = img_bytes (img s) ((D(i := d)) j))"
proof -
  let ?n = "unat i div 7 + 1"
  let ?b = "blit (DINODE_SZ * unat (i mod 7)) (dinode_bytes d) (img s ! ?n)"
  let ?im = "(img s)[?n := ?b]"
  have lay: "length (img s) = 1001" "\<And>n. n < 1001 \<Longrightarrow> length (img s ! n) = 512" using L(1) by (auto simp: layout_def)
  have "well_placed (img s) d (unat (freeblock s))" using L(1,4) by (auto simp: layout_def split: if_splits)
  then have ld: "length (d_addrs d) = 13" by (simp add: well_placed_def)
  have n: "?n < 20" "unat (get_inode_block i mkfs_sb) = ?n" using inode_block_no [OF L(3)] by auto
  then have w: "iwrite i d s = Inr (s\<lparr>img := ?im\<rparr>)" using L(2) lay(1) by (simp add: iwrite_def bread_def bwrite_def)
  have "66 * unat (i mod 7) + 66 \<le> 512" using unat_mod [of i 7] mod_less_divisor [of 7 "unat i"] by simp
  then have lb: "length ?b = 512" using lay(2) [of ?n] n(1) ld by simp
  have d: "disk_inode ?im j = (D(i := d)) j" if "j \<in> J" for j
    using disk_inode_write [OF lay L(3) J(1) [OF that] ld] J(2) [OF that] by simp
  have im: "length ?im = 1001" "\<And>x. x < 1001 \<Longrightarrow> length (?im ! x) = 512" "\<And>x. 21 \<le> x \<Longrightarrow> x < 1001 \<Longrightarrow> ?im ! x = img s ! x"
    using lay lb n(1) by (auto simp: nth_list_update)
  note m = layout_meta [OF L(1) im d]
  show ?thesis using w m d L(4) by (intro exI [of _ "s\<lparr>img := ?im\<rparr>"]) (auto simp: img_file_def)
qed

lemma image_inum: "image_ok s \<Longrightarrow> j \<in> {1..<freeino s} \<Longrightarrow> unat j \<le> 132"
  by (auto simp: image_ok_def word_less_nat_alt)

lemma iappend_ok:
  assumes "image_ok s" "1 \<le> i" "i < freeino s" "length (img_file s i) + length p \<le> 71680"
    "unat (freeblock s) + (blocks_for (length (img_file s i) + length p) - blocks_for (length (img_file s i))) \<le> 1001"
  shows "\<exists>t. iappend i p s = Inr t \<and> image_ok t \<and> img_file t i = img_file s i @ p \<and>
    (\<forall>j. 1 \<le> j \<and> j < freeino s \<and> j \<noteq> i \<longrightarrow> img_file t j = img_file s j) \<and> freeino t = freeino s \<and>
    (\<forall>j. 1 \<le> j \<and> j < freeino s \<longrightarrow> file_type t j = file_type s j) \<and>
    unat (freeblock t) = unat (freeblock s) + (blocks_for (length (img_file s i) + length p) - blocks_for (length (img_file s i)))"
proof -
  let ?D = "disk_inode (img s)" and ?J = "{1..<freeino s}"
  let ?node = "?D i" 
  let ?off = "d_size ?node"
  have L: "layout (img s) (?D(i := ?node\<lparr>d_size := ?off\<rparr>)) ?J (unat (freeblock s))" "sb s = mkfs_sb" "unat (freeino s) \<le> 133"
    "1 \<le> freeino s" "img s ! 0 = blit 0 (superblock_bytes mkfs_sb) zeros"
    using assms(1) by (simp_all add: image_ok_def)
  have i: "i \<in> ?J" "unat i \<le> 132" using assms image_inum by auto
  have len: "length (img_file s i) = unat ?off" by (simp add: img_file_def img_bytes_def)
  obtain off' node' t where t: "append_loop p ?off ?node (replicate BSIZE 0) s = Inr (off', node', t)"
    "layout (img t) (?D(i := node'\<lparr>d_size := off'\<rparr>)) ?J (unat (freeblock t))"
    "img_bytes (img t) (node'\<lparr>d_size := off'\<rparr>) = img_bytes (img s) (?node\<lparr>d_size := ?off\<rparr>) @ p"
    "\<forall>j \<in> ?J. j \<noteq> i \<longrightarrow> img_bytes (img t) (?D j) = img_bytes (img s) (?D j)"
    "\<forall>x < 21. img t ! x = img s ! x" "freeino t = freeino s" "sb t = sb s"
    "unat (freeblock t) = unat (freeblock s) + (blocks_for (unat ?off + length p) - blocks_for (unat ?off))"
    "d_type node' = d_type ?node"
    using append_loop_ok [OF L(1) i(1), of p "replicate BSIZE 0"] assms(4,5) len by auto
  have dj: "disk_inode (img t) j = ?D j" if "j \<in> ?J" for j
    using t(5) inode_block_no(2) [of j] image_inum [OF assms(1) that] by (simp add: disk_inode_def)
  obtain u where u: "iwrite i (node'\<lparr>d_size := off'\<rparr>) t = Inr u" "layout (img u) (disk_inode (img u)) ?J (unat (freeblock u))"
    "sb u = sb t" "freeino u = freeino t" "freeblock u = freeblock t" "img u ! 0 = img t ! 0"
    "\<forall>j \<in> ?J. disk_inode (img u) j = (?D(i := node'\<lparr>d_size := off'\<rparr>)) j \<and> img_file u j = img_bytes (img t) ((?D(i := node'\<lparr>d_size := off'\<rparr>)) j)"
    using iwrite_ok [OF t(2) _ i(2,1) image_inum [OF assms(1)]] t(7) L(2) dj by auto
  have "iappend i p s = Inr u" using iread_ok [OF assms(1) i(2)] t(1) u(1) by (simp add: iappend_def)
  moreover have "image_ok u" using u(2-4,6) t(5-7) L by (simp add: image_ok_def)
  moreover have "file_type u j = file_type s j" if "1 \<le> j" "j < freeino s" for j using that u(7) t(9) by (simp add: file_type_def)
  moreover have "img_file u j = (if j = i then img_file s i @ p else img_file s j)" if "1 \<le> j" "j < freeino s" for j
    using that u(7) t(3,4) by (simp add: img_file_def [of s])
  ultimately show ?thesis using u t(6,8) assms(2,3) len by auto
qed

lemma layout_insert:
  assumes "layout im D J fb" "d_size d = 0" "d_addrs d = replicate 13 0"
  shows "layout im (D(i := d)) (insert i (J - {i})) fb"
proof -
  have c: "\<not> covers (szof d) k" "k \<le> 140 \<Longrightarrow> blockat im d k = 0" for k using assms(2,3) by (auto simp: covers_def blockat_def)
  then have "well_placed im d fb" using assms(2,3) by (simp add: well_placed_def)
  then show ?thesis using assms(1) c(1) unfolding layout_def by auto
qed

lemma ialloc_ok:
  assumes "image_ok s" "unat (freeino s) \<le> 132"
  shows "\<exists>t. ialloc type s = Inr (freeino s, t) \<and> image_ok t \<and> freeino t = freeino s + 1 \<and> freeblock t = freeblock s \<and>
    img_file t (freeino s) = [] \<and> file_type t (freeino s) = type \<and>
    (\<forall>j. 1 \<le> j \<and> j < freeino s \<longrightarrow> img_file t j = img_file s j \<and> file_type t j = file_type s j)"
proof -
  let ?i = "freeino s" and ?D = "disk_inode (img s)"
  let ?d = "\<lparr>d_type = type, d_major = 0, d_minor = 0, d_nlink = 1, d_size = 0, d_addrs = replicate NINOBLKS 0\<rparr>"
  let ?s = "s\<lparr>freeino := ?i + 1\<rparr>"
  have ui: "unat (?i + 1) = unat ?i + 1" using assms(2) by (simp add: unat_add32)
  have L: "layout (img s) ?D {1..<?i} (unat (freeblock s))" "sb s = mkfs_sb" "1 \<le> ?i" "img s ! 0 = blit 0 (superblock_bytes mkfs_sb) zeros"
    using assms(1) by (simp_all add: image_ok_def)
  have J: "insert ?i ({1..<?i} - {?i}) = {1..<?i + 1}" using L(3) ui by (auto simp: word32_cmp)
  have "layout (img ?s) (?D(?i := ?d)) {1..<?i + 1} (unat (freeblock ?s))"
    using layout_insert [OF L(1), of ?d ?i] unfolding J by simp
  moreover have "unat j \<le> 132" if "j \<in> {1..<?i + 1}" for j using that ui assms(2) by (auto simp: word_less_nat_alt)
  moreover have "?i \<in> {1..<?i + 1}" using L(3) ui by (auto simp: word32_cmp)
  ultimately obtain t where t: "iwrite ?i ?d ?s = Inr t" "layout (img t) (disk_inode (img t)) {1..<?i + 1} (unat (freeblock t))"
    "sb t = sb s" "freeino t = ?i + 1" "freeblock t = freeblock s" "img t ! 0 = img s ! 0"
    "\<forall>j \<in> {1..<?i + 1}. disk_inode (img t) j = (?D(?i := ?d)) j \<and> img_file t j = img_bytes (img s) ((?D(?i := ?d)) j)"
    using iwrite_ok [of ?s ?D ?i ?d "{1..<?i + 1}"] L(2) assms(2) by auto
  have "image_ok t" using t L ui assms(2) by (simp add: image_ok_def word_le_nat_alt)
  moreover have "img_file t ?i = []" "file_type t ?i = type"
    using t(7) L(3) ui by (auto simp: img_bytes_def file_type_def word32_cmp)
  moreover have "img_file t j = img_file s j \<and> file_type t j = file_type s j" if "1 \<le> j" "j < ?i" for j
    using t(7) that ui by (auto simp: img_file_def [of s] file_type_def word32_cmp)
  ultimately show ?thesis using t by (auto simp: ialloc_def)
qed

lemma append_file_ok:
  assumes "image_ok s" "1 \<le> i" "i < freeino s" "length (img_file s i) + length bs \<le> 71680"
    "unat (freeblock s) + (blocks_for (length (img_file s i) + length bs) - blocks_for (length (img_file s i))) \<le> 1001"
  shows "\<exists>t. append_file i bs s = Inr t \<and> image_ok t \<and> img_file t i = img_file s i @ bs \<and>
    (\<forall>j. 1 \<le> j \<and> j < freeino s \<and> j \<noteq> i \<longrightarrow> img_file t j = img_file s j) \<and> freeino t = freeino s \<and>
    (\<forall>j. 1 \<le> j \<and> j < freeino s \<longrightarrow> file_type t j = file_type s j) \<and>
    unat (freeblock t) = unat (freeblock s) + (blocks_for (length (img_file s i) + length bs) - blocks_for (length (img_file s i)))"
  using assms
proof (induction "length bs" arbitrary: bs s rule: less_induct)
  case less
  show ?case
  proof (cases "bs = []")
    case True
    then show ?thesis using less.prems by (subst append_file.simps) simp
  next
    case False
    let ?m = "length (img_file s i)" and ?q = "take BSIZE bs" and ?r = "drop BSIZE bs"
    have le: "blocks_for ?m \<le> blocks_for (?m + length ?q)" "blocks_for (?m + length ?q) \<le> blocks_for (?m + length bs)"
      by (auto intro!: blocks_for_mono)
    have "?m + length ?q \<le> 71680" "unat (freeblock s) + (blocks_for (?m + length ?q) - blocks_for ?m) \<le> 1001"
      using less.prems(4,5) le by (simp, linarith)
    then obtain t where t: "iappend i ?q s = Inr t" "image_ok t" "img_file t i = img_file s i @ ?q"
      "\<forall>j. 1 \<le> j \<and> j < freeino s \<and> j \<noteq> i \<longrightarrow> img_file t j = img_file s j" "freeino t = freeino s"
      "\<forall>j. 1 \<le> j \<and> j < freeino s \<longrightarrow> file_type t j = file_type s j"
      "unat (freeblock t) = unat (freeblock s) + (blocks_for (?m + length ?q) - blocks_for ?m)"
      using iappend_ok [OF less.prems(1-3), of ?q] by blast
    have lt: "length ?r < length bs" and mt: "length (img_file t i) = ?m + length ?q" and s: "length ?q + length ?r = length bs"
      using False t(3) by simp_all
    have a: "length (img_file t i) + length ?r = ?m + length bs" using mt s by linarith
    have p: "i < freeino t" "length (img_file t i) + length ?r \<le> 71680"
      "unat (freeblock t) + (blocks_for (length (img_file t i) + length ?r) - blocks_for (length (img_file t i))) \<le> 1001"
      unfolding a unfolding mt using less.prems(3-5) t(5,7) le by (simp, simp, linarith)
    obtain u where u: "append_file i ?r t = Inr u" "image_ok u" "img_file u i = img_file t i @ ?r"
      "\<forall>j. 1 \<le> j \<and> j < freeino t \<and> j \<noteq> i \<longrightarrow> img_file u j = img_file t j" "freeino u = freeino t"
      "\<forall>j. 1 \<le> j \<and> j < freeino t \<longrightarrow> file_type u j = file_type t j"
      "unat (freeblock u) = unat (freeblock t) + (blocks_for (?m + length bs) - blocks_for (?m + length ?q))"
      using less.hyps [OF lt t(2) less.prems(2) p] unfolding a unfolding mt by blast
    have "append_file i bs s = Inr u" using False t(1) u(1) by (subst append_file.simps) simp
    then show ?thesis using t u le by auto
  qed
qed

section \<open>The whole image\<close>

definition prog_name :: "u8 \<Rightarrow> u8 list \<Rightarrow> u8 list" where
  "prog_name junk path = (case parsename junk path of Inr nm \<Rightarrow> takeWhile (\<lambda>c. c \<noteq> 0) nm | Inl _ \<Rightarrow> [])"

fun root_entries :: "u8 \<Rightarrow> nat \<Rightarrow> (u8 list \<times> u8 list) list \<Rightarrow> u8 list" where
  "root_entries junk n [] = []"
| "root_entries junk n ((path, bs) # fs) = dirent (of_nat n) (prog_name junk path) @ root_entries junk (Suc n) fs"

definition prog_blocks :: "(u8 list \<times> u8 list) list \<Rightarrow> nat" where
  "prog_blocks fs = sum_list (map (\<lambda>(path, bs). blocks_for (length bs)) fs)"

definition progs_ok :: "u8 \<Rightarrow> (u8 list \<times> u8 list) list \<Rightarrow> bool" where
  "progs_ok junk fs \<longleftrightarrow> (\<forall>(path, bs) \<in> set fs. \<not> isl (parsename junk path) \<and> length bs \<le> 71680)"

lemma length_prog_name: "length (prog_name junk path) \<le> 24"
proof (cases "parsename junk path")
  case (Inr nm)
  then have "length nm = 24" by (auto simp: parsename_def Let_def split: if_splits)
  then show ?thesis using Inr length_takeWhile_le [of _ nm] by (simp add: prog_name_def)
qed (simp add: prog_name_def)

lemma length_dirent [simp]: "length (dirent i (prog_name junk path)) = 28"
  using length_prog_name [of junk path] by (simp add: dirent_def)

lemma copy_one:
  assumes "image_ok s" "1 < freeino s" "parsename junk path = Inr nm" "length bs \<le> 71680" "unat (freeino s) \<le> 132"
    "length (img_file s 1) + 28 \<le> 71680"
    "unat (freeblock s) + (blocks_for (length (img_file s 1) + 28) - blocks_for (length (img_file s 1))) + blocks_for (length bs) \<le> 1001"
  shows "\<exists>t. copy_programs junk 1 ((path, Some bs) # fs) s = copy_programs junk 1 fs t \<and> image_ok t \<and>
    img_file t 1 = img_file s 1 @ dirent (freeino s) (prog_name junk path) \<and> img_file t (freeino s) = bs \<and>
    (\<forall>j. 1 < j \<and> j < freeino s \<longrightarrow> img_file t j = img_file s j) \<and>
    (\<forall>j. 1 \<le> j \<and> j < freeino s \<longrightarrow> file_type t j = file_type s j) \<and> file_type t (freeino s) = 2 \<and> unat (freeino t) = unat (freeino s) + 1 \<and>
    unat (freeblock t) = unat (freeblock s) + (blocks_for (length (img_file s 1) + 28) - blocks_for (length (img_file s 1))) +
      blocks_for (length bs)"
proof -
  let ?i = "freeino s" and ?e = "dirent (freeino s) (prog_name junk path)"
  obtain t where t: "ialloc 2 s = Inr (?i, t)" "image_ok t" "freeino t = ?i + 1" "freeblock t = freeblock s" "img_file t ?i = []"
    "\<forall>j. 1 \<le> j \<and> j < ?i \<longrightarrow> img_file t j = img_file s j \<and> file_type t j = file_type s j" "file_type t ?i = 2"
    using ialloc_ok [OF assms(1,5), of 2] by blast
  have ui: "unat (?i + 1) = unat ?i + 1" using assms(5) by (simp add: unat_add32)
  have r: "img_file t 1 = img_file s 1" "1 < freeino t" "?i < freeino t" "1 \<le> ?i" "?i \<noteq> 1"
    using t(3,6) assms(2) ui by (auto simp: word32_cmp)
  obtain u where u: "iappend 1 ?e t = Inr u" "image_ok u" "img_file u 1 = img_file s 1 @ ?e"
    "\<forall>j. 1 \<le> j \<and> j < freeino t \<and> j \<noteq> 1 \<longrightarrow> img_file u j = img_file t j" "freeino u = freeino t"
    "unat (freeblock u) = unat (freeblock s) + (blocks_for (length (img_file s 1) + 28) - blocks_for (length (img_file s 1)))"
    "\<forall>j. 1 \<le> j \<and> j < freeino t \<longrightarrow> file_type u j = file_type t j"
    using iappend_ok [OF t(2) order_refl r(2), of ?e] assms(6,7) r(1) t(4) by auto
  have f: "img_file u ?i = []" "?i < freeino u" using u(4,5) r t(5) by simp_all
  obtain v where v: "append_file ?i bs u = Inr v" "image_ok v" "img_file v ?i = bs"
    "\<forall>j. 1 \<le> j \<and> j < freeino u \<and> j \<noteq> ?i \<longrightarrow> img_file v j = img_file u j" "freeino v = freeino u"
    "unat (freeblock v) = unat (freeblock u) + blocks_for (length bs)"
    "\<forall>j. 1 \<le> j \<and> j < freeino u \<longrightarrow> file_type v j = file_type u j"
    using append_file_ok [OF u(2) r(4) f(2), of bs] f(1) assms(4,7) u(6) by (auto simp: blocks_for_def)
  have "copy_programs junk 1 ((path, Some bs) # fs) s = copy_programs junk 1 fs v"
    using assms(3) t(1) u(1) v(1) by (simp add: prog_name_def)
  moreover have "img_file v j = img_file s j" if "1 < j" "j < ?i" for j
    using that v(4) u(4,5) t(3,6) ui by (auto simp: word32_cmp)
  moreover have "file_type v j = file_type s j" if "1 \<le> j" "j < ?i" for j
    using that v(7) u(5,7) t(3,6) ui by (auto simp: word32_cmp)
  moreover have "file_type v ?i = 2" using v(7) u(5,7) t(3,7) ui r by (auto simp: word32_cmp)
  moreover have "img_file v 1 = img_file s 1 @ ?e" using v(4) u(3,5) r by simp
  ultimately show ?thesis using v u(5,6) t(3) ui by (intro exI [of _ v]) auto
qed

lemma copy_programs_ok:
  assumes "image_ok s" "1 < freeino s" "progs_ok junk fs" "unat (freeino s) + length fs \<le> 133"
    "length (img_file s 1) + 28 * length fs \<le> 71680"
    "unat (freeblock s) + (blocks_for (length (img_file s 1) + 28 * length fs) - blocks_for (length (img_file s 1))) + prog_blocks fs \<le> 1001"
  shows "\<exists>t. copy_programs junk 1 (map (\<lambda>(path, bs). (path, Some bs)) fs) s = Inr t \<and> image_ok t \<and>
    img_file t 1 = img_file s 1 @ root_entries junk (unat (freeino s)) fs \<and>
    (\<forall>k < length fs. img_file t (freeino s + of_nat k) = snd (fs ! k) \<and> file_type t (freeino s + of_nat k) = 2) \<and>
    (\<forall>j. 1 \<le> j \<and> j < freeino s \<longrightarrow> file_type t j = file_type s j) \<and>
    (\<forall>j. 1 < j \<and> j < freeino s \<longrightarrow> img_file t j = img_file s j) \<and> unat (freeino t) = unat (freeino s) + length fs \<and>
    unat (freeblock t) = unat (freeblock s) + (blocks_for (length (img_file s 1) + 28 * length fs) - blocks_for (length (img_file s 1))) +
      prog_blocks fs"
  using assms
proof (induction fs arbitrary: s)
  case Nil
  then show ?case by (simp add: prog_blocks_def)
next
  case (Cons f fs)
  obtain path bs where f: "f = (path, bs)" by fastforce
  let ?m = "length (img_file s 1)" and ?k = "length fs"
  have pb: "prog_blocks (f # fs) = blocks_for (length bs) + prog_blocks fs" by (simp add: prog_blocks_def f)
  obtain nm where nm: "parsename junk path = Inr nm" "length bs \<le> 71680" "progs_ok junk fs"
    using Cons.prems(3) by (cases "parsename junk path") (auto simp: progs_ok_def f)
  have le: "blocks_for ?m \<le> blocks_for (?m + 28)" "blocks_for (?m + 28) \<le> blocks_for (?m + 28 * length (f # fs))"
    by (auto intro!: blocks_for_mono)
  have h: "unat (freeino s) \<le> 132" "?m + 28 \<le> 71680"
    "unat (freeblock s) + (blocks_for (?m + 28) - blocks_for ?m) + blocks_for (length bs) \<le> 1001"
    using Cons.prems(4-6) le pb by (simp, simp, linarith)
  obtain t where t: "copy_programs junk 1 ((path, Some bs) # map (\<lambda>(path, bs). (path, Some bs)) fs) s =
      copy_programs junk 1 (map (\<lambda>(path, bs). (path, Some bs)) fs) t" "image_ok t"
    "img_file t 1 = img_file s 1 @ dirent (freeino s) (prog_name junk path)" "img_file t (freeino s) = bs"
    "\<forall>j. 1 < j \<and> j < freeino s \<longrightarrow> img_file t j = img_file s j" "unat (freeino t) = unat (freeino s) + 1"
    "unat (freeblock t) = unat (freeblock s) + (blocks_for (?m + 28) - blocks_for ?m) + blocks_for (length bs)"
    "\<forall>j. 1 \<le> j \<and> j < freeino s \<longrightarrow> file_type t j = file_type s j" "file_type t (freeino s) = 2"
    using copy_one [OF Cons.prems(1,2) nm(1,2) h, of "map (\<lambda>(path, bs). (path, Some bs)) fs"] by blast
  have m: "length (img_file t 1) = ?m + 28" using t(3) by simp
  have m2: "length (img_file t 1) + 28 * ?k = ?m + 28 * length (f # fs)" using m by simp
  have ft: "freeino t = freeino s + 1" using t(6) Cons.prems(4) by (simp add: word32_eq_iff unat_add32)
  have p: "1 < freeino t" "unat (freeino t) + ?k \<le> 133" "length (img_file t 1) + 28 * ?k \<le> 71680"
    "unat (freeblock t) + (blocks_for (length (img_file t 1) + 28 * ?k) - blocks_for (length (img_file t 1))) + prog_blocks fs \<le> 1001"
    unfolding m2 unfolding m using Cons.prems(2,4-6) t(6,7) pb le by (simp add: word_less_nat_alt, simp, simp, linarith)
  obtain u where u: "copy_programs junk 1 (map (\<lambda>(path, bs). (path, Some bs)) fs) t = Inr u" "image_ok u"
    "img_file u 1 = img_file t 1 @ root_entries junk (unat (freeino t)) fs"
    "\<forall>k < ?k. img_file u (freeino t + of_nat k) = snd (fs ! k) \<and> file_type u (freeino t + of_nat k) = 2"
    "\<forall>j. 1 < j \<and> j < freeino t \<longrightarrow> img_file u j = img_file t j" "unat (freeino u) = unat (freeino t) + ?k"
    "unat (freeblock u) = unat (freeblock t) + (blocks_for (?m + 28 * length (f # fs)) - blocks_for (?m + 28)) + prog_blocks fs"
    "\<forall>j. 1 \<le> j \<and> j < freeino t \<longrightarrow> file_type u j = file_type t j"
    using Cons.IH [OF t(2) p(1) nm(3) p(2-4)] unfolding m2 unfolding m by blast
  have "img_file u (freeino s + of_nat k) = snd ((f # fs) ! k) \<and> file_type u (freeino s + of_nat k) = 2" if "k < length (f # fs)" for k
  proof (cases k)
    case 0
    then show ?thesis using u(5,8) t(4,6,9) Cons.prems(2) f by (simp add: word_less_nat_alt word_le_nat_alt)
  next
    case (Suc l)
    then show ?thesis using u(4) that ft by (simp add: add.assoc)
  qed
  moreover have "img_file u j = img_file s j" if "1 < j" "j < freeino s" for j
    using u(5) t(5,6) that by (auto simp: word_less_nat_alt)
  moreover have "file_type u j = file_type s j" if "1 \<le> j" "j < freeino s" for j
    using u(8) t(6,8) that by (auto simp: word_less_nat_alt)
  moreover have "img_file u 1 = img_file s 1 @ root_entries junk (unat (freeino s)) (f # fs)"
    using u(3) t(3,6) f by simp
  moreover have "copy_programs junk 1 (map (\<lambda>(path, bs). (path, Some bs)) (f # fs)) s = Inr u" using t(1) u(1) f by simp
  moreover have "unat (freeblock u) = unat (freeblock s) + (blocks_for (?m + 28 * length (f # fs)) - blocks_for ?m) + prog_blocks (f # fs)"
    using u(7) t(7) pb le by linarith
  ultimately show ?case using u(2,6) t(6) by (intro exI [of _ u]) auto
qed

text \<open>The empty image.\<close>

lemma clear_image:
  "n \<le> 1001 \<Longrightarrow> img s = [] \<Longrightarrow> fold (\<lambda>i. bwrite (of_nat i) zeros) [0..<n] s = s\<lparr>img := replicate n zeros\<rparr>"
proof (induction n)
  case (Suc n)
  have "unat (of_nat n :: u32) = n" using Suc.prems by (simp add: unat_of_nat32)
  moreover have "(replicate n zeros @ [zeros])[n := zeros] = replicate n zeros @ [zeros]"
    by (simp add: list_update_append)
  then have "(replicate n zeros @ [zeros])[n := zeros] = replicate (Suc n) zeros"
    by (simp add: replicate_append_same)
  ultimately show ?case using Suc by (simp add: bwrite_def)
qed simp

lemma sbconfig_ok: "sbconfig s = Inr (s\<lparr>sb := mkfs_sb, freeblock := 21\<rparr>)"
  by (simp add: sbconfig_def mkfs_sb_def)

definition image0 :: mkfs where
  "image0 = wsb (mkfs0\<lparr>sb := mkfs_sb, freeblock := 21, img := replicate 1001 zeros\<rparr>)"

lemma image0_ok: "image_ok image0" "freeino image0 = 1" "freeblock image0 = 21"
proof -
  let ?b = "blit 0 (superblock_bytes mkfs_sb) zeros"
  have lb: "length ?b = 512" by (simp add: superblock_bytes_def zeros_def)
  have i0: "image0 = mkfs0\<lparr>sb := mkfs_sb, freeblock := 21, img := (replicate 1001 zeros)[0 := ?b]\<rparr>"
    by (simp add: image0_def wsb_def bwrite_def mkfs0_def)
  show "freeino image0 = 1" "freeblock image0 = 21" by (simp_all add: i0 mkfs0_def)
  have "length zeros = 512" by (simp add: zeros_def)
  then have "layout (img image0) (disk_inode (img image0)) {1..<1} (unat (freeblock image0))"
    using lb by (auto simp: layout_def i0 nth_list_update)
  then show "image_ok image0" by (simp add: image_ok_def i0 mkfs0_def nth_list_update)
qed

lemma length_set_bits [simp]: "length (set_bits_below n buf) = length buf"
  by (induction n) (simp_all add: Let_def)

lemma balloc_ok:
  assumes "image_ok s"
  shows "\<exists>t. balloc (freeblock s) s = Inr t \<and> image_ok t \<and> img t ! 20 = set_bits_below (unat (freeblock s)) zeros \<and>
    freeino t = freeino s \<and> freeblock t = freeblock s \<and>
    (\<forall>j. 1 \<le> j \<and> j < freeino s \<longrightarrow> img_file t j = img_file s j \<and> file_type t j = file_type s j)"
proof -
  let ?b = "set_bits_below (unat (freeblock s)) zeros" and ?J = "{1..<freeino s}"
  let ?im = "(img s)[20 := ?b]"
  have L: "layout (img s) (disk_inode (img s)) ?J (unat (freeblock s))" "sb s = mkfs_sb" using assms by (simp_all add: image_ok_def)
  then have lay: "length (img s) = 1001" "\<And>n. n < 1001 \<Longrightarrow> length (img s ! n) = 512" "unat (freeblock s) \<le> 1001"
    by (auto simp: layout_def)
  then have b: "balloc (freeblock s) s = Inr (s\<lparr>img := ?im\<rparr>)" using L(2) by (simp add: balloc_def bwrite_def mkfs_sb_def)
  have im: "length ?im = 1001" "\<And>x. x < 1001 \<Longrightarrow> length (?im ! x) = 512" "\<And>x. 21 \<le> x \<Longrightarrow> x < 1001 \<Longrightarrow> ?im ! x = img s ! x"
    using lay by (auto simp: nth_list_update zeros_def)
  have d: "disk_inode ?im j = disk_inode (img s) j" if "j \<in> ?J" for j
    using inode_block_no(2) [OF image_inum [OF assms that]] by (simp add: disk_inode_def)
  note m = layout_meta [OF L(1) im d]
  have "image_ok (s\<lparr>img := ?im\<rparr>)" using assms m(1) by (simp add: image_ok_def)
  then show ?thesis using b m(2) lay(1) by (intro exI [of _ "s\<lparr>img := ?im\<rparr>"]) (simp add: img_file_def file_type_def d)
qed

lemma make_image_ok:
  assumes "progs_ok junk fs" "length fs \<le> 131" "21 + blocks_for (28 * (length fs + 2)) + prog_blocks fs \<le> 1001"
  shows "\<exists>t. make_image junk (map (\<lambda>(path, bs). (path, Some bs)) fs) = Inr t \<and> image_ok t \<and>
    img_file t 1 = dirent 1 [46] @ dirent 0 [46, 46] @ root_entries junk 2 fs \<and>
    (\<forall>k < length fs. img_file t (2 + of_nat k) = snd (fs ! k) \<and> file_type t (2 + of_nat k) = F_FILE) \<and> file_type t 1 = F_DIR \<and>
    unat (freeino t) = 2 + length fs \<and>
    unat (freeblock t) = 21 + blocks_for (28 * (length fs + 2)) + prog_blocks fs \<and>
    img t ! 20 = set_bits_below (unat (freeblock t)) zeros"
proof -
  let ?n = "length fs" and ?d1 = "dirent 1 [46]" and ?d2 = "dirent 0 [46, 46]"
  have dl: "length ?d1 = 28" "length ?d2 = 28" by (simp_all add: dirent_def)
  have bf: "blocks_for 0 = 0" "blocks_for 28 = 1" "blocks_for 56 = 1" by (simp_all add: blocks_for_def)
  have e56: "56 + 28 * ?n = 28 * (?n + 2)" by simp
  have le: "1 \<le> blocks_for (28 * (?n + 2))" using blocks_for_mono [of 56 "28 * (?n + 2)"] bf by simp
  obtain s where s: "ialloc 1 image0 = Inr (1, s)" "image_ok s" "freeino s = 2" "freeblock s = 21" "img_file s 1 = []" "file_type s 1 = 1"
    using ialloc_ok [OF image0_ok(1), of 1] image0_ok(2,3) by auto
  obtain u where u: "iappend 1 ?d1 s = Inr u" "image_ok u" "img_file u 1 = ?d1" "freeino u = 2" "unat (freeblock u) = 22" "file_type u 1 = 1"
    using iappend_ok [OF s(2), of 1 ?d1] s(3-6) dl bf by auto
  obtain v where v: "iappend 1 ?d2 u = Inr v" "image_ok v" "img_file v 1 = ?d1 @ ?d2" "freeino v = 2" "unat (freeblock v) = 22" "file_type v 1 = 1"
    using iappend_ok [OF u(2), of 1 ?d2] u(3-6) dl bf by auto
  have lv: "length (img_file v 1) = 56" using v(3) dl by simp
  have p: "1 < freeino v" "unat (freeino v) + ?n \<le> 133" "length (img_file v 1) + 28 * ?n \<le> 71680"
    "unat (freeblock v) + (blocks_for (length (img_file v 1) + 28 * ?n) - blocks_for (length (img_file v 1))) + prog_blocks fs \<le> 1001"
    unfolding lv e56 bf using v(4,5) assms(2,3) le by (simp, simp, simp, linarith)
  obtain w where w: "copy_programs junk 1 (map (\<lambda>(path, bs). (path, Some bs)) fs) v = Inr w" "image_ok w"
    "img_file w 1 = img_file v 1 @ root_entries junk 2 fs" "\<forall>k < ?n. img_file w (2 + of_nat k) = snd (fs ! k) \<and> file_type w (2 + of_nat k) = 2"
    "unat (freeino w) = 2 + ?n" "unat (freeblock w) = 22 + (blocks_for (28 * (?n + 2)) - 1) + prog_blocks fs" "file_type w 1 = 1"
    using copy_programs_ok [OF v(2) p(1) assms(1) p(2-4)] unfolding lv e56 v(5) bf using v(4,6) by auto
  obtain t where t: "balloc (freeblock w) w = Inr t" "image_ok t" "img t ! 20 = set_bits_below (unat (freeblock w)) zeros"
    "freeino t = freeino w" "freeblock t = freeblock w" "\<forall>j. 1 \<le> j \<and> j < freeino w \<longrightarrow> img_file t j = img_file w j \<and> file_type t j = file_type w j"
    using balloc_ok [OF w(2)] by blast
  have "fold (\<lambda>i. bwrite (of_nat i) zeros) [0..<1001] (mkfs0\<lparr>sb := mkfs_sb, freeblock := 21\<rparr>) =
      mkfs0\<lparr>sb := mkfs_sb, freeblock := 21, img := replicate 1001 zeros\<rparr>"
    by (rule clear_image) (simp_all add: mkfs0_def)
  then have "make_image junk (map (\<lambda>(path, bs). (path, Some bs)) fs) = Inr t"
    using s(1) u(1) v(1) w(1) t(1) by (simp add: make_image_def sbconfig_ok mkfs_sb_def image0_def Let_def del: upt.simps upt_Suc)
  moreover have "img_file t (2 + of_nat k) = snd (fs ! k) \<and> file_type t (2 + of_nat k) = 2" if "k < ?n" for k
  proof -
    have "unat (2 + of_nat k :: u32) = 2 + k" using that assms(2) by (simp add: unat_add32 unat_of_nat32)
    then show ?thesis using t(6) w(4,5) that by (auto simp: word_le_nat_alt word_less_nat_alt)
  qed
  moreover have "img_file t 1 = ?d1 @ ?d2 @ root_entries junk 2 fs" "file_type t 1 = 1"
    using t(6) w(3,5,7) v(3) by (simp_all add: word_less_nat_alt)
  ultimately show ?thesis using t w(5,6) le by (intro exI [of _ t]) auto
qed

text \<open>C9: The image that the tool makes.  If the programs have names that fit, are at most 71680 bytes
  long (12 direct and 128 indirect blocks), are at most 131 and fit on the disk with the root
  directory, \<open>mkfs\<close> makes an image with a sound layout: no block belongs to two files, all blocks of
  a file lie in the data area below \<open>freeblock\<close>.  Inode 1 holds the entries of the root directory,
  with inode 0 for \<open>..\<close>, and inode \<open>2 + k\<close> the bytes of the \<open>k\<close>-th program.  The blocks in use are
  counted exactly and marked in the free map.\<close>

theorem make_image_files:
  assumes "progs_ok junk fs" "length fs \<le> 131" "21 + blocks_for (28 * (length fs + 2)) + prog_blocks fs \<le> 1001"
  shows "\<exists>t. make_image junk (map (\<lambda>(path, bs). (path, Some bs)) fs) = Inr t \<and> image_ok t \<and>
    img_file t 1 = dirent 1 [46] @ dirent 0 [46, 46] @ root_entries junk 2 fs \<and>
    (\<forall>k < length fs. img_file t (2 + of_nat k) = snd (fs ! k) \<and> file_type t (2 + of_nat k) = F_FILE) \<and> file_type t 1 = F_DIR \<and>
    unat (freeino t) = 2 + length fs \<and>
    unat (freeblock t) = 21 + blocks_for (28 * (length fs + 2)) + prog_blocks fs \<and>
    img t ! 20 = set_bits_below (unat (freeblock t)) zeros"
  by (rule make_image_ok [OF assms])

theorem make_image_files_witness:
  "\<exists>t. make_image 0 [([47, 105, 95], Some [1, 2, 3])] = Inr t \<and> img_file t 2 = [1, 2, 3] \<and> unat (freeblock t) = 23"
proof -
  let ?fs = "[([47, 105, 95], [1, 2, 3])] :: (u8 list \<times> u8 list) list"
  have "parsename 0 [47, 105, 95] = Inr (105 # replicate 23 0)" by code_simp
  then have ok: "progs_ok 0 ?fs" by (simp add: progs_ok_def)
  have b: "prog_blocks ?fs = 1" "blocks_for (28 * (length ?fs + 2)) = 1" by (simp_all add: prog_blocks_def blocks_for_def)
  then have "length ?fs \<le> 131" "21 + blocks_for (28 * (length ?fs + 2)) + prog_blocks ?fs \<le> 1001" by (simp, linarith)
  from make_image_files [OF ok this] obtain t where t: "make_image 0 (map (\<lambda>(path, bs). (path, Some bs)) ?fs) = Inr t"
    "\<forall>k < length ?fs. img_file t (2 + of_nat k) = snd (?fs ! k) \<and> file_type t (2 + of_nat k) = F_FILE"
    "unat (freeblock t) = 21 + blocks_for (28 * (length ?fs + 2)) + prog_blocks ?fs" by blast
  have "unat (freeblock t) = 23" unfolding t(3) b by simp
  then show ?thesis using t(1,2) by auto
qed

end
