(* ===== verification/Dir_Lookup.thy ===== *)
theory Dir_Lookup
  imports Dir
begin

text \<open>
  What looking up a name in a directory (kernel/fs/dir.c) means for the bytes of the directory:
  the first used entry of that name, where names are compared on their first 24 characters.
\<close>

section \<open>Memory\<close>

lemma poke_apply:
  "length bs \<le> 4294967296 \<Longrightarrow> poke m a bs x = (if unat (x - a) < length bs then bs ! unat (x - a) else m x)"
proof (induction bs arbitrary: m a)
  case (Cons b bs)
  show ?case
  proof (cases "x = a")
    case True
    have "unat (- 1 :: u32) = 4294967295" by simp
    then show ?thesis using Cons True by simp
  next
    case False
    then show ?thesis using Cons unat_diff_Suc [OF False] by simp
  qed
qed simp

lemma peek_Suc: "peek m a (Suc n) = m a # peek m (a + 1) n"
proof -
  have "[0..<Suc n] = 0 # map Suc [0..<n]" by (simp add: map_Suc_upt upt_conv_Cons del: upt_Suc)
  then show ?thesis by (simp add: peek_def add.assoc del: upt_Suc)
qed

lemma length_peek [simp]: "length (peek m a n) = n"
  by (simp add: peek_def)

abbreviation (input) before_NUL :: "u8 list \<Rightarrow> u8 list" where
  "before_NUL \<equiv> takeWhile (\<lambda>c. c \<noteq> 0)"

lemma strncmp_loop_zero:
  "strncmp_loop m a b n = 0 \<longleftrightarrow> before_NUL (peek m a n) = before_NUL (peek m b n)"
proof (induction n arbitrary: a b)
  case (Suc n)
  then show ?case by (auto simp: peek_Suc sint_inj_iff sint_0_iff)
qed (simp add: peek_def)

lemma before_NUL_cstr: "cstr m b w \<Longrightarrow> before_NUL (peek m b n) = take n w"
proof (induction n arbitrary: b w)
  case (Suc n)
  then show ?case by (cases w) (auto simp: peek_Suc)
qed (simp add: peek_def)

lemma peek_poke_inside:
  assumes "k + n \<le> length bs" "length bs \<le> 4294967295"
  shows "peek (poke m a bs) (a + of_nat k) n = slice k n bs"
  using assms by (intro nth_equalityI) (auto simp: peek_def poke_apply slice_nth unat_add32 unat_of_nat32 add.assoc)

lemma cstr_poke:
  assumes "cstr m b w" "length bs \<le> 4294967296" "\<forall>k \<le> length w. length bs \<le> unat (b + of_nat k - a)"
  shows "cstr (poke m a bs) b w"
  using assms unfolding cstr_iff by (auto simp: poke_apply not_less [symmetric])

section \<open>Entries\<close>

definition entry_at :: "u8 list \<Rightarrow> nat \<Rightarrow> u8 list" where
  "entry_at bs k = slice (28 * k) 28 bs"

definition entry_is :: "u8 list \<Rightarrow> u8 list \<Rightarrow> bool" where
  "entry_is w e \<longleftrightarrow> rd32 e 0 \<noteq> 0 \<and> before_NUL (drop 4 e) = take 24 w"

text \<open>The number of the first entry of that name from entry \<open>k\<close> on, of \<open>n\<close>.\<close>

definition first_entry :: "u8 list \<Rightarrow> u8 list \<Rightarrow> nat \<Rightarrow> nat \<Rightarrow> nat option" where
  "first_entry w bs k n = List.find (\<lambda>k. entry_is w (entry_at bs k)) [k..<n]"

lemma first_entry_step:
  "k < n \<Longrightarrow> first_entry w bs k n = (if entry_is w (entry_at bs k) then Some k else first_entry w bs (Suc k) n)"
  by (simp add: first_entry_def upt_conv_Cons)

text \<open>A directory of whole entries, and a name that the local variable at \<open>e\<close> does not touch.\<close>

definition dir_ok :: "fs \<Rightarrow> nat \<Rightarrow> nat \<Rightarrow> bool" where
  "dir_ok s d n \<longleftrightarrow> open_file s d \<and> d_type (ino_d s d) = F_DIR \<and> unat (d_size (ino_d s d)) = 28 * n \<and> mapped s d (28 * n)"

definition name_at :: "mem \<Rightarrow> u32 \<Rightarrow> u8 list \<Rightarrow> u32 \<Rightarrow> bool" where
  "name_at m name w e \<longleftrightarrow> cstr m name w \<and> (\<forall>k \<le> length w. 28 \<le> unat (name + of_nat k - e))"

lemma name_at_poke: "name_at m name w e \<Longrightarrow> length bs \<le> 28 \<Longrightarrow> name_at (poke m e bs) name w e"
  unfolding name_at_def by (intro conjI cstr_poke) auto

lemma entry_compare:
  assumes "name_at m name w e" "length bs = 28"
  shows "dir_namecmp (poke m e bs) (e + 4) name = 0 \<longleftrightarrow> before_NUL (drop 4 bs) = take 24 w"
proof -
  have "peek (poke m e bs) (e + of_nat 4) 24 = drop 4 bs"
    using peek_poke_inside [of 4 24 bs m e] assms(2) by (simp add: slice_def)
  moreover have "cstr (poke m e bs) name w" using name_at_poke [OF assms(1), of bs] assms(2) by (simp add: name_at_def)
  ultimately show ?thesis
    using before_NUL_cstr [of "poke m e bs" name w 24] by (simp add: dir_namecmp_def strncmp_def strncmp_loop_zero)
qed

lemma dir_ok_meta: "dir_ok s d n \<Longrightarrow> open_file t d \<Longrightarrow> same_meta s t \<Longrightarrow> dir_ok t d n"
  by (simp add: dir_ok_def same_meta_ino)

lemma file_bytes_meta: "same_meta s t \<Longrightarrow> blk t = blk s \<Longrightarrow> file_bytes t i = file_bytes s i"
  using same_meta_ino(1) [of s t i] by (simp add: file_bytes_def file_byte_def)

lemma same_meta_trans: "same_meta s t \<Longrightarrow> same_meta t u \<Longrightarrow> same_meta s u"
  by (simp add: same_meta_def)

lemma dir_entries_bound: "dir_ok s d n \<Longrightarrow> n \<le> 219" "dir_ok s d n \<Longrightarrow> length (file_bytes s d) = 28 * n"
  by (auto simp: dir_ok_def mapped_def file_bytes_def)

lemma unat_28: "k \<le> 219 \<Longrightarrow> unat (28 * of_nat k :: u32) = 28 * k"
  using unat_of_nat32 [of "28 * k"] by simp

lemma read_entry:
  assumes "dir_ok s d n" "k < n"
  shows "\<exists>t. inode_read dr d (of_nat (28 * k)) DIRENT_SZ s = Inr (28, entry_at (file_bytes s d) k, t) \<and>
    dir_ok t d n \<and> same_meta s t \<and> blk t = blk s"
proof -
  have n: "n \<le> 219" "length (file_bytes s d) = 28 * n" using dir_entries_bound [OF assms(1)] by simp_all
  have u: "unat (of_nat (28 * k) :: u32) = 28 * k" using n assms(2) by (simp add: unat_28)
  have sz: "unat (d_size (ino_d s d)) = 28 * n" using assms(1) by (simp add: dir_ok_def)
  have "of_nat (28 * k) \<le> d_size (ino_d s d)" using u sz assms(2) by (simp add: word_le_nat_alt)
  moreover have "mapped s d (unat (d_size (ino_d s d)))" "open_file s d" using assms(1) by (simp_all add: dir_ok_def)
  moreover have "unat (of_nat (28 * k) :: u32) + unat DIRENT_SZ < 2 ^ 32" using u n assms(2) by simp
  ultimately obtain t where t: "inode_read dr d (of_nat (28 * k)) DIRENT_SZ s =
      Inr (int (length (take 28 (drop (28 * k) (file_bytes s d)))), take 28 (drop (28 * k) (file_bytes s d)), t)"
    "open_file t d" "same_meta s t" "blk t = blk s"
    using read_ok [of s d "of_nat (28 * k)" DIRENT_SZ dr] u by auto
  have "length (take 28 (drop (28 * k) (file_bytes s d))) = 28" using n assms(2) by simp
  then show ?thesis using t dir_ok_meta [OF assms(1)] by (auto simp: entry_at_def slice_def)
qed

lemma lookup_loop_step:
  assumes "off < d_size (i_d (icache s ! d))" "inode_read dr d off DIRENT_SZ s = Inr (28, bs, t)"
  shows "lookup_loop (Suc f) dr e d name off m s =
    (if rd32 bs 0 \<noteq> 0 \<and> dir_namecmp (poke m e bs) (e + 4) name = 0
     then rbind (inode_getc (i_dev (icache t ! d)) (rd32 bs 0) t) (\<lambda>(i, u). Inr (Some (i, off), poke m e bs, u))
     else lookup_loop f dr e d name (off + DIRENT_SZ) (poke m e bs) t)"
  using assms by (simp add: Let_def)

lemma lookup_loop_ok:
  assumes "dir_ok s d n" "name_at m name w e" "k \<le> n" "f = n - k + 1"
  shows "\<exists>m' t. name_at m' name w e \<and> (\<forall>x. 28 \<le> unat (x - e) \<longrightarrow> m' x = m x) \<and> dir_ok t d n \<and> same_meta s t \<and> blk t = blk s \<and>
    lookup_loop f dr e d name (of_nat (28 * k)) m s =
      (case first_entry w (file_bytes s d) k n of None \<Rightarrow> Inr (None, m', t)
       | Some l \<Rightarrow> rbind (inode_getc (i_dev (icache s ! d)) (rd32 (entry_at (file_bytes s d) l) 0) t) (\<lambda>(i, u).
           Inr (Some (i, of_nat (28 * l)), m', u)))"
  using assms
proof (induction "n - k" arbitrary: k m s f)
  case 0
  then have f: "k = n" "f = Suc 0" by simp_all
  have u: "unat (of_nat (28 * n) :: u32) = 28 * n" using dir_entries_bound(1) [OF 0(2)] unat_28 by simp
  have "unat (d_size (ino_d s d)) = 28 * n" using 0(2) by (simp add: dir_ok_def)
  then have "\<not> of_nat (28 * n) < d_size (i_d (icache s ! d))" using u unfolding word_less_nat_alt ino_d_def by linarith
  then have "lookup_loop f dr e d name (of_nat (28 * k)) m s = Inr (None, m, s)" unfolding f by (simp only: lookup_loop.simps if_False)
  moreover have "first_entry w (file_bytes s d) k n = None" unfolding f by (simp add: first_entry_def)
  ultimately show ?case using 0(2,3) by (intro exI [of _ m] exI [of _ s]) (simp add: same_meta_def)
next
  case (Suc x)
  then have k: "k < n" and f: "f = Suc (n - Suc k + 1)" by simp_all
  have n: "n \<le> 219" "length (file_bytes s d) = 28 * n" using dir_entries_bound [OF Suc.prems(1)] by simp_all
  let ?e = "entry_at (file_bytes s d) k"
  obtain t where t: "inode_read dr d (of_nat (28 * k)) DIRENT_SZ s = Inr (28, ?e, t)" "dir_ok t d n" "same_meta s t" "blk t = blk s"
    using read_entry [OF Suc.prems(1) k] by blast
  have le: "length ?e = 28" using n k by (simp add: entry_at_def)
  let ?m = "poke m e ?e"
  have nm: "name_at ?m name w e" using name_at_poke [OF Suc.prems(2)] le by simp
  have mx: "\<forall>x. 28 \<le> unat (x - e) \<longrightarrow> ?m x = m x" using le by (auto simp: poke_apply)
  have lt: "of_nat (28 * k) < d_size (i_d (icache s ! d))"
    using Suc.prems(1) n k by (simp add: word_less_nat_alt unat_28 dir_ok_def ino_d_def)
  have nx: "of_nat (28 * k) + (28 :: u32) = of_nat (28 * Suc k)" by simp
  have ic: "icache t = icache s" "file_bytes t d = file_bytes s d" using t(3) file_bytes_meta [OF t(3,4)] by (simp_all add: same_meta_def)
  have step: "lookup_loop f dr e d name (of_nat (28 * k)) m s =
      (if entry_is w ?e then rbind (inode_getc (i_dev (icache t ! d)) (rd32 ?e 0) t) (\<lambda>(i, u). Inr (Some (i, of_nat (28 * k)), ?m, u))
       else lookup_loop (n - Suc k + 1) dr e d name (of_nat (28 * Suc k)) ?m t)"
    unfolding f lookup_loop_step [OF lt t(1)] entry_compare [OF Suc.prems(2) le] entry_is_def nx ..
  show ?case
  proof (cases "entry_is w ?e")
    case True
    then have "lookup_loop f dr e d name (of_nat (28 * k)) m s =
      rbind (inode_getc (i_dev (icache s ! d)) (rd32 ?e 0) t) (\<lambda>(i, u). Inr (Some (i, of_nat (28 * k)), ?m, u))"
      unfolding step ic by (simp only: if_True)
    then show ?thesis using True nm mx t
      by (intro exI [of _ ?m] exI [of _ t]) (simp only: first_entry_step [OF k] if_True option.case simp_thms)
  next
    case False
    have x: "x = n - Suc k" "Suc k \<le> n" using Suc.hyps(2) k by simp_all
    obtain m' u where u: "name_at m' name w e" "\<forall>x. 28 \<le> unat (x - e) \<longrightarrow> m' x = ?m x" "dir_ok u d n" "same_meta t u" "blk u = blk t"
      "lookup_loop (n - Suc k + 1) dr e d name (of_nat (28 * Suc k)) ?m t =
        (case first_entry w (file_bytes t d) (Suc k) n of None \<Rightarrow> Inr (None, m', u)
         | Some l \<Rightarrow> rbind (inode_getc (i_dev (icache t ! d)) (rd32 (entry_at (file_bytes t d) l) 0) u) (\<lambda>(i, v).
             Inr (Some (i, of_nat (28 * l)), m', v)))"
      using Suc.hyps(1) [OF x(1) t(2) nm x(2) refl] by blast
    have "lookup_loop f dr e d name (of_nat (28 * k)) m s =
      (case first_entry w (file_bytes s d) k n of None \<Rightarrow> Inr (None, m', u)
       | Some l \<Rightarrow> rbind (inode_getc (i_dev (icache s ! d)) (rd32 (entry_at (file_bytes s d) l) 0) u) (\<lambda>(i, v).
           Inr (Some (i, of_nat (28 * l)), m', v)))"
      unfolding step first_entry_step [OF k] using False u(6) ic by (simp only: if_False)
    moreover have "\<forall>x. 28 \<le> unat (x - e) \<longrightarrow> m' x = m x" using u(2) mx by simp
    moreover have "same_meta s u" "blk u = blk s" using same_meta_trans [OF t(3) u(4)] u(5) t(4) by simp_all
    ultimately show ?thesis using u(1,3) by blast
  qed
qed

lemma dir_lookup_ok:
  assumes "dir_ok s d n" "name_at m name w e"
  shows "\<exists>m' t. (\<forall>x. 28 \<le> unat (x - e) \<longrightarrow> m' x = m x) \<and> dir_ok t d n \<and> same_meta s t \<and> blk t = blk s \<and>
    dir_lookup dr e d name m s =
      (case first_entry w (file_bytes s d) 0 n of None \<Rightarrow> Inr (None, m', t)
       | Some l \<Rightarrow> rbind (inode_getc (i_dev (icache s ! d)) (rd32 (entry_at (file_bytes s d) l) 0) t) (\<lambda>(i, u).
           Inr (Some (i, of_nat (28 * l)), m', u)))"
proof -
  have d: "d_type (i_d (icache s ! d)) = F_DIR" "entries_of s d = n - 0 + 1"
    using assms(1) by (simp_all add: dir_ok_def ino_d_def entries_of_def)
  have "dir_lookup dr e d name m s = lookup_loop (entries_of s d) dr e d name (of_nat (28 * 0)) m s"
    using d(1) by (simp add: dir_lookup_def)
  then show ?thesis using lookup_loop_ok [OF assms _ d(2), of dr] by auto
qed

lemma first_entry_Some:
  assumes "l < n" "entry_is w (entry_at bs l)" "\<And>k. k < l \<Longrightarrow> \<not> entry_is w (entry_at bs k)"
  shows "first_entry w bs 0 n = Some l"
  using assms unfolding first_entry_def find_Some_iff by (intro exI [of _ l]) auto

lemma first_entry_None: "(\<And>k. k < n \<Longrightarrow> \<not> entry_is w (entry_at bs k)) \<Longrightarrow> first_entry w bs 0 n = None"
  unfolding first_entry_def find_None_iff by auto

section \<open>Properties\<close>

text \<open>C10: Looking up a name.  In a directory of \<open>n\<close> entries \<open>dir_lookup\<close> never panics and never runs on:
  it takes the first entry that is in use and whose name has the same first 24 characters, whatever
  follows it, and hands back its offset and the inode with the number in the entry; entries with
  inode number 0 are skipped.  Without such an entry it returns the null pointer.  The disk and the
  inode cache are as before, except for the new reference.\<close>

theorem dir_lookup_first_match:
  assumes "dir_ok s d n" "name_at m name w e"
  shows "if \<exists>k < n. entry_is w (entry_at (file_bytes s d) k)
    then \<exists>l m' t. l < n \<and> entry_is w (entry_at (file_bytes s d) l) \<and> (\<forall>k < l. \<not> entry_is w (entry_at (file_bytes s d) k)) \<and>
      same_meta s t \<and> blk t = blk s \<and>
      dir_lookup dr e d name m s = rbind (inode_getc (i_dev (icache s ! d)) (rd32 (entry_at (file_bytes s d) l) 0) t) (\<lambda>(i, u).
        Inr (Some (i, of_nat (28 * l)), m', u))
    else \<exists>m' t. dir_lookup dr e d name m s = Inr (None, m', t) \<and> same_meta s t \<and> blk t = blk s"
proof -
  obtain m' t where t: "same_meta s t" "blk t = blk s" "dir_lookup dr e d name m s =
      (case first_entry w (file_bytes s d) 0 n of None \<Rightarrow> Inr (None, m', t)
       | Some l \<Rightarrow> rbind (inode_getc (i_dev (icache s ! d)) (rd32 (entry_at (file_bytes s d) l) 0) t) (\<lambda>(i, u).
           Inr (Some (i, of_nat (28 * l)), m', u)))"
    using dir_lookup_ok [OF assms, of dr] by blast
  show ?thesis
  proof (cases "\<exists>k < n. entry_is w (entry_at (file_bytes s d) k)")
    case True
    define l where "l = (LEAST k. k < n \<and> entry_is w (entry_at (file_bytes s d) k))"
    have l: "l < n" "entry_is w (entry_at (file_bytes s d) l)" using LeastI_ex [OF True] unfolding l_def by auto
    have nl: "\<not> entry_is w (entry_at (file_bytes s d) k)" if "k < l" for k
      using not_less_Least [of k] that l(1) unfolding l_def by fastforce
    show ?thesis using True t l nl first_entry_Some [OF l nl] by auto
  next
    case False
    then have "first_entry w (file_bytes s d) 0 n = None" by (intro first_entry_None) auto
    then show ?thesis using False t by auto
  qed
qed

text \<open>A directory of one entry, all of its bytes 30.\<close>

definition dir_fs :: fs where
  "dir_fs = file_fs\<lparr>icache := [sample_inode\<lparr>i_d := (i_d sample_inode)\<lparr>d_type := F_DIR, d_size := 28\<rparr>\<rparr>]\<rparr>"

lemma dir_fs_ok: "dir_ok dir_fs 0 1" "file_bytes dir_fs 0 = replicate 28 30"
proof -
  have b: "blk dir_fs n = replicate BSIZE (ucast n)" for n using file_fs_blk [of n] by (simp add: blk_def dir_fs_def)
  have d: "ino_d dir_fs 0 = (i_d sample_inode)\<lparr>d_type := F_DIR, d_size := 28\<rparr>" by (simp add: ino_d_def dir_fs_def)
  have ib: "ino_block dir_fs 0 = 1"
    using file_fs_d(2) by (simp add: ino_block_def inode_block_def dir_fs_def file_fs_def)
  have "cache_idle dir_fs" using file_fs_open by (simp add: open_file_def cache_idle_def dir_fs_def)
  then have "open_file dir_fs 0"
    unfolding open_file_def d ib b by (simp add: blockno_ok_def) (simp add: dir_fs_def sample_inode_def)
  moreover have "mapped dir_fs 0 28"
  proof -
    have "k = 0" if "k * 512 < 28" for k :: nat using that by linarith
    then show ?thesis unfolding mapped_def d ib by (fastforce simp: sample_inode_def blockno_ok_def)
  qed
  ultimately show "dir_ok dir_fs 0 1" using d by (simp add: dir_ok_def)
  show "file_bytes dir_fs 0 = replicate 28 30"
    by (rule nth_equalityI) (auto simp: file_bytes_def file_byte_def d b sample_inode_def)
qed

theorem dir_lookup_first_match_witness:
  "\<exists>m' t. dir_lookup (\<lambda>_. None) 0x2000 0 0x1000 ((\<lambda>_. 0)(0x1000 := 65)) dir_fs = Inr (None, m', t)"
proof -
  have nm: "name_at ((\<lambda>_. 0)(0x1000 := 65)) 0x1000 [65] 0x2000" by (auto simp: name_at_def le_Suc_eq)
  have "\<not> entry_is [65] (entry_at (file_bytes dir_fs 0) k)" if "k < 1" for k
    using that by (simp add: entry_is_def entry_at_def slice_def dir_fs_ok(2) numeral_eq_Suc)
  then show ?thesis using dir_lookup_first_match [OF dir_fs_ok(1) nm, of "\<lambda>_. None"] by auto
qed

end
