(* ===== verification/Mount.thy ===== *)
theory Mount
  imports Mkfs Dir_Lookup
begin

text \<open>
  The kernel on a disk that mkfs/mkfs.c has made: \<open>fs_init\<close> (kernel/fs.c), reading of the inodes and
  files of the image, and what the kernel takes the free map of the image for.
\<close>

section \<open>Starting the file system\<close>

definition on_disk :: "mkfs \<Rightarrow> fs \<Rightarrow> bool" where
  "on_disk t s \<longleftrightarrow> image_ok t \<and> (\<forall>n. blk s n = (if unat n < 1001 then img t ! unat n else zeros))"

definition inode0 :: inode where
  "inode0 = \<lparr>i_dev = 0, i_inum = 0, i_nref = 0, i_lk = new_mutex, i_read = False,
     i_d = \<lparr>d_type = 0, d_major = 0, d_minor = 0, d_nlink = 0, d_size = 0, d_addrs = replicate NINOBLKS 0\<rparr>\<rparr>"

definition root_ref :: inode where
  "root_ref = inode0\<lparr>i_nref := 1, i_dev := 1, i_inum := 1, i_read := False\<rparr>"

lemma poll_status_slave:
  "has_slave d \<Longrightarrow> \<exists>e. poll_status n flag d = (flag \<or> n \<noteq> 0, d\<lparr>delay := e\<rparr>)"
proof (induction n arbitrary: flag d)
  case 0
  have "d = d\<lparr>delay := delay d\<rparr>" by simp
  then show ?case by (metis poll_status.simps(1))
next
  case (Suc n)
  let ?d = "d\<lparr>delay := delay d - 1\<rparr>"
  have st: "ata_status d \<noteq> 0" using Suc.prems by (simp add: ata_status_def)
  obtain e where "poll_status n True ?d = (True, ?d\<lparr>delay := e\<rparr>)" using Suc.IH [of ?d True] Suc.prems by auto
  then show ?case using st by (auto simp: inb_status_def)
qed

lemma outb_keeps [simp]: "has_slave (ata_outb port v d) = has_slave d" "sectors (ata_outb port v d) = sectors d"
  by (simp_all add: ata_outb_def)

lemma disk_init_ok:
  assumes "has_slave (drive s)"
  shows "\<exists>d. disk_init s = Inr (s\<lparr>drive := d\<rparr>) \<and> sectors d = sectors (drive s) \<and> has_slave d"
proof -
  define d where "d = ata_outb (regb ATA_PRIMARY 6) (0xe0 OR push_bit 4 1) (drive s)"
  have d: "has_slave d" "sectors d = sectors (drive s)" using assms by (simp_all add: d_def)
  obtain e where e: "poll_status 1024 False d = (True, d\<lparr>delay := e\<rparr>)" using poll_status_slave [OF d(1), of 1024 False] by auto
  have "ide_has_secondary ATA_PRIMARY (drive s) = (True, ata_outb (regb ATA_PRIMARY 6) (0xe0 OR push_bit 4 0) (d\<lparr>delay := e\<rparr>))"
    unfolding ide_has_secondary_def Let_def d_def [symmetric] e by simp
  then show ?thesis using d
    by (intro exI [of _ "ata_outb (regb ATA_PRIMARY 6) (0xe0 OR push_bit 4 0) (d\<lparr>delay := e\<rparr>)"]) (simp add: disk_init_def)
qed

lemma bcache_init_drive: "bcache_init (s\<lparr>drive := d\<rparr>) = (bcache_init s)\<lparr>drive := d\<rparr>"
proof -
  have l: "bcache_link b (s\<lparr>drive := d\<rparr>) = (bcache_link b s)\<lparr>drive := d\<rparr>" for b s
    by (cases s) (simp add: bcache_link_def upd_buf_def Let_def)
  have f: "fold bcache_link bs (s\<lparr>drive := d\<rparr>) = (fold bcache_link bs s)\<lparr>drive := d\<rparr>" for bs s
    by (induction bs arbitrary: s) (simp_all add: l)
  have c: "(s\<lparr>drive := d, buffer := b, bhead := h\<rparr> :: fs) = s\<lparr>buffer := b, bhead := h, drive := d\<rparr>" for s b h by (cases s) simp
  show ?thesis by (simp add: bcache_init_def upd_buf_def Let_def c f del: upt_Suc)
qed

lemma release_super: "bcache_release b (s\<lparr>super_block := x\<rparr>) = (bcache_release b s)\<lparr>super_block := x\<rparr>"
proof -
  have u: "upd_buf b f (s\<lparr>super_block := x\<rparr>) = (upd_buf b f s)\<lparr>super_block := x\<rparr>"
    "(s\<lparr>super_block := x\<rparr>)\<lparr>bhead := b\<rparr> = (s\<lparr>bhead := b\<rparr>)\<lparr>super_block := x\<rparr>"
    "buffer (s\<lparr>super_block := x\<rparr>) = buffer s" "bhead (s\<lparr>super_block := x\<rparr>) = bhead s" for b f and s :: fs
    by (cases s; simp add: upd_buf_def)+
  show ?thesis by (simp only: bcache_release_def bcache_free_def Let_def u split: if_split) simp
qed

lemma superblock_roundtrip: "bytes_superblock (blit 0 (superblock_bytes b) zeros) = b"
  by (cases b) (simp add: bytes_superblock_def superblock_bytes_def blit_def rd_append rd32_le32)

lemma fs_init_ok:
  assumes "unused_buffers s" "on_disk t s" "icache s = replicate NINODES inode0"
  shows "\<exists>u. fs_init s = Inr u \<and> cache_idle u \<and> blk u = blk s \<and> super_block u = mkfs_sb \<and>
    icache u = (replicate NINODES inode0)[0 := root_ref]"
proof -
  have i: "drive (bcache_init s) = drive s" using arg_cong [OF bcache_init_drive [where s = s and d = "drive s"], of drive] by simp
  have b0: "blk s 0 = blit 0 (superblock_bytes mkfs_sb) zeros" using assms(2) by (simp add: on_disk_def image_ok_def)
  have hs: "has_slave (drive s)" using assms(1) by (simp add: unused_buffers_def)
  then obtain d where d: "disk_init (bcache_init s) = Inr (bcache_init (s\<lparr>drive := d\<rparr>))" "sectors d = sectors (drive s)" "has_slave d"
    using disk_init_ok [of "bcache_init s"] i by (auto simp: bcache_init_drive)
  let ?s = "s\<lparr>drive := d\<rparr>"
  have blk: "blk ?s = blk s" using d(2) by (simp add: blk_def fun_eq_iff)
  have ub: "unused_buffers ?s" using assms(1) d(3) by (simp add: unused_buffers_def)
  obtain u where u: "bcache_read 0 0 True (bcache_init ?s) = Inr (NBUF - 1, u)" "b_cache (buffer u (NBUF - 1)) = blk s 0"
    "cache_idle (bcache_release (NBUF - 1) u)" "blk (bcache_release (NBUF - 1) u) = blk s"
    "icache (bcache_release (NBUF - 1) u) = icache s"
    using first_read [OF ub, of 0 0 True] blk by (auto simp: blockno_ok_def)
  let ?v = "(bcache_release (NBUF - 1) u)\<lparr>super_block := mkfs_sb\<rparr>"
  have v: "block_super 0 True (bcache_init ?s) = Inr (mkfs_sb, ?v)"
    using u(1,2) b0 by (simp add: block_super_def release_super superblock_roundtrip Let_def)
  have c: "cache_idle ?v" "blk ?v = blk s" "icache ?v = replicate NINODES inode0"
    using u(3-5) assms(3) by (simp_all add: cache_idle_def blk_def fun_eq_iff)
  have "inode_getc ROOTDEV ROOTINO ?v = Inr (0, upd_ino 0 (\<lambda>_. root_ref) ?v)"
    using c(3) by (simp add: inode_getc_def upt_conv_Cons inode0_def root_ref_def upd_ino_def Let_def del: upt_Suc)
  then have "fs_init s = Inr (upd_ino 0 (\<lambda>_. root_ref) ?v)" using d(1) v by (simp add: fs_init_def dir_init_def)
  moreover have "cache_idle (upd_ino 0 (\<lambda>_. root_ref) ?v)" "blk (upd_ino 0 (\<lambda>_. root_ref) ?v) = blk s"
    using c by (simp_all add: upd_ino_def cache_idle_def blk_def fun_eq_iff)
  ultimately show ?thesis using c(3) by (intro exI [of _ "upd_ino 0 (\<lambda>_. root_ref) ?v"]) (simp add: upd_ino_def)
qed

section \<open>Files of the image\<close>

text \<open>The kernel with the superblock of the image and no buffer in use.\<close>

definition mounted :: "mkfs \<Rightarrow> fs \<Rightarrow> bool" where
  "mounted t s \<longleftrightarrow> on_disk t s \<and> cache_idle s \<and> super_block s = mkfs_sb"

lemma mounted_blk:
  assumes "mounted t s"
  shows "length (blk s n) = 512" "unat n < 1001 \<Longrightarrow> blk s n = img t ! unat n"
  using assms by (auto simp: mounted_def on_disk_def image_ok_def layout_def zeros_def)

lemma load_image:
  assumes "mounted t s" "i < length (icache s)" "i_nref (icache s ! i) \<noteq> 0" "\<not> i_read (icache s ! i)" "i_inum (icache s ! i) = j"
    "1 \<le> j" "j < freeino t" "file_type t j \<noteq> 0"
  shows "\<exists>u. inode_load i s = Inr (True, u) \<and> mounted t u \<and>
    icache u = (icache s)[i := (icache s ! i)\<lparr>i_d := disk_inode (img t) j, i_read := True\<rparr>]"
proof -
  have ok: "image_ok t" "cache_idle s" "super_block s = mkfs_sb" using assms(1) by (simp_all add: mounted_def on_disk_def)
  have j: "unat j \<le> 132" using image_inum [OF ok(1)] assms(6,7) by simp
  note nb = inode_block_no [OF j]
  have ib: "ino_block s i = get_inode_block j mkfs_sb" using assms(5) ok(3) by (simp add: ino_block_def inode_block_def)
  have sl: "ino_slot s i = DINODE_SZ * unat (j mod 7)" using assms(5) by (simp add: ino_slot_def)
  have lt: "unat (get_inode_block j mkfs_sb) < 1001" using nb by simp
  have "bytes_dinode (slice (ino_slot s i) DINODE_SZ (blk s (ino_block s i))) = disk_inode (img t) j"
    using mounted_blk(2) [OF assms(1) lt] nb(1) unfolding ib sl by (simp add: disk_inode_def)
  then obtain u where "inode_load i s = Inr (True, u)" "cache_idle u" "blk u = blk s" "super_block u = super_block s"
    "icache u = (icache s)[i := (icache s ! i)\<lparr>i_d := disk_inode (img t) j, i_read := True\<rparr>]"
    using load_ok [OF ok(2) assms(2-4) _ refl] assms(8) lt unfolding ib by (auto simp: blockno_ok_def file_type_def)
  then show ?thesis using assms(1) by (auto simp: mounted_def on_disk_def)
qed

lemma image_open:
  assumes "mounted t s" "i < length (icache s)" "i_read (icache s ! i)" "i_inum (icache s ! i) = j" "ino_d s i = disk_inode (img t) j"
    "1 \<le> j" "j < freeino t" "file_type t j \<in> {F_DIR, F_FILE}" "length (img_file t j) \<le> 6144"
  shows "open_file s i" "mapped s i (unat (d_size (ino_d s i)))" "file_bytes s i = img_file t j"
proof -
  have ok: "image_ok t" "cache_idle s" "super_block s = mkfs_sb" using assms(1) by (simp_all add: mounted_def on_disk_def)
  have j: "unat j \<le> 132" using image_inum [OF ok(1)] assms(6,7) by simp
  let ?J = "{1..<freeino t}" and ?D = "disk_inode (img t)"
  have L: "layout (img t) ?D ?J (unat (freeblock t))" "j \<in> ?J" using ok(1) assms(6,7) by (simp_all add: image_ok_def)
  have fb: "unat (freeblock t) \<le> 1001" using L(1) by (simp add: layout_def)
  have ib: "ino_block s i = get_inode_block j mkfs_sb" using assms(4) ok(3) by (simp add: ino_block_def inode_block_def)
  have ub: "unat (ino_block s i) < 21" using inode_block_no [OF j] ib by simp
  have sz: "szof (?D j) \<le> 6144" "length (img_file t j) = szof (?D j)" using assms(9) by (simp_all add: img_file_def img_bytes_def)
  have "well_placed (img t) (?D j) (unat (freeblock t))" using L by (auto simp: layout_def)
  then have len: "length (d_addrs (?D j)) = 13" by (simp add: well_placed_def)
  show of: "open_file s i"
    using assms(2,3,5,8) ok(2) mounted_blk(1) [OF assms(1)] len ub by (auto simp: open_file_def file_type_def blockno_ok_def)
  have k: "k < 12" "covers (szof (?D j)) k" "blockat (img t) (?D j) k = d_addrs (?D j) ! k" if "k * 512 < szof (?D j)" for k
  proof -
    show "k < 12" using that sz(1) by linarith
    then show "covers (szof (?D j)) k" "blockat (img t) (?D j) k = d_addrs (?D j) ! k" using that by (auto simp: covers_def blockat_def)
  qed
  show "mapped s i (unat (d_size (ino_d s i)))"
    unfolding mapped_def assms(5)
  proof (intro conjI allI impI)
    show "szof (?D j) \<le> NDIRECT * BSIZE" using sz(1) by simp
    fix k
    assume kk: "k * BSIZE < szof (?D j)"
    note b = layout_block [OF L _ k(2) [OF kk]] k [OF kk]
    show "d_addrs (?D j) ! k \<noteq> 0" "blockno_ok (d_addrs (?D j) ! k)" "d_addrs (?D j) ! k \<noteq> ino_block s i"
      using b ub fb by (auto simp: blockno_ok_def)
  next
    fix k l
    assume kl: "k * BSIZE < szof (?D j) \<and> l * BSIZE < szof (?D j) \<and> k \<noteq> l"
    then have "k \<le> 140" "l \<le> 140" using k(1) [of k] k(1) [of l] by auto
    then show "d_addrs (?D j) ! k \<noteq> d_addrs (?D j) ! l"
      using layout_inj [OF L(1,2,2), of k l] k(2,3) [of k] k(2,3) [of l] kl by auto
  qed
  have "file_byte s i x = img_byte (img t) (?D j) x" if "x < szof (?D j)" for x
  proof -
    have "x div 512 * 512 \<le> x" by simp
    then have kx: "x div 512 * 512 < szof (?D j)" using that by linarith
    then have "x div 512 < 12" using k(1) by blast
    then have "unat (blockat (img t) (?D j) (x div 512)) < 1001"
      using layout_block(2) [OF L _ k(2) [OF kx]] fb by simp
    then show ?thesis using k(3) [OF kx] mounted_blk(2) [OF assms(1)] by (simp add: file_byte_def img_byte_def assms(5))
  qed
  then show "file_bytes s i = img_file t j" by (simp add: file_bytes_def img_file_def img_bytes_def assms(5))
qed

section \<open>Finding a program\<close>

text \<open>A path of one component at \<open>path\<close>, away from the local variables of \<open>dir_abspath\<close> and its callees
  at \<open>loc\<close>, and the literal \<open>"/"\<close>.\<close>

definition path_ready :: "mem \<Rightarrow> u32 \<Rightarrow> u32 \<Rightarrow> u32 \<Rightarrow> u8 list \<Rightarrow> bool" where
  "path_ready m slash loc path w \<longleftrightarrow>
     cstr m path (47 # w) \<and> cstr m slash [47] \<and> w \<noteq> [] \<and> 47 \<notin> set w \<and> length w \<le> 24 \<and> path \<noteq> 0 \<and> loc \<noteq> 0 \<and>
     unat loc + 1056 < 4294967296 \<and> (\<forall>k \<le> length w + 1. 1056 \<le> unat (path + of_nat k - loc)) \<and>
     1056 \<le> unat (slash - loc) \<and> 1056 \<le> unat (slash + 1 - loc)"

definition path_copy :: "mem \<Rightarrow> u32 \<Rightarrow> u32 \<Rightarrow> mem" where
  "path_copy m loc path = (strncpy m loc path (PATH_MAX - 1))(loc + 1023 := 0)"

lemma path_copy_ok:
  assumes "path_ready m slash loc path w"
  shows "cstr (path_copy m loc path) loc (47 # w)" "cstr (path_copy m loc path) slash [47]"
proof -
  let ?xs = "47 # w"
  have h: "cstr m path ?xs" "cstr m slash [47]" "length w \<le> 24" "\<forall>k \<le> length w + 1. 1056 \<le> unat (path + of_nat k - loc)"
    "1056 \<le> unat (slash - loc)" "1056 \<le> unat (slash + 1 - loc)"
    using assms by (simp_all add: path_ready_def)
  have far: "\<forall>j \<le> length ?xs. length ?xs < unat (path + of_nat j - loc)"
  proof (intro allI impI)
    fix j
    assume "j \<le> length ?xs"
    then have "1056 \<le> unat (path + of_nat j - loc)" using h(4) by simp
    then show "length ?xs < unat (path + of_nat j - loc)" using h(3) by simp
  qed
  have at: "path_copy m loc path a =
      (if a = loc + 1023 then 0 else if unat (a - loc) < length ?xs then m (path + (a - loc))
       else if unat (a - loc) = length ?xs \<or> unat (a - loc) = Suc (length ?xs) \<and> 1023 \<noteq> length ?xs + 2 then 0 else m a)" for a
    using strncpy_loop_short [OF h(1) _ _ far, of 1023 a] h(3) by (simp add: path_copy_def strncpy_def)
  have u: "unat (of_nat i :: u32) = i" "loc + of_nat i \<noteq> loc + 1023" if "i \<le> length ?xs" for i
  proof -
    show "unat (of_nat i :: u32) = i" using that h(3) by (simp add: unat_of_nat32)
    then have "of_nat i \<noteq> (1023 :: u32)" using that h(3) by (auto simp: word32_eq_iff)
    then show "loc + of_nat i \<noteq> loc + 1023" by simp
  qed
  show "cstr (path_copy m loc path) loc ?xs"
    unfolding cstr_iff
  proof (intro conjI allI impI)
    fix i
    assume i: "i < length ?xs"
    then show "path_copy m loc path (loc + of_nat i) = ?xs ! i" "?xs ! i \<noteq> 0"
      using at [of "loc + of_nat i"] u [of i] h(1) unfolding cstr_iff by simp_all
  next
    show "path_copy m loc path (loc + of_nat (length ?xs)) = 0" using at u [of "length ?xs"] by simp
  qed
  have "path_copy m loc path a = m a" if "1056 \<le> unat (a - loc)" for a
  proof -
    have "a \<noteq> loc + 1023" using that by auto
    then show ?thesis using at [of a] that h(3) by simp
  qed
  then show "cstr (path_copy m loc path) slash [47]" using h(2,5,6) by simp
qed

lemma strtok_r_last:
  assumes "cstr m p w" "w \<noteq> []" "cstr m delim [d]" "d \<notin> set w"
  shows "strtok_r m 0 delim p = Some (p, p + of_nat (length w), m)"
proof -
  have tw: "takeWhile (\<lambda>x. x \<noteq> d) w = w" using assms(4) by (auto simp: takeWhile_eq_all_conv)
  have "length (takeWhile (\<lambda>x. x \<noteq> d) w) = length w" by (rule arg_cong [OF tw])
  then have "strcspn m p delim = Some (of_nat (length w))" using strcspn_cstr [OF assms(1,3)] by simp
  moreover have "m p \<noteq> 0" "m delim \<noteq> 0" "m (p + of_nat (length w)) = 0" using assms(1-3) by (cases w, auto simp: cstr_iff)
  ultimately show ?thesis by (simp add: strtok_r_def Let_def)
qed

lemma first_token:
  assumes "path_ready m slash loc path w"
  shows "strtok_r (path_copy m loc path) loc slash 0 = Some (loc + 1, loc + 1 + of_nat (length w), path_copy m loc path)"
    "cstr (path_copy m loc path) (loc + 1) w"
proof -
  let ?m = "path_copy m loc path"
  note c = path_copy_ok [OF assms]
  have w: "w \<noteq> []" "47 \<notin> set w" "loc \<noteq> 0" using assms by (simp_all add: path_ready_def)
  then have d: "dropWhile (\<lambda>x. x = 47) (47 # w) = w" "takeWhile (\<lambda>x. x = 47) (47 # w) = [47]" by (cases w; auto)+
  note f = strtok_r_first [OF c(1) w(3) c(2), unfolded d]
  show "cstr ?m (loc + 1) w" using f(2) by simp
  then show "strtok_r ?m loc slash 0 = Some (loc + 1, loc + 1 + of_nat (length w), ?m)"
    using f(1) [of 0] strtok_r_last [OF _ w(1) c(2) w(2), of "loc + 1"] by simp
qed

lemma entry_at_append: "length x = 28 \<Longrightarrow> entry_at (x @ ys) 0 = x" "length x = 28 \<Longrightarrow> entry_at (x @ ys) (Suc k) = entry_at ys k"
  by (simp_all add: entry_at_def slice_def)

lemma length_root_entries: "length (root_entries junk m fs) = 28 * length fs"
  by (induction fs arbitrary: m) auto

lemma entry_root:
  "k < length fs \<Longrightarrow> entry_at (root_entries junk m fs) k = dirent (of_nat (m + k)) (prog_name junk (fst (fs ! k)))"
proof (induction fs arbitrary: m k)
  case (Cons f fs)
  obtain path bs where f: "f = (path, bs)" by fastforce
  show ?case
  proof (cases k)
    case (Suc l)
    then show ?thesis using Cons.IH [of l "Suc m"] Cons.prems f by (simp add: entry_at_append)
  qed (simp add: f entry_at_append)
qed simp

lemma entry_is_dirent:
  assumes "length nm \<le> 24" "0 \<notin> set nm"
  shows "entry_is w (dirent i nm) \<longleftrightarrow> i \<noteq> 0 \<and> nm = take 24 w"
proof -
  have "before_NUL (nm @ replicate n 0) = nm" for n
    using assms(2) by (simp add: takeWhile_append takeWhile_replicate takeWhile_eq_all_conv)
  then show ?thesis by (simp add: entry_is_def dirent_def rd32_le32)
qed

lemma prog_name_chars: "0 \<notin> set (prog_name junk path)"
  by (auto simp: prog_name_def dest: set_takeWhileD split: sum.split)

text \<open>The root directory of an image: entry \<open>k + 2\<close> is the one of program \<open>k\<close>.\<close>

definition root_dir :: "u8 \<Rightarrow> (u8 list \<times> u8 list) list \<Rightarrow> u8 list" where
  "root_dir junk fs = dirent 1 [46] @ dirent 0 [46, 46] @ root_entries junk 2 fs"

lemma root_dir_lookup:
  assumes "k < length fs" "length fs \<le> 131" "prog_name junk (fst (fs ! k)) = w" "w \<noteq> [46]"
    "\<And>l. l < k \<Longrightarrow> prog_name junk (fst (fs ! l)) \<noteq> w"
  shows "first_entry w (root_dir junk fs) 0 (length fs + 2) = Some (k + 2)"
    "rd32 (entry_at (root_dir junk fs) (k + 2)) 0 = of_nat (k + 2)"
proof -
  have len: "length w \<le> 24" using length_prog_name [of junk "fst (fs ! k)"] assms(3) by simp
  have d: "length (dirent 1 [46]) = 28" "length (dirent 0 [46, 46]) = 28" by (simp_all add: dirent_def)
  have e: "entry_at (root_dir junk fs) (Suc (Suc l)) = dirent (of_nat (2 + l)) (prog_name junk (fst (fs ! l)))" if "l < length fs" for l
    using entry_root [OF that, of junk 2] d by (simp add: root_dir_def entry_at_append)
  have e01: "entry_at (root_dir junk fs) 0 = dirent 1 [46]" "entry_at (root_dir junk fs) (Suc 0) = dirent 0 [46, 46]"
    using d by (simp_all add: root_dir_def entry_at_append)
  have nz: "(of_nat (2 + l) :: u32) \<noteq> 0" if "l \<le> 131" for l using that by (simp add: word32_eq_iff unat_add32 unat_of_nat32)
  have ek: "entry_is w (entry_at (root_dir junk fs) (Suc (Suc l))) \<longleftrightarrow> prog_name junk (fst (fs ! l)) = w" if "l < length fs" for l
    unfolding e [OF that] entry_is_dirent [OF length_prog_name prog_name_chars] using nz [of l] that assms(2) len by simp
  show "first_entry w (root_dir junk fs) 0 (length fs + 2) = Some (k + 2)"
  proof (rule first_entry_Some)
    show "k + 2 < length fs + 2" using assms(1) by simp
    show "entry_is w (entry_at (root_dir junk fs) (k + 2))"
      using ek [OF assms(1)] assms(3) by simp
    fix l
    assume l: "l < k + 2"
    show "\<not> entry_is w (entry_at (root_dir junk fs) l)"
    proof (cases l)
      case 0
      then show ?thesis using e01 assms(4) len entry_is_dirent [of "[46]" w 1] by auto
    next
      case (Suc i)
      show ?thesis
      proof (cases i)
        case 0
        then show ?thesis using Suc e01 entry_is_dirent [of "[46, 46]" w 0] by simp
      next
        case (Suc j)
        then have "j < k" "l = Suc (Suc j)" using \<open>l = Suc i\<close> l by simp_all
        then show ?thesis using ek [of j] assms(1,5) by simp
      qed
    qed
  qed
  show "rd32 (entry_at (root_dir junk fs) (k + 2)) 0 = of_nat (k + 2)"
    using e [OF assms(1)] by (simp add: dirent_def rd32_le32)
qed

text \<open>Taking the second slot of the inode cache.\<close>

lemma getc_root:
  assumes "icache s = (replicate NINODES inode0)[0 := root_ref]"
  shows "inode_getc 1 1 s = Inr (0, upd_ino 0 (\<lambda>n. n\<lparr>i_nref := i_nref n + 1\<rparr>) s)"
  using assms by (simp add: inode_getc_def upt_conv_Cons inode0_def root_ref_def del: upt_Suc)

lemma getc_second:
  assumes "length (icache s) = NINODES" "icache s ! 1 = inode0" "i_nref (icache s ! 0) \<noteq> 0" "i_inum (icache s ! 0) \<noteq> j"
  shows "inode_getc 1 j s = Inr (1, upd_ino 1 (\<lambda>n. n\<lparr>i_nref := 1, i_dev := 1, i_inum := j, i_read := False\<rparr>) s)"
  using assms by (simp add: inode_getc_def upt_conv_Cons inode0_def Let_def del: upt_Suc)

lemma no_more_path:
  assumes "m saved = 0" "saved \<noteq> 0" "b \<noteq> 0" "saved \<noteq> b" "saved \<noteq> b + 1"
  shows "more_path b saved m = Inr False"
proof -
  have "pbrk_loop (m(b := ucast (47 :: u32), b + 1 := 0)) saved b = Some 0" using assms by (subst pbrk_loop.simps) simp
  then show ?thesis using assms by (simp add: more_path_def scanned_def strchr_def strpbrk_def)
qed

lemma mounted_upd: "mounted t (upd_ino i f s) = mounted t s"
  by (simp add: mounted_def on_disk_def cache_idle_def upd_ino_def blk_def)

lemma before_entry: "k \<le> 24 \<Longrightarrow> 28 \<le> unat (loc + 1 + of_nat k - (loc + 1028) :: u32)"
proof -
  assume "k \<le> 24"
  then have "unat (of_nat (k + 4294966269) :: u32) = k + 4294966269" by (subst unat_of_nat) simp
  moreover have "loc + 1 + of_nat k - (loc + 1028) = (of_nat (k + 4294966269) :: u32)" by simp
  ultimately show ?thesis by (simp only:)
qed

text \<open>\<open>dir_abspath\<close> right after \<open>fs_init\<close>, for the path of a program in the root directory.\<close>

lemma abspath_program:
  assumes M: "mounted t s" "icache s = (replicate NINODES inode0)[0 := root_ref]"
    and P: "path_ready m slash loc path w"
    and R: "img_file t 1 = root_dir junk fs" "file_type t 1 = F_DIR" "length fs \<le> 131" "unat (freeino t) = 2 + length fs"
    and K: "k < length fs" "prog_name junk (fst (fs ! k)) = w" "w \<noteq> [46]" "\<And>l. l < k \<Longrightarrow> prog_name junk (fst (fs ! l)) \<noteq> w"
    and T: "file_type t (of_nat (k + 2)) = F_FILE"
  shows "\<exists>m' u. dir_abspath dr slash loc path False m s = Inr (Some 1, m', u) \<and> mounted t u \<and> length (icache u) = NINODES \<and>
    i_read (icache u ! 1) \<and> i_inum (icache u ! 1) = of_nat (k + 2) \<and> ino_d u 1 = disk_inode (img t) (of_nat (k + 2))"
proof -
  let ?m = "path_copy m loc path" and ?n = "length fs + 2" and ?j = "of_nat (k + 2) :: u32"
  have p: "length w \<le> 24" "loc \<noteq> 0" "path \<noteq> 0" "unat loc + 1056 < 4294967296" "m path = 47" using P by (auto simp: path_ready_def)
  have fi: "1 < freeino t" "?j < freeino t" "1 \<le> ?j" "?j \<noteq> 1" "unat ?j = k + 2"
    using R(3,4) K(1) by (auto simp: word32_cmp unat_add32 unat_of_nat32)
  define s1 where "s1 = upd_ino 0 (\<lambda>n. n\<lparr>i_nref := i_nref n + 1\<rparr>) s"
  have s1: "mounted t s1" "icache s1 = (replicate NINODES inode0)[0 := root_ref\<lparr>i_nref := 2\<rparr>]"
    using M by (simp_all add: s1_def mounted_upd) (simp add: upd_ino_def root_ref_def)
  obtain s2 where s2: "inode_load 0 s1 = Inr (True, s2)" "mounted t s2"
    "icache s2 = (icache s1)[0 := (icache s1 ! 0)\<lparr>i_d := disk_inode (img t) 1, i_read := True\<rparr>]"
    using load_image [OF s1(1), of 0 1] s1(2) fi(1) R(2) by (auto simp: root_ref_def)
  have i2: "length (icache s2) = NINODES" "i_read (icache s2 ! 0)" "i_inum (icache s2 ! 0) = 1" "i_dev (icache s2 ! 0) = 1"
    "i_nref (icache s2 ! 0) = 2" "ino_d s2 0 = disk_inode (img t) 1" "icache s2 ! 1 = inode0"
    using s2(3) s1(2) by (simp_all add: root_ref_def ino_d_def)
  have len: "length (img_file t 1) = 28 * ?n" using R(1) by (simp add: root_dir_def length_root_entries dirent_def)
  have io: "open_file s2 0" "mapped s2 0 (unat (d_size (ino_d s2 0)))" "file_bytes s2 0 = root_dir junk fs"
    using image_open [OF s2(2), of 0 1] i2 fi(1) R len by simp_all
  have dirn: "dir_ok s2 0 ?n"
    using io(1,2) arg_cong [OF io(3), of length] R(1,2) len i2(6) by (simp add: dir_ok_def file_bytes_def file_type_def)
  note tok = first_token [OF P]
  have nm: "name_at ?m (loc + 1) w (loc + 1028)" using tok(2) before_entry p(1) by (simp add: name_at_def)
  obtain m' t' where t': "\<forall>x. 28 \<le> unat (x - (loc + 1028)) \<longrightarrow> m' x = ?m x" "dir_ok t' 0 ?n" "same_meta s2 t'" "blk t' = blk s2"
    "dir_lookup dr (loc + 1028) 0 (loc + 1) ?m s2 = rbind (inode_getc 1 ?j t') (\<lambda>(i, u). Inr (Some (i, of_nat (28 * (k + 2))), m', u))"
    using dir_lookup_ok [OF dirn nm, of dr] root_dir_lookup [OF K(1) R(3) K(2,3,4)] io(3) i2(4) by auto
  have ic: "icache t' = icache s2" "mounted t t'" using t'(2-4) s2(2)
    by (simp_all add: same_meta_def mounted_def on_disk_def dir_ok_def open_file_def)
  define s3 where "s3 = upd_ino 1 (\<lambda>n. n\<lparr>i_nref := 1, i_dev := 1, i_inum := ?j, i_read := False\<rparr>) t'"
  have getc: "inode_getc 1 ?j t' = Inr (1, s3)" using getc_second [of t' ?j] i2 ic fi(4) by (simp add: s3_def)
  have s3: "mounted t s3" "length (icache s3) = NINODES" "i_nref (icache s3 ! 1) = 1" "\<not> i_read (icache s3 ! 1)" "i_inum (icache s3 ! 1) = ?j"
    using ic i2 by (simp_all add: s3_def mounted_upd) (simp_all add: upd_ino_def)
  obtain s4 where s4: "inode_load 1 s3 = Inr (True, s4)" "mounted t s4"
    "icache s4 = (icache s3)[1 := (icache s3 ! 1)\<lparr>i_d := disk_inode (img t) ?j, i_read := True\<rparr>]"
    using load_image [OF s3(1), of 1 ?j] s3 fi(2,3) T by auto
  have tok1: "loc + 1 \<noteq> 0" using p(4) by (auto simp: word32_eq_iff unat_add32)
  let ?saved = "loc + 1 + of_nat (length w)"
  have sv: "?saved \<noteq> 0" "loc + 1024 \<noteq> 0" "?saved \<noteq> loc + 1024" "?saved \<noteq> loc + 1025"
    using p(1,4) by (auto simp: word32_eq_iff unat_add32 unat_of_nat32)
  have "m' ?saved = ?m ?saved" using t'(1) before_entry [OF p(1)] by blast
  then have "m' ?saved = 0" using tok(2) by (simp add: cstr_iff)
  then have more: "more_path (loc + 1024) ?saved m' = Inr False" using sv by (intro no_more_path) simp_all
  have ty: "d_type (i_d (icache s4 ! 1)) = F_FILE" using s4(3) s3(2) T by (simp add: file_type_def)
  have "abspath_round dr (loc + 1024) False 0 (loc + 1) ?saved ?m s2 = Inr (Some 1, m', inode_drop 1 s4)"
    using tok1 t'(5) getc s4(1) ty more unfolding abspath_round_def by (simp add: Let_def add.commute [of 1028])
  then have "dir_abspath dr slash loc path False m s = Inr (Some 1, m', inode_drop 1 s4)"
    using p(3,5) getc_root [OF M(2)] s2(1) tok(1)
    unfolding dir_abspath_def path_copy_def [symmetric] Let_def by (simp add: s1_def [symmetric] scanned_def)
  moreover have "mounted t (inode_drop 1 s4)" using s4(2) by (simp add: inode_drop_def mounted_upd)
  ultimately show ?thesis using s4(3) s3(2,5) by (simp add: inode_drop_def upd_ino_def ino_d_def)
qed

section \<open>The free map of an image\<close>

text \<open>The tool numbers the bits of the map from block 0 and from the least significant bit of a byte.\<close>

lemma set_bits_bit:
  "n \<le> 8 * length buf \<Longrightarrow> k < length buf \<Longrightarrow> b < 8 \<Longrightarrow> bit (set_bits_below n buf ! k) b \<longleftrightarrow> bit (buf ! k) b \<or> 8 * k + b < n"
proof (induction n)
  case (Suc n)
  have "n div 8 < length buf" using Suc.prems(1) by (simp add: div_less_iff_less_mult)
  moreover have "(8 * k + b = n) = (k = n div 8 \<and> b = n mod 8)" using Suc.prems(3) by auto
  ultimately show ?case using Suc by (auto simp: Let_def nth_list_update bit_simps less_Suc_eq)
qed simp

lemma mounted_map:
  assumes "mounted t s" "img t ! 20 = set_bits_below (unat (freeblock t)) zeros"
  shows "wf_map s" "first_byte s = - 1"
    "21 \<le> n \<Longrightarrow> n \<le> 1000 \<Longrightarrow> used_bit s (of_nat n) \<longleftrightarrow> 8 * ((n - 21) div 8) + (7 - (n - 21) mod 8) < unat (freeblock t)"
proof -
  have sb: "super_block s = mkfs_sb" using assms(1) by (simp add: mounted_def)
  have fb: "21 \<le> unat (freeblock t)" "unat (freeblock t) \<le> 1001" using assms(1) by (auto simp: mounted_def on_disk_def image_ok_def layout_def)
  have b20: "blk s 20 = set_bits_below (unat (freeblock t)) zeros" using mounted_blk(2) [OF assms(1), of 20] assms(2) by simp
  have bits: "bit (blk s 20 ! k) b \<longleftrightarrow> 8 * k + b < unat (freeblock t)" if "k < 512" "b < 8" for k b
    using set_bits_bit [of "unat (freeblock t)" zeros k b] that fb(2) b20 by (simp add: zeros_def)
  show "wf_map s" using mounted_blk(1) [OF assms(1)] by (simp add: wf_map_def sb mkfs_sb_def Let_def)
  have "hd (blk s 20) = blk s 20 ! 0" using mounted_blk(1) [OF assms(1), of 20] by (intro hd_conv_nth) auto
  moreover have "blk s 20 ! 0 = - 1" by (rule bit_word_eqI) (use bits [of 0] fb(1) in simp)
  ultimately show "first_byte s = - 1" by (simp add: first_byte_def sb mkfs_sb_def)
  assume n: "21 \<le> n" "n \<le> 1000"
  have u: "unat (of_nat n - 21 :: u32) = n - 21" using n by (simp add: unat_sub word_le_nat_alt unat_of_nat32)
  then have "map_bit mkfs_sb (of_nat n) = n - 21" "map_block mkfs_sb (of_nat n) = 20"
    using n by (simp_all add: map_bit_def map_block_def mkfs_sb_def word32_eq_iff unat_add32 unat_div)
  moreover have "(n - 21) div 8 < 512" using n by (simp add: div_less_iff_less_mult)
  ultimately show "used_bit s (of_nat n) \<longleftrightarrow> 8 * ((n - 21) div 8) + (7 - (n - 21) mod 8) < unat (freeblock t)"
    using bits [of "(n - 21) div 8" "7 - (n - 21) mod 8"] by (simp add: used_bit_def sb Let_def)
qed

lemma mounted_alloc:
  assumes "mounted t s" "img t ! 20 = set_bits_below (unat (freeblock t)) zeros"
  shows "\<exists>u. block_alloc dev s = Inr (29, u)"
proof -
  note m = mounted_map [OF assms]
  have sb: "super_block s = mkfs_sb" "cache_idle s" using assms(1) by (simp_all add: mounted_def)
  then show ?thesis using alloc_ok [OF sb(2) m(1), of 29 dev] m(2) by (auto simp: mkfs_sb_def leading_ones_full)
qed

text \<open>Memory right after loading: buffers and inode cache zero, the disk holding the image.\<close>

definition booted :: "mkfs \<Rightarrow> fs \<Rightarrow> bool" where
  "booted t s \<longleftrightarrow> unused_buffers s \<and> icache s = replicate NINODES inode0 \<and>
     (\<forall>n. blk s n = (if unat n < 1001 then img t ! unat n else zeros))"

lemma booted_init:
  assumes "booted t s" "image_ok t"
  shows "\<exists>u. fs_init s = Inr u \<and> mounted t u \<and> icache u = (replicate NINODES inode0)[0 := root_ref]"
proof -
  have "on_disk t s" using assms by (simp add: on_disk_def booted_def)
  then show ?thesis using fs_init_ok [of s t] assms(1) by (auto simp: booted_def mounted_def on_disk_def)
qed

text \<open>An image of one program \<open>/i_\<close> on a disk.\<close>

definition one_prog :: "(u8 list \<times> u8 list) list" where
  "one_prog = [([47, 105, 95], [1, 2, 3])]"

lemma one_prog_ok: "progs_ok 0 one_prog" "length one_prog \<le> 131"
  "21 + blocks_for (28 * (length one_prog + 2)) + prog_blocks one_prog \<le> 1001" "prog_name 0 (fst (one_prog ! 0)) = [105]"
proof -
  have p: "parsename 0 [47, 105, 95] = Inr (105 # replicate 23 0)" by code_simp
  then show "progs_ok 0 one_prog" by (simp add: progs_ok_def one_prog_def)
  have "prog_blocks one_prog = 1" "blocks_for (28 * (length one_prog + 2)) = 1" by (simp_all add: prog_blocks_def blocks_for_def one_prog_def)
  then show "21 + blocks_for (28 * (length one_prog + 2)) + prog_blocks one_prog \<le> 1001" by linarith
  show "prog_name 0 (fst (one_prog ! 0)) = [105]" using p by (simp add: prog_name_def one_prog_def)
qed (simp add: one_prog_def)

lemma one_prog_booted: "\<exists>t s. make_image 0 (map (\<lambda>(path, bs). (path, Some bs)) one_prog) = Inr t \<and> booted t s"
proof -
  obtain t where t: "make_image 0 (map (\<lambda>(path, bs). (path, Some bs)) one_prog) = Inr t"
    using make_image_ok [OF one_prog_ok(1-3)] by blast
  let ?s = "sample_fs\<lparr>drive := sample_drive\<lparr>sectors := (\<lambda>_ n. if unat n < 1001 then img t ! unat n else zeros)\<rparr>,
    icache := replicate NINODES inode0\<rparr>"
  have "booted t ?s" using sample_fs_ok(2) by (simp add: booted_def blk_def unused_buffers_def sample_fs_def)
  then show ?thesis using t by blast
qed

end
