(* ===== verification/Kvm_Pages.thy ===== *)
theory Kvm_Pages
  imports Vmem
begin

text \<open>
  How many pages mapping takes (kernel/memory/pgtbl.c, kernel/memory/vmem.c): every page that leaves the free list
  becomes a page table, and a range needs one table for each entry of the directory that it
  touches.  So 136 free pages are enough for the tables of the kernel, and \<open>kvm_allocate\<close> cannot fail.
\<close>

section \<open>Tables and free pages\<close>

definition tabs :: "mem \<Rightarrow> u32 \<Rightarrow> u32 set" where
  "tabs m pgdir = {i. unat i < 1024 \<and> has_table m pgdir i}"

definition balance :: "machine \<Rightarrow> u32 list \<Rightarrow> u32 \<Rightarrow> nat" where
  "balance s fs pgdir = length fs + card (tabs (ram s) pgdir)"

lemma walk_count:
  assumes "wf_pgdir s fs pgdir" "walk pgdir va s = (p, t)" "p \<noteq> 0"
  shows "\<exists>fs'. wf_pgdir t fs' pgdir \<and> balance t fs' pgdir = balance s fs pgdir \<and>
    tabs (ram t) pgdir = insert (page_directory_idx va) (tabs (ram s) pgdir)"
proof (cases "has_table (ram s) pgdir (page_directory_idx va)")
  case True
  then have "t = s" "page_directory_idx va \<in> tabs (ram s) pgdir"
    using assms(2) walk_present [OF True] idx_bounds(1) [of va] by (auto simp: tabs_def)
  then show ?thesis using assms(1) by (auto simp: insert_absorb)
next
  case False
  let ?i = "page_directory_idx va"
  obtain pt fs' where fs: "fs = pt # fs'" and t: "t = s\<lparr>freelist := load32 (ram s) pt, ram := hook_table (ram s) pgdir ?i pt\<rparr>"
    using walk_absent [OF assms(1) False] assms(2,3) by (cases fs) auto
  have wf: "wf_pgdir t fs' pgdir" using walk_absent_wf [OF assms(1) [unfolded fs] False idx_bounds(1) t] .
  have pt: "page_ok s pt" "pt \<noteq> pgdir" using wf_pgdirD [OF assms(1)] fs by (auto simp: free_pages_def)
  have "tabs (ram t) pgdir = insert ?i (tabs (ram s) pgdir)"
    using hook_table_tables(1) [OF wf_pgdirD(3) [OF assms(1)] pt idx_bounds(1)] idx_bounds(1) [of va] by (auto simp: tabs_def t)
  moreover have "?i \<notin> tabs (ram s) pgdir" using False by (simp add: tabs_def)
  ultimately show ?thesis using wf fs by (auto simp: balance_def)
qed

text \<open>Mapping a range: when it gives up, all free pages are gone and a table is still missing.\<close>

lemma map_loop_count:
  assumes "wf_pgdir s fs pgdir" "page_aligned vstart" "(vend - vstart) mod PAGE_SZ = 0" "map_loop pgdir pm vstart vend ps s = Inr (ok, t)"
  shows "\<exists>fs'. wf_pgdir t fs' pgdir \<and> balance t fs' pgdir = balance s fs pgdir \<and>
    tabs (ram t) pgdir \<subseteq> tabs (ram s) pgdir \<union> page_directory_idx ` {va. in_vrange vstart vend va} \<and>
    (ok \<or> fs' = [] \<and> (\<exists>va. in_vrange vstart vend va \<and> page_directory_idx va \<notin> tabs (ram t) pgdir))"
  using assms
proof (induction pgdir pm vstart vend ps s arbitrary: fs rule: map_loop.induct)
  case (1 pgdir pm vstart vend ps s)
  show ?case
  proof (cases "vstart = vend")
    case True
    then show ?thesis using "1.prems" by (subst (asm) map_loop.simps) auto
  next
    case False
    note ge = vrange_step_ge [OF False "1.prems"(3)]
    note rng = in_vrange_step [OF "1.prems"(2) ge]
    obtain pte u where w: "walk pgdir vstart s = (pte, u)" by (cases "walk pgdir vstart s")
    have unfold: "map_loop pgdir pm vstart vend ps s =
        (if pte = 0 then Inr (False, u)
         else if load32 (ram u) pte AND PTE_P \<noteq> 0 then Inl (Panic ''map_pages: remap'')
         else map_loop pgdir pm (vstart + PAGE_SZ) vend (ps + PAGE_SZ)
               (u\<lparr>ram := store32 (ram u) pte (ps OR PTE_P OR pm)\<rparr>))"
      using False "1.prems"(3) w by (subst map_loop.simps) simp
    have vs: "in_vrange vstart vend vstart" using rng [of vstart] by simp
    show ?thesis
    proof (cases "pte = 0")
      case True
      then have t: "t = u" "\<not> ok" using "1.prems"(4) unfold by simp_all
      have "u = s" "fs = []" using walk_spec [OF "1.prems"(1) w] True by auto
      moreover have "page_directory_idx vstart \<notin> tabs (ram s) pgdir"
      proof
        assume "page_directory_idx vstart \<in> tabs (ram s) pgdir"
        then have "has_table (ram s) pgdir (page_directory_idx vstart)" by (simp add: tabs_def)
        then show False using walk_spec [OF "1.prems"(1) w] walk_present [of s pgdir vstart] w True \<open>u = s\<close>
            wf_pgdir_table(1) [OF "1.prems"(1) idx_bounds(1)] unat_entry [OF page_ok_aligned idx_bounds(2)] unat_page_ok
          by (metis Pair_inject add_eq_0_iff_both_eq_0 not_numeral_le_zero unat_0)
      qed
      ultimately show ?thesis using t "1.prems"(1) vs by auto
    next
      case nz: False
      obtain fs' where fs': "wf_pgdir u fs' pgdir" "balance u fs' pgdir = balance s fs pgdir"
        "tabs (ram u) pgdir = insert (page_directory_idx vstart) (tabs (ram s) pgdir)"
        using walk_count [OF "1.prems"(1) w nz] by blast
      have sp: "has_table (ram u) pgdir (page_directory_idx vstart)"
        "pte = table_of (ram u) pgdir (page_directory_idx vstart) + 4 * page_table_idx vstart"
        using walk_spec [OF "1.prems"(1) w] nz by auto
      have fresh: "\<not> load32 (ram u) pte AND PTE_P \<noteq> 0" using "1.prems"(4) nz unfolding unfold by (auto split: if_splits)
      let ?u = "u\<lparr>ram := store32 (ram u) pte (ps OR PTE_P OR pm)\<rparr>"
      have wf: "wf_pgdir ?u fs' pgdir"
        unfolding sp(2) by (rule store_pte_wf [OF fs'(1) idx_bounds(1) sp(1) idx_bounds(2)])
      have tb: "tabs (ram ?u) pgdir = tabs (ram u) pgdir"
        using store_pte_tables [OF fs'(1) idx_bounds(1) sp(1) idx_bounds(2)] sp(2) by (auto simp: tabs_def)
      then have bal: "balance ?u fs' pgdir = balance s fs pgdir" using fs'(2) by (simp add: balance_def)
      have ml: "map_loop pgdir pm (vstart + PAGE_SZ) vend (ps + PAGE_SZ) ?u = Inr (ok, t)"
        using "1.prems"(4) nz fresh unfolding unfold by simp
      have md: "\<not> (vend - vstart) mod PAGE_SZ \<noteq> 0" using "1.prems"(3) by simp
      obtain gs where gs: "wf_pgdir t gs pgdir" "balance t gs pgdir = balance ?u fs' pgdir"
        "tabs (ram t) pgdir \<subseteq> tabs (ram ?u) pgdir \<union> page_directory_idx ` {va. in_vrange (vstart + PAGE_SZ) vend va}"
        "ok \<or> gs = [] \<and> (\<exists>va. in_vrange (vstart + PAGE_SZ) vend va \<and> page_directory_idx va \<notin> tabs (ram t) pgdir)"
        using "1.IH" [OF False md w [symmetric] refl nz fresh wf page_aligned_next [OF "1.prems"(2)] vrange_step_mod [OF "1.prems"(3) ge] ml]
        by blast
      show ?thesis
        using gs bal tb fs'(3) vs rng by (intro exI [of _ gs]) (auto simp: subset_iff)
    qed
  qed
qed

lemma map_pages_enough:
  assumes "wf_pgdir s fs pgdir" "map_pages pgdir k s = Inr (ok, t)" "tabs (ram s) pgdir \<subseteq> K" "\<And>va. in_vmap k va \<Longrightarrow> page_directory_idx va \<in> K"
  shows "\<exists>fs'. wf_pgdir t fs' pgdir \<and> balance t fs' pgdir = balance s fs pgdir \<and> tabs (ram t) pgdir \<subseteq> K \<and>
    (card K \<le> balance s fs pgdir \<longrightarrow> ok)"
proof -
  let ?a = "page_aligndown (virt k)" and ?e = "page_aligndown (virt k + (pend k - pstart k))"
  have al: "page_aligndown a mod PAGE_SZ = 0" for a by (simp add: word32_eq_iff unat_mod unat_page_aligndown)
  have ml: "map_loop pgdir (perm k) ?a ?e (pstart k) s = Inr (ok, t)" using assms(2) by (simp add: map_pages_def Let_def al)
  obtain fs' where fs': "wf_pgdir t fs' pgdir" "balance t fs' pgdir = balance s fs pgdir"
    "tabs (ram t) pgdir \<subseteq> tabs (ram s) pgdir \<union> page_directory_idx ` {va. in_vrange ?a ?e va}"
    "ok \<or> fs' = [] \<and> (\<exists>va. in_vrange ?a ?e va \<and> page_directory_idx va \<notin> tabs (ram t) pgdir)"
    using map_loop_count [OF assms(1) page_aligned_aligndown aligned_diff_mod [OF page_aligned_aligndown page_aligned_aligndown] ml] by blast
  have sub: "tabs (ram t) pgdir \<subseteq> K" using fs'(3) assms(3,4) by (auto simp: in_vmap_def)
  have "ok" if c: "card K \<le> balance s fs pgdir"
  proof (rule ccontr)
    assume "\<not> ok"
    then obtain va where va: "fs' = []" "in_vrange ?a ?e va" "page_directory_idx va \<notin> tabs (ram t) pgdir" using fs'(4) by blast
    then have "card K \<le> card (tabs (ram t) pgdir)" using c fs'(2) by (simp add: balance_def)
    then have "tabs (ram t) pgdir = K" using card_seteq [OF _ sub] by simp
    then show False using va assms(4) by (auto simp: in_vmap_def)
  qed
  then show ?thesis using fs' sub by blast
qed

lemma kvm_map_enough:
  assumes "wf_space s fs pgdir" "vmaps_disjoint ks"
    and "\<And>k va. k \<in> set ks \<Longrightarrow> in_vmap k va \<Longrightarrow> KERN_BASE \<le> va \<and> pte_at (ram s) pgdir va = None \<and> page_directory_idx va \<in> K"
    and "tabs (ram s) pgdir \<subseteq> K" "kvm_map pgdir ks s = Inr (ok, t)"
  shows "(card K \<le> balance s fs pgdir \<longrightarrow> ok) \<and>
    (ok \<longrightarrow> (\<exists>fs'. wf_pgdir t fs' pgdir \<and> balance t fs' pgdir = balance s fs pgdir \<and> tabs (ram t) pgdir \<subseteq> K))"
  using assms
proof (induction ks arbitrary: s fs)
  case Nil
  then show ?case using wf_spaceD(1) [OF Nil.prems(1)] by auto
next
  case (Cons k ks)
  obtain ok1 u gs where u: "map_pages pgdir k s = Inr (ok1, u)" "wf_space u gs pgdir"
    and at: "ok1 \<Longrightarrow> pte_at (ram u) pgdir va =
        (if in_vmap k va then Some (vmap_pte k va) else pte_at (ram s) pgdir va)" for va
    using map_kernel_pages [OF Cons.prems(1), of k] Cons.prems(3) [of k] by (metis list.set_intros(1))
  have kk: "page_directory_idx va \<in> K" if "in_vmap k va" for va using Cons.prems(3) [of k va] that by simp
  obtain gs' where g: "wf_pgdir u gs' pgdir" "balance u gs' pgdir = balance s fs pgdir" "tabs (ram u) pgdir \<subseteq> K"
    "card K \<le> balance s fs pgdir \<longrightarrow> ok1"
    using map_pages_enough [OF wf_spaceD(1) [OF Cons.prems(1)] u(1) Cons.prems(4) kk] by blast
  have "gs' = gs" using free_pages_unique wf_pgdirD(1) [OF g(1)] wf_pgdirD(1) [OF wf_spaceD(1) [OF u(2)]] by blast
  then have bal: "balance u gs pgdir = balance s fs pgdir" using g(2) by simp
  show ?case
  proof (cases ok1)
    case False
    then have "\<not> ok" using Cons.prems(5) u(1) by (auto simp: res_iff)
    then show ?thesis using g(4) False by auto
  next
    case True
    have j: "KERN_BASE \<le> va \<and> pte_at (ram u) pgdir va = None \<and> page_directory_idx va \<in> K" if "j \<in> set ks" "in_vmap j va" for j va
    proof -
      have "\<not> in_vmap k va" using Cons.prems(2) that by auto
      then show ?thesis using Cons.prems(3) [of j va] at [OF True, of va] that by simp
    qed
    have d: "vmaps_disjoint ks" using Cons.prems(2) by simp
    have m: "kvm_map pgdir ks u = Inr (ok, t)" using Cons.prems(5) u(1) True by simp
    show ?thesis using Cons.IH [OF u(2) d j g(3) m] unfolding bal .
  qed
qed

text \<open>The entries of the directory that the kernel uses: 128 for its memory and 8 for the devices.\<close>

definition kernel_entries :: "u32 set" where
  "kernel_entries = of_nat ` ({512..<640} \<union> {1016..<1024})"

lemma card_kernel_entries: "card kernel_entries = 136"
proof -
  have "inj_on (of_nat :: nat \<Rightarrow> u32) ({512..<640} \<union> {1016..<1024})"
  proof (rule inj_onI)
    fix x y :: nat
    assume a: "x \<in> {512..<640} \<union> {1016..<1024}" "y \<in> {512..<640} \<union> {1016..<1024}" and e: "(of_nat x :: u32) = of_nat y"
    have "x < 1024" "y < 1024" using a by auto
    then have "unat (of_nat x :: u32) = x" "unat (of_nat y :: u32) = y" by (simp_all add: unat_of_nat32)
    then show "x = y" using e by metis
  qed
  then have "card kernel_entries = card ({512..<640} \<union> {1016..<1024 :: nat})" by (simp only: kernel_entries_def card_image)
  also have "\<dots> = 136" by (subst card_Un_disjoint) auto
  finally show ?thesis .
qed

lemma in_kernel_entries: "i \<in> kernel_entries \<longleftrightarrow> 512 \<le> unat i \<and> unat i < 640 \<or> 1016 \<le> unat i \<and> unat i < 1024"
proof
  assume "512 \<le> unat i \<and> unat i < 640 \<or> 1016 \<le> unat i \<and> unat i < 1024"
  then show "i \<in> kernel_entries" unfolding kernel_entries_def by (intro image_eqI [of _ _ "unat i"]) auto
qed (auto simp: kernel_entries_def unat_of_nat32)

lemma kernel_pte_entries: "kernel_pte data va \<noteq> None \<Longrightarrow> page_directory_idx va \<in> kernel_entries"
proof -
  assume "kernel_pte data va \<noteq> None"
  then consider (ram) "0x80000000 \<le> unat va" "unat va < 0xA0000000" | (dev) "0xFE000000 \<le> unat va"
    by (auto simp: kernel_pte_def P2KA_def word32_cmp split: if_splits)
  then show ?thesis
  proof cases
    case ram
    then have "0x80000000 div 4194304 \<le> unat va div 4194304" by (intro div_le_mono) simp
    moreover have "unat va div 4194304 < 640" using ram by (simp add: div_less_iff_less_mult)
    ultimately show ?thesis by (simp add: in_kernel_entries unat_page_directory_idx)
  next
    case dev
    then have "0xFE000000 div 4194304 \<le> unat va div 4194304" by (intro div_le_mono) simp
    moreover have "unat va div 4194304 < 1024" using unat_lt32 [of va] by (simp add: div_less_iff_less_mult)
    ultimately show ?thesis by (simp add: in_kernel_entries unat_page_directory_idx)
  qed
qed

lemma kernel_entries_pte:
  assumes "i \<in> kernel_entries"
  shows "\<exists>va. page_directory_idx va = i \<and> kernel_pte data va \<noteq> None"
proof -
  have i: "unat i < 1024" "512 \<le> unat i \<and> unat i < 640 \<or> 1016 \<le> unat i" using assms by (auto simp: in_kernel_entries)
  let ?va = "of_nat (unat i * 4194304) :: u32"
  have "unat i * 4194304 < 4294967296" using i(1) by linarith
  then have u: "unat ?va = unat i * 4194304" by (simp only: unat_of_nat32 mod_less)
  then have "page_directory_idx ?va = i" unfolding word32_eq_iff unat_page_directory_idx by simp
  moreover have "0x80000000 \<le> unat ?va \<and> unat ?va < 0xA0000000 \<or> 0xFE000000 \<le> unat ?va" using i(2) unfolding u by linarith
  then have "kernel_pte data ?va \<noteq> None" unfolding kernel_pte_def P2KA_def word32_cmp by auto
  ultimately show ?thesis by blast
qed

section \<open>Filling the free list\<close>

lemma pfree_range_keeps:
  "pfree_range p vend s = Inr t \<Longrightarrow> sym_end t = sym_end s \<and> sym_data t = sym_data s \<and> (\<forall>a. unat a < unat p \<longrightarrow> ram t a = ram s a)"
proof (induction p vend s rule: pfree_range.induct)
  case (1 p vend s)
  show ?case
  proof (cases "p + PAGE_SZ \<le> vend")
    case False
    then show ?thesis using "1.prems" by (simp add: pfree_range_done)
  next
    case True
    then obtain u where u: "pfree p s = Inr u" "pfree_range (p + PAGE_SZ) vend u = Inr t"
      using "1.prems" by (auto simp: pfree_range_step res_iff)
    have p: "unat p < 0xA0000000" using pfree_below_PHYSTOP [OF u(1)] .
    then have n: "unat (p + PAGE_SZ) = unat p + 4096" by (simp add: unat_add32)
    have us: "u = s\<lparr>ram := store32 (ram s) p (freelist s), freelist := p\<rparr>" using u(1) by (auto simp: pfree_def split: if_splits)
    have "ram u a = ram s a" if "unat a < unat p" for a
    proof -
      have "a \<noteq> p + of_nat k" if "k < 4" for k
      proof -
        have "unat (p + of_nat k) = unat p + k" using p that by (simp add: unat_add32 unat_of_nat32)
        then show ?thesis using \<open>unat a < unat p\<close> by auto
      qed
      from this [of 0] this [of 1] this [of 2] this [of 3] show ?thesis by (simp add: us store32_other_byte)
    qed
    then show ?thesis using "1.IH" [OF True u(1) u(2)] n us by auto
  qed
qed

lemma palloc_init_ok:
  assumes "free_pages s ps" "page0_harmless s" "sym_end s \<le> vstart" "page_aligned vstart" "vstart \<le> vend" "unat vend \<le> 0xA0000000"
    and "\<And>p. p \<in> set ps \<Longrightarrow> unat p < unat vstart \<or> unat vend \<le> unat p"
  shows "\<exists>t. palloc_init vstart vend s = Inr t \<and> free_pages t (range_pages vstart (unat (vend - vstart) div 4096) @ ps) \<and>
    page0_harmless t \<and> sym_end t = sym_end s \<and> sym_data t = sym_data s \<and> (\<forall>a. unat a < unat vstart \<longrightarrow> ram t a = ram s a)"
proof -
  let ?n = "unat (vend - vstart) div 4096"
  have le: "unat (sym_end s) \<le> unat vstart" "unat vstart \<le> unat vend" "0x80100000 \<le> unat (sym_end s)"
    using assms(2,3,5) by (simp_all add: page0_harmless_def word32_cmp)
  have "unat (vend - vstart) = unat vend - unat vstart" using assms(5) by (simp add: unat_sub)
  then have n: "unat vend = unat vstart + ?n * 4096 + unat (vend - vstart) mod 4096" using le(2) by simp
  have q: "unat vstart \<le> unat q \<and> unat q < unat vend \<and> unat q mod 4096 = 0" if "q \<in> set (range_pages vstart ?n)" for q
    using range_pages_set [OF _ that] n assms(4,6) by (auto simp: page_aligned_def)
  have ok: "page_ok s q" if "q \<in> set (range_pages vstart ?n)" for q
  proof -
    have "q mod PAGE_SZ = 0" using q [OF that] by (simp add: word32_eq_iff unat_mod)
    moreover have "unat q < 0xA0000000" "0x80100000 \<le> unat q" "unat (sym_end s) \<le> unat q" using q [OF that] le assms(6) by linarith+
    then have "KA2P q < PHYSTOP" "sym_end s \<le> q" by (simp_all add: KA2P_def word32_cmp word_nat)
    ultimately show ?thesis by (simp add: page_ok_def)
  qed
  have dj: "set ps \<inter> set (range_pages vstart ?n) = {}" using q assms(7) by fastforce
  obtain t where t: "pfree_range vstart vend s = Inr t" "free_pages t (range_pages vstart ?n @ ps)"
    using pfree_range_frees [OF n _ assms(1) dj _ assms(6)] ok by auto
  note k = pfree_range_keeps [OF t(1)]
  have "page0_harmless t"
  proof (rule page0_harmless_frame [OF assms(2)])
    fix a :: u32
    assume "unat a div 4096 = unat (P2KA 0) div 4096"
    then have "unat a < unat (P2KA 0) + 4096" using page_iff [OF page_aligned_page0, of "unat a"] by simp
    then have "unat a < unat vstart" using le by (simp add: P2KA_def)
    then show "ram t a = ram s a" using k by blast
  qed (use k in simp)
  then show ?thesis using t k by (auto simp: palloc_init_def)
qed

lemma length_range_pages [simp]: "length (range_pages p n) = n"
  by (induction p n rule: range_pages.induct) simp_all

section \<open>The address space of the kernel\<close>

text \<open>Only pages of the free list are written, and the directory is made of them.\<close>

lemma kvm_allocate_pages:
  assumes "free_pages s (pgdir # fs)" "page0_harmless s"
    and "page_aligned (sym_data x)" "KERN_LINK \<le> sym_data x" "sym_data x \<le> P2KA PHYSTOP"
  obtains ok t fs' where "kvm_allocate (init_kmap x) s = Inr (ok, pgdir, t)" "free_pages t fs'" "ok \<longleftrightarrow> 136 \<le> length fs"
    "ok \<Longrightarrow> wf_space t fs' pgdir" "\<And>va. ok \<Longrightarrow> pte_at (ram t) pgdir va = kernel_pte (sym_data x) va"
    "ok \<Longrightarrow> length fs' + 136 = length fs" "ok \<Longrightarrow> suffix fs' fs" "ok \<Longrightarrow> sym_end t = sym_end s"
    "\<And>p. ok \<Longrightarrow> own_page (ram t) fs' pgdir p \<Longrightarrow> p \<in> set (pgdir # fs)"
    "\<And>a. ok \<Longrightarrow> (\<And>p. p \<in> set (pgdir # fs) \<Longrightarrow> unat p div 4096 \<noteq> unat a div 4096) \<Longrightarrow> ram t a = ram s a"
proof -
  note new = new_pgdir_wf [OF assms(1,2)]
  let ?s = "take_page s pgdir"
  obtain ok t fs' where t: "kvm_map pgdir (init_kmap x) ?s = Inr (ok, t)" "free_pages t fs'"
    and ok: "ok \<longrightarrow> suffix fs' fs \<and> wf_space t fs' pgdir \<and> confined ?s fs pgdir t fs' \<and> sym_end t = sym_end ?s \<and>
      (\<forall>va. pte_at (ram t) pgdir va =
        (case List.find (\<lambda>k. in_vmap k va) (init_kmap x) of Some k \<Rightarrow> Some (vmap_pte k va)
         | None \<Rightarrow> pte_at (ram ?s) pgdir va))"
    using kvm_map_spec [OF new(3) init_kmap_disjoint(1) [OF assms(3-5)]]
      init_kmap_disjoint(2) [OF assms(3-5)] new(4) by blast
  have at: "pte_at (ram t) pgdir va = kernel_pte (sym_data x) va" if ok for va
    using ok that init_kmap_find [OF assms(3-5)] unfolding new(4) by simp
  have call: "kvm_allocate (init_kmap x) s = Inr (ok, pgdir, t)"
    using new(1,2) t(1) by (simp add: kvm_allocate_def P2KA_def take_page_def)
  have ap: "page_aligned pgdir" using assms(1) page_ok_aligned by (auto simp: free_pages_def)
  have "pde_of (ram ?s) pgdir i = 0" if "unat i < 1024" for i
    using load_memset_entry [OF ap ap that, of "ram s"] by (simp add: pde_of_def take_page_def)
  then have none: "\<not> has_table (ram ?s) pgdir i" if "unat i < 1024" for i using that by (simp add: has_table_def)
  then have t0: "tabs (ram ?s) pgdir = {}" by (auto simp: tabs_def)
  have own: "own_page (ram ?s) fs pgdir p \<longleftrightarrow> p \<in> set (pgdir # fs)" for p using none by (auto simp: own_page_def)
  have bal: "balance ?s fs pgdir = length fs" by (simp add: balance_def t0)
  have K: "KERN_BASE \<le> va \<and> pte_at (ram ?s) pgdir va = None \<and> page_directory_idx va \<in> kernel_entries"
    if "k \<in> set (init_kmap x)" "in_vmap k va" for k va
  proof -
    have "List.find (\<lambda>k. in_vmap k va) (init_kmap x) \<noteq> None" using that by (auto simp: find_None_iff)
    then obtain j where "List.find (\<lambda>k. in_vmap k va) (init_kmap x) = Some j" by blast
    then have "kernel_pte (sym_data x) va = Some (vmap_pte j va)" using init_kmap_find [OF assms(3-5), of va] by simp
    then have "kernel_pte (sym_data x) va \<noteq> None" by simp
    then show ?thesis using init_kmap_disjoint(2) [OF assms(3-5) that] new(4) kernel_pte_entries by blast
  qed
  have tk: "tabs (ram ?s) pgdir \<subseteq> kernel_entries" using t0 by simp
  have "(card kernel_entries \<le> balance ?s fs pgdir \<longrightarrow> ok) \<and>
    (ok \<longrightarrow> (\<exists>gs. wf_pgdir t gs pgdir \<and> balance t gs pgdir = balance ?s fs pgdir \<and> tabs (ram t) pgdir \<subseteq> kernel_entries))"
    by (rule kvm_map_enough [OF new(3) init_kmap_disjoint(1) [OF assms(3-5)] _ tk t(1)]) (rule K)
  note en = this [unfolded bal card_kernel_entries]
  have used: "length fs' + 136 = length fs" if "ok"
  proof -
    obtain gs where g: "wf_pgdir t gs pgdir" "balance t gs pgdir = length fs" "tabs (ram t) pgdir \<subseteq> kernel_entries" using en \<open>ok\<close> by blast
    have "i \<in> tabs (ram t) pgdir" if i: "i \<in> kernel_entries" for i
    proof -
      obtain va where va: "page_directory_idx va = i" "pte_at (ram t) pgdir va \<noteq> None"
        using kernel_entries_pte [OF i, of "sym_data x"] at [OF \<open>ok\<close>] by auto
      then show ?thesis using idx_bounds(1) [of va] by (auto simp: pte_at_def tabs_def split: if_splits)
    qed
    then have "card (tabs (ram t) pgdir) = 136" using g(3) card_kernel_entries by (metis subsetI subset_antisym)
    then show ?thesis using g(2) free_pages_unique [OF t(2) wf_pgdirD(1) [OF g(1)]] by (simp add: balance_def)
  qed
  have iff: "ok \<longleftrightarrow> 136 \<le> length fs" using en used by auto
  have se: "sym_end t = sym_end s" if "ok" using ok that by (simp add: take_page_def)
  have op: "p \<in> set (pgdir # fs)" if "ok" "own_page (ram t) fs' pgdir p" for p
    using ok that own by (auto simp: confined_def)
  have fr: "ram t a = ram s a" if "ok" "\<And>p. p \<in> set (pgdir # fs) \<Longrightarrow> unat p div 4096 \<noteq> unat a div 4096" for a
  proof -
    have "ram t a = ram ?s a" using ok that own unfolding confined_def by blast
    also have "\<dots> = ram s a" using that(2) [of pgdir] by (simp add: take_page_def memset_page_apply [OF ap])
    finally show ?thesis .
  qed
  show ?thesis using that [OF call t(2) iff _ at used _ se op fr] ok by blast
qed

section \<open>Properties\<close>

text \<open>C7: The address space of the kernel.  With a harmless page 0, \<open>kvm_allocate\<close> returns without a panic, and it
  succeeds exactly if there are 136 pages besides the one of the directory: then the directory is
  well formed, maps exactly the memory and the devices of the kernel, each address to itself below
  \<open>KERN_BASE\<close>, the text read only and the rest writable, nothing for the user, and exactly
  137 pages have left the free list.\<close>

theorem kvm_allocate_kernel_map:
  assumes "free_pages s (pgdir # fs)" "page0_harmless s"
    and "page_aligned (sym_data s)" "KERN_LINK \<le> sym_data s" "sym_data s \<le> P2KA PHYSTOP"
  shows "\<exists>ok t fs'. kvm_allocate (init_kmap s) s = Inr (ok, pgdir, t) \<and> free_pages t fs' \<and> (ok \<longleftrightarrow> 136 \<le> length fs) \<and>
    (ok \<longrightarrow> wf_space t fs' pgdir \<and> (\<forall>va. pte_at (ram t) pgdir va = kernel_pte (sym_data s) va) \<and> length fs' + 136 = length fs)"
  by (rule kvm_allocate_pages [OF assms]) blast

text \<open>The first megabyte behind the end of a kernel that stops at 0x80110000.\<close>

theorem kvm_allocate_kernel_map_witness:
  "\<exists>s t fs pgdir. palloc_init 0x80110000 0x80210000 machine0 = Inr s \<and> kvm_allocate (init_kmap s) s = Inr (True, pgdir, t) \<and>
    free_pages t fs \<and> length fs = 119 \<and> pte_at (ram t) pgdir 0x80000000 = Some 3 \<and> pte_at (ram t) pgdir 0x1000 = None"
proof -
  have z: "load32 (ram machine0) a = 0" for a by (simp add: machine0_def load32_def)
  have h: "free_pages machine0 []" "page0_harmless machine0" by (simp add: free_pages_def machine0_def)
      (use z in \<open>simp add: page0_harmless_def\<close>, simp add: machine0_def)
  have "unat (0x80210000 - 0x80110000 :: u32) div 4096 = 256" by simp
  then obtain s where s: "palloc_init 0x80110000 0x80210000 machine0 = Inr s" "free_pages s (range_pages 0x80110000 256)" "page0_harmless s"
    "sym_data s = 0x80108000"
    using palloc_init_ok [OF h, of "0x80110000" "0x80210000"] by (auto simp: page_aligned_def machine0_def)
  obtain pgdir fs where fs: "range_pages 0x80110000 256 = pgdir # fs" "length fs = 255"
    using length_range_pages [of "0x80110000" 256] by (cases "range_pages 0x80110000 256") auto
  have al: "page_aligned (sym_data s)" "KERN_LINK \<le> sym_data s" "sym_data s \<le> P2KA PHYSTOP"
    by (simp_all add: s(4) page_aligned_def P2KA_def)
  obtain t fs' where t: "kvm_allocate (init_kmap s) s = Inr (True, pgdir, t)" "free_pages t fs'" "length fs' = 119"
    "\<forall>va. pte_at (ram t) pgdir va = kernel_pte (sym_data s) va"
    using kvm_allocate_kernel_map [OF s(2) [unfolded fs(1)] s(3) al] fs(2) by auto
  have "kernel_pte (sym_data s) 0x80000000 = Some 3" "kernel_pte (sym_data s) 0x1000 = None"
    unfolding s(4) by (simp_all add: kernel_pte_def KA2P_def P2KA_def page_aligndown_def)
  then show ?thesis using s(1) t by metis
qed

end
