(* ===== verification/Init_Process.thy ===== *)
theory Init_Process
  imports Kvm_Pages Process_Inv
begin

text \<open>
  The first process (\<open>init_pid1\<close> of kernel/process.c, \<open>uvm_init1\<close> of kernel/memory/vmem.c): what memory
  each step writes, and that the code of the program is in place when the process is ready.
\<close>

section \<open>Writing outside of an address space\<close>

lemma wf_space_frame:
  assumes "wf_space s fs pd"
    and same: "\<And>p a. own_page (ram s) fs pd p \<Longrightarrow> unat a div 4096 = unat p div 4096 \<Longrightarrow> m a = ram s a"
    and p0: "\<And>a. unat a div 4096 = unat (P2KA 0) div 4096 \<Longrightarrow> m a = ram s a"
  shows "wf_space (s\<lparr>ram := m\<rparr>) fs pd" "pte_at m pd = pte_at (ram s) pd" "own_page m fs pd = own_page (ram s) fs pd"
proof -
  note wf = wf_spaceD(1) [OF assms(1)]
  have load: "load32 m (p + 4 * i) = load32 (ram s) (p + 4 * i)" if "own_page (ram s) fs pd p" "unat i < 1024" for p i
    using entry_byte_page [OF page_ok_aligned, OF conjunct1, OF page0_not_own [OF wf_spaceD(1,2) [OF assms(1)] that(1)] that(2)]
      same [OF that(1)] by (intro load32_cong) blast
  have pde: "pde_of m pd i = pde_of (ram s) pd i" if "unat i < 1024" for i
    using load [OF _ that, of pd] by (simp add: pde_of_def own_page_def)
  then have tabs: "has_table m pd i = has_table (ram s) pd i" "table_of m pd i = table_of (ram s) pd i" if "unat i < 1024" for i
    using that by (simp_all add: has_table_def table_of_def)
  have tl: "load32 m (table_of (ram s) pd i + 4 * k) = load32 (ram s) (table_of (ram s) pd i + 4 * k)"
    if "unat i < 1024" "unat k < 1024" "has_table (ram s) pd i" for i k
    using load [OF _ that(2), of "table_of (ram s) pd i"] that(1,3) by (auto simp: own_page_def)
  show at: "pte_at m pd = pte_at (ram s) pd"
    by (rule ext) (simp add: pte_at_def tabs tl idx_bounds)
  show own: "own_page m fs pd = own_page (ram s) fs pd" by (auto simp: fun_eq_iff own_page_def tabs)
  have "load32 m p = load32 (ram s) p" if "p \<in> set fs" for p using load [of p 0] that by (simp add: own_page_def)
  then have "free_pages (s\<lparr>ram := m\<rparr>) fs" using free_pages_cong wf_pgdirD(1) [OF wf] by blast
  then have "wf_pgdir (s\<lparr>ram := m\<rparr>) fs pd" using wf tabs pde by (simp add: wf_pgdir_def cong: conj_cong)
  moreover have "page0_harmless (s\<lparr>ram := m\<rparr>)" using page0_harmless_frame [OF wf_spaceD(2) [OF assms(1)], of "s\<lparr>ram := m\<rparr>"] p0 by simp
  moreover have "user_frame (s\<lparr>ram := m\<rparr>) pd = user_frame s pd" using at by (intro user_frame_ext) simp_all
  ultimately show "wf_space (s\<lparr>ram := m\<rparr>) fs pd" using assms(1) own unfolding wf_space_iff by simp
qed

text \<open>Memory of the kernel, below the pages it hands out.\<close>

lemma low_not_page: "page_ok s p \<Longrightarrow> a < sym_end s \<Longrightarrow> unat p div 4096 \<noteq> unat a div 4096"
proof
  assume p: "page_ok s p" and a: "a < sym_end s" and e: "unat p div 4096 = unat a div 4096"
  have "unat p \<le> unat a" using page_iff [OF page_ok_aligned [OF p], of "unat a"] e by simp
  moreover have "unat a < unat p" using p a by (simp add: page_ok_def word32_cmp)
  ultimately show False by simp
qed

lemma own_pages_ok: "wf_pgdir s fs pd \<Longrightarrow> own_page (ram s) fs pd p \<Longrightarrow> page_ok s p"
  using wf_pgdirD [of s fs pd] wf_pgdir_table(1) [of s fs pd] by (auto simp: own_page_def free_pages_def)

lemma confined_low: "wf_pgdir s fs pd \<Longrightarrow> confined s fs pd t fs' \<Longrightarrow> a < sym_end s \<Longrightarrow> ram t a = ram s a"
  using own_pages_ok [of s fs pd] low_not_page [of s _ a] unfolding confined_def by blast

lemma page0_not_page:
  assumes "page0_harmless s" "page_ok s p" "unat a div 4096 = unat (P2KA 0) div 4096"
  shows "unat p div 4096 \<noteq> unat a div 4096"
  using page0_not_ok [OF assms(1,2)] page_aligned_inj [OF page_ok_aligned [OF assms(2)] page_aligned_page0] assms(3) by metis

lemma wf_space_page:
  assumes "wf_space s fs pd" "page_ok s q" "\<not> own_page (ram s) fs pd q"
    and "\<And>a. unat q div 4096 \<noteq> unat a div 4096 \<Longrightarrow> m a = ram s a"
  shows "wf_space (s\<lparr>ram := m\<rparr>) fs pd" "pte_at m pd = pte_at (ram s) pd" "own_page m fs pd = own_page (ram s) fs pd"
proof -
  have own: "m a = ram s a" if "own_page (ram s) fs pd p" "unat a div 4096 = unat p div 4096" for p a
    using that assms(3,4) page_aligned_inj [OF page_ok_aligned [OF assms(2)]
      page_ok_aligned [OF own_pages_ok [OF wf_spaceD(1) [OF assms(1)] that(1)]]] by metis
  have p0: "m a = ram s a" if "unat a div 4096 = unat (P2KA 0) div 4096" for a
    using page0_not_page [OF wf_spaceD(2) [OF assms(1)] assms(2) that] assms(4) by blast
  show "wf_space (s\<lparr>ram := m\<rparr>) fs pd" "pte_at m pd = pte_at (ram s) pd" "own_page m fs pd = own_page (ram s) fs pd"
    by (rule wf_space_frame [OF assms(1)]; fact own p0)+
qed

lemma page_offset:
  assumes "page_aligned p" "unat d < 4096"
  shows "unat (p + d) = unat p + unat d" "unat (p + d) div 4096 = unat p div 4096"
proof -
  show u: "unat (p + d) = unat p + unat d" using page_aligned_max [OF assms(1)] assms(2) by (simp add: unat_add32)
  show "unat (p + d) div 4096 = unat p div 4096" unfolding u using page_off [OF assms] .
qed

lemma store32_in_page:
  assumes "page_aligned p" "unat d + 4 \<le> 4096" "unat p div 4096 \<noteq> unat a div 4096"
  shows "store32 m (p + d) v a = m a"
proof -
  have "a \<noteq> p + d + of_nat k" if "k < 4" for k
  proof -
    have "unat (d + of_nat k) < 4096" using assms(2) that by (simp add: unat_add32 unat_of_nat32)
    from page_offset(2) [OF assms(1) this] show ?thesis using assms(3) by (auto simp: add.assoc)
  qed
  from this [of 0] this [of 1] this [of 2] this [of 3] show ?thesis by (simp add: store32_other_byte)
qed

lemma memset_in_page:
  assumes "page_aligned p" "unat d + unat n \<le> 4096" "unat d < 4096" "unat p div 4096 \<noteq> unat a div 4096"
  shows "memset m (p + d) c n a = m a"
proof -
  note u = page_offset(1) [OF assms(1,3)]
  have "\<not> (unat (p + d) \<le> unat a \<and> unat a < unat (p + d) + unat n)"
    using page_iff [OF assms(1), of "unat a"] assms(2,4) unfolding u by auto
  then have "\<not> unat (a - (p + d)) < unat n"
    using in_block_iff [of "p + d" "unat n" a] page_aligned_max [OF assms(1)] assms(2) u by simp
  then show ?thesis by (simp add: memset_apply)
qed

section \<open>The program in its page\<close>

lemma memmove_page:
  assumes "page_aligned mem" "unat sz \<le> 4096" "unat init + unat sz < 4294967296"
  shows "unat mem div 4096 \<noteq> unat a div 4096 \<Longrightarrow> memmove m mem init sz a = m a"
    "k < 4096 \<Longrightarrow> memmove m mem init sz (mem + of_nat k) = (if k < unat sz then m (init + of_nat k) else m (mem + of_nat k))"
proof -
  have mx: "unat mem + unat sz \<le> 4294967296" using page_aligned_max [OF assms(1)] assms(2) by simp
  note mv = memmove_apply [OF mx assms(3)]
  show "memmove m mem init sz a = m a" if "unat mem div 4096 \<noteq> unat a div 4096"
    using page_iff [OF assms(1), of "unat a"] that assms(2) in_block_iff [OF mx, of a] unfolding mv by auto
  show "memmove m mem init sz (mem + of_nat k) = (if k < unat sz then m (init + of_nat k) else m (mem + of_nat k))" if "k < 4096"
    using that unfolding mv by (simp add: unat_of_nat32)
qed

text \<open>One page in, one page table out: \<open>map_pages\<close> of a single page succeeds when a page is left.\<close>

lemma map_one_page_succeeds:
  assumes "wf_pgdir s (f # fs) pd" "page_aligned p" "map_pages pd (one_page p mem pm) s = Inr (ok, t)"
  shows ok
proof -
  note one = one_page_range [OF assms(2)]
  let ?K = "insert (page_directory_idx p) (tabs (ram s) pd)"
  have K: "page_directory_idx va \<in> ?K" if "in_vmap (one_page p mem pm) va" for va
  proof -
    have "in_vrange p (p + PAGE_SZ) va" using that one(1) one(2) [of mem] by (simp add: in_vmap_def)
    then show ?thesis using same_page_iff [of va p] one(3) by simp
  qed
  have "card ?K \<le> balance s (f # fs) pd"
    using card_insert_le_m1 [of "balance s (f # fs) pd" "tabs (ram s) pd"] by (simp add: balance_def)
  then show ?thesis using map_pages_enough [OF assms(1,3) _ K] by blast
qed

lemma uvm_init1_ok:
  assumes s: "wf_space s (mem # f # fs) pd" and none: "pte_at (ram s) pd 0 = None"
    and sz: "sz \<le> PAGE_SZ" and low: "unat init + unat sz \<le> unat (sym_end s)"
  obtains t fs' where "uvm_init1 pd init sz s = Inr t" "wf_space t fs' pd" "suffix fs' (f # fs)" "sym_end t = sym_end s"
    "confined s (mem # f # fs) pd t fs'"
    "\<And>va. pte_at (ram t) pd va = (if unat va < 4096 then Some (KA2P mem OR PTE_P OR (PTE_W OR PTE_U)) else pte_at (ram s) pd va)"
    "\<And>k. k < 4096 \<Longrightarrow> ram t (mem + of_nat k) = (if k < unat sz then ram s (init + of_nat k) else 0)"
    "\<not> own_page (ram t) fs' pd mem"
proof -
  note tk = take_page_wf [OF s]
  let ?u = "take_page s mem"
  have al: "page_aligned mem" using tk(4) page_ok_aligned by blast
  have pal: "palloc s = (mem, s\<lparr>freelist := load32 (ram s) mem\<rparr>)" "mem \<noteq> 0"
    using palloc_free_pages_Cons [OF wf_pgdirD(1) [OF wf_spaceD(1) [OF s]]] page_ok_nonzero [OF tk(4)] by simp_all
  have seu: "sym_end ?u = sym_end s" by (simp add: take_page_def)
  have ok: "page_ok ?u mem" using tk(4) seu by (simp add: page_ok_def)
  have nu: "mem \<notin> user_frames ?u pd" using tk(3) user_frame_ext [OF tk(5) seu] by (simp add: user_frames_def)
  have pm: "pte_addr (PTE_W OR PTE_U) = 0" "page_aligned 0" by (simp_all add: pte_addr_def page_aligned_def)
  have none': "pte_at (ram ?u) pd 0 = None" using none tk(5) by simp
  obtain b t fs' where t: "map_pages pd (one_page 0 mem (PTE_W OR PTE_U)) ?u = Inr (b, t)"
    "suffix fs' (f # fs)" "wf_space t fs' pd" "confined ?u (f # fs) pd t fs'" "sym_end t = sym_end ?u"
    and at: "if b then \<forall>va. pte_at (ram t) pd va =
         (if unat va div 4096 = unat (0 :: u32) div 4096 then Some (KA2P mem OR PTE_P OR (PTE_W OR PTE_U)) else pte_at (ram ?u) pd va)
       else t = ?u \<and> fs' = f # fs"
    using map_one_page_wf [OF tk(1) pm(2) _ none' ok tk(2) nu pm(1)] by auto
  have b: b using map_one_page_succeeds [OF wf_spaceD(1) [OF tk(1)] pm(2) t(1)] .
  let ?t = "t\<lparr>ram := memmove (ram t) mem init sz\<rparr>"
  have sz': "unat sz \<le> 4096" using sz by (simp add: word32_cmp)
  have lt: "unat init + unat sz < 4294967296" using low unat_lt32 [of "sym_end s"] by linarith
  note mv = memmove_page [OF al sz' lt]
  have call: "uvm_init1 pd init sz s = Inr ?t"
    using pal t(1) sz by (simp add: uvm_init1_def Let_def take_page_def)
  have own: "\<not> own_page (ram t) fs' pd mem" using t(4) tk(2) by (auto simp: confined_def)
  have okt: "page_ok t mem" using ok t(5) by (simp add: page_ok_def)
  have fr: "wf_space ?t fs' pd" "pte_at (ram ?t) pd = pte_at (ram t) pd" "own_page (ram ?t) fs' pd = own_page (ram t) fs' pd"
    using wf_space_page [OF t(3) okt own, of "ram ?t"] mv(1) by simp_all
  have conf: "confined s (mem # f # fs) pd ?t fs'"
  proof -
    have c: "confined s (mem # f # fs) pd t fs'" using confined_trans [OF tk(7) t(4)] .
    have "own_page (ram s) (mem # f # fs) pd mem" by (simp add: own_page_def)
    then show ?thesis using c mv(1) unfolding confined_def fr(3) by simp
  qed
  have low_same: "ram t a = ram s a" if "a < sym_end s" for a
    using confined_low [OF wf_spaceD(1) [OF s] confined_trans [OF tk(7) t(4)] that] .
  have code: "ram ?t (mem + of_nat k) = (if k < unat sz then ram s (init + of_nat k) else 0)" if k: "k < 4096" for k
  proof (cases "k < unat sz")
    case True
    then have "init + of_nat k < sym_end s" using low lt by (simp add: word32_cmp unat_add32 unat_of_nat32)
    then show ?thesis using mv(2) [OF k, of "ram t"] low_same True by simp
  next
    case False
    have "unat (mem + of_nat k) div 4096 = unat mem div 4096" using page_offset(2) [OF al, of "of_nat k"] k by (simp add: unat_of_nat32)
    then have "ram t (mem + of_nat k) = 0"
      using confined_zero_page [OF tk(1) t(4) al tk(2,6)] by (simp add: zero_page_def)
    then show ?thesis using mv(2) [OF k, of "ram t"] False by simp
  qed
  have "pte_at (ram ?t) pd va = (if unat va < 4096 then Some (KA2P mem OR PTE_P OR (PTE_W OR PTE_U)) else pte_at (ram s) pd va)" for va
    using at b tk(5) fr(2) by (auto simp: div_eq_0_iff)
  then show ?thesis using that [OF call fr(1) t(2) _ conf _ code] t(5) seu own fr(3) by simp
qed

section \<open>The kernel stack\<close>

lemma setup_process_stack_ok:
  assumes "free_pages (mach s) (ks # fs)" "page0_harmless (mach s)" "i < length (ptable s)"
  obtains m where "setup_process_stack i s = (True, s\<lparr>mach := (mach s)\<lparr>freelist := load32 (ram (mach s)) ks, ram := m\<rparr>,
      ptable := (ptable s)[i := (ptable s ! i)\<lparr>kstack := ks, trapframe := ks + 4020, pcontext := ks + 3996, kont := KForkret\<rparr>]\<rparr>)"
    "free_pages ((mach s)\<lparr>freelist := load32 (ram (mach s)) ks, ram := m\<rparr>) fs"
    "page0_harmless ((mach s)\<lparr>freelist := load32 (ram (mach s)) ks, ram := m\<rparr>)"
    "\<And>a. unat ks div 4096 \<noteq> unat a div 4096 \<Longrightarrow> m a = ram (mach s) a"
proof -
  let ?s = "(mach s)\<lparr>freelist := load32 (ram (mach s)) ks\<rparr>"
  have pal: "palloc (mach s) = (ks, ?s)" "free_pages ?s fs" using palloc_free_pages_Cons [OF assms(1)] by simp_all
  have ok: "page_ok (mach s) ks" "ks \<notin> set fs" using assms(1) by (simp_all add: free_pages_def)
  note al = page_ok_aligned [OF ok(1)] and nz = page_ok_nonzero [OF ok(1)]
  define m where "m = store32 (memset (store32 (ram (mach s)) (ks + 4016) (sym_trapret s)) (ks + 3996) 0 20) (ks + 4012) (sym_forkret s)"
  have fr: "m a = ram (mach s) a" if "unat ks div 4096 \<noteq> unat a div 4096" for a
    using that by (simp add: m_def store32_in_page [OF al] memset_in_page [OF al])
  have call: "setup_process_stack i s = (True, s\<lparr>mach := (mach s)\<lparr>freelist := load32 (ram (mach s)) ks, ram := m\<rparr>,
      ptable := (ptable s)[i := (ptable s ! i)\<lparr>kstack := ks, trapframe := ks + 4020, pcontext := ks + 3996, kont := KForkret\<rparr>]\<rparr>)"
    using pal(1) nz assms(3) by (simp add: setup_process_stack_def Let_def upd_proc_def m_def add.commute [of ks])
  have ld: "load32 m p = load32 (ram (mach s)) p" if "p \<in> set fs" for p
  proof -
    have "page_aligned p" "p \<noteq> ks" using assms(1) that ok(2) page_ok_aligned by (auto simp: free_pages_def)
    then have "unat ks div 4096 \<noteq> unat p div 4096" using page_aligned_inj [OF al, of p] by blast
    then show ?thesis using entry_byte_page [OF \<open>page_aligned p\<close>, of 0] fr by (intro load32_cong) simp
  qed
  have "free_pages (?s\<lparr>ram := m\<rparr>) fs" using free_pages_cong [OF pal(2)] ld by simp
  moreover have "page0_harmless (?s\<lparr>ram := m\<rparr>)"
  proof (rule page0_harmless_frame [OF assms(2)])
    show "ram (?s\<lparr>ram := m\<rparr>) a = ram (mach s) a" if "unat a div 4096 = unat (P2KA 0) div 4096" for a
      using fr [OF page0_not_page [OF assms(2) ok(1) that]] by simp
  qed simp
  ultimately show ?thesis using that [OF call _ _ fr] by simp
qed

text \<open>The trap frame that makes the process start at address 0, in user mode, with its stack at the end of the page.\<close>

definition user_frame_at :: "mem \<Rightarrow> u32 \<Rightarrow> bool" where
  "user_frame_at m tf \<longleftrightarrow> load32 m (tf + 56) = 0 \<and> load32 m (tf + 60) = 0x1b \<and> load32 m (tf + 64) = 0x200 \<and>
     load32 m (tf + 68) = PAGE_SZ \<and> load32 m (tf + 72) = 0x23"

lemma set_pid1_trapframe_ok:
  assumes "page_aligned ks" "trapframe (ptable s ! i) = ks + 4020"
  obtains m where "set_pid1_trapframe i s = s\<lparr>mach := (mach s)\<lparr>ram := m\<rparr>\<rparr>" "user_frame_at m (ks + 4020)"
    "\<And>a. unat ks div 4096 \<noteq> unat a div 4096 \<Longrightarrow> m a = ram (mach s) a"
proof -
  define z where "z = memset (ram (mach s)) (ks + 4020) 0 76"
  define m where "m = store32 (store32 (store32 (store32 (store32 (store32 (store32 z (ks + 4080) 0x1b) (ks + 4064) 0x23) (ks + 4060) 0x23)
      (ks + 4092) 0x23) (ks + 4084) 0x200) (ks + 4088) PAGE_SZ) (ks + 4076) 0"
  have a4: "aligned4 (ks + of_nat (4 * k))" if "k < 1024" for k
  proof -
    obtain j where "unat ks = 4096 * j" using assms(1) by (rule page_aligned_ex)
    moreover have u: "unat (of_nat (4 * k) :: u32) = 4 * k" using that by (simp only: unat_of_nat32) simp
    moreover have "unat (of_nat (4 * k) :: u32) < 4096" using u that by linarith
    note page_offset(1) [OF assms(1) this]
    ultimately have "unat (ks + of_nat (4 * k)) = 4096 * j + 4 * k" by metis
    also have "\<dots> = 4 * (1024 * j + k)" by simp
    finally show ?thesis unfolding aligned4_def by (simp only: mod_mult_self1_is_0)
  qed
  note al = a4 [of 1015, simplified] a4 [of 1016, simplified] a4 [of 1019, simplified] a4 [of 1020, simplified] a4 [of 1021, simplified] a4 [of 1022, simplified] a4 [of 1023, simplified]
  have "user_frame_at m (ks + 4020)" unfolding user_frame_at_def m_def by (simp add: al [unfolded add.commute [of ks]] add.commute [of ks])
  moreover have "m a = ram (mach s) a" if "unat ks div 4096 \<noteq> unat a div 4096" for a
    using that by (simp add: m_def z_def store32_in_page [OF assms(1)] memset_in_page [OF assms(1)])
  moreover have "set_pid1_trapframe i s = s\<lparr>mach := (mach s)\<lparr>ram := m\<rparr>\<rparr>"
    by (simp add: set_pid1_trapframe_def Let_def assms(2) m_def z_def add.commute [of ks])
  ultimately show ?thesis using that by blast
qed

lemma strncpy_loop_frame: "n < unat (a - d) \<Longrightarrow> strncpy_loop m d s n a = m a"
proof (induction n arbitrary: m d s)
  case (Suc n)
  have ne: "a \<noteq> d" "a \<noteq> d + 1" using Suc.prems by auto
  have "a - d \<noteq> 0" using Suc.prems by auto
  then have "unat (a - (d + 1)) = unat (a - d) - 1" using unat_minus_one [of "a - d"] by (simp add: diff_diff_eq [symmetric])
  then have "n < unat (a - (d + 1))" using Suc.prems by simp
  then have "strncpy_loop (m(d := m s)) (d + 1) (s + 1) n a = m a" using Suc.IH ne(1) by (metis fun_upd_other)
  then show ?case using ne by (simp del: fun_upd_apply add: strncpy_pad_eq) simp
qed simp

lemma strncpy_frame: "unat n < unat (a - d) \<Longrightarrow> strncpy m d s n a = m a"
  by (simp add: strncpy_def strncpy_loop_frame)

section \<open>The steps of \<open>init_pid1\<close>\<close>

lemma upd_proc_syms [simp]:
  "sym_init1_begin (upd_proc i f s) = sym_init1_begin s" "sym_init1_end (upd_proc i f s) = sym_init1_end s"
  by (simp_all add: upd_proc_def)

lemma allocate_process_first:
  assumes "free_pages (mach s) (ks # fs)" "page0_harmless (mach s)" "length (ptable s) = NPROC" "state (ptable s ! 1) = PROC_UNUSED"
    and "nextpid s = 1" "ptable_lk s = new_lock" "wf_cpu (the_cpu s)"
  obtains m T where "allocate_process s = Inr (Some 1, s\<lparr>mach := (mach s)\<lparr>freelist := load32 (ram (mach s)) ks, ram := m\<rparr>,
      the_cpu := popped (pushed (the_cpu s)), ptable := T, nextpid := 2\<rparr>)"
    "T = (ptable s)[1 := (ptable s ! 1)\<lparr>state := PROC_CREATED, pid := 1, kstack := ks, trapframe := ks + 4020, pcontext := ks + 3996, kont := KForkret\<rparr>]"
    "free_pages ((mach s)\<lparr>freelist := load32 (ram (mach s)) ks, ram := m\<rparr>) fs"
    "page0_harmless ((mach s)\<lparr>freelist := load32 (ram (mach s)) ks, ram := m\<rparr>)"
    "\<And>a. unat ks div 4096 \<noteq> unat a div 4096 \<Longrightarrow> m a = ram (mach s) a"
proof -
  let ?T = "(ptable s)[1 := (ptable s ! 1)\<lparr>state := PROC_CREATED, pid := 1\<rparr>]"
  let ?s1 = "s\<lparr>ptable_lk := held_lock, the_cpu := pushed (the_cpu s)\<rparr>"
  let ?s2 = "s\<lparr>ptable_lk := held_lock, the_cpu := pushed (the_cpu s), ptable := ?T, nextpid := 2\<rparr>"
  let ?s3 = "s\<lparr>the_cpu := popped (pushed (the_cpu s)), ptable_lk := new_lock, ptable := ?T, nextpid := 2\<rparr>"
  have lk: "lock_ptable s = Inr ?s1" using lock_ptable_eq [OF assms(7,6)] .
  have un: "get_unused_process ?s1 = Some 1"
    using assms(4) by (simp add: get_unused_process_def upt_conv_Cons)
  have "0 < ncli (pushed (the_cpu s))" using assms(7) by (simp add: wf_cpu_def)
  then have ul: "unlock_ptable ?s2 = Inr ?s3" using unlock_ptable_eq [of ?s2] wf_cpu_pushed [OF assms(7)] by simp
  have pre: "free_pages (mach ?s3) (ks # fs)" "page0_harmless (mach ?s3)" "1 < length (ptable ?s3)" using assms(1-3) by simp_all
  obtain m where m: "setup_process_stack 1 ?s3 = (True, ?s3\<lparr>mach := (mach ?s3)\<lparr>freelist := load32 (ram (mach ?s3)) ks, ram := m\<rparr>,
      ptable := (ptable ?s3)[1 := (ptable ?s3 ! 1)\<lparr>kstack := ks, trapframe := ks + 4020, pcontext := ks + 3996, kont := KForkret\<rparr>]\<rparr>)"
    "free_pages ((mach ?s3)\<lparr>freelist := load32 (ram (mach ?s3)) ks, ram := m\<rparr>) fs"
    "page0_harmless ((mach ?s3)\<lparr>freelist := load32 (ram (mach ?s3)) ks, ram := m\<rparr>)"
    "\<And>a. unat ks div 4096 \<noteq> unat a div 4096 \<Longrightarrow> m a = ram (mach ?s3) a"
    using setup_process_stack_ok [OF pre] by blast
  have "allocate_process s = Inr (Some 1, ?s3\<lparr>mach := (mach s)\<lparr>freelist := load32 (ram (mach s)) ks, ram := m\<rparr>,
      ptable := (ptable s)[1 := (ptable s ! 1)\<lparr>state := PROC_CREATED, pid := 1, kstack := ks, trapframe := ks + 4020, pcontext := ks + 3996, kont := KForkret\<rparr>]\<rparr>)"
    using un m(1) ul assms(3,5) unfolding allocate_process_def lk by (simp add: upd_proc_def)
  then have "allocate_process s = Inr (Some 1, s\<lparr>mach := (mach s)\<lparr>freelist := load32 (ram (mach s)) ks, ram := m\<rparr>,
      the_cpu := popped (pushed (the_cpu s)),
      ptable := (ptable s)[1 := (ptable s ! 1)\<lparr>state := PROC_CREATED, pid := 1, kstack := ks, trapframe := ks + 4020, pcontext := ks + 3996, kont := KForkret\<rparr>],
      nextpid := 2\<rparr>)"
    using assms(6) by simp
  then show ?thesis using that m(2-4) by simp
qed

text \<open>The address space: the kernel, and the program in the first page.\<close>

definition init_space :: "machine \<Rightarrow> u32 list \<Rightarrow> u32 \<Rightarrow> u32 \<Rightarrow> u32 \<Rightarrow> (nat \<Rightarrow> u8) \<Rightarrow> bool" where
  "init_space m fs pd data mem code \<longleftrightarrow> wf_space m fs pd \<and>
     (\<forall>va. pte_at (ram m) pd va = (if unat va < 4096 then Some (KA2P mem OR PTE_P OR (PTE_W OR PTE_U)) else kernel_pte data va)) \<and>
     (\<forall>k < 4096. ram m (mem + of_nat k) = code k)"

lemma init_space_built:
  assumes "free_pages m (pd # fs)" "page0_harmless m" "138 \<le> length fs"
    and x: "page_aligned (sym_data x)" "KERN_LINK \<le> sym_data x" "sym_data x \<le> P2KA PHYSTOP"
    and code: "sz \<le> PAGE_SZ" "unat init + unat sz \<le> unat (sym_end m)"
  obtains u t fs' mem where "kvm_allocate (init_kmap x) m = Inr (True, pd, u)" "uvm_init1 pd init sz u = Inr t" "sym_end t = sym_end m"
    "init_space t fs' pd (sym_data x) mem (\<lambda>k. if k < unat sz then ram m (init + of_nat k) else 0)"
    "page_ok t mem" "mem \<in> set fs" "\<not> own_page (ram t) fs' pd mem" "suffix fs' fs"
    "\<And>p. own_page (ram t) fs' pd p \<Longrightarrow> p \<in> set (pd # fs)"
    "\<And>a. a < sym_end m \<Longrightarrow> ram t a = ram m a"
proof -
  obtain ok u gs where call: "kvm_allocate (init_kmap x) m = Inr (ok, pd, u)" and "ok \<longleftrightarrow> 136 \<le> length fs"
    and u: "ok \<Longrightarrow> wf_space u gs pd" "\<And>va. ok \<Longrightarrow> pte_at (ram u) pd va = kernel_pte (sym_data x) va"
      "ok \<Longrightarrow> length gs + 136 = length fs" "ok \<Longrightarrow> suffix gs fs" "ok \<Longrightarrow> sym_end u = sym_end m"
      "\<And>p. ok \<Longrightarrow> own_page (ram u) gs pd p \<Longrightarrow> p \<in> set (pd # fs)"
      "\<And>a. ok \<Longrightarrow> (\<And>p. p \<in> set (pd # fs) \<Longrightarrow> unat p div 4096 \<noteq> unat a div 4096) \<Longrightarrow> ram u a = ram m a"
    using kvm_allocate_pages [OF assms(1,2) x] by metis
  then have ok using assms(3) by simp
  note u = u [OF this]
  obtain mem f hs where gs: "gs = mem # f # hs" using u(3) assms(3) by (cases gs; cases "tl gs") auto
  have okp: "page_ok m p" if "p \<in> set (pd # fs)" for p using assms(1) that by (auto simp: free_pages_def)
  have lowu: "ram u a = ram m a" if "a < sym_end m" for a using u(7) [of a] low_not_page [OF okp that] by blast
  have none: "pte_at (ram u) pd 0 = None" by (simp add: u(2) kernel_pte_def)
  have c: "unat init + unat sz \<le> unat (sym_end u)" using code(2) u(5) by simp
  obtain t fs' where t: "uvm_init1 pd init sz u = Inr t" "wf_space t fs' pd" "suffix fs' (f # hs)" "sym_end t = sym_end u"
    "confined u (mem # f # hs) pd t fs'"
    "\<And>va. pte_at (ram t) pd va = (if unat va < 4096 then Some (KA2P mem OR PTE_P OR (PTE_W OR PTE_U)) else pte_at (ram u) pd va)"
    "\<And>k. k < 4096 \<Longrightarrow> ram t (mem + of_nat k) = (if k < unat sz then ram u (init + of_nat k) else 0)"
    "\<not> own_page (ram t) fs' pd mem"
    using uvm_init1_ok [OF u(1) [unfolded gs] none code(1) c] by metis
  have own: "p \<in> set (pd # fs)" if "own_page (ram t) fs' pd p" for p
    using t(5) u(6) that unfolding gs by (simp add: confined_def)
  have low: "ram t a = ram m a" if "a < sym_end m" for a
    using confined_low [OF wf_spaceD(1) [OF u(1) [unfolded gs]] t(5), of a] that lowu u(5) by simp
  have se: "sym_end t = sym_end m" using t(4) u(5) by simp
  have cd: "ram t (mem + of_nat k) = (if k < unat sz then ram m (init + of_nat k) else 0)" if "k < 4096" for k
  proof (cases "k < unat sz")
    case True
    then have "init + of_nat k < sym_end m"
      using code(2) unat_lt32 [of "sym_end m"] by (simp add: word32_cmp unat_add32 unat_of_nat32)
    then show ?thesis using t(7) [OF that] True lowu by simp
  qed (simp add: t(7) [OF that])
  have sp: "init_space t fs' pd (sym_data x) mem (\<lambda>k. if k < unat sz then ram m (init + of_nat k) else 0)"
    unfolding init_space_def using t(2,6) u(2) cd by simp
  have mem: "mem \<in> set fs" using set_mono_suffix [OF u(4)] unfolding gs by simp
  then have "page_ok t mem" using okp [of mem] se by (simp add: page_ok_def)
  moreover have "suffix fs' fs" using suffix_order.trans [OF t(3) suffix_ConsD [OF u(4) [unfolded gs]]] .
  moreover have "kvm_allocate (init_kmap x) m = Inr (True, pd, u)" using call \<open>ok\<close> by simp
  ultimately show ?thesis using that [OF _ t(1) se sp _ mem t(8) _ own low] by blast
qed

text \<open>The last writes, the trap frame and the name, leave the address space alone.\<close>

lemma outside_name:
  assumes "unat d + 17 \<le> 4294967296" "unat a < unat d \<or> unat d + 17 \<le> unat a"
  shows "strncpy m d n 16 a = m a"
proof -
  have "\<not> unat (a - d) < 17" using in_block_iff [OF assms(1), of a] assms(2) by auto
  then show ?thesis by (intro strncpy_frame) simp
qed

lemma init_space_keeps:
  assumes "init_space m fs pd data mem code" "page_ok m ks" "\<not> own_page (ram m) fs pd ks" "page_ok m mem" "mem \<noteq> ks"
    and r: "\<And>a. unat ks div 4096 \<noteq> unat a div 4096 \<Longrightarrow> r a = ram m a"
    and d: "KERN_LINK \<le> d" "unat d + 17 \<le> unat (sym_end m)"
  shows "init_space (m\<lparr>ram := strncpy r d n 16\<rparr>) fs pd data mem code"
    "unat a div 4096 = unat ks div 4096 \<Longrightarrow> strncpy r d n 16 a = r a"
proof -
  note ws = conjunct1 [OF assms(1) [unfolded init_space_def]]
  have d': "unat d + 17 \<le> 4294967296" using d(2) unat_lt32 [of "sym_end m"] by linarith
  have pg: "strncpy r d n 16 a = r a" if "page_ok m p" "unat a div 4096 = unat p div 4096" for p a
  proof (rule outside_name [OF d'])
    have "\<not> a < sym_end m" using low_not_page [OF that(1), of a] that(2) by metis
    then show "unat a < unat d \<or> unat d + 17 \<le> unat a" using d(2) by (simp add: word32_cmp)
  qed
  then show "unat a div 4096 = unat ks div 4096 \<Longrightarrow> strncpy r d n 16 a = r a" using assms(2) by blast
  have p0: "strncpy r d n 16 a = r a" if "unat a div 4096 = unat (P2KA 0) div 4096" for a
  proof (rule outside_name [OF d'])
    have "unat a < unat (P2KA 0) + 4096" using page_iff [OF page_aligned_page0, of "unat a"] that by simp
    then show "unat a < unat d \<or> unat d + 17 \<le> unat a" using d(1) by (simp add: word32_cmp P2KA_def)
  qed
  note w1 = wf_space_page [OF ws assms(2,3) r]
  let ?m = "m\<lparr>ram := r\<rparr>"
  have ok: "page_ok m p" if "own_page (ram ?m) fs pd p" for p
    using own_pages_ok [OF wf_spaceD(1) [OF ws], of p] that w1(3) by simp
  have w2: "wf_space (?m\<lparr>ram := strncpy r d n 16\<rparr>) fs pd" "pte_at (strncpy r d n 16) pd = pte_at (ram ?m) pd"
    by (rule wf_space_frame [OF w1(1)]; use pg ok p0 in auto)+
  have off: "unat ks div 4096 \<noteq> unat (mem + of_nat k) div 4096 \<and> unat (mem + of_nat k) div 4096 = unat mem div 4096" if "k < 4096" for k
    using page_offset(2) [OF page_ok_aligned [OF assms(4)], of "of_nat k"] that assms(5)
      page_aligned_inj [OF page_ok_aligned [OF assms(4)] page_ok_aligned [OF assms(2)]] by (auto simp: unat_of_nat32)
  have "strncpy r d n 16 (mem + of_nat k) = ram m (mem + of_nat k)" if "k < 4096" for k
    using pg [OF assms(4)] r off [OF that] by metis
  then show "init_space (m\<lparr>ram := strncpy r d n 16\<rparr>) fs pd data mem code"
    using assms(1) w1(2) w2 by (simp add: init_space_def)
qed

lemma init_pid1_ok:
  assumes pages: "free_pages (mach s) (ks # pd # fs)" "page0_harmless (mach s)" "138 \<le> length fs"
    and kmap: "kmap s = init_kmap x" "page_aligned (sym_data x)" "KERN_LINK \<le> sym_data x" "sym_data x \<le> P2KA PHYSTOP"
    and code: "sym_init1_begin s \<le> sym_init1_end s" "sym_init1_end s \<le> sym_end (mach s)" "sym_init1_end s - sym_init1_begin s \<le> PAGE_SZ"
    and name: "KERN_LINK \<le> sym_ptable s" "unat (sym_ptable s) + 11788 \<le> unat (sym_end (mach s))"
    and tab: "length (ptable s) = NPROC" "state (ptable s ! 1) = PROC_UNUSED" "nextpid s = 1" "ptable_lk s = new_lock" "wf_cpu (the_cpu s)"
  obtains m fs' mem where "init_pid1 s = Inr (s\<lparr>mach := m, the_cpu := popped (pushed (popped (pushed (the_cpu s)))),
      ptable := (ptable s)[1 := (ptable s ! 1)\<lparr>pid := 1, kstack := ks, trapframe := ks + 4020,
        pcontext := ks + 3996, kont := KForkret, pgdir := pd, psize := PAGE_SZ, state := PROC_READY\<rparr>],
      nextpid := 2, proc_init1 := Some 1\<rparr>)"
    "init_space m fs' pd (sym_data x) mem
       (\<lambda>k. if k < unat (sym_init1_end s - sym_init1_begin s) then ram (mach s) (sym_init1_begin s + of_nat k) else 0)"
    "user_frame_at (ram m) (ks + 4020)" "sym_end m = sym_end (mach s)"
proof -
  let ?sz = "sym_init1_end s - sym_init1_begin s" and ?c = "popped (pushed (the_cpu s))"
  obtain m1 T where a: "allocate_process s = Inr (Some 1, s\<lparr>mach := (mach s)\<lparr>freelist := load32 (ram (mach s)) ks, ram := m1\<rparr>,
      the_cpu := ?c, ptable := T, nextpid := 2\<rparr>)"
    and T: "T = (ptable s)[1 := (ptable s ! 1)\<lparr>state := PROC_CREATED, pid := 1, kstack := ks, trapframe := ks + 4020, pcontext := ks + 3996, kont := KForkret\<rparr>]"
    and fp: "free_pages ((mach s)\<lparr>freelist := load32 (ram (mach s)) ks, ram := m1\<rparr>) (pd # fs)"
    and ph: "page0_harmless ((mach s)\<lparr>freelist := load32 (ram (mach s)) ks, ram := m1\<rparr>)"
    and m1: "\<And>a. unat ks div 4096 \<noteq> unat a div 4096 \<Longrightarrow> m1 a = ram (mach s) a"
    by (rule allocate_process_first [OF pages(1,2) tab(1-5)]) (rule that; assumption)
  let ?m1 = "(mach s)\<lparr>freelist := load32 (ram (mach s)) ks, ram := m1\<rparr>"
  have ks: "page_ok (mach s) ks" "ks \<notin> set (pd # fs)" using pages(1) by (auto simp: free_pages_def)
  have b: "unat (sym_init1_begin s) + unat ?sz \<le> unat (sym_end ?m1)" using code(1,2) by (simp add: unat_sub word32_cmp)
  obtain u t fs' mem where kvm: "kvm_allocate (init_kmap x) ?m1 = Inr (True, pd, u)" "uvm_init1 pd (sym_init1_begin s) ?sz u = Inr t"
    "sym_end t = sym_end ?m1"
    "init_space t fs' pd (sym_data x) mem (\<lambda>k. if k < unat ?sz then ram ?m1 (sym_init1_begin s + of_nat k) else 0)"
    "page_ok t mem" "mem \<in> set fs" and own: "\<And>p. own_page (ram t) fs' pd p \<Longrightarrow> p \<in> set (pd # fs)"
    by (rule init_space_built [OF fp ph pages(3) kmap(2-4) code(3) b]) (rule that; assumption)
  have low: "m1 a = ram (mach s) a" if "a < sym_end (mach s)" for a using m1 low_not_page [OF ks(1) that] by blast
  have "ram ?m1 (sym_init1_begin s + of_nat k) = ram (mach s) (sym_init1_begin s + of_nat k)" if "k < unat ?sz" for k
  proof -
    have "sym_init1_begin s + of_nat k < sym_end (mach s)"
      using b that unat_lt32 [of "sym_end (mach s)"] by (simp add: word32_cmp unat_add32 unat_of_nat32)
    then show ?thesis using low by simp
  qed
  then have sp: "init_space t fs' pd (sym_data x) mem (\<lambda>k. if k < unat ?sz then ram (mach s) (sym_init1_begin s + of_nat k) else 0)"
    using kvm(4) by (simp cong: if_cong)
  let ?T2 = "T[1 := (T ! 1)\<lparr>pgdir := pd, psize := PAGE_SZ\<rparr>]"
  let ?s2 = "s\<lparr>the_cpu := ?c, ptable := ?T2, nextpid := 2, mach := t\<rparr>"
  have al: "page_aligned ks" using page_ok_aligned [OF ks(1)] .
  have tf: "trapframe (ptable ?s2 ! 1) = ks + 4020" using tab(1) by (simp add: T)
  obtain r where r: "set_pid1_trapframe 1 ?s2 = ?s2\<lparr>mach := (mach ?s2)\<lparr>ram := r\<rparr>\<rparr>" "user_frame_at r (ks + 4020)"
    "\<And>a. unat ks div 4096 \<noteq> unat a div 4096 \<Longrightarrow> r a = ram (mach ?s2) a"
    by (rule set_pid1_trapframe_ok [OF al tf]) (rule that; assumption)
  define d where "d = name_addr 1 ?s2"
  have ud: "unat d = unat (sym_ptable s) + 364" using name(2) unat_lt32 [of "sym_end (mach s)"]
    by (simp add: d_def name_addr_def unat_add32)
  then have d: "KERN_LINK \<le> d" "unat d + 17 \<le> unat (sym_end t)" using name kvm(3) by (simp_all add: word32_cmp)
  let ?m = "t\<lparr>ram := strncpy r d (sym_init_str s) 16\<rparr>"
  have nown: "\<not> own_page (ram t) fs' pd ks" "page_ok t ks" "mem \<noteq> ks" using own ks kvm(3,6) by (auto simp: page_ok_def)
  have r3: "r a = ram t a" if "unat ks div 4096 \<noteq> unat a div 4096" for a using r(3) [OF that] by simp
  note keep = init_space_keeps [where n = "sym_init_str s", OF sp nown(2,1) kvm(5) nown(3) r3 d]
  have uf: "user_frame_at (ram ?m) (ks + 4020)"
  proof -
    have "load32 (ram ?m) (ks + 4 * i) = load32 r (ks + 4 * i)" if "unat i < 1024" for i
      using entry_byte_page [OF al that] keep(2) by (intro load32_cong) simp
    from this [of 1019] this [of 1020] this [of 1021] this [of 1022] this [of 1023] show ?thesis
      using r(2) by (simp add: user_frame_at_def add.commute [of ks])
  qed
  let ?s3 = "?s2\<lparr>mach := ?m\<rparr>" and ?c2 = "popped (pushed ?c)"
  let ?T3 = "?T2[1 := (?T2 ! 1)\<lparr>state := PROC_READY\<rparr>]"
  have A: "upd_proc 1 (\<lambda>p. p\<lparr>psize := PAGE_SZ\<rparr>) ((upd_proc 1 (\<lambda>p. p\<lparr>pgdir := pd\<rparr>) (s\<lparr>the_cpu := ?c, ptable := T, nextpid := 2, mach := u\<rparr>))\<lparr>mach := t\<rparr>) = ?s2"
    using tab(1) by (simp add: upd_proc_def T)
  have wc: "wf_cpu ?c" using wf_cpu_popped_pushed [OF tab(5)] .
  have lk: "lock_ptable ?s3 = Inr (?s3\<lparr>ptable_lk := held_lock, the_cpu := pushed ?c\<rparr>)"
    using lock_ptable_eq [of ?s3] wc tab(4) by simp
  let ?s4 = "(upd_proc 1 (\<lambda>p. p\<lparr>state := PROC_READY\<rparr>) (?s3\<lparr>ptable_lk := held_lock, the_cpu := pushed ?c\<rparr>))\<lparr>proc_init1 := Some 1\<rparr>"
  have "0 < ncli (pushed ?c)" using wc by (simp add: wf_cpu_def)
  then have ul: "unlock_ptable ?s4 = Inr (?s4\<lparr>ptable_lk := new_lock, the_cpu := ?c2\<rparr>)"
    using unlock_ptable_eq [of ?s4] wf_cpu_pushed [OF wc] by simp
  have "init_pid1 s = unlock_ptable ?s4"
    using a kvm(1,2) A r(1) lk by (simp add: init_pid1_def kmap(1) on_mach_def Let_def d_def name_addr_def)
  also have "\<dots> = Inr (s\<lparr>mach := ?m, the_cpu := ?c2,
      ptable := (ptable s)[1 := (ptable s ! 1)\<lparr>pid := 1, kstack := ks, trapframe := ks + 4020,
        pcontext := ks + 3996, kont := KForkret, pgdir := pd, psize := PAGE_SZ, state := PROC_READY\<rparr>],
      nextpid := 2, proc_init1 := Some 1\<rparr>)"
    unfolding ul by (rule arg_cong [where f = Inr], rule kstate.equality) (simp_all add: upd_proc_def T tab(1,4))
  finally show ?thesis using that keep(1) uf kvm(3) by simp
qed

end
