(* ===== verification/Kmain.thy ===== *)
theory Kmain
  imports Trap Mount Init_Process
begin

text \<open>
  kernel/kmain.c with kernel/dev.c: how the kernel starts.  \<open>pc\<close> is the \<open>world\<close> of the trap handlers together with what only
  the start touches: the descriptor table registers and the keyboard controller.  The
  addresses of the interrupt entries, which a script generates, are the argument \<open>vectors\<close>.  Progress messages are left out.
\<close>

section \<open>Starting\<close>

record pc =
  pworld :: world
  pgdtr :: gdtr
  pidt :: idt_state
  pps2 :: ps2
  sym_gdt :: u32
  sym_idt :: u32

abbreviation (input) pkern :: "pc \<Rightarrow> kstate" where "pkern p \<equiv> wkern (pworld p)"

definition on_world :: "(world \<Rightarrow> world res) \<Rightarrow> pc \<Rightarrow> pc res" where
  "on_world f p = rbind (f (pworld p)) (\<lambda>w. Inr (p\<lparr>pworld := w\<rparr>))"

definition on_kern :: "(kstate \<Rightarrow> kstate res) \<Rightarrow> pc \<Rightarrow> pc res" where
  "on_kern f p = on_world (\<lambda>w. rbind (f (wkern w)) (\<lambda>k. Inr (with_wkern k w))) p"

definition ptend :: u32 where "ptend = P2KA (4 * 1024 * 1024)"

definition phystop :: u32 where "phystop = P2KA PHYSTOP"

definition start_screen :: "world \<Rightarrow> world res" where
  "start_screen w = rbind (vga_init (cansi (wcon w)) (cscreen (wcon w))) (\<lambda>v. Inr (w\<lparr>wcon := (wcon w)\<lparr>cscreen := v\<rparr>\<rparr>))"

definition start_paging :: "kstate \<Rightarrow> kstate res" where
  "start_paging k =
     rbind (kvm_init \<lparr>kernel_pgdir = kpgdir k, cr3 = cpu_cr3 (the_cpu k), kvm_machine = mach k\<rparr>) (\<lambda>v.
     Inr (k\<lparr>mach := kvm_machine v, kmap := init_kmap (mach k), kpgdir := kernel_pgdir v,
            the_cpu := (the_cpu k)\<lparr>cpu_cr3 := cr3 v\<rparr>\<rparr>))"

definition start_segments :: "pc \<Rightarrow> pc" where
  "start_segments p =
     (let k = pkern p; (r, g) = gdt_init (sym_gdt p) (gdt (the_cpu k))
      in p\<lparr>pworld := with_wkern (k\<lparr>the_cpu := (the_cpu k)\<lparr>gdt := g\<rparr>\<rparr>) (pworld p), pgdtr := r\<rparr>)"

definition start_traps :: "(u8 \<Rightarrow> u32) \<Rightarrow> pc \<Rightarrow> pc" where
  "start_traps vectors p =
     p\<lparr>pidt := trap_init vectors (sym_idt p) (pidt p), pworld := (pworld p)\<lparr>wpic := pic_init (wpic (pworld p))\<rparr>\<rparr>"

definition dev_init :: "pc \<Rightarrow> pc" where
  "dev_init p = p\<lparr>pps2 := ps2_init (pps2 p), pworld := (pworld p)\<lparr>wcon := console_init (wcon (pworld p))\<rparr>\<rparr>"

definition start_fs :: "world \<Rightarrow> world res" where
  "start_fs w = rbind (fs_init (fsys (wsys w))) (\<lambda>f. Inr (w\<lparr>wsys := (wsys w)\<lparr>fsys := f\<rparr>\<rparr>))"

definition kmain :: "(u8 \<Rightarrow> u32) \<Rightarrow> pc \<Rightarrow> pc res" where
  "kmain vectors p =
     rbind (on_world start_screen p) (\<lambda>p.
     rbind (on_world (on_uart (uart_init COM1)) p) (\<lambda>p.
     rbind (on_world (on_uart (uart_init COM2)) p) (\<lambda>p.
     rbind (on_kern (on_mach (\<lambda>m. palloc_init (sym_end m) ptend m)) p) (\<lambda>p.
     rbind (on_kern start_paging p) (\<lambda>p.
     let p = start_segments p in
     rbind (on_kern (on_mach (palloc_init ptend phystop)) p) (\<lambda>p.
     let p = dev_init (start_traps vectors p) in
     rbind (on_world start_fs p) (\<lambda>p.
     rbind (on_kern (\<lambda>k. Inr (ptable_init k)) p) (\<lambda>p.
     rbind (on_kern init_pid1 p) (\<lambda>p.
     on_kern scheduler_start p)))))))))"

section \<open>The machine when the kernel is entered\<close>

text \<open>What the boot loader leaves: interrupts off, data of the kernel as linked, the image on the disk,
  serial ports that work; the kernel ends within the first three megabytes, on a page boundary, and holds the process table and
  the first program, of at most a page.\<close>

definition entered_memory :: "kstate \<Rightarrow> bool" where
  "entered_memory k \<longleftrightarrow>
     (let m = mach k in freelist m = 0 \<and> page0_harmless m \<and> page_aligned (sym_data m) \<and> page_aligned (sym_end m) \<and>
        KERN_LINK \<le> sym_data m \<and> sym_data m \<le> sym_end m \<and> sym_end m \<le> 0x80300000 \<and>
        sym_init1_begin k \<le> sym_init1_end k \<and> sym_init1_end k \<le> sym_end m \<and> sym_init1_end k - sym_init1_begin k \<le> PAGE_SZ \<and>
        KERN_LINK \<le> sym_ptable k \<and> unat (sym_ptable k) + 11788 \<le> unat (sym_end m))"

definition entered_table :: "kstate \<Rightarrow> bool" where
  "entered_table k \<longleftrightarrow> length (ptable k) = NPROC \<and> (\<forall>q \<in> set (ptable k). state q = PROC_UNUSED \<and> parent q = None) \<and> nextpid k = 1 \<and>
     ncli (the_cpu k) = 0 \<and> \<not> eflags_if (the_cpu k)"

definition entered :: "mkfs \<Rightarrow> pc \<Rightarrow> bool" where
  "entered t p \<longleftrightarrow> healthy (cuart (wcon (pworld p))) \<and> entered_memory (pkern p) \<and> entered_table (pkern p) \<and> booted t (fsys (wsys (pworld p)))"

section \<open>The steps succeed\<close>

lemma vga_init_ok: "\<exists>v. vga_init a s = Inr v"
  by (simp add: vga_init_def vga_vprintf_def format_def Let_def vga_writec_def)

lemma uart_init_ok: "healthy u \<Longrightarrow> \<exists>v. uart_init com u = Inr v \<and> healthy v"
  by (simp add: uart_init_def init_serial_def out_b_def)

text \<open>Both stages of the page allocator and the address space of the kernel between them.\<close>

lemma free_pages_empty: "freelist m = 0 \<Longrightarrow> free_pages m []"
  by (simp add: free_pages_def)

lemma memory_stages:
  assumes "freelist m = 0" "page0_harmless m" "page_aligned (sym_data m)" "page_aligned (sym_end m)" "KERN_LINK \<le> sym_data m"
    and "sym_data m \<le> sym_end m" "sym_end m \<le> 0x80300000"
  obtains m1 g m2 m3 ks pd fs where "palloc_init (sym_end m) ptend m = Inr m1" "kvm_allocate (init_kmap m1) m1 = Inr (True, g, m2)"
    "palloc_init ptend phystop m2 = Inr m3" "free_pages m3 (ks # pd # fs)" "138 \<le> length fs" "page0_harmless m3"
    "sym_end m3 = sym_end m" "sym_data m1 = sym_data m" "\<And>a. a < sym_end m \<Longrightarrow> ram m3 a = ram m a"
proof -
  have pt: "ptend = 0x80400000" "phystop = 0xA0000000" by (simp_all add: ptend_def phystop_def P2KA_def)
  have le: "unat (sym_end m) \<le> 0x80300000" "unat (sym_data m) \<le> unat (sym_end m)" using assms(6,7) by (simp_all add: word32_cmp)
  let ?n1 = "unat (ptend - sym_end m) div 4096" and ?n2 = "unat (phystop - ptend) div 4096"
  have "unat (ptend - sym_end m) = 0x80400000 - unat (sym_end m)" using le by (simp add: pt unat_sub word32_cmp)
  then have n1: "256 \<le> ?n1" "unat (sym_end m) + ?n1 * 4096 \<le> 0x80400000" using le by (simp_all add: div_le_mono less_eq_div_iff_mult_less_eq)
  have n2: "?n2 = 130048" by (simp add: pt)
  have c1: "sym_end m \<le> sym_end m" "sym_end m \<le> ptend" "unat ptend \<le> 0xA0000000" using le by (simp_all add: pt word32_cmp)
  obtain m1 where m1: "palloc_init (sym_end m) ptend m = Inr m1" "free_pages m1 (range_pages (sym_end m) ?n1)" "page0_harmless m1"
    "sym_end m1 = sym_end m" "sym_data m1 = sym_data m" "\<And>a. unat a < unat (sym_end m) \<Longrightarrow> ram m1 a = ram m a"
    using palloc_init_ok [OF free_pages_empty [OF assms(1)] assms(2) c1(1) assms(4) c1(2,3)] by auto
  have rng: "unat (sym_end m) \<le> unat q \<and> unat q < 0x80400000" if "q \<in> set (range_pages (sym_end m) ?n1)" for q
    using range_pages_set [OF _ that] n1(2) by linarith
  obtain g fs1 where g: "range_pages (sym_end m) ?n1 = g # fs1" "136 \<le> length fs1"
    using length_range_pages [of "sym_end m" ?n1] n1(1) by (cases "range_pages (sym_end m) ?n1") auto
  have data: "page_aligned (sym_data m1)" "KERN_LINK \<le> sym_data m1" "sym_data m1 \<le> P2KA PHYSTOP"
    using assms(3,5) le unfolding m1(5) by (simp_all add: word32_cmp P2KA_def)
  obtain ok m2 gs where "kvm_allocate (init_kmap m1) m1 = Inr (ok, g, m2)" "ok \<longleftrightarrow> 136 \<le> length fs1"
    and u: "ok \<Longrightarrow> wf_space m2 gs g" "ok \<Longrightarrow> suffix gs fs1" "ok \<Longrightarrow> sym_end m2 = sym_end m1"
      "\<And>a. ok \<Longrightarrow> (\<And>p. p \<in> set (g # fs1) \<Longrightarrow> unat p div 4096 \<noteq> unat a div 4096) \<Longrightarrow> ram m2 a = ram m1 a"
    using kvm_allocate_pages [OF m1(2) [unfolded g(1)] m1(3) data] by metis
  then have kvm: "kvm_allocate (init_kmap m1) m1 = Inr (True, g, m2)" and ok using g(2) by auto
  note u = u [OF \<open>ok\<close>]
  have fp: "free_pages m2 gs" "page0_harmless m2" using wf_pgdirD(1) [OF wf_spaceD(1) [OF u(1)]] wf_spaceD(2) [OF u(1)] by simp_all
  have lowp: "unat p < unat ptend \<or> unat phystop \<le> unat p" if "p \<in> set gs" for p
    using rng [of p] set_mono_suffix [OF u(2)] g(1) that by (auto simp: pt)
  have c2: "sym_end m2 \<le> ptend" "page_aligned ptend" "ptend \<le> phystop" "unat phystop \<le> 0xA0000000"
    using le u(3) m1(4) by (simp_all add: pt word32_cmp page_aligned_def)
  obtain m3 where m3: "palloc_init ptend phystop m2 = Inr m3" "free_pages m3 (range_pages ptend ?n2 @ gs)" "page0_harmless m3"
    "sym_end m3 = sym_end m2" "\<And>a. unat a < unat ptend \<Longrightarrow> ram m3 a = ram m2 a"
    using palloc_init_ok [OF fp c2 lowp] by auto
  obtain ks pd fs where fs: "range_pages ptend ?n2 @ gs = ks # pd # fs" "138 \<le> length fs"
  proof -
    let ?l = "range_pages ptend ?n2 @ gs"
    have "140 \<le> length ?l" by (simp add: n2)
    then show ?thesis using that by (cases ?l; cases "tl ?l") auto
  qed
  have okp: "page_ok m1 p" if "p \<in> set (g # fs1)" for p using m1(2) that unfolding g(1) by (auto simp: free_pages_def)
  have "ram m3 a = ram m a" if "a < sym_end m" for a
  proof -
    have a: "unat a < unat (sym_end m)" "unat a < unat ptend" using that le by (simp_all add: word32_cmp pt)
    have "ram m2 a = ram m1 a" using u(4) low_not_page [OF okp, of _ a] that m1(4) by simp
    then show ?thesis using m3(5) [OF a(2)] m1(6) [OF a(1)] by simp
  qed
  then show ?thesis using that [OF m1(1) kvm m3(1) _ fs(2) m3(3)] m3(2,4) fs(1) u(3) m1(4,5) by simp
qed

text \<open>What each step leaves of the process layer, the file system and the console.\<close>

abbreviation (input) pfs :: "pc \<Rightarrow> fs" where "pfs p \<equiv> fsys (wsys (pworld p))"

abbreviation (input) puart :: "pc \<Rightarrow> uart" where "puart p \<equiv> cuart (wcon (pworld p))"

lemma kmain_steps:
  assumes "healthy (puart p)" "on_mach (\<lambda>m. palloc_init (sym_end m) ptend m) (pkern p) = Inr k1" "start_paging k1 = Inr k2"
    and "on_mach (palloc_init ptend phystop) (k2\<lparr>the_cpu := (the_cpu k2)\<lparr>gdt := snd (gdt_init (sym_gdt p) (gdt (the_cpu k2)))\<rparr>\<rparr>) = Inr k3"
    and "fs_init (pfs p) = Inr f" "init_pid1 (ptable_init k3) = Inr k4" "scheduler_start k4 = Inr k5"
  shows "\<exists>q. kmain vectors p = Inr q \<and> pkern q = k5 \<and> pfs q = f"
proof -
  obtain v where v: "vga_init (cansi (wcon (pworld p))) (cscreen (wcon (pworld p))) = Inr v" using vga_init_ok by blast
  obtain u where u: "uart_init COM1 (puart p) = Inr u" "healthy u" using uart_init_ok [OF assms(1)] by blast
  obtain u' where u': "uart_init COM2 u = Inr u'" using uart_init_ok [OF u(2)] by blast
  obtain r gd where g: "gdt_init (sym_gdt p) (gdt (the_cpu k2)) = (r, gd)" by fastforce
  show ?thesis
    using v u u' assms(2-7) g
    by (simp add: kmain_def on_world_def start_screen_def on_uart_def on_kern_def start_fs_def start_segments_def start_traps_def dev_init_def
        with_wkern_def with_kern_def)
qed

lemma start_paging_ok:
  assumes "kvm_allocate (init_kmap (mach k)) (mach k) = Inr (True, g, m)"
  shows "start_paging k = Inr (k\<lparr>mach := m, kmap := init_kmap (mach k), kpgdir := g, the_cpu := (the_cpu k)\<lparr>cpu_cr3 := KA2P g\<rparr>\<rparr>)"
  using assms by (simp add: start_paging_def kvm_init_def kvm_switch_def)

text \<open>The scheduler takes over a table with one process, which is ready.\<close>

lemma scheduler_start_ok:
  assumes "ptable_lk k = new_lock" "ncli (the_cpu k) = 0" "\<not> eflags_if (the_cpu k)"
  obtains c where "scheduler_start k = Inr (k\<lparr>ptable_lk := held_lock, the_cpu := c, sched_pos := 0\<rparr>)"
    "in_sched (k\<lparr>ptable_lk := held_lock, the_cpu := c, sched_pos := 0\<rparr>)" "cpu_cr3 c = cpu_cr3 (the_cpu k)"
proof -
  let ?c = "(the_cpu k)\<lparr>proc := None, eflags_if := True\<rparr>"
  have "lock_ptable (k\<lparr>the_cpu := ?c\<rparr>) = Inr (k\<lparr>the_cpu := ?c, ptable_lk := held_lock, the_cpu := pushed ?c\<rparr>)"
    using lock_ptable_eq [of "k\<lparr>the_cpu := ?c\<rparr>"] assms(1,2) by (simp add: wf_cpu_def)
  then have "scheduler_start k = Inr (k\<lparr>ptable_lk := held_lock, the_cpu := pushed ?c, sched_pos := 0\<rparr>)"
    using assms(3) by (simp add: scheduler_start_def on_cpu_def this_cpu_def)
  moreover have "in_sched (k\<lparr>ptable_lk := held_lock, the_cpu := pushed ?c, sched_pos := 0\<rparr>)"
    using assms(2) by (simp add: in_sched_def pushed_def)
  moreover have "cpu_cr3 (pushed ?c) = cpu_cr3 (the_cpu k)" by (simp add: pushed_def)
  ultimately show ?thesis using that by blast
qed

lemma one_process_kinv:
  assumes "entered_table k" "in_sched s" "ptable s = (ptable k)[1 := q]" "nextpid s = 2" "proc_init1 s = Some 1"
    and "state q = PROC_READY" "pid q = 1" "kstack q \<noteq> 0" "pgdir q \<noteq> 0" "kont q = KForkret" "parent q = None"
  shows "kinv s"
proof -
  have nth: "ptable s ! i = (if i = 1 then q else ptable k ! i)" "i \<noteq> 1 \<Longrightarrow> state (ptable k ! i) = PROC_UNUSED \<and> parent (ptable k ! i) = None"
    if "i < NPROC" for i using assms(1,3) that by (auto simp: entered_table_def)
  have "proc_ok (ptable s ! i)" if "i < NPROC" for i
    using nth [OF that] assms(6-11) by (cases "i = 1") (simp_all add: proc_ok_def can_resume_def can_run_def)
  moreover have "pids_ok (ptable s) (nextpid s)"
    unfolding pids_ok_def assms(4) using nth assms(6,7) by (auto split: if_splits)
  moreover have "init_ok (ptable s) (proc_init1 s)" using nth(1) [of 1] assms(5,6) by (simp add: init_ok_def)
  moreover have "length (ptable s) = NPROC" using assms(1,3) by (simp add: entered_table_def)
  moreover have "running_ok (ptable s) (proc (the_cpu s))"
    using nth assms(2,6) by (auto simp: running_ok_def in_sched_def split: if_splits)
  ultimately show ?thesis using assms(2) by (simp add: kinv_def table_ok_def)
qed

lemma first_runs:
  assumes "kinv s" "in_sched s" "sched_pos s = 0" "state (ptable s ! 0) \<noteq> PROC_READY" "state (ptable s ! 1) = PROC_READY" "kont (ptable s ! 1) = KForkret"
  shows "\<exists>u. repeat_res 2 scheduler_step s = Inr u \<and> in_proc 1 u \<and> kinv u"
proof -
  let ?t = "s\<lparr>sched_pos := 1\<rparr>"
  have "scheduler_step s = Inr ?t" using skip_step [of s] assms(3,4) by simp
  moreover have "found_ready s ?t"
    using assms by (auto simp: found_ready_def in_sched_def kinv_def table_ok_def in_proc_def)
  then obtain u where "scheduler_step ?t = Inr u" "in_proc 1 u" "kinv u" using found_ready_runs [of s ?t] assms(6) by auto
  ultimately show ?thesis by (auto simp: numeral_2_eq_2)
qed

text \<open>What \<open>init_pid1\<close> has prepared, in the state \<open>k\<close>, of a kernel that was entered in the state \<open>a\<close>.\<close>

definition init_code :: "kstate \<Rightarrow> nat \<Rightarrow> u8" where
  "init_code a n = (if n < unat (sym_init1_end a - sym_init1_begin a) then ram (mach a) (sym_init1_begin a + of_nat n) else 0)"

definition init_ready :: "kstate \<Rightarrow> kstate \<Rightarrow> bool" where
  "init_ready a k \<longleftrightarrow>
     (let i = ptable k ! 1 in proc_init1 k = Some 1 \<and> pid i = 1 \<and>
        (\<forall>j < NPROC. state (ptable k ! j) = (if j = 1 then PROC_READY else PROC_UNUSED)) \<and>
        (\<exists>fs mem. init_space (mach k) fs (pgdir i) (sym_data (mach a)) mem (init_code a)) \<and>
        user_frame_at (ram (mach k)) (trapframe i) \<and> cpu_cr3 (the_cpu k) = KA2P (kpgdir k))"

lemma init_code_cong:
  assumes "entered_memory a" "\<And>x. x < sym_end (mach a) \<Longrightarrow> ram m x = ram (mach a) x"
    and "sym_init1_begin s = sym_init1_begin a" "sym_init1_end s = sym_init1_end a" "mach s = m"
  shows "(\<lambda>n. if n < unat (sym_init1_end s - sym_init1_begin s) then ram (mach s) (sym_init1_begin s + of_nat n) else 0) = init_code a"
proof (rule ext)
  fix n
  have "ram m (sym_init1_begin a + of_nat n) = ram (mach a) (sym_init1_begin a + of_nat n)" if "n < unat (sym_init1_end a - sym_init1_begin a)"
  proof (rule assms(2))
    have le: "unat (sym_init1_begin a) \<le> unat (sym_init1_end a)" "unat (sym_init1_end a) \<le> unat (sym_end (mach a))"
      using assms(1) by (simp_all add: entered_memory_def Let_def word32_cmp)
    then have "n < unat (sym_init1_end a) - unat (sym_init1_begin a)" using that by (simp add: unat_sub word32_cmp)
    then show "sym_init1_begin a + of_nat n < sym_end (mach a)"
      using le unat_lt32 [of "sym_end (mach a)"] by (simp add: word32_cmp unat_add32 unat_of_nat32)
  qed
  then show "(if n < unat (sym_init1_end s - sym_init1_begin s) then ram (mach s) (sym_init1_begin s + of_nat n) else 0) = init_code a n"
    by (simp add: init_code_def assms(3-5))
qed

text \<open>From the process table to the scheduler.\<close>

lemma init_started:
  assumes em: "entered_memory a" and et: "entered_table a"
    and m: "free_pages m (ks # pd # fs)" "138 \<le> length fs" "page0_harmless m" "sym_end m = sym_end (mach a)"
      "\<And>x. x < sym_end (mach a) \<Longrightarrow> ram m x = ram (mach a) x"
    and x: "sym_data x = sym_data (mach a)"
    and k: "k = a\<lparr>mach := m, kmap := init_kmap x, kpgdir := g, the_cpu := (the_cpu a)\<lparr>cpu_cr3 := KA2P g, gdt := G\<rparr>\<rparr>"
  obtains k4 k5 where "init_pid1 (ptable_init k) = Inr k4" "scheduler_start k4 = Inr k5" "kinv k5" "in_sched k5" "sched_pos k5 = 0"
    "kont (ptable k5 ! 1) = KForkret" "init_ready a k5"
proof -
  let ?s = "ptable_init k" and ?c = "(the_cpu a)\<lparr>cpu_cr3 := KA2P g, gdt := G\<rparr>"
  have s: "mach ?s = m" "kmap ?s = init_kmap x" "sym_init1_begin ?s = sym_init1_begin a" "sym_init1_end ?s = sym_init1_end a"
    "sym_ptable ?s = sym_ptable a" "ptable ?s = ptable a" "nextpid ?s = nextpid a" "ptable_lk ?s = new_lock" "the_cpu ?s = ?c" "kpgdir ?s = g"
    by (simp_all add: ptable_init_def k)
  have tab: "length (ptable ?s) = NPROC" "state (ptable ?s ! 1) = PROC_UNUSED" "nextpid ?s = 1" "wf_cpu (the_cpu ?s)" "parent (ptable a ! 1) = None"
    using et unfolding s by (simp_all add: entered_table_def wf_cpu_def)
  have pre: "free_pages (mach ?s) (ks # pd # fs)" "page0_harmless (mach ?s)" "page_aligned (sym_data x)" "KERN_LINK \<le> sym_data x"
    "sym_data x \<le> P2KA PHYSTOP" "sym_init1_begin ?s \<le> sym_init1_end ?s" "sym_init1_end ?s \<le> sym_end (mach ?s)"
    "sym_init1_end ?s - sym_init1_begin ?s \<le> PAGE_SZ" "KERN_LINK \<le> sym_ptable ?s" "unat (sym_ptable ?s) + 11788 \<le> unat (sym_end (mach ?s))"
    using em m(1,3) unfolding s x m(4) by (simp_all add: entered_memory_def Let_def P2KA_def word32_cmp)
  let ?q = "(ptable ?s ! 1)\<lparr>pid := 1, kstack := ks, trapframe := ks + 4020, pcontext := ks + 3996, kont := KForkret, pgdir := pd,
      psize := PAGE_SZ, state := PROC_READY\<rparr>"
  obtain m4 fs' mem where i: "init_pid1 ?s = Inr (?s\<lparr>mach := m4, the_cpu := popped (pushed (popped (pushed (the_cpu ?s)))),
      ptable := (ptable ?s)[1 := ?q], nextpid := 2, proc_init1 := Some 1\<rparr>)"
    and sp: "init_space m4 fs' pd (sym_data x) mem
       (\<lambda>k. if k < unat (sym_init1_end ?s - sym_init1_begin ?s) then ram (mach ?s) (sym_init1_begin ?s + of_nat k) else 0)"
    and uf: "user_frame_at (ram m4) (ks + 4020)"
    by (rule init_pid1_ok [OF pre(1,2) m(2) s(2) pre(3-10) tab(1-3) s(8) tab(4)]) (rule that; assumption)
  let ?c4 = "popped (pushed (popped (pushed (the_cpu ?s))))"
  let ?k4 = "?s\<lparr>mach := m4, the_cpu := ?c4, ptable := (ptable ?s)[1 := ?q], nextpid := 2, proc_init1 := Some 1\<rparr>"
  have c4: "ncli ?c4 = 0" "\<not> eflags_if ?c4" "cpu_cr3 ?c4 = KA2P g" "ptable_lk ?k4 = new_lock"
    using et s(8,9) by (simp_all add: popped_def pushed_def entered_table_def)
  obtain c5 where c5: "scheduler_start ?k4 = Inr (?k4\<lparr>ptable_lk := held_lock, the_cpu := c5, sched_pos := 0\<rparr>)"
    "in_sched (?k4\<lparr>ptable_lk := held_lock, the_cpu := c5, sched_pos := 0\<rparr>)" "cpu_cr3 c5 = KA2P g"
    using scheduler_start_ok [of ?k4] c4 by auto
  let ?k5 = "?k4\<lparr>ptable_lk := held_lock, the_cpu := c5, sched_pos := 0\<rparr>"
  have nz: "ks \<noteq> 0" "pd \<noteq> 0" using m(1) page_ok_nonzero by (auto simp: free_pages_def)
  have kinv: "kinv ?k5" by (rule one_process_kinv [OF et c5(2), of ?q]) (use nz tab(5) s(6) in simp_all)
  have ready: "\<forall>j < NPROC. state (ptable ?k5 ! j) = (if j = 1 then PROC_READY else PROC_UNUSED)"
    using et s(6) by (auto simp: entered_table_def)
  have "(\<lambda>n. if n < unat (sym_init1_end ?s - sym_init1_begin ?s) then ram (mach ?s) (sym_init1_begin ?s + of_nat n) else 0) = init_code a"
    by (rule init_code_cong [OF em _ s(3,4,1)]) (rule m(5))
  then have "\<exists>fs mem. init_space m4 fs pd (sym_data (mach a)) mem (init_code a)" using sp unfolding x by metis
  then have "init_ready a ?k5" using ready uf c5(3) s(10) tab(1) by (simp add: init_ready_def)
  then show ?thesis using that [OF i c5(1) kinv c5(2)] tab(1) by simp
qed

section \<open>Property\<close>

text \<open>C3: The kernel starts.  On a machine as the boot loader leaves it, with an image that \<open>mkfs\<close> made on the disk, \<open>kmain\<close> gets through all its steps
  without a panic: the file system of the image is mounted, the scheduler is in control, with the process layer in its
  invariant, and the only process is init, pid 1, ready.  Its address space is that of the kernel
  plus one page at address 0, which holds the bytes of the program linked into the kernel and then zeros, and its trap
  frame enters it there in user mode.  The second step of the scheduler runs it.\<close>

theorem kmain_starts_init:
  assumes "progs_ok byt fs" "length fs \<le> 131" "21 + blocks_for (28 * (length fs + 2)) + prog_blocks fs \<le> 1001"
    and "make_image byt (map (\<lambda>(path, bs). (path, Some bs)) fs) = Inr t" "entered t p"
  shows "\<exists>q u. kmain vectors p = Inr q \<and> mounted t (pfs q) \<and> kinv (pkern q) \<and> in_sched (pkern q) \<and> init_ready (pkern p) (pkern q) \<and>
    repeat_res 2 scheduler_step (pkern q) = Inr u \<and> in_proc 1 u \<and> kinv u"
proof -
  let ?a = "pkern p" let ?m = "mach ?a"
  have h: "healthy (puart p)" "entered_memory ?a" "entered_table ?a" "booted t (pfs p)" using assms(5) by (simp_all add: entered_def)
  have t: "image_ok t" using make_image_ok [OF assms(1-3)] assms(4) by auto
  have mem: "freelist ?m = 0" "page0_harmless ?m" "page_aligned (sym_data ?m)" "page_aligned (sym_end ?m)" "KERN_LINK \<le> sym_data ?m"
    "sym_data ?m \<le> sym_end ?m" "sym_end ?m \<le> 0x80300000" using h(2) by (simp_all add: entered_memory_def Let_def)
  obtain m1 g m2 m3 ks pd gs where m: "palloc_init (sym_end ?m) ptend ?m = Inr m1" "kvm_allocate (init_kmap m1) m1 = Inr (True, g, m2)"
    "palloc_init ptend phystop m2 = Inr m3" "free_pages m3 (ks # pd # gs)" "138 \<le> length gs" "page0_harmless m3"
    "sym_end m3 = sym_end ?m" "sym_data m1 = sym_data ?m" "\<And>a. a < sym_end ?m \<Longrightarrow> ram m3 a = ram ?m a"
    by (rule memory_stages [OF mem]) (rule that; assumption)
  obtain f where f: "fs_init (pfs p) = Inr f" "mounted t f" using booted_init [OF h(4) t] by blast
  let ?k1 = "?a\<lparr>mach := m1\<rparr>" and ?G = "snd (gdt_init (sym_gdt p) (gdt (the_cpu ?a)))"
  let ?k2 = "?a\<lparr>mach := m2, kmap := init_kmap m1, kpgdir := g, the_cpu := (the_cpu ?a)\<lparr>cpu_cr3 := KA2P g\<rparr>\<rparr>"
  let ?k3 = "?a\<lparr>mach := m3, kmap := init_kmap m1, kpgdir := g, the_cpu := (the_cpu ?a)\<lparr>cpu_cr3 := KA2P g, gdt := ?G\<rparr>\<rparr>"
  have k1: "on_mach (\<lambda>m. palloc_init (sym_end m) ptend m) ?a = Inr ?k1" using m(1) by (simp add: on_mach_def)
  have k2: "start_paging ?k1 = Inr ?k2" using start_paging_ok [of ?k1 g m2] m(2) by simp
  have k3: "on_mach (palloc_init ptend phystop) (?k2\<lparr>the_cpu := (the_cpu ?k2)\<lparr>gdt := snd (gdt_init (sym_gdt p) (gdt (the_cpu ?k2)))\<rparr>\<rparr>) = Inr ?k3"
    using m(3) by (simp add: on_mach_def)
  obtain k4 k5 where k5: "init_pid1 (ptable_init ?k3) = Inr k4" "scheduler_start k4 = Inr k5" "kinv k5" "in_sched k5" "sched_pos k5 = 0"
    "kont (ptable k5 ! 1) = KForkret" "init_ready ?a k5"
    by (rule init_started [where g = g and G = ?G, OF h(2,3) m(4-7) _ m(8) refl]) ((rule m(9), assumption), (rule that; assumption))
  obtain q where q: "kmain vectors p = Inr q" "pkern q = k5" "pfs q = f"
    using kmain_steps [OF h(1) k1 k2 k3 f(1) k5(1,2)] by blast
  have "state (ptable k5 ! 0) \<noteq> PROC_READY" "state (ptable k5 ! 1) = PROC_READY" using k5(7) by (simp_all add: init_ready_def Let_def)
  then obtain u where "repeat_res 2 scheduler_step k5 = Inr u" "in_proc 1 u" "kinv u" using first_runs [OF k5(3-5) _ _ k5(6)] by blast
  then show ?thesis using q f(2) k5(3,4,7) by metis
qed

text \<open>A kernel of 64 kilobytes that holds the first program, four bytes, right behind its text.\<close>

definition entered_kstate :: kstate where
  "entered_kstate = (sample_kstate unused_process unused_process (cpu0\<lparr>eflags_if := False\<rparr>) new_lock)
     \<lparr>mach := machine0\<lparr>ram := (\<lambda>_. 0)(0x80108000 := 1, 0x80108001 := 2, 0x80108002 := 3, 0x80108003 := 4)\<rparr>,
      nextpid := 1, proc_init1 := None, sym_init1_begin := 0x80108000, sym_init1_end := 0x80108004\<rparr>"

definition entered_pc :: "fs \<Rightarrow> pc" where
  "entered_pc f = \<lparr>pworld = (world0 0 0)\<lparr>wsys := (with_kern entered_kstate sys0)\<lparr>fsys := f\<rparr>\<rparr>, pgdtr = \<lparr>gdt_limit = 0, gdt_base = 0\<rparr>,
     pidt = \<lparr>idt = (\<lambda>_. \<lparr>isr_low = 0, kernel_cs = 0, reserved = 0, attributes = 0, isr_high = 0\<rparr>), idtr_base = 0, idtr_limit = 0\<rparr>,
     pps2 = \<lparr>port_in = (\<lambda>_. []), port_out = [], errors = []\<rparr>, sym_gdt = 0x8010A000, sym_idt = 0x8010B000\<rparr>"

lemma entered_sample: "booted t f \<Longrightarrow> entered t (entered_pc f)"
proof -
  assume f: "booted t f"
  have k: "pkern (entered_pc f) = entered_kstate" "pfs (entered_pc f) = f" "healthy (puart (entered_pc f))"
    by (simp_all add: entered_pc_def with_kern_def world0_def console0_def uart0_def)
  have "load32 (ram (mach entered_kstate)) (P2KA 0 + 4 * i) = 0" if "unat i < 1024" for i
  proof -
    have "ram (mach entered_kstate) x = 0" if "unat x div 4096 = unat (P2KA 0) div 4096" for x
    proof -
      have "unat x < 0x80001000" using page_iff [OF page_aligned_page0, of "unat x"] that by (simp add: P2KA_def)
      then show ?thesis by (auto simp: entered_kstate_def)
    qed
    then show ?thesis using entry_byte_page [OF page_aligned_page0 that] load32_cong [of "ram (mach entered_kstate)" _ "\<lambda>_. 0"]
      by (simp add: load32_def)
  qed
  then have "page0_harmless (mach entered_kstate)" by (simp add: page0_harmless_def) (simp add: entered_kstate_def machine0_def)
  then have "entered_memory entered_kstate"
    by (simp add: entered_memory_def) (simp add: entered_kstate_def machine0_def page_aligned_def sample_kstate_def)
  moreover have "entered_table entered_kstate"
    by (auto simp: entered_table_def entered_kstate_def sample_kstate_def unused_process_def cpu0_def in_set_conv_nth nth_list_update)
  ultimately show ?thesis using f k by (simp add: entered_def)
qed

theorem kmain_starts_init_witness:
  "\<exists>f q u mem gs. kmain (\<lambda>_. 0) (entered_pc f) = Inr q \<and> repeat_res 2 scheduler_step (pkern q) = Inr u \<and> in_proc 1 u \<and>
    init_space (mach (pkern q)) gs (pgdir (ptable (pkern q) ! 1)) 0x80108000 mem (\<lambda>n. if n < 4 then of_nat n + 1 else 0)"
proof -
  obtain t f where t: "make_image 0 (map (\<lambda>(path, bs). (path, Some bs)) one_prog) = Inr t" "booted t f" using one_prog_booted by blast
  obtain q u where q: "kmain (\<lambda>_. 0) (entered_pc f) = Inr q" "init_ready (pkern (entered_pc f)) (pkern q)"
    "repeat_res 2 scheduler_step (pkern q) = Inr u" "in_proc 1 u"
    using kmain_starts_init [OF one_prog_ok(1-3) t(1) entered_sample [OF t(2)], of "\<lambda>_. 0"] by blast
  have k: "pkern (entered_pc f) = entered_kstate" by (simp add: entered_pc_def with_kern_def)
  have c: "init_code entered_kstate = (\<lambda>n. if n < 4 then of_nat n + 1 else 0)"
  proof (rule ext)
    fix n
    show "init_code entered_kstate n = (if n < 4 then of_nat n + 1 else 0)"
    proof (cases "n < 4")
      case True
      then have "n = 0 \<or> n = 1 \<or> n = 2 \<or> n = 3" by arith
      then show ?thesis by (auto simp: init_code_def entered_kstate_def)
    qed (simp add: init_code_def entered_kstate_def)
  qed
  have d: "sym_data (mach entered_kstate) = 0x80108000" by (simp add: entered_kstate_def machine0_def)
  obtain gs mem where "init_space (mach (pkern q)) gs (pgdir (ptable (pkern q) ! 1)) 0x80108000 mem (\<lambda>n. if n < 4 then of_nat n + 1 else 0)"
    using q(2) unfolding k init_ready_def Let_def c d by blast
  then show ?thesis using q(1,3,4) by blast
qed

end
