(* ===== verification/Boot.thy ===== *)
theory Boot
  imports Exec Dir_Lookup
begin

text \<open>
  boot/boot.c: the part of the boot loader written in C.  It runs without paging, so that addresses are
  physical ones, and reads the kernel from the first drive of the primary channel, behind the
  twenty sectors of the loader itself.  The array \<open>buf\<close> of \<open>read_offset\<close> is at \<open>loc\<close>.
\<close>

section \<open>The loader\<close>

text \<open>The loop is the one of the driver of the kernel (\<open>ide_wait\<close>).\<close>

definition wait_disk :: "ata \<Rightarrow> ata res" where
  "wait_disk d = ide_wait d"

definition read_sector :: "u32 \<Rightarrow> u32 \<Rightarrow> mem \<Rightarrow> ata \<Rightarrow> (mem \<times> ata) res" where
  "read_sector dst lba m d =
     rbind (wait_disk d) (\<lambda>d.
     let d = ata_outb 0x1F2 1 d;
         d = ata_outb 0x1F3 (ucast lba) d;
         d = ata_outb 0x1F4 (ucast (drop_bit 8 lba)) d;
         d = ata_outb 0x1F5 (ucast (drop_bit 16 lba)) d;
         d = ata_outb 0x1F6 (ucast (drop_bit 24 lba OR 0xE0)) d;
         d = ata_outb 0x1F7 0x20 d
     in rbind (wait_disk d) (\<lambda>d. Inr (poke m dst (ata_insl d), d)))"

fun read_sectors :: "nat \<Rightarrow> u32 \<Rightarrow> u32 \<Rightarrow> mem \<Rightarrow> ata \<Rightarrow> (mem \<times> ata) res" where
  "read_sectors 0 p lba m d = Inr (m, d)"
| "read_sectors (Suc remained) p lba m d =
     rbind (read_sector p lba m d) (\<lambda>(m, d). read_sectors remained (p + of_nat SECSZ) (lba + 1) m d)"

definition read_offset :: "u32 \<Rightarrow> u32 \<Rightarrow> u32 \<Rightarrow> u32 \<Rightarrow> mem \<Rightarrow> ata \<Rightarrow> (mem \<times> ata) res" where
  "read_offset loc dst n offset m d =
     (let lba = offset div of_nat SECSZ;
          remained = n div of_nat SECSZ + 1;
          trash = offset mod of_nat SECSZ;
          rest = of_nat SECSZ - trash
      in
        rbind (read_sector loc lba m d) (\<lambda>(m, d).
        let m = memcpy m dst (loc + trash) rest
        in read_sectors (unat (remained - 1)) (dst + rest) (lba + 1) m d))"

abbreviation (input) BOOTLDSECN :: u32 where "BOOTLDSECN \<equiv> 20"

abbreviation (input) elf_offset :: u32 where "elf_offset \<equiv> of_nat SECSZ * BOOTLDSECN"

definition read_offset_from_kernel :: "u32 \<Rightarrow> u32 \<Rightarrow> u32 \<Rightarrow> u32 \<Rightarrow> mem \<Rightarrow> ata \<Rightarrow> (mem \<times> ata) res" where
  "read_offset_from_kernel loc dst n offset m d = read_offset loc dst n (offset + elf_offset) m d"

text \<open>\<open>paging_init\<close>: the directory and the table at their addresses; setting the control registers is the
  switch to the translation by the directory.\<close>

definition paging_init :: "u32 \<Rightarrow> u32 \<Rightarrow> mem \<Rightarrow> mem" where
  "paging_init pagedir pagetbl m =
     (let m = fold (\<lambda>i m. store32 m (pagedir + 4 * of_nat i) (0 OR PDE_W)) [0..<NPDES] m;
          m = fold (\<lambda>i m. store32 m (pagetbl + 4 * of_nat i) (of_nat i * 0x1000 OR PTE_P OR PTE_W)) [0..<NPTES] m;
          m = store32 m pagedir (pagetbl OR PDE_P OR PDE_W)
      in store32 m (pagedir + 4 * drop_bit PD_IDX_SHIFT KERN_BASE) (pagetbl OR PDE_P OR PDE_W))"

text \<open>The loop of \<open>boot3\<close> over the program headers; it reads them, and their number, from the memory that it
  loads into.  The place of the headers is fixed before the loop.\<close>

definition p_paddr :: "u8 list \<Rightarrow> u32" where
  "p_paddr ph = rd32 ph 12"

abbreviation (input) ELF_AT :: u32 where "ELF_AT \<equiv> 0x10000"

definition phnum_at :: "mem \<Rightarrow> nat" where
  "phnum_at m = unat (e_phnum (peek m ELF_AT 52))"

definition load_segment :: "u32 \<Rightarrow> u32 \<Rightarrow> mem \<Rightarrow> ata \<Rightarrow> (mem \<times> ata) res" where
  "load_segment loc p m d =
     (let ph = peek m p 32;
          paddr = p_paddr ph
      in
        rbind (read_offset_from_kernel loc paddr (p_filesz (bytes_prog_header ph)) (p_offset (bytes_prog_header ph)) m d) (\<lambda>(m, d).
        let ph = bytes_prog_header (peek m p 32) in
        Inr (if p_memsz ph > p_filesz ph
             then memset m (paddr + p_filesz ph) 0 (p_memsz ph - p_filesz ph)
             else m, d)))"

function load_loop :: "u32 \<Rightarrow> u32 \<Rightarrow> nat \<Rightarrow> mem \<Rightarrow> ata \<Rightarrow> (mem \<times> ata) res" where
  "load_loop loc ph k m d =
     (if k < phnum_at m
      then rbind (load_segment loc (ph + 32 * of_nat k) m d) (\<lambda>(m, d). load_loop loc ph (k + 1) m d)
      else Inr (m, d))"
  by pat_completeness auto
termination
proof (relation "measure (\<lambda>(loc, ph, k, m, d). 65536 - k)")
  fix loc ph :: u32 and k :: nat and m :: mem and d :: ata and x :: "mem \<times> ata" and m' d'
  assume "k < phnum_at m"
  moreover have "phnum_at m < 65536" using unsigned_less [of "e_phnum (peek m ELF_AT 52)", where 'a = nat] by (simp add: phnum_at_def)
  ultimately show "((loc, ph, k + 1, m', d'), loc, ph, k, m, d) \<in> measure (\<lambda>(loc, ph, k, m, d). 65536 - k)" by simp
qed simp

declare load_loop.simps [simp del]

text \<open>The result of \<open>boot3\<close> is the physical address at which the kernel is entered.  A file that is no ELF file
  stops the machine.\<close>

definition boot3 :: "u32 \<Rightarrow> u32 \<Rightarrow> u32 \<Rightarrow> mem \<Rightarrow> ata \<Rightarrow> (u32 \<times> mem \<times> ata) res" where
  "boot3 loc pagedir pagetbl m d =
     rbind (read_offset_from_kernel loc ELF_AT PAGE_SZ 0 m d) (\<lambda>(m, d).
     if \<not> is_elf (peek m ELF_AT 52) then Inl Hang
     else
       rbind (load_loop loc (ELF_AT + e_phoff (peek m ELF_AT 52)) 0 m d) (\<lambda>(m, d).
       let m = paging_init pagedir pagetbl m
       in Inr (KA2P (e_entry (peek m ELF_AT 52)), m, d)))"

section \<open>Reading\<close>

lemma read_sector_ok:
  assumes "present d" "unat lba < 2 ^ 28"
  shows "\<exists>e. read_sector dst lba m d = Inr (poke m dst (sectors d False lba), e) \<and> present e \<and> sectors e = sectors d"
proof -
  let ?r = "ucast (drop_bit 24 lba OR 0xe0) :: u8"
  have l: "ucast (ucast lba :: u8) OR push_bit 8 (ucast (ucast (drop_bit 8 lba) :: u8)) OR
      push_bit 16 (ucast (ucast (drop_bit 16 lba) :: u8)) OR push_bit 24 (ucast (?r AND (0x0f :: u8))) = lba"
    using lba_registers [OF assms(2), of 0] by simp
  have "lba = take_bit 28 lba"
    using assms(2) by (simp add: take_bit_word_eq_self unsigned_take_bit_eq word_unat_eq_iff take_bit_nat_eq_self)
  then have "\<not> bit lba 28" by (metis bit_take_bit_iff less_irrefl)
  then have s: "\<not> bit ?r 4" by (simp add: bit_simps)
  have w: "present x \<Longrightarrow> wait_disk x = Inr (x\<lparr>delay := 0\<rparr>)" for x by (simp add: wait_disk_def ide_wait_ready)
  show ?thesis using l s
    by (simp add: read_sector_def w [OF assms(1)] ata_outb_def w present_def ata_slave_def ata_insl_def ata_lba_def)
qed

text \<open>The bytes of the disk, and regions of memory.\<close>

definition disk_byte :: "ata \<Rightarrow> nat \<Rightarrow> u8" where
  "disk_byte d k = sectors d False (of_nat (k div 512)) ! (k mod 512)"

definition disk_ok :: "ata \<Rightarrow> bool" where
  "disk_ok d \<longleftrightarrow> present d \<and> (\<forall>j. length (sectors d False j) = 512)"

abbreviation (input) inside :: "u32 \<Rightarrow> nat \<Rightarrow> u32 \<Rightarrow> bool" where
  "inside a n x \<equiv> unat (x - a) < n"

definition apart :: "u32 \<Rightarrow> nat \<Rightarrow> u32 \<Rightarrow> nat \<Rightarrow> bool" where
  "apart a n b k \<longleftrightarrow> (\<forall>x. inside a n x \<longrightarrow> \<not> inside b k x)"

lemma unat_minus_add: "unat (x - (p + q)) = (if unat q \<le> unat (x - p) then unat (x - p) - unat q else unat (x - p) + 4294967296 - unat q)" for x p q :: u32
proof -
  have e: "x - (p + q) = (x - p) - q" by simp
  show ?thesis unfolding e using unat_sub_if' [of "x - p" q] by (simp add: word_le_nat_alt)
qed

lemma read_sectors_ok:
  assumes "disk_ok d" "unat lba + k \<le> 2 ^ 28" "512 * k \<le> 4294967296"
  shows "\<exists>m' e. read_sectors k p lba m d = Inr (m', e) \<and> disk_ok e \<and> sectors e = sectors d \<and>
    (\<forall>x. m' x = (if inside p (512 * k) x then disk_byte d (512 * unat lba + unat (x - p)) else m x))"
  using assms
proof (induction k arbitrary: p lba m d)
  case (Suc k)
  let ?m = "poke m p (sectors d False lba)"
  obtain e where e: "read_sector p lba m d = Inr (?m, e)" "disk_ok e" "sectors e = sectors d"
    using read_sector_ok [of d lba p m] Suc.prems(1,2) by (auto simp: disk_ok_def)
  have ul: "unat (lba + 1) = unat lba + 1" using Suc.prems(2) by (simp add: unat_add32)
  obtain m' e' where f: "read_sectors k (p + 512) (lba + 1) ?m e = Inr (m', e')" "disk_ok e'" "sectors e' = sectors e"
    "\<forall>x. m' x = (if inside (p + 512) (512 * k) x then disk_byte e (512 * unat (lba + 1) + unat (x - (p + 512))) else ?m x)"
    using Suc.IH [OF e(2), of "lba + 1" "p + 512" ?m] Suc.prems(2,3) ul by auto
  have "m' x = (if inside p (512 * Suc k) x then disk_byte d (512 * unat lba + unat (x - p)) else m x)" for x
  proof (cases "512 \<le> unat (x - p)")
    case True
    then have u: "unat (x - (p + 512)) = unat (x - p) - 512" by (simp add: unat_minus_add)
    have "?m x = m x" using Suc.prems(1) True by (simp add: poke_apply disk_ok_def)
    moreover have "512 * unat (lba + 1) + (unat (x - p) - 512) = 512 * unat lba + unat (x - p)" using True ul by simp
    ultimately show ?thesis using f(4) u True e(3) by (auto simp: disk_byte_def)
  next
    case False
    then have "unat (x - (p + 512)) = unat (x - p) + 4294967296 - 512" by (simp add: unat_minus_add)
    then have "\<not> inside (p + 512) (512 * k) x" using Suc.prems(3) by simp
    moreover have "?m x = sectors d False lba ! unat (x - p)" using Suc.prems(1) False by (simp add: poke_apply disk_ok_def)
    ultimately show ?thesis using f(4) False by (simp add: disk_byte_def)
  qed
  then show ?case using e f by auto
qed simp

text \<open>How many bytes \<open>read_offset\<close> stores.\<close>

definition stored :: "u32 \<Rightarrow> u32 \<Rightarrow> nat" where
  "stored n offset = 512 * (unat n div 512 + 1) - unat offset mod 512"

lemma sub_less: "b \<le> a \<Longrightarrow> a < b + c \<Longrightarrow> a - b < (c :: nat)"
  by arith

lemma sub_not_less: "\<not> a < b + c \<Longrightarrow> \<not> a < b \<and> \<not> a - b < (c :: nat)"
  by arith

lemma whole_sectors: "t < 512 \<Longrightarrow> 512 - t \<le> a \<Longrightarrow> 512 * q + t = off \<Longrightarrow> 512 * (q + 1) + (a - (512 - t)) = off + (a :: nat)"
  by arith

lemma read_offset_ok:
  assumes "disk_ok d" "apart dst (stored n offset) loc 512"
  shows "\<exists>m' e. read_offset loc dst n offset m d = Inr (m', e) \<and> disk_ok e \<and> sectors e = sectors d \<and>
    (\<forall>x. inside dst (stored n offset) x \<longrightarrow> m' x = disk_byte d (unat offset + unat (x - dst))) \<and>
    (\<forall>x. \<not> inside dst (stored n offset) x \<and> \<not> inside loc 512 x \<longrightarrow> m' x = m x)"
proof -
  let ?q = "unat offset div 512" and ?t = "unat offset mod 512" and ?k = "unat n div 512"
  let ?lba = "offset div 512" and ?rest = "512 - offset mod 512 :: u32" and ?sec = "sectors d False (offset div 512)"
  have t: "?t < 512" "?k < 8388608" "?q < 8388608" using unat_lt32 [of n] unat_lt32 [of offset] by (simp_all add: div_less_iff_less_mult)
  have u: "unat ?lba = ?q" "unat (offset mod 512) = ?t" by (simp_all add: unat_div unat_mod)
  then have r: "unat ?rest = 512 - ?t" using t(1) by (simp add: unat_sub32)
  have st: "stored n offset = 512 - ?t + 512 * ?k" using t(1) by (simp add: stored_def)
  have k: "unat (n div 512 + 1 - 1) = ?k" by (simp add: unat_div)
  have ls: "length ?sec = 512" using assms(1) by (simp add: disk_ok_def)
  let ?m1 = "poke m loc ?sec"
  obtain e where e: "read_sector loc ?lba m d = Inr (?m1, e)" "disk_ok e" "sectors e = sectors d"
    using read_sector_ok [of d ?lba loc m] assms(1) u t by (auto simp: disk_ok_def)
  let ?m2 = "memcpy ?m1 dst (loc + offset mod 512) ?rest"
  have "\<not> inside loc 512 dst" using assms(2) st t(1) by (auto simp: apart_def)
  then have d: "512 \<le> unat (dst - loc)" by simp
  then have "unat (dst - (loc + offset mod 512)) = unat (dst - loc) - ?t" using t(1) u(2) by (simp add: unat_minus_add)
  then have far: "unat ?rest \<le> unat (dst - (loc + offset mod 512))" using d r by linarith
  have m2: "?m2 x = (if inside dst (512 - ?t) x then ?m1 (loc + offset mod 512 + (x - dst)) else ?m1 x)" for x
    using copy_up_apply [OF _ disjI2 [OF far], of ?m1 x] r by (simp add: memcpy_def)
  obtain m' e' where f: "read_sectors ?k (dst + ?rest) (?lba + 1) ?m2 e = Inr (m', e')" "disk_ok e'" "sectors e' = sectors e"
    "\<forall>x. m' x = (if inside (dst + ?rest) (512 * ?k) x then disk_byte e (512 * unat (?lba + 1) + unat (x - (dst + ?rest))) else ?m2 x)"
    using read_sectors_ok [OF e(2), of "?lba + 1" ?k "dst + ?rest" ?m2] t u by (auto simp: unat_add32)
  have first: "m' x = disk_byte d (unat offset + unat (x - dst))" if x: "unat (x - dst) < 512 - ?t" for x
  proof -
    have "unat (x - (dst + ?rest)) = unat (x - dst) + 4294967296 - (512 - ?t)" using x r by (simp add: unat_minus_add)
    then have mx: "m' x = ?m1 (loc + offset mod 512 + (x - dst))" using f(4) m2 [of x] x t by simp
    have "unat (offset mod 512 + (x - dst)) = ?t + unat (x - dst)" using x u by (simp add: unat_add32)
    moreover have lt: "?t + unat (x - dst) < 512" using x by linarith
    ultimately have "?m1 (loc + offset mod 512 + (x - dst)) = ?sec ! (?t + unat (x - dst))" using ls by (simp add: poke_apply add.assoc)
    moreover have "(unat offset + unat (x - dst)) div 512 = ?q" "(unat offset + unat (x - dst)) mod 512 = ?t + unat (x - dst)"
      using lt div_mult_self1 [of 512 "?t + unat (x - dst)" ?q] mod_mult_self1 [of "?t + unat (x - dst)" ?q 512] mult_div_mod_eq [of 512 "unat offset"]
      by (simp_all add: algebra_simps)
    moreover have "of_nat ?q = ?lba" unfolding u(1) [symmetric] by simp
    ultimately show ?thesis using mx by (simp add: disk_byte_def)
  qed
  have later: "m' x = disk_byte d (unat offset + unat (x - dst))" if x: "512 - ?t \<le> unat (x - dst)" "unat (x - dst) < stored n offset" for x
  proof -
    have xr: "unat (x - (dst + ?rest)) = unat (x - dst) - (512 - ?t)" using x(1) r by (simp add: unat_minus_add)
    have "unat (?lba + 1) = ?q + 1" using u(1) t(3) by (simp add: unat_add32)
    moreover have "inside (dst + ?rest) (512 * ?k) x" unfolding xr by (rule sub_less [OF x(1) x(2) [unfolded st]])
    ultimately have "m' x = disk_byte e (512 * (?q + 1) + (unat (x - dst) - (512 - ?t)))" using f(4) xr by simp
    moreover have "512 * (?q + 1) + (unat (x - dst) - (512 - ?t)) = unat offset + unat (x - dst)"
      by (rule whole_sectors [OF t(1) x(1) mult_div_mod_eq])
    ultimately show ?thesis using e(3) by (simp add: disk_byte_def)
  qed
  have frame: "m' x = m x" if x: "\<not> inside dst (stored n offset) x" "\<not> inside loc 512 x" for x
  proof -
    note o = sub_not_less [OF x(1) [unfolded st]]
    then have "unat (x - (dst + ?rest)) = unat (x - dst) - (512 - ?t)" using r by (simp add: unat_minus_add)
    then have "\<not> inside (dst + ?rest) (512 * ?k) x" "\<not> inside dst (512 - ?t) x" using o by simp_all
    then have "m' x = ?m1 x" using f(4) m2 [of x] by simp
    then show ?thesis using x(2) ls by (simp add: poke_apply)
  qed
  have "read_offset loc dst n offset m d = Inr (m', e')" using e(1) f(1) k by (simp add: read_offset_def)
  then show ?thesis using f(2,3) e(3) first later frame by (metis not_le)
qed

section \<open>The first page table\<close>

text \<open>What the processor makes of an address with the directory at \<open>pagedir\<close>.\<close>

definition boot_translate :: "mem \<Rightarrow> u32 \<Rightarrow> u32 \<Rightarrow> u32 option" where
  "boot_translate m pagedir va =
     (let pde = load32 m (pagedir + 4 * page_directory_idx va) in
      if pde AND PDE_P = 0 then None
      else
        let pte = load32 m (pte_addr pde + 4 * page_table_idx va) in
        if pte AND PTE_P = 0 then None else Some (pte_addr pte OR vaddr_offset va))"

lemma fold_store:
  assumes "page_aligned t" "page_aligned q" "unat j < 1024" "n \<le> 1024"
  shows "load32 (fold (\<lambda>i m. store32 m (t + 4 * of_nat i) (f i)) [0..<n] m) (q + 4 * j) =
    (if q = t \<and> unat j < n then f (unat j) else load32 m (q + 4 * j))"
  using assms(4)
proof (induction n)
  case (Suc n)
  have "unat (of_nat n :: u32) = n" using Suc.prems by (simp add: unat_of_nat32)
  moreover have "of_nat n = j \<longleftrightarrow> n = unat j" using calculation by (auto simp: word32_eq_iff)
  ultimately show ?case using Suc assms(1-3) by (auto simp: load_store_entry less_Suc_eq)
qed simp

lemma table_entry_parts:
  "pte_addr (push_bit 12 x OR 1 OR 2) = push_bit 12 x" "(push_bit 12 x OR 1 OR 2) AND 1 \<noteq> (0 :: u32)"
proof -
  have three: "(1 OR 2 :: u32) = mask 2" by (simp add: mask_eq_exp_minus_1)
  have "push_bit 12 x OR 1 OR 2 = push_bit 12 x OR mask 2" using three by (simp only: or.assoc)
  then show "pte_addr (push_bit 12 x OR 1 OR 2) = push_bit 12 x"
    unfolding pte_addr_def and_not_FFF by (auto intro!: bit_word_eqI simp: bit_simps)
  have "bit ((push_bit 12 x OR 1 OR 2) AND 1 :: u32) 0" by (simp add: bit_simps)
  then show "(push_bit 12 x OR 1 OR 2) AND 1 \<noteq> (0 :: u32)" by auto
qed

lemma aligned_push: "page_aligned p \<Longrightarrow> p = push_bit 12 (drop_bit 12 p)"
  using unat_and_not_FFF [of p] unfolding and_not_FFF by (auto simp: page_aligned_def word32_eq_iff)

lemma paging_init_tables:
  assumes "page_aligned pagedir" "page_aligned pagetbl" "pagedir \<noteq> pagetbl" "unat i < 1024"
  shows "load32 (paging_init pagedir pagetbl m) (pagedir + 4 * i) = (if i = 0 \<or> i = 512 then pagetbl OR 1 OR 2 else 2)"
    "load32 (paging_init pagedir pagetbl m) (pagetbl + 4 * i) = push_bit 12 i OR 1 OR 2"
proof -
  define A where "A = fold (\<lambda>i m. store32 m (pagedir + 4 * of_nat i) (0 OR 2)) [0..<1024] m"
  define B where "B = fold (\<lambda>i m. store32 m (pagetbl + 4 * of_nat i) (of_nat i * 0x1000 OR 1 OR 2)) [0..<1024] A"
  let ?v = "pagetbl OR 1 OR 2"
  have d: "pagedir + 4 * drop_bit 22 0x80000000 = pagedir + 4 * 512" by (simp add: drop_bit_eq_div)
  have pi: "paging_init pagedir pagetbl m = store32 (store32 B (pagedir + 4 * 0) ?v) (pagedir + 4 * 512) ?v"
    unfolding paging_init_def Let_def A_def B_def d by simp
  have a: "load32 A (pagedir + 4 * i) = 2"
    using fold_store [OF assms(1,1,4), of 1024 "\<lambda>_. 0 OR 2" m] assms(4) unfolding A_def by simp
  have p: "push_bit 12 i = of_nat (unat i) * 0x1000" by (simp add: push_bit_eq_mult)
  have b: "load32 B (pagetbl + 4 * i) = push_bit 12 i OR 1 OR 2" "load32 B (pagedir + 4 * i) = 2"
    using fold_store [OF assms(2,2,4), of 1024 "\<lambda>i. of_nat i * 0x1000 OR 1 OR 2" A]
      fold_store [OF assms(2,1,4), of 1024 "\<lambda>i. of_nat i * 0x1000 OR 1 OR 2" A] assms(3,4) a
    unfolding B_def p by simp_all
  have u: "unat (0 :: u32) < 1024" "unat (512 :: u32) < 1024" by simp_all
  note l = load_store_entry [OF assms(1,1) u(1) assms(4)] load_store_entry [OF assms(1,1) u(2) assms(4)]
    load_store_entry [OF assms(1,2) u(1) assms(4)] load_store_entry [OF assms(1,2) u(2) assms(4)]
  show "load32 (paging_init pagedir pagetbl m) (pagedir + 4 * i) = (if i = 0 \<or> i = 512 then pagetbl OR 1 OR 2 else 2)"
    unfolding pi l b by auto
  show "load32 (paging_init pagedir pagetbl m) (pagetbl + 4 * i) = push_bit 12 i OR 1 OR 2"
    unfolding pi l b using assms(3) by auto
qed

lemma high_half_parts:
  assumes "unat va = unat w + 2147483648" "unat w < 4194304"
  shows "page_directory_idx va = 512" "page_table_idx va = page_table_idx w" "vaddr_offset va = vaddr_offset w"
proof -
  have "(unat w + 524288 * 4096) div 4096 = 524288 + unat w div 4096" by (rule div_mult_self1) simp
  moreover have "(unat w div 4096 + 512 * 1024) mod 1024 = unat w div 4096 mod 1024" by (rule mod_mult_self1)
  ultimately have "(unat w + 524288 * 4096) div 4096 mod 1024 = unat w div 4096 mod 1024" by (simp add: add.commute)
  then show "page_table_idx va = page_table_idx w" using assms(1) by (simp add: word32_eq_iff unat_page_table_idx)
  have "(unat w + 512 * 4194304) div 4194304 = 512 + unat w div 4194304" by (rule div_mult_self1) simp
  then have "(unat w + 512 * 4194304) div 4194304 = 512" using assms(2) by simp
  then show "page_directory_idx va = 512" using assms(1) by (simp add: word32_eq_iff unat_page_directory_idx)
  have "(unat w + 524288 * 4096) mod 4096 = unat w mod 4096" by (rule mod_mult_self1)
  then show "vaddr_offset va = vaddr_offset w" using assms(1) by (simp add: word32_eq_iff unat_vaddr_offset)
qed

lemma low_parts: "unat w < 4194304 \<Longrightarrow> page_directory_idx w = 0 \<and> push_bit 12 (page_table_idx w) OR vaddr_offset w = w"
proof -
  assume w: "unat w < 4194304"
  then have z: "page_directory_idx w = 0" by (simp add: word32_eq_iff unat_page_directory_idx)
  then have "page_addr 0 (page_table_idx w) (vaddr_offset w) = w" using page_addr_split [of w] by simp
  then show ?thesis using z by (simp add: page_addr_def)
qed

lemma boot_translate_low:
  assumes "page_aligned pagedir" "page_aligned pagetbl" "pagedir \<noteq> pagetbl"
  shows "page_directory_idx va = 0 \<or> page_directory_idx va = 512 \<Longrightarrow>
      boot_translate (paging_init pagedir pagetbl m) pagedir va = Some (push_bit 12 (page_table_idx va) OR vaddr_offset va)"
    "page_directory_idx va \<noteq> 0 \<Longrightarrow> page_directory_idx va \<noteq> 512 \<Longrightarrow> boot_translate (paging_init pagedir pagetbl m) pagedir va = None"
proof -
  have i: "unat (page_directory_idx va) < 1024" "unat (page_table_idx va) < 1024" using page_addr_split [of va] by simp_all
  note t = paging_init_tables [OF assms i(1), of m] paging_init_tables(2) [OF assms i(2), of m]
  note e = aligned_push [OF assms(2)] table_entry_parts [of "drop_bit 12 pagetbl"] table_entry_parts [of "page_table_idx va"]
  have q: "pte_addr (pagetbl OR 1 OR 2) = pagetbl" "(pagetbl OR 1 OR 2) AND 1 \<noteq> 0" using e(1-3) by simp_all
  show "page_directory_idx va = 0 \<or> page_directory_idx va = 512 \<Longrightarrow>
      boot_translate (paging_init pagedir pagetbl m) pagedir va = Some (push_bit 12 (page_table_idx va) OR vaddr_offset va)"
    unfolding boot_translate_def Let_def t(1) using q e(4,5) t(3) by (simp del: or.assoc)
  show "page_directory_idx va \<noteq> 0 \<Longrightarrow> page_directory_idx va \<noteq> 512 \<Longrightarrow> boot_translate (paging_init pagedir pagetbl m) pagedir va = None"
    unfolding boot_translate_def Let_def t(1) by simp
qed

lemma div_quotient: "(x :: nat) div c = q \<Longrightarrow> 0 < c \<Longrightarrow> q * c \<le> x \<and> x < q * c + c"
  by (metis div_mult_mod_eq le_add1 mod_less_divisor nat_add_left_cancel_less)

lemma boot_translate_init:
  assumes "page_aligned pagedir" "page_aligned pagetbl" "pagedir \<noteq> pagetbl"
  shows "boot_translate (paging_init pagedir pagetbl m) pagedir va =
    (if unat va < 4194304 then Some va
     else if 2147483648 \<le> unat va \<and> unat va < 2151677952 then Some (KA2P va) else None)"
proof -
  note b = boot_translate_low [OF assms]
  consider (low) "unat va < 4194304" | (high) "2147483648 \<le> unat va" "unat va < 2151677952"
    | (other) "\<not> unat va < 4194304" "\<not> (2147483648 \<le> unat va \<and> unat va < 2151677952)" by blast
  then show ?thesis
  proof cases
    case low
    then show ?thesis using low_parts [OF low] b(1) [of va m] by simp
  next
    case high
    have "unat (KA2P va) = unat va - 2147483648" using high(1) by (simp add: KA2P_def unat_sub32)
    then have w: "unat va = unat (KA2P va) + 2147483648" "unat (KA2P va) < 4194304" using high by simp_all
    show ?thesis using high_half_parts [OF w] low_parts [OF w(2)] b(1) [of va m] high by simp
  next
    case other
    have "page_directory_idx va \<noteq> 0"
    proof
      assume "page_directory_idx va = 0"
      then have "unat va div 4194304 = 0" using unat_page_directory_idx [of va] by simp
      then show False using div_quotient [of "unat va" 4194304 0] other(1) by simp
    qed
    moreover have "page_directory_idx va \<noteq> 512"
    proof
      assume "page_directory_idx va = 512"
      then have "unat va div 4194304 = 512" using unat_page_directory_idx [of va] by simp
      then show False using div_quotient [of "unat va" 4194304 512] other(2) by simp
    qed
    ultimately show ?thesis using b(2) [of va m] other by simp
  qed
qed

section \<open>Loading the kernel\<close>

text \<open>The kernel file on the disk: its bytes, its headers, and what a segment takes in memory.\<close>

definition kfile :: "ata \<Rightarrow> nat \<Rightarrow> nat \<Rightarrow> u8 list" where
  "kfile d a n = map (\<lambda>k. disk_byte d (10240 + a + k)) [0..<n]"

abbreviation (input) khdr :: "ata \<Rightarrow> u8 list" where "khdr d \<equiv> kfile d 0 52"

definition kphdr :: "ata \<Rightarrow> nat \<Rightarrow> u8 list" where
  "kphdr d k = kfile d (unat (e_phoff (khdr d)) + 32 * k) 32"

abbreviation (input) seg_at :: "ata \<Rightarrow> nat \<Rightarrow> u32" where "seg_at d k \<equiv> p_paddr (kphdr d k)"
abbreviation (input) seg_off :: "ata \<Rightarrow> nat \<Rightarrow> u32" where "seg_off d k \<equiv> p_offset (bytes_prog_header (kphdr d k))"
abbreviation (input) seg_file :: "ata \<Rightarrow> nat \<Rightarrow> u32" where "seg_file d k \<equiv> p_filesz (bytes_prog_header (kphdr d k))"
abbreviation (input) seg_mem :: "ata \<Rightarrow> nat \<Rightarrow> u32" where "seg_mem d k \<equiv> p_memsz (bytes_prog_header (kphdr d k))"

definition seg_area :: "ata \<Rightarrow> nat \<Rightarrow> nat" where
  "seg_area d k = max (stored (seg_file d k) (seg_off d k + 10240)) (unat (seg_mem d k))"

text \<open>A kernel that the loader can load: its headers are in the first 4608 bytes; every segment fits the sectors
  that are read for it and keeps clear of the headers, the local array and the page tables, and a
  segment keeps clear of the ones loaded before.\<close>

definition seg_ok :: "u32 \<Rightarrow> u32 \<Rightarrow> u32 \<Rightarrow> ata \<Rightarrow> nat \<Rightarrow> bool" where
  "seg_ok loc pagedir pagetbl d k \<longleftrightarrow>
     unat (seg_off d k) + 10240 < 4294967296 \<and> unat (seg_off d k) mod 512 + unat (seg_file d k) mod 512 \<le> 512 \<and>
     seg_file d k \<le> seg_mem d k \<and>
     apart (seg_at d k) (seg_area d k) loc 512 \<and> apart (seg_at d k) (seg_area d k) ELF_AT 4608 \<and>
     apart (seg_at d k) (seg_area d k) pagedir 4096 \<and> apart (seg_at d k) (seg_area d k) pagetbl 4096 \<and>
     (\<forall>j < k. apart (seg_at d j) (unat (seg_mem d j)) (seg_at d k) (seg_area d k))"

definition kernel_ok :: "u32 \<Rightarrow> u32 \<Rightarrow> u32 \<Rightarrow> ata \<Rightarrow> bool" where
  "kernel_ok loc pagedir pagetbl d \<longleftrightarrow>
     disk_ok d \<and> is_elf (khdr d) \<and> unat (e_phoff (khdr d)) + 32 * unat (e_phnum (khdr d)) \<le> 4608 \<and> apart ELF_AT 4608 loc 512 \<and>
     page_aligned pagedir \<and> page_aligned pagetbl \<and> pagedir \<noteq> pagetbl \<and> apart ELF_AT 4608 pagedir 4096 \<and> apart ELF_AT 4608 pagetbl 4096 \<and>
     (\<forall>k < unat (e_phnum (khdr d)). seg_ok loc pagedir pagetbl d k)"

definition seg_byte :: "ata \<Rightarrow> nat \<Rightarrow> nat \<Rightarrow> u8" where
  "seg_byte d k j = (if j < unat (seg_file d k) then disk_byte d (10240 + unat (seg_off d k) + j) else 0)"

definition loaded :: "ata \<Rightarrow> nat \<Rightarrow> mem \<Rightarrow> bool" where
  "loaded d n m \<longleftrightarrow>
     (\<forall>x. inside ELF_AT 4608 x \<longrightarrow> m x = disk_byte d (10240 + unat (x - ELF_AT))) \<and>
     (\<forall>k < n. \<forall>x. inside (seg_at d k) (unat (seg_mem d k)) x \<longrightarrow> m x = seg_byte d k (unat (x - seg_at d k)))"

lemma peek_loaded:
  assumes "loaded d n m" "a + len \<le> 4608"
  shows "peek m (ELF_AT + of_nat a) len = kfile d a len"
proof -
  have "m (ELF_AT + of_nat a + of_nat k) = disk_byte d (10240 + a + k)" if "k < len" for k
  proof -
    have "unat (of_nat (a + k) :: u32) = a + k" using that assms(2) by (subst unat_of_nat32) simp_all
    then have "unat (ELF_AT + of_nat a + of_nat k - ELF_AT) = a + k" by simp
    then show ?thesis using assms that by (simp add: loaded_def add.assoc)
  qed
  then show ?thesis by (simp add: peek_def kfile_def)
qed

lemma loaded_headers:
  assumes "loaded d n m" "kernel_ok loc pagedir pagetbl d"
  shows "peek m ELF_AT 52 = khdr d" "phnum_at m = unat (e_phnum (khdr d))"
    "k < unat (e_phnum (khdr d)) \<Longrightarrow> peek m (ELF_AT + e_phoff (khdr d) + 32 * of_nat k) 32 = kphdr d k"
proof -
  show h: "peek m ELF_AT 52 = khdr d" using peek_loaded [OF assms(1), of 0 52] by simp
  then show "phnum_at m = unat (e_phnum (khdr d))" by (simp add: phnum_at_def)
  assume k: "k < unat (e_phnum (khdr d))"
  have "ELF_AT + e_phoff (khdr d) + 32 * of_nat k = ELF_AT + of_nat (unat (e_phoff (khdr d)) + 32 * k)" by simp
  moreover have "unat (e_phoff (khdr d)) + 32 * k + 32 \<le> 4608" using assms(2) k by (simp add: kernel_ok_def)
  ultimately show "peek m (ELF_AT + e_phoff (khdr d) + 32 * of_nat k) 32 = kphdr d k"
    using peek_loaded [OF assms(1), of "unat (e_phoff (khdr d)) + 32 * k" 32] by (simp add: kphdr_def add.assoc)
qed

lemma memset_tail:
  assumes "f \<le> n"
  shows "memset m (p + f) 0 (n - f) x = (if unat f \<le> unat (x - p) \<and> unat (x - p) < unat n then 0 else m x)"
proof -
  have "unat (n - f) = unat n - unat f" "unat f \<le> unat n" using assms by (simp_all add: unat_sub word_le_nat_alt)
  then show ?thesis using unat_lt32 [of n] by (auto simp: memset_apply unat_minus_add)
qed

lemma stored_covers: "unat n \<le> stored n offset \<longleftrightarrow> unat offset mod 512 + unat n mod 512 \<le> 512"
proof -
  have arith: "512 * q + r \<le> 512 * (q + 1) - t \<longleftrightarrow> t + r \<le> 512" if "t < 512" for q r t :: nat using that by auto
  have "unat n = 512 * (unat n div 512) + unat n mod 512" by simp
  then show ?thesis unfolding stored_def using arith [of "unat offset mod 512" "unat n div 512" "unat n mod 512"] by simp
qed

lemma apart_less: "apart a n b k \<Longrightarrow> n' \<le> n \<Longrightarrow> apart a n' b k"
  by (auto simp: apart_def)

lemma loaded_frame:
  assumes "loaded d k m" "kernel_ok loc pagedir pagetbl d" "k < unat (e_phnum (khdr d))"
    "\<And>x. \<not> inside (seg_at d k) (seg_area d k) x \<Longrightarrow> \<not> inside loc 512 x \<Longrightarrow> m' x = m x"
  shows "loaded d k m'"
  unfolding loaded_def
proof (intro conjI allI impI)
  fix x
  assume x: "inside ELF_AT 4608 x"
  have "apart ELF_AT 4608 loc 512" "apart (seg_at d k) (seg_area d k) ELF_AT 4608" using assms(2,3) by (auto simp: kernel_ok_def seg_ok_def)
  then have "m' x = m x" using x assms(4) unfolding apart_def by blast
  then show "m' x = disk_byte d (10240 + unat (x - ELF_AT))" using assms(1) x by (simp add: loaded_def)
next
  fix j x
  assume j: "j < k" and x: "inside (seg_at d j) (unat (seg_mem d j)) x"
  have "apart (seg_at d j) (seg_area d j) loc 512" "apart (seg_at d j) (unat (seg_mem d j)) (seg_at d k) (seg_area d k)"
    using assms(2,3) j by (auto simp: kernel_ok_def seg_ok_def)
  moreover have "inside (seg_at d j) (seg_area d j) x" using x by (simp add: seg_area_def)
  ultimately have "m' x = m x" using x assms(4) unfolding apart_def by blast
  then show "m' x = seg_byte d j (unat (x - seg_at d j))" using assms(1) x j by (simp add: loaded_def)
qed

lemma load_segment_ok:
  assumes "loaded d k m" "kernel_ok loc pagedir pagetbl d" "k < unat (e_phnum (khdr d))" "disk_ok e" "sectors e = sectors d"
  shows "\<exists>m' e'. load_segment loc (ELF_AT + e_phoff (khdr d) + 32 * of_nat k) m e = Inr (m', e') \<and> loaded d (k + 1) m' \<and>
    disk_ok e' \<and> sectors e' = sectors d"
proof -
  let ?p = "ELF_AT + e_phoff (khdr d) + 32 * of_nat k" and ?a = "seg_at d k" and ?f = "seg_file d k" and ?n = "seg_mem d k"
  let ?o = "seg_off d k + 10240"
  have sg: "unat (seg_off d k) + 10240 < 4294967296" "unat (seg_off d k) mod 512 + unat ?f mod 512 \<le> 512" "?f \<le> ?n"
    "apart ?a (seg_area d k) loc 512"
    using assms(2,3) by (auto simp: kernel_ok_def seg_ok_def)
  have o: "unat ?o = 10240 + unat (seg_off d k)" using sg(1) by (simp add: unat_add32)
  have "(unat (seg_off d k) + 20 * 512) mod 512 = unat (seg_off d k) mod 512" by (rule mod_mult_self1)
  then have cov: "unat ?f \<le> stored ?f ?o" using stored_covers [of ?f ?o] sg(2) o by (simp add: add.commute)
  have db: "disk_byte e = disk_byte d" using assms(5) by (simp add: disk_byte_def fun_eq_iff)
  have le: "stored ?f ?o \<le> seg_area d k" "unat ?n \<le> seg_area d k" by (simp_all add: seg_area_def)
  obtain m1 e' where r: "read_offset loc ?a ?f ?o m e = Inr (m1, e')" "disk_ok e'" "sectors e' = sectors e"
    "\<forall>x. inside ?a (stored ?f ?o) x \<longrightarrow> m1 x = disk_byte e (unat ?o + unat (x - ?a))"
    "\<forall>x. \<not> inside ?a (stored ?f ?o) x \<and> \<not> inside loc 512 x \<longrightarrow> m1 x = m x"
    using read_offset_ok [OF assms(4) apart_less [OF sg(4) le(1)], of m] by blast
  have "m1 x = m x" if "\<not> inside ?a (seg_area d k) x" "\<not> inside loc 512 x" for x using r(5) that le(1) by simp
  then have l1: "loaded d k m1" using loaded_frame [OF assms(1-3)] by blast
  let ?m2 = "if ?f < ?n then memset m1 (?a + ?f) 0 (?n - ?f) else m1"
  have m2: "?m2 x = (if unat ?f \<le> unat (x - ?a) \<and> unat (x - ?a) < unat ?n then 0 else m1 x)" for x
    using memset_tail [OF sg(3), of m1 ?a x] sg(3) by (auto simp: word_less_nat_alt)
  have "?m2 x = m1 x" if "\<not> inside ?a (seg_area d k) x" for x using m2 [of x] that le(2) by simp
  then have l2: "loaded d k ?m2" using loaded_frame [OF l1 assms(2,3)] by blast
  have seg: "?m2 x = seg_byte d k (unat (x - ?a))" if x: "inside ?a (unat ?n) x" for x
    using m2 [of x] r(4) x cov o db by (auto simp: seg_byte_def)
  have "loaded d (k + 1) ?m2"
    using l2 seg unfolding loaded_def by (auto simp: less_Suc_eq)
  moreover have "load_segment loc ?p m e = Inr (?m2, e')"
    using r(1) loaded_headers(3) [OF assms(1-3)] loaded_headers(3) [OF l1 assms(2,3)]
    by (simp add: load_segment_def read_offset_from_kernel_def Let_def)
  ultimately show ?thesis using r(2,3) assms(5) by auto
qed

lemma load_loop_ok:
  assumes "loaded d k m" "kernel_ok loc pagedir pagetbl d" "k \<le> unat (e_phnum (khdr d))" "disk_ok e" "sectors e = sectors d"
  shows "\<exists>m' e'. load_loop loc (ELF_AT + e_phoff (khdr d)) k m e = Inr (m', e') \<and> loaded d (unat (e_phnum (khdr d))) m'"
  using assms
proof (induction "unat (e_phnum (khdr d)) - k" arbitrary: k m e)
  case 0
  then show ?case using loaded_headers(2) [OF 0(2,3)] by (subst load_loop.simps) auto
next
  case (Suc j)
  then have k: "k < unat (e_phnum (khdr d))" by simp
  obtain m' e' where s: "load_segment loc (ELF_AT + e_phoff (khdr d) + 32 * of_nat k) m e = Inr (m', e')" "loaded d (k + 1) m'" "disk_ok e'"
    "sectors e' = sectors d"
    using load_segment_ok [OF Suc.prems(1,2) k Suc.prems(4,5)] by blast
  have "j = unat (e_phnum (khdr d)) - (k + 1)" "k + 1 \<le> unat (e_phnum (khdr d))" using Suc.hyps(2) k by simp_all
  from Suc.hyps(1) [OF this(1) s(2) Suc.prems(2) this(2) s(3,4)] show ?case
    using s(1) k loaded_headers(2) [OF Suc.prems(1,2)] by (subst load_loop.simps) simp
qed

lemma fold_store_frame:
  assumes "page_aligned t" "\<not> inside t 4096 x" "n \<le> 1024"
  shows "fold (\<lambda>i m. store32 m (t + 4 * of_nat i) (f i)) [0..<n] m x = m x"
  using assms(3)
proof (induction n)
  case (Suc n)
  have "unat (of_nat n :: u32) < 1024" using Suc.prems by (simp add: unat_of_nat32)
  then show ?case using Suc assms(1,2) same_page_diff [OF assms(1), of x] by (simp add: store_entry_frame)
qed simp

lemma paging_init_frame:
  assumes "page_aligned pagedir" "page_aligned pagetbl" "\<not> inside pagedir 4096 x" "\<not> inside pagetbl 4096 x"
  shows "paging_init pagedir pagetbl m x = m x"
proof -
  have d: "pagedir + 4 * drop_bit 22 0x80000000 = pagedir + 4 * 512" by (simp add: drop_bit_eq_div)
  have f: "store32 m' (pagedir + 4 * i) v x = m' x" if "unat i < 1024" for m' i v
    using store_entry_frame [OF assms(1) that] same_page_diff [OF assms(1), of x] assms(3) by simp
  show ?thesis
    unfolding paging_init_def Let_def d
    using f [of 512] f [of 0] fold_store_frame [OF assms(1,3), of 1024] fold_store_frame [OF assms(2,4), of 1024] by simp
qed

section \<open>Properties\<close>

text \<open>Reading from the disk.  \<open>read_offset\<close> returns and copies the bytes of the disk from \<open>offset\<close> on to \<open>dst\<close>,
  but whole sectors of them: \<open>512 * (n div 512 + 1) - offset mod 512\<close> bytes, and nothing else but its
  local array changes.  So all \<open>n\<close> bytes arrive exactly if \<open>offset mod 512 + n mod 512 \<le> 512\<close>: otherwise the last
  ones are missing.\<close>

theorem boot_read_offset:
  assumes "disk_ok d" "apart dst (stored n offset) loc 512"
  shows "(\<exists>m' e. read_offset loc dst n offset m d = Inr (m', e) \<and>
      (\<forall>x. inside dst (stored n offset) x \<longrightarrow> m' x = disk_byte d (unat offset + unat (x - dst))) \<and>
      (\<forall>x. \<not> inside dst (stored n offset) x \<and> \<not> inside loc 512 x \<longrightarrow> m' x = m x)) \<and>
    (unat n \<le> stored n offset \<longleftrightarrow> unat offset mod 512 + unat n mod 512 \<le> 512)"
  using read_offset_ok [OF assms, of m] stored_covers [of n offset] by blast

text \<open>C11: Starting the kernel.  If the disk holds an ELF file whose segments the loader can place (\<open>kernel_ok\<close>), \<open>boot3\<close>
  returns: every segment is in memory with its bytes of the file, and zeros behind them up to its
  size; the kernel is entered at the physical address of its entry point; and with the page
  directory that was made, exactly the first 4 MB of the address space and the 4 MB from
  \<open>KERN_BASE\<close> on are mapped, both to the first 4 MB of the memory.\<close>

theorem boot3_loads_kernel:
  assumes "kernel_ok loc pagedir pagetbl d"
  shows "\<exists>m' e. boot3 loc pagedir pagetbl m d = Inr (KA2P (e_entry (khdr d)), m', e) \<and>
    (\<forall>k < unat (e_phnum (khdr d)). \<forall>x. inside (seg_at d k) (unat (seg_mem d k)) x \<longrightarrow> m' x = seg_byte d k (unat (x - seg_at d k))) \<and>
    (\<forall>va. boot_translate m' pagedir va =
      (if unat va < 4194304 then Some va
       else if 2147483648 \<le> unat va \<and> unat va < 2151677952 then Some (KA2P va) else None))"
proof -
  let ?n = "unat (e_phnum (khdr d))"
  have k: "disk_ok d" "is_elf (khdr d)" "apart ELF_AT 4608 loc 512" "page_aligned pagedir" "page_aligned pagetbl" "pagedir \<noteq> pagetbl"
    "apart ELF_AT 4608 pagedir 4096" "apart ELF_AT 4608 pagetbl 4096"
    using assms by (auto simp: kernel_ok_def)
  have st: "stored PAGE_SZ (0 + 10240) = 4608" by (simp add: stored_def)
  obtain m1 e where r: "read_offset_from_kernel loc ELF_AT PAGE_SZ 0 m d = Inr (m1, e)" "disk_ok e" "sectors e = sectors d"
    "\<forall>x. inside ELF_AT 4608 x \<longrightarrow> m1 x = disk_byte d (10240 + unat (x - ELF_AT))"
    using read_offset_ok [OF k(1), of ELF_AT PAGE_SZ "0 + 10240" loc m] k(3) unfolding st read_offset_from_kernel_def by auto
  have l1: "loaded d 0 m1" using r(4) by (simp add: loaded_def)
  obtain m2 e2 where s: "load_loop loc (ELF_AT + e_phoff (khdr d)) 0 m1 e = Inr (m2, e2)" "loaded d ?n m2"
    using load_loop_ok [OF l1 assms _ r(2,3)] by auto
  let ?m = "paging_init pagedir pagetbl m2"
  have fr: "?m x = m2 x" if "\<not> inside pagedir 4096 x" "\<not> inside pagetbl 4096 x" for x using paging_init_frame [OF k(4,5) that] .
  have l: "loaded d ?n ?m"
    unfolding loaded_def
  proof (intro conjI allI impI)
    fix x
    assume x: "inside ELF_AT 4608 x"
    then have "?m x = m2 x" using fr k(7,8) unfolding apart_def by blast
    then show "?m x = disk_byte d (10240 + unat (x - ELF_AT))" using s(2) x by (simp add: loaded_def)
  next
    fix j x
    assume j: "j < ?n" and x: "inside (seg_at d j) (unat (seg_mem d j)) x"
    then have "inside (seg_at d j) (seg_area d j) x" by (simp add: seg_area_def)
    moreover have "apart (seg_at d j) (seg_area d j) pagedir 4096" "apart (seg_at d j) (seg_area d j) pagetbl 4096"
      using assms j by (auto simp: kernel_ok_def seg_ok_def)
    ultimately have "?m x = m2 x" using fr unfolding apart_def by blast
    then show "?m x = seg_byte d j (unat (x - seg_at d j))" using s(2) j x by (simp add: loaded_def)
  qed
  have "boot3 loc pagedir pagetbl m d = Inr (KA2P (e_entry (khdr d)), ?m, e2)"
    using r(1) s(1) k(2) loaded_headers(1) [OF l1 assms] loaded_headers(1) [OF l assms] by (simp add: boot3_def Let_def)
  then show ?thesis using l boot_translate_init [OF k(4-6), of m2] by (auto simp: loaded_def)
qed

text \<open>A disk with a kernel of one segment of three bytes, five in memory.\<close>

definition kernel_sector :: "u8 list" where
  "kernel_sector =
     [0x7F, 0x45, 0x4C, 0x46] @ replicate 20 0 @ [0, 0, 0x10, 0x80] @ [52, 0, 0, 0] @ replicate 12 0 @ [1, 0] @ replicate 6 0 @
     [1, 0, 0, 0] @ [0, 2, 0, 0] @ [0, 0, 0x10, 0x80] @ [0, 0, 0x10, 0] @ [3, 0, 0, 0] @ [5, 0, 0, 0] @ replicate 8 0 @
     replicate 428 0"

definition kernel_drive :: ata where
  "kernel_drive = sample_drive\<lparr>sectors := (\<lambda>_ n. if n = 20 then kernel_sector else replicate 512 7)\<rparr>"

lemma apart_order:
  assumes "unat a + n \<le> unat b" "unat b + k \<le> 4294967296"
  shows "apart a n b k" "apart b k a n"
proof -
  have "inside a n x \<longleftrightarrow> unat a \<le> unat x \<and> unat x < unat a + n" "inside b k x \<longleftrightarrow> unat b \<le> unat x \<and> unat x < unat b + k" for x
    using in_block_iff [of a n x] in_block_iff [of b k x] assms by simp_all
  then show "apart a n b k" "apart b k a n" using assms(1) by (auto simp: apart_def)
qed

lemma kernel_drive_file: "a + n \<le> 512 \<Longrightarrow> kfile kernel_drive a n = slice a n kernel_sector"
proof (rule nth_equalityI)
  assume a: "a + n \<le> 512"
  have l: "length kernel_sector = 512" by (simp add: kernel_sector_def)
  then show "length (kfile kernel_drive a n) = length (slice a n kernel_sector)" using a by (simp add: kfile_def)
  fix i
  assume "i < length (kfile kernel_drive a n)"
  then have i: "i < n" by (simp add: kfile_def)
  have "(a + i + 20 * 512) div 512 = 20 + (a + i) div 512" by (rule div_mult_self1) simp
  moreover have "(a + i + 20 * 512) mod 512 = (a + i) mod 512" by (rule mod_mult_self1)
  ultimately have "disk_byte kernel_drive (10240 + a + i) = kernel_sector ! (a + i)"
    using i a by (simp add: disk_byte_def kernel_drive_def add_ac)
  then show "kfile kernel_drive a n ! i = slice a n kernel_sector ! i" using i a l by (simp add: kfile_def slice_nth)
qed

lemma kernel_drive_headers: "is_elf (khdr kernel_drive)" "e_entry (khdr kernel_drive) = 0x80100000" "e_phoff (khdr kernel_drive) = 52"
  "e_phnum (khdr kernel_drive) = 1" "seg_at kernel_drive 0 = 0x100000" "seg_off kernel_drive 0 = 512" "seg_file kernel_drive 0 = 3"
  "seg_mem kernel_drive 0 = 5"
proof -
  have h: "khdr kernel_drive = slice 0 52 kernel_sector" by (rule kernel_drive_file) simp
  show o: "e_phoff (khdr kernel_drive) = 52" unfolding h by code_simp
  show "is_elf (khdr kernel_drive)" "e_entry (khdr kernel_drive) = 0x80100000" "e_phnum (khdr kernel_drive) = 1"
    unfolding h by code_simp+
  have p: "kphdr kernel_drive 0 = slice 52 32 kernel_sector" using kernel_drive_file [of 52 32] o by (simp add: kphdr_def)
  show "seg_at kernel_drive 0 = 0x100000" "seg_off kernel_drive 0 = 512" "seg_file kernel_drive 0 = 3" "seg_mem kernel_drive 0 = 5"
    unfolding p by code_simp+
qed

lemma kernel_drive_ok: "kernel_ok 0x7000 0x20000 0x21000 kernel_drive"
proof -
  note h = kernel_drive_headers
  have ar: "seg_area kernel_drive 0 = 512" unfolding seg_area_def h by (simp add: stored_def)
  have "disk_ok kernel_drive" by (simp add: disk_ok_def kernel_drive_def sample_drive_def present_def ata_slave_def kernel_sector_def)
  moreover have "seg_ok 0x7000 0x20000 0x21000 kernel_drive 0"
    unfolding seg_ok_def h ar by (auto intro!: apart_order)
  moreover have "apart 0x10000 4608 0x7000 512" by (rule apart_order(2)) simp_all
  moreover have "apart 0x10000 4608 0x20000 4096" "apart 0x10000 4608 0x21000 4096" by (rule apart_order(1); simp)+
  ultimately show ?thesis using h(1) unfolding kernel_ok_def h by (simp add: page_aligned_def)
qed

theorem boot3_loads_kernel_witness:
  "\<exists>m' e. boot3 0x7000 0x20000 0x21000 (\<lambda>_. 9) kernel_drive = Inr (0x100000, m', e) \<and> m' 0x100000 = 7 \<and> m' 0x100004 = 0 \<and>
    boot_translate m' 0x20000 0x80100004 = Some 0x100004"
proof -
  note h = kernel_drive_headers
  obtain m' e where b: "boot3 0x7000 0x20000 0x21000 (\<lambda>_. 9) kernel_drive = Inr (KA2P 0x80100000, m', e)"
    "\<forall>x. inside 0x100000 5 x \<longrightarrow> m' x = seg_byte kernel_drive 0 (unat (x - 0x100000))"
    "\<forall>va. boot_translate m' 0x20000 va =
      (if unat va < 4194304 then Some va else if 2147483648 \<le> unat va \<and> unat va < 2151677952 then Some (KA2P va) else None)"
    using boot3_loads_kernel [OF kernel_drive_ok, of "\<lambda>_. 9"] h by auto
  have "seg_byte kernel_drive 0 0 = 7" "seg_byte kernel_drive 0 4 = 0"
    unfolding seg_byte_def h by (simp_all add: disk_byte_def kernel_drive_def)
  then have "m' 0x100000 = 7" "m' 0x100004 = 0" using spec [OF b(2), of "0x100000"] spec [OF b(2), of "0x100004"] by simp_all
  moreover have "boot_translate m' 0x20000 0x80100004 = Some 0x100004" using b(3) by (simp add: KA2P_def)
  ultimately show ?thesis using b(1) by (auto simp: KA2P_def)
qed

theorem boot_read_offset_witness:
  "\<exists>m' e. read_offset 0x7000 0x9000 3 10240 (\<lambda>_. 9) kernel_drive = Inr (m', e) \<and> m' 0x9001 = 0x45 \<and> m' 0xA000 = 9"
proof -
  have "disk_ok kernel_drive" using kernel_drive_ok by (simp add: kernel_ok_def)
  moreover have "apart 0x9000 (stored 3 10240) 0x7000 512" by (intro apart_order) (simp_all add: stored_def)
  ultimately obtain m' e where r: "read_offset 0x7000 0x9000 3 10240 (\<lambda>_. 9) kernel_drive = Inr (m', e)"
    "\<forall>x. inside 0x9000 (stored 3 10240) x \<longrightarrow> m' x = disk_byte kernel_drive (unat (10240 :: u32) + unat (x - 0x9000))"
    "\<forall>x. \<not> inside 0x9000 (stored 3 10240) x \<and> \<not> inside 0x7000 512 x \<longrightarrow> m' x = 9"
    using boot_read_offset [of kernel_drive "0x9000" 3 10240 "0x7000" "\<lambda>_. 9"] by auto
  have "disk_byte kernel_drive 10241 = 0x45" by (simp add: disk_byte_def kernel_drive_def kernel_sector_def)
  then show ?thesis using r(1) spec [OF r(2), of "0x9001"] spec [OF r(3), of "0xA000"] by (auto simp: stored_def)
qed

end
