(* ===== verification/Shell.thy ===== *)
theory Shell
  imports Lib_String
begin

text \<open>
  melon/sh.c, the shell: its line buffer of 512 bytes, the parser that cuts words out of the buffer
  by storing NULs, the memory it takes for commands, and the loop that reads lines.

  A pointer into the line buffer is an offset; an access behind the buffer, or behind the three
  arguments of a command, is the fault \<open>OutOfBounds\<close>.  What successive calls of \<open>read\<close> on the
  standard input return is a list, an empty entry for the end of the input or an error.  \<open>sh_brk\<close> is
  the end of the memory of the process, as \<open>sbrk\<close> moves it.  The prompt and the message of a failed
  parse are not kept.
\<close>

section \<open>The shell\<close>

abbreviation (input) NARGS :: nat where "NARGS \<equiv> 3"
abbreviation (input) SH_BUF_SZ :: nat where "SH_BUF_SZ \<equiv> 512"

definition whitespace :: "u8 list" where
  "whitespace = [32, 9, 13, 10]"

definition symbols :: "u8 list" where
  "symbols = [124, 38, 59, 40, 41]"

text \<open>Commands.  An argument is an offset in the line buffer, or a word (\<open>'a\<close>).\<close>

datatype 'a cmd =
    EXEC "'a list"
  | PIPE "'a cmd option" "'a cmd option"
  | SEQ "'a cmd option" "'a cmd option"

record shell =
  sh_buf :: "u8 list"
  sh_p :: nat
  sh_allocated :: u32
  sh_brk :: u32
  sh_inp :: "u8 list list"

definition alloc :: "u32 \<Rightarrow> shell \<Rightarrow> shell" where
  "alloc n s = s\<lparr>sh_allocated := sh_allocated s + n, sh_brk := sh_brk s + n\<rparr>"

definition free_heap :: "shell \<Rightarrow> shell" where
  "free_heap s =
     (let s = (if sh_allocated s > 0 then s\<lparr>sh_brk := sh_brk s - sh_allocated s\<rparr> else s)
      in s\<lparr>sh_allocated := 0\<rparr>)"

definition clear :: "shell \<Rightarrow> shell" where
  "clear s = free_heap (s\<lparr>sh_buf := replicate SH_BUF_SZ 0, sh_p := 0\<rparr>)"

text \<open>\<open>*st.p\<close>\<close>

definition cur :: "shell \<Rightarrow> u8 res" where
  "cur s = (if sh_p s < length (sh_buf s) then Inr (sh_buf s ! sh_p s) else Inl OutOfBounds)"

abbreviation (input) advance :: "shell \<Rightarrow> shell" where
  "advance s \<equiv> s\<lparr>sh_p := sh_p s + 1\<rparr>"

lemma cur_Inr: "cur s = Inr c \<longleftrightarrow> sh_p s < length (sh_buf s) \<and> c = sh_buf s ! sh_p s"
  by (auto simp: cur_def)

function skip_whitespaces :: "shell \<Rightarrow> shell res" where
  "skip_whitespaces s =
     rbind (cur s) (\<lambda>c. if c \<noteq> 0 \<and> c \<in> set whitespace then skip_whitespaces (advance s) else Inr s)"
  by pat_completeness auto
termination
  by (relation "measure (\<lambda>s. length (sh_buf s) - sh_p s)") (auto simp: cur_Inr)

function word_end :: "shell \<Rightarrow> shell res" where
  "word_end s =
     rbind (cur s) (\<lambda>c.
     if c \<noteq> 0 \<and> c \<notin> set whitespace \<and> c \<notin> set symbols then word_end (advance s) else Inr s)"
  by pat_completeness auto
termination
  by (relation "measure (\<lambda>s. length (sh_buf s) - sh_p s)") (auto simp: cur_Inr)

declare skip_whitespaces.simps [simp del] word_end.simps [simp del]

definition parse_word :: "shell \<Rightarrow> (nat \<times> shell) res" where
  "parse_word s =
     rbind (skip_whitespaces s) (\<lambda>s.
     let begin = sh_p s in
     rbind (word_end s) (\<lambda>s.
     Inr (begin, s\<lparr>sh_buf := (sh_buf s)[sh_p s := 0]\<rparr>)))"

lemma skip_whitespaces_grows: "skip_whitespaces s = Inr t \<Longrightarrow> sh_p s \<le> sh_p t \<and> sh_buf t = sh_buf s \<and> sh_p t < length (sh_buf t) \<and> sh_inp t = sh_inp s"
  by (induction s rule: skip_whitespaces.induct) (subst (asm) (2) skip_whitespaces.simps, force simp: res_iff cur_Inr split: if_splits)

lemma word_end_grows: "word_end s = Inr t \<Longrightarrow> sh_p s \<le> sh_p t \<and> sh_buf t = sh_buf s \<and> sh_p t < length (sh_buf t) \<and> sh_inp t = sh_inp s"
  by (induction s rule: word_end.induct) (subst (asm) (2) word_end.simps, force simp: res_iff cur_Inr split: if_splits)

lemma parse_word_grows:
  assumes "parse_word s = Inr (b, t)"
  shows "sh_p s \<le> sh_p t \<and> length (sh_buf t) = length (sh_buf s) \<and> sh_p t < length (sh_buf t) \<and> sh_inp t = sh_inp s"
  using assms by (auto simp: parse_word_def res_iff Let_def dest!: skip_whitespaces_grows word_end_grows)

text \<open>The words of a command.  The test \<open>i > NARGS\<close> comes too late for the fourth.\<close>

function exec_loop :: "nat list \<Rightarrow> shell \<Rightarrow> (nat cmd option \<times> shell) res" where
  "exec_loop argv s =
     rbind (cur s) (\<lambda>c.
     if c \<noteq> 0 \<and> c \<notin> set symbols
     then
       if length argv > NARGS then Inr (None, s)
       else
         rbind (parse_word s) (\<lambda>(arg, s).
         let s = advance s in
         if length argv \<ge> NARGS then Inl OutOfBounds
         else rbind (skip_whitespaces s) (\<lambda>s. exec_loop (argv @ [arg]) s))
     else Inr (Some (EXEC argv), s))"
  by pat_completeness auto
termination
  by (relation "measure (\<lambda>(argv, s). length (sh_buf s) - sh_p s)")
    (auto simp: cur_Inr dest!: parse_word_grows skip_whitespaces_grows)

declare exec_loop.simps [simp del]

definition parse_exec :: "shell \<Rightarrow> (nat cmd option \<times> shell) res" where
  "parse_exec s = exec_loop [] (alloc 16 s)"

lemma exec_loop_grows: "exec_loop argv s = Inr (c, t) \<Longrightarrow> sh_p s \<le> sh_p t \<and> length (sh_buf t) = length (sh_buf s) \<and> sh_inp t = sh_inp s"
proof (induction argv s rule: exec_loop.induct)
  case (1 argv s)
  obtain ch where ch: "cur s = Inr ch" using "1.prems" by (subst (asm) exec_loop.simps) (auto simp: res_iff)
  show ?case
  proof (cases "ch \<noteq> 0 \<and> ch \<notin> set symbols \<and> \<not> length argv > NARGS")
    case True
    then obtain arg u v where u: "parse_word s = Inr (arg, u)" "\<not> length argv \<ge> NARGS" "skip_whitespaces (advance u) = Inr v"
      "exec_loop (argv @ [arg]) v = Inr (c, t)"
      using "1.prems" ch by (subst (asm) exec_loop.simps) (auto simp: res_iff Let_def split: if_splits)
    have "sh_p v \<le> sh_p t \<and> length (sh_buf t) = length (sh_buf v) \<and> sh_inp t = sh_inp v"
      using "1.IH" [OF ch _ _ u(1) refl refl u(2,3,4)] True by blast
    then show ?thesis using parse_word_grows [OF u(1)] skip_whitespaces_grows [OF u(3)] by auto
  next
    case False
    then show ?thesis using "1.prems" ch by (subst (asm) exec_loop.simps) (auto split: if_splits)
  qed
qed

lemma parse_exec_grows: "parse_exec s = Inr (c, t) \<Longrightarrow> sh_p s \<le> sh_p t \<and> length (sh_buf t) = length (sh_buf s) \<and> sh_inp t = sh_inp s"
  by (auto simp: parse_exec_def alloc_def dest!: exec_loop_grows)

function parse_pipe :: "shell \<Rightarrow> (nat cmd option \<times> shell) res" where
  "parse_pipe s =
     rbind (parse_exec s) (\<lambda>(cmd, s).
     rbind (skip_whitespaces s) (\<lambda>s.
     rbind (cur s) (\<lambda>c.
     if c = 124
     then rbind (parse_pipe (alloc 12 (advance s))) (\<lambda>(cmd2, s). Inr (Some (PIPE cmd cmd2), s))
     else Inr (cmd, s))))"
  by pat_completeness auto
termination
  by (relation "measure (\<lambda>s. length (sh_buf s) - sh_p s)")
    (auto simp: cur_Inr alloc_def dest!: parse_exec_grows skip_whitespaces_grows)

declare parse_pipe.simps [simp del]

lemma parse_pipe_grows: "parse_pipe s = Inr (c, t) \<Longrightarrow> sh_p s \<le> sh_p t \<and> length (sh_buf t) = length (sh_buf s) \<and> sh_inp t = sh_inp s"
proof (induction s arbitrary: c t rule: parse_pipe.induct)
  case (1 s)
  from "1.prems" obtain cm u v x where u: "parse_exec s = Inr (cm, u)" "skip_whitespaces u = Inr v" "cur v = Inr x"
    by (subst (asm) parse_pipe.simps) (auto simp: res_iff)
  note g = parse_exec_grows [OF u(1)] skip_whitespaces_grows [OF u(2)]
  show ?case
  proof (cases "x = 124")
    case True
    then obtain c2 where r: "parse_pipe (alloc 12 (advance v)) = Inr (c2, t)"
      using "1.prems" u by (subst (asm) parse_pipe.simps) (auto simp: res_iff)
    show ?thesis using "1.IH" [OF u(1) refl u(2,3) True r] g by (simp add: alloc_def)
  next
    case False
    then have "t = v" using "1.prems" u by (subst (asm) parse_pipe.simps) simp
    then show ?thesis using g by simp
  qed
qed

function parse_seq :: "shell \<Rightarrow> (nat cmd option \<times> shell) res" where
  "parse_seq s =
     rbind (parse_pipe s) (\<lambda>(cmd, s).
     rbind (skip_whitespaces s) (\<lambda>s.
     rbind (cur s) (\<lambda>c.
     if c = 59
     then rbind (parse_seq (alloc 12 (advance s))) (\<lambda>(cmd2, s). Inr (Some (SEQ cmd cmd2), s))
     else Inr (cmd, s))))"
  by pat_completeness auto
termination
  by (relation "measure (\<lambda>s. length (sh_buf s) - sh_p s)")
    (auto simp: cur_Inr alloc_def dest!: parse_pipe_grows skip_whitespaces_grows)

declare parse_seq.simps [simp del]

lemma parse_seq_grows: "parse_seq s = Inr (c, t) \<Longrightarrow> sh_p s \<le> sh_p t \<and> length (sh_buf t) = length (sh_buf s) \<and> sh_inp t = sh_inp s"
proof (induction s arbitrary: c t rule: parse_seq.induct)
  case (1 s)
  from "1.prems" obtain cm u v x where u: "parse_pipe s = Inr (cm, u)" "skip_whitespaces u = Inr v" "cur v = Inr x"
    by (subst (asm) parse_seq.simps) (auto simp: res_iff)
  note g = parse_pipe_grows [OF u(1)] skip_whitespaces_grows [OF u(2)]
  show ?case
  proof (cases "x = 59")
    case True
    then obtain c2 where r: "parse_seq (alloc 12 (advance v)) = Inr (c2, t)"
      using "1.prems" u by (subst (asm) parse_seq.simps) (auto simp: res_iff)
    show ?thesis using "1.IH" [OF u(1) refl u(2,3) True r] g by (simp add: alloc_def)
  next
    case False
    then have "t = v" using "1.prems" u by (subst (asm) parse_seq.simps) simp
    then show ?thesis using g by simp
  qed
qed

definition parse_cmd :: "shell \<Rightarrow> (nat cmd option \<times> shell) res" where
  "parse_cmd s = rbind (skip_whitespaces s) parse_seq"

text \<open>\<open>gets\<close>: \<open>rest\<close> is what the last call of \<open>read\<close> has left in the local buffer; it is lost when the
  line ends.  The result tells whether the input ended.\<close>

function sh_gets_loop :: "nat \<Rightarrow> u8 list \<Rightarrow> shell \<Rightarrow> nat \<times> bool \<times> shell" where
  "sh_gets_loop i rest s =
     (if i < SH_BUF_SZ - 1
      then
        (case rest of
           [] \<Rightarrow>
             (case sh_inp s of
                [] \<Rightarrow> (i, True, s)
              | chunk # later \<Rightarrow>
                  if chunk = [] then (i, True, s\<lparr>sh_inp := later\<rparr>) else sh_gets_loop i chunk (s\<lparr>sh_inp := later\<rparr>))
         | c # rest \<Rightarrow>
             let s = s\<lparr>sh_buf := (sh_buf s)[i := c]\<rparr> in
             if c = 10 \<or> c = 13 then (i + 1, False, s) else sh_gets_loop (i + 1) rest s)
      else (i, False, s))"
  by pat_completeness auto
termination
  by (relation "measures [\<lambda>(i, rest, s). length (sh_inp s), \<lambda>(i, rest, s). length rest]") auto

declare sh_gets_loop.simps [simp del]

definition sh_gets :: "shell \<Rightarrow> bool \<times> shell" where
  "sh_gets s =
     (let (i, ended, s) = sh_gets_loop 0 [] s;
          s = s\<lparr>sh_buf := (sh_buf s)[i := 0]\<rparr>
      in (\<not> (i = 0 \<and> ended), s))"

definition next_line :: "shell \<Rightarrow> bool \<times> shell" where
  "next_line s = (let (_, s) = sh_gets (clear s) in (sh_buf s ! 0 \<noteq> 0, s))"

definition run_cmd :: "nat cmd \<Rightarrow> shell \<Rightarrow> shell" where
  "run_cmd cmd s = (case cmd of EXEC argv \<Rightarrow> s | PIPE cmd1 cmd2 \<Rightarrow> s | SEQ cmd1 cmd2 \<Rightarrow> s)"

text \<open>One line: what the shell does with it.  Both processes go on with the loop after \<open>fork\<close>, the new one
  because \<open>run_cmd\<close> returns; \<open>sh_main\<close> is the run of either on the input that it reads.\<close>

datatype action = Forked "nat cmd" | Failed

lemma sh_gets_loop_inp: "sh_gets_loop i rest s = (j, e, t) \<Longrightarrow> i \<le> j \<and> length (sh_buf t) = length (sh_buf s) \<and>
    length (sh_inp t) \<le> length (sh_inp s) \<and> (rest = [] \<and> i < j \<longrightarrow> length (sh_inp t) < length (sh_inp s))"
proof (induction i rest s rule: sh_gets_loop.induct)
  case (1 i rest s)
  show ?case
  proof (cases "i < SH_BUF_SZ - 1")
    case False
    then show ?thesis using "1.prems" by (subst (asm) sh_gets_loop.simps) auto
  next
    case i: True
    show ?thesis
    proof (cases rest)
      case Nil
      then show ?thesis using "1.prems" i "1.IH"(1) [OF i Nil]
        by (subst (asm) sh_gets_loop.simps) (fastforce split: list.splits if_splits)
    next
      case (Cons c r)
      then show ?thesis using "1.prems" i "1.IH"(2) [OF i Cons refl]
        by (subst (asm) sh_gets_loop.simps) (auto simp: Let_def split: if_splits)
    qed
  qed
qed

lemma next_line_inp:
  assumes "next_line s = (True, t)"
  shows "length (sh_inp t) < length (sh_inp s)"
proof -
  obtain j e u where g: "sh_gets_loop 0 [] (clear s) = (j, e, u)" by (metis prod.collapse)
  have c: "length (sh_buf (clear s)) = 512" "sh_inp (clear s) = sh_inp s" by (simp_all add: clear_def free_heap_def Let_def)
  have "length (sh_buf u) = 512" using sh_gets_loop_inp [OF g] c by simp
  then have "j \<noteq> 0" using assms g by (cases j) (auto simp: next_line_def sh_gets_def Let_def)
  then show ?thesis using sh_gets_loop_inp [OF g] c assms g by (auto simp: next_line_def sh_gets_def Let_def)
qed

function sh_main :: "shell \<Rightarrow> action list res" where
  "sh_main s =
     (let (b, s') = next_line s in
      if \<not> b then Inr []
      else
        rbind (parse_cmd s') (\<lambda>(cmd, s'').
        rbind (sh_main (case cmd of None \<Rightarrow> s'' | Some c \<Rightarrow> run_cmd c s'')) (\<lambda>as.
        Inr ((case cmd of None \<Rightarrow> Failed | Some c \<Rightarrow> Forked c) # as))))"
  by pat_completeness auto
termination
proof (relation "measure (\<lambda>s. length (sh_inp s))")
  fix s x b s' y cmd s''
  assume a: "x = next_line s" "(b, s') = x" "\<not> \<not> b" "parse_cmd s' = Inr y" "(cmd, s'') = y"
  then have "sh_inp s'' = sh_inp s'" by (auto simp: parse_cmd_def res_iff dest!: parse_seq_grows skip_whitespaces_grows)
  moreover have "length (sh_inp s') < length (sh_inp s)" using next_line_inp [of s s'] a by auto
  ultimately show "(case cmd of None \<Rightarrow> s'' | Some c \<Rightarrow> run_cmd c s'', s) \<in> measure (\<lambda>s. length (sh_inp s))"
    by (simp add: run_cmd_def split: option.split cmd.split)
qed simp

section \<open>Lines and their commands\<close>

definition spaces :: "u8 list \<Rightarrow> bool" where
  "spaces xs \<longleftrightarrow> set xs \<subseteq> set whitespace"

definition plain_word :: "u8 list \<Rightarrow> bool" where
  "plain_word w \<longleftrightarrow> w \<noteq> [] \<and> (\<forall>c \<in> set w. c \<noteq> 0 \<and> c \<notin> set whitespace \<and> c \<notin> set symbols)"

text \<open>The text at the pointer.\<close>

definition ahead :: "shell \<Rightarrow> u8 list" where
  "ahead s = drop (sh_p s) (sh_buf s)"

lemma ahead_Cons:
  assumes "ahead s = c # r"
  shows "cur s = Inr c \<and> ahead (advance s) = r"
proof -
  have "sh_p s < length (sh_buf s)" using assms by (intro not_le_imp_less) (auto simp: ahead_def)
  then show ?thesis using Cons_nth_drop_Suc [of "sh_p s" "sh_buf s"] assms by (simp add: ahead_def cur_def)
qed

lemma ahead_skip: "spaces sp \<Longrightarrow> ahead s = sp @ c # r \<Longrightarrow> c = 0 \<or> c \<notin> set whitespace \<Longrightarrow>
    skip_whitespaces s = Inr (s\<lparr>sh_p := sh_p s + length sp\<rparr>)"
proof (induction sp arbitrary: s)
  case Nil
  then show ?case using ahead_Cons [of s c r] by (subst skip_whitespaces.simps) auto
next
  case (Cons x sp)
  then have x: "x \<noteq> 0" "x \<in> set whitespace" "spaces sp" by (auto simp: spaces_def whitespace_def)
  have "cur s = Inr x" "ahead (advance s) = sp @ c # r" using ahead_Cons [of s x] Cons.prems by simp_all
  then show ?case using Cons.IH [of "advance s"] x Cons.prems(3) by (subst skip_whitespaces.simps) simp
qed

lemma ahead_word: "\<forall>c \<in> set w. c \<noteq> 0 \<and> c \<notin> set whitespace \<and> c \<notin> set symbols \<Longrightarrow> ahead s = w @ c # r \<Longrightarrow>
    c = 0 \<or> c \<in> set whitespace \<or> c \<in> set symbols \<Longrightarrow> word_end s = Inr (s\<lparr>sh_p := sh_p s + length w\<rparr>)"
proof (induction w arbitrary: s)
  case Nil
  then show ?case using ahead_Cons [of s c r] by (subst word_end.simps) auto
next
  case (Cons x w)
  have "cur s = Inr x" "ahead (advance s) = w @ c # r" using ahead_Cons [of s x] Cons.prems by simp_all
  then show ?case using Cons.IH [of "advance s"] Cons.prems(1,3) by (subst word_end.simps) simp
qed

lemma ahead_parse_word:
  assumes "ahead s = sp @ w @ c # r" "spaces sp" "plain_word w" "c = 0 \<or> c \<in> set whitespace \<or> c \<in> set symbols"
  shows "parse_word s = Inr (sh_p s + length sp,
    s\<lparr>sh_p := sh_p s + length sp + length w, sh_buf := (sh_buf s)[sh_p s + length sp + length w := 0]\<rparr>)"
proof -
  obtain x v where w: "w = x # v" "x \<notin> set whitespace" using assms(3) by (cases w) (auto simp: plain_word_def)
  let ?s = "s\<lparr>sh_p := sh_p s + length sp\<rparr>"
  have "skip_whitespaces s = Inr ?s" using ahead_skip [OF assms(2), of s x] assms(1) w by simp
  moreover have "ahead ?s = drop (length sp) (ahead s)" by (simp add: ahead_def add.commute)
  then have "ahead ?s = w @ c # r" using assms(1) by simp
  then have "word_end ?s = Inr (?s\<lparr>sh_p := sh_p ?s + length w\<rparr>)" using ahead_word [of w ?s] assms(3,4) by (simp add: plain_word_def)
  ultimately show ?thesis by (simp add: parse_word_def Let_def)
qed

text \<open>The word that starts at an offset of the buffer.\<close>

definition word_at :: "u8 list \<Rightarrow> nat \<Rightarrow> u8 list" where
  "word_at b i = takeWhile (\<lambda>c. c \<noteq> 0) (drop i b)"

lemma word_at_cut:
  assumes "drop i b = w @ c # r" "0 \<notin> set w" "take n b' = take n (b[i + length w := 0])" "i + length w < n" "n \<le> length b"
  shows "word_at b' i = w"
proof -
  define k where "k = n - i - length w - 1"
  have n: "n - i = length w + Suc k" using assms(4) by (simp add: k_def)
  have b: "b = (take i b @ w) @ c # r" using append_take_drop_id [of i b] assms(1) by simp
  have l: "length (take i b @ w) = i + length w" "length (take i b) = i" using assms(4,5) by simp_all
  have "b[i + length w := 0] = (take i b @ w) @ 0 # r" by (subst b, subst l(1) [symmetric], rule list_update_length)
  then have "drop i (b[i + length w := 0]) = w @ 0 # r" using l(2) by simp
  then have t: "take (n - i) (drop i b') = w @ 0 # take k r"
    using arg_cong [OF assms(3), of "drop i"] unfolding drop_take n by simp
  have "drop i b' = w @ 0 # take k r @ drop (n - i) (drop i b')"
    using append_take_drop_id [of "n - i" "drop i b'"] unfolding t by simp
  moreover have "takeWhile (\<lambda>c. c \<noteq> 0) (w @ 0 # y) = w" for y using assms(2) by (subst takeWhile_append2) auto
  ultimately show ?thesis unfolding word_at_def by metis
qed

text \<open>Parsing moves on and leaves the buffer in front of the pointer alone.\<close>

definition moved :: "shell \<Rightarrow> shell \<Rightarrow> bool" where
  "moved s t \<longleftrightarrow> sh_p s \<le> sh_p t \<and> length (sh_buf t) = length (sh_buf s) \<and> take (sh_p s) (sh_buf t) = take (sh_p s) (sh_buf s)"

lemma take_less: "m \<le> n \<Longrightarrow> take n xs = take n ys \<Longrightarrow> take m xs = take m ys"
  by (metis min.absorb1 take_take)

lemma moved_trans: "moved s t \<Longrightarrow> moved t u \<Longrightarrow> moved s u"
  using take_less [of "sh_p s" "sh_p t" "sh_buf u" "sh_buf t"] by (auto simp: moved_def)

lemma moved_refl [simp]: "moved s s"
  by (simp add: moved_def)

definition exec_text :: "u8 list list \<Rightarrow> u8 list" where
  "exec_text ws = concat (map (\<lambda>w. w @ [32]) ws)"

lemma symbol_not_space: "c = 0 \<or> c \<in> set symbols \<Longrightarrow> c = 0 \<or> c \<notin> set whitespace"
  by (auto simp: symbols_def whitespace_def)

lemma space_not_symbol: "c \<in> set whitespace \<Longrightarrow> c \<noteq> 0 \<and> c \<notin> set symbols"
  by (auto simp: symbols_def whitespace_def)

lemma exec_first:
  assumes "ahead s = sp @ w @ x # r" "spaces sp" "plain_word w"
  shows "\<exists>c. cur s = Inr c \<and> c \<noteq> 0 \<and> c \<notin> set symbols"
proof (cases sp)
  case Nil
  then show ?thesis using assms(1,3) ahead_Cons [of s] by (cases w) (auto simp: plain_word_def)
next
  case (Cons y sp')
  then show ?thesis using assms(1,2) ahead_Cons [of s y] space_not_symbol [of y] by (auto simp: spaces_def)
qed

text \<open>One word and the character behind it, which becomes a NUL whatever it is.\<close>

lemma exec_word:
  assumes "ahead s = sp @ w @ x # r" "spaces sp" "plain_word w" "x = 0 \<or> x \<in> set whitespace \<or> x \<in> set symbols"
    "length argv < NARGS"
  shows "\<exists>i u. exec_loop argv s = rbind (skip_whitespaces u) (exec_loop (argv @ [i])) \<and> ahead u = r \<and> moved s u \<and>
    (\<forall>b. take (sh_p u) b = take (sh_p u) (sh_buf u) \<longrightarrow> word_at b i = w)"
proof -
  let ?i = "sh_p s + length sp" and ?e = "sh_p s + length sp + length w"
  let ?u = "s\<lparr>sh_buf := (sh_buf s)[?e := 0], sh_p := ?e + 1\<rparr>"
  obtain c where c: "cur s = Inr c" "c \<noteq> 0" "c \<notin> set symbols" using exec_first [OF assms(1-3)] by blast
  have "exec_loop argv s = rbind (skip_whitespaces ?u) (exec_loop (argv @ [?i]))"
    using c ahead_parse_word [OF assms(1-4)] assms(5) by (subst exec_loop.simps) simp
  moreover have d: "drop (?e + 1) (sh_buf s) = drop (length sp + length w + 1) (ahead s)" by (simp add: ahead_def add_ac)
  then have "drop (?e + 1) (sh_buf s) = r" unfolding d assms(1) by simp
  then have "ahead ?u = r" by (simp add: ahead_def)
  moreover have "moved s ?u" by (simp add: moved_def)
  moreover have "word_at b ?i = w" if "take (?e + 1) b = take (?e + 1) ((sh_buf s)[?e := 0])" for b
  proof (rule word_at_cut)
    have "drop ?i (sh_buf s) = drop (length sp) (ahead s)" by (simp add: ahead_def add_ac)
    then show "drop ?i (sh_buf s) = w @ x # r" using assms(1) by simp
    show "0 \<notin> set w" using assms(3) by (auto simp: plain_word_def)
    have "length (ahead s) = length (sh_buf s) - sh_p s" by (simp add: ahead_def)
    then show "?e + 1 \<le> length (sh_buf s)" using assms(1) by simp
  qed (use that in simp_all)
  ultimately show ?thesis by (intro exI [of _ ?i] exI [of _ ?u]) simp
qed

lemma exec_loop_ok:
  assumes "ahead s = sp0 @ exec_text ws @ (if ws = [] then [] else sp) @ c # r" "spaces sp0" "spaces sp" "ws = [] \<Longrightarrow> sp0 = []"
    "c = 0 \<or> c \<in> set symbols" "\<forall>w \<in> set ws. plain_word w" "length argv + length ws \<le> NARGS"
  shows "\<exists>ps t. exec_loop argv s = Inr (Some (EXEC (argv @ ps)), t) \<and> ahead t = c # r \<and> moved s t \<and>
    (\<forall>b. take (sh_p t) b = take (sh_p t) (sh_buf t) \<longrightarrow> map (word_at b) ps = ws)"
  using assms
proof (induction ws arbitrary: argv s sp0)
  case Nil
  then have "cur s = Inr c" "ahead s = c # r" using ahead_Cons [of s c r] by (simp_all add: exec_text_def)
  then show ?case using Nil.prems(5) by (subst exec_loop.simps) auto
next
  case (Cons w ws)
  let ?sp = "if ws = [] then [] else sp"
  have a: "ahead s = sp0 @ w @ 32 # exec_text ws @ sp @ c # r" using Cons.prems(1) by (simp add: exec_text_def)
  obtain i u where u: "exec_loop argv s = rbind (skip_whitespaces u) (exec_loop (argv @ [i]))" "ahead u = exec_text ws @ sp @ c # r" "moved s u"
    "\<forall>b. take (sh_p u) b = take (sh_p u) (sh_buf u) \<longrightarrow> word_at b i = w"
    using exec_word [OF a Cons.prems(2), of argv] Cons.prems(6,7) by (auto simp: whitespace_def)
  have "\<exists>v. skip_whitespaces u = Inr v \<and> ahead v = exec_text ws @ ?sp @ c # r \<and> moved u v \<and> sh_buf v = sh_buf u"
  proof (cases ws)
    case Nil
    then have "skip_whitespaces u = Inr (u\<lparr>sh_p := sh_p u + length sp\<rparr>)"
      using ahead_skip [OF Cons.prems(3) _ symbol_not_space [OF Cons.prems(5)], of u] u(2) by (simp add: exec_text_def)
    moreover have "ahead (u\<lparr>sh_p := sh_p u + length sp\<rparr>) = drop (length sp) (ahead u)" by (simp add: ahead_def add_ac)
    ultimately show ?thesis using u(2) Nil by (simp add: exec_text_def moved_def)
  next
    case (Cons w' ws')
    then obtain y w'' where y: "w' = y # w''" "y \<notin> set whitespace" using Cons.prems(6) by (cases w') (auto simp: plain_word_def)
    then have "ahead u = y # w'' @ 32 # exec_text ws' @ sp @ c # r" using u(2) Cons by (simp add: exec_text_def)
    then have "skip_whitespaces u = Inr u" using ahead_skip [of "[]" u y] y by (simp add: spaces_def)
    then show ?thesis using u(2) Cons by simp
  qed
  then obtain v where v: "skip_whitespaces u = Inr v" "ahead v = exec_text ws @ ?sp @ c # r" "moved u v" "sh_buf v = sh_buf u" by blast
  obtain ps t where t: "exec_loop (argv @ [i]) v = Inr (Some (EXEC ((argv @ [i]) @ ps)), t)" "ahead t = c # r" "moved v t"
    "\<forall>b. take (sh_p t) b = take (sh_p t) (sh_buf t) \<longrightarrow> map (word_at b) ps = ws"
    using Cons.IH [of v "[]" "argv @ [i]"] v(2) Cons.prems(3,5-7) by (auto simp: spaces_def)
  have ct: "moved u t" "moved s t" using moved_trans [OF v(3) t(3)] moved_trans [OF u(3)] by simp_all
  have "word_at b i = w" if "take (sh_p t) b = take (sh_p t) (sh_buf t)" for b
    using u(4) take_less [OF _ that, of "sh_p u"] ct(1) by (simp add: moved_def)
  then show ?case using u(1) v(1) t ct(2) by (intro exI [of _ "i # ps"] exI [of _ t]) simp
qed

lemma ahead_alloc [simp]: "ahead (alloc n s) = ahead s" "moved s (alloc n t) = moved s t" "moved (alloc n s) t = moved s t"
  by (simp_all add: alloc_def ahead_def moved_def)

lemma moved_advance: "moved s (advance s)"
  by (simp add: moved_def)

lemma ahead_stop:
  assumes "ahead s = c # r" "c = 0 \<or> c \<in> set symbols"
  shows "skip_whitespaces s = Inr s" "cur s = Inr c"
  using ahead_skip [of "[]" s c r] symbol_not_space [OF assms(2)] ahead_Cons [OF assms(1)] assms(1) by (simp_all add: spaces_def)

definition exec_ok :: "u8 list list \<Rightarrow> bool" where
  "exec_ok ws \<longleftrightarrow> ws \<noteq> [] \<and> length ws \<le> NARGS \<and> (\<forall>w \<in> set ws. plain_word w)"

lemma parse_exec_ok:
  assumes "ahead s = sp0 @ exec_text ws @ sp @ c # r" "spaces sp0" "spaces sp" "c = 0 \<or> c \<in> set symbols" "exec_ok ws"
  shows "\<exists>ps t. parse_exec s = Inr (Some (EXEC ps), t) \<and> ahead t = c # r \<and> moved s t \<and>
    (\<forall>b. take (sh_p t) b = take (sh_p t) (sh_buf t) \<longrightarrow> map (word_at b) ps = ws)"
  using exec_loop_ok [of "alloc 16 s" sp0 ws sp c r "[]"] assms by (simp add: parse_exec_def exec_ok_def)

text \<open>Pipelines and sequences, printed with blanks around every operator.\<close>

fun pipe_text :: "u8 list list list \<Rightarrow> u8 list" where
  "pipe_text [] = []"
| "pipe_text [e] = exec_text e"
| "pipe_text (e # es) = exec_text e @ [124, 32] @ pipe_text es"

fun pipe_cmd :: "u8 list list list \<Rightarrow> u8 list cmd" where
  "pipe_cmd [] = EXEC []"
| "pipe_cmd [e] = EXEC e"
| "pipe_cmd (e # es) = PIPE (Some (EXEC e)) (Some (pipe_cmd es))"

fun seq_text :: "u8 list list list list \<Rightarrow> u8 list" where
  "seq_text [] = []"
| "seq_text [q] = pipe_text q"
| "seq_text (q # qs) = pipe_text q @ [59, 32] @ seq_text qs"

fun seq_cmd :: "u8 list list list list \<Rightarrow> u8 list cmd" where
  "seq_cmd [] = EXEC []"
| "seq_cmd [q] = pipe_cmd q"
| "seq_cmd (q # qs) = SEQ (Some (pipe_cmd q)) (Some (seq_cmd qs))"

definition parsed :: "shell \<Rightarrow> (nat cmd option \<times> shell) res \<Rightarrow> u8 list \<Rightarrow> u8 list cmd \<Rightarrow> bool" where
  "parsed s res rest c \<longleftrightarrow> (\<exists>p t. res = Inr (Some p, t) \<and> ahead t = rest \<and> moved s t \<and>
     (\<forall>b. take (sh_p t) b = take (sh_p t) (sh_buf t) \<longrightarrow> map_cmd (word_at b) p = c))"

lemma words_stay: "moved t u \<Longrightarrow> take (sh_p u) b = take (sh_p u) (sh_buf u) \<Longrightarrow> take (sh_p t) b = take (sh_p t) (sh_buf t)"
  using take_less [of "sh_p t" "sh_p u" b "sh_buf u"] by (simp add: moved_def)

lemma parse_pipe_ok:
  assumes "es \<noteq> []" "\<forall>e \<in> set es. exec_ok e" "ahead s = sp0 @ pipe_text es @ sp @ c # r" "spaces sp0" "spaces sp"
    "c = 0 \<or> c \<in> set symbols" "c \<noteq> 124"
  shows "parsed s (parse_pipe s) (c # r) (pipe_cmd es)"
  using assms
proof (induction es arbitrary: s sp0 rule: pipe_text.induct)
  case (2 e)
  then obtain ps t where t: "parse_exec s = Inr (Some (EXEC ps), t)" "ahead t = c # r" "moved s t"
    "\<forall>b. take (sh_p t) b = take (sh_p t) (sh_buf t) \<longrightarrow> map (word_at b) ps = e"
    using parse_exec_ok [of s sp0 e sp c r] by auto
  then have "parse_pipe s = Inr (Some (EXEC ps), t)" using ahead_stop [OF t(2) 2(6)] 2(7) by (subst parse_pipe.simps) simp
  then show ?case using t by (simp add: parsed_def)
next
  case (3 e e' es)
  let ?es = "e' # es"
  obtain ps t where t: "parse_exec s = Inr (Some (EXEC ps), t)" "ahead t = 124 # 32 # pipe_text ?es @ sp @ c # r" "moved s t"
    "\<forall>b. take (sh_p t) b = take (sh_p t) (sh_buf t) \<longrightarrow> map (word_at b) ps = e"
    using parse_exec_ok [of s sp0 e "[]" 124 "32 # pipe_text ?es @ sp @ c # r"] 3 by (auto simp: spaces_def symbols_def)
  let ?v = "alloc 12 (advance t)"
  have st: "skip_whitespaces t = Inr t" "cur t = Inr 124" using ahead_stop [OF t(2)] by (simp_all add: symbols_def)
  have av: "ahead ?v = [32] @ pipe_text ?es @ sp @ c # r" using ahead_Cons [OF t(2)] by simp
  have "parsed ?v (parse_pipe ?v) (c # r) (pipe_cmd ?es)"
    using "3.IH" [OF _ _ av] "3.prems" by (simp add: spaces_def whitespace_def)
  then obtain q u where u: "parse_pipe ?v = Inr (Some q, u)" "ahead u = c # r" "moved ?v u"
    "\<forall>b. take (sh_p u) b = take (sh_p u) (sh_buf u) \<longrightarrow> map_cmd (word_at b) q = pipe_cmd ?es" by (auto simp: parsed_def)
  have "moved t u" using moved_trans [OF moved_advance, of t u] u(3) by simp
  moreover have "parse_pipe s = Inr (Some (PIPE (Some (EXEC ps)) (Some q)), u)"
    using t(1) st u(1) by (subst parse_pipe.simps) simp
  ultimately show ?case using t(3,4) u(2,4) moved_trans words_stay unfolding parsed_def
    by (intro exI [of _ "PIPE (Some (EXEC ps)) (Some q)"] exI [of _ u]) auto
qed simp

lemma parse_seq_ok:
  assumes "qs \<noteq> []" "\<forall>q \<in> set qs. q \<noteq> [] \<and> (\<forall>e \<in> set q. exec_ok e)" "ahead s = sp0 @ seq_text qs @ sp @ c # r" "spaces sp0" "spaces sp"
    "c = 0 \<or> c \<in> set symbols" "c \<noteq> 124" "c \<noteq> 59"
  shows "parsed s (parse_seq s) (c # r) (seq_cmd qs)"
  using assms
proof (induction qs arbitrary: s sp0 rule: seq_text.induct)
  case (2 q)
  then obtain p t where t: "parse_pipe s = Inr (Some p, t)" "ahead t = c # r" "moved s t"
    "\<forall>b. take (sh_p t) b = take (sh_p t) (sh_buf t) \<longrightarrow> map_cmd (word_at b) p = pipe_cmd q"
    using parse_pipe_ok [of q s sp0 sp c r] by (auto simp: parsed_def)
  then have "parse_seq s = Inr (Some p, t)" using ahead_stop [OF t(2) 2(6)] 2(8) by (subst parse_seq.simps) simp
  then show ?case using t by (simp add: parsed_def)
next
  case (3 q q' qs)
  let ?qs = "q' # qs"
  obtain p t where t: "parse_pipe s = Inr (Some p, t)" "ahead t = 59 # 32 # seq_text ?qs @ sp @ c # r" "moved s t"
    "\<forall>b. take (sh_p t) b = take (sh_p t) (sh_buf t) \<longrightarrow> map_cmd (word_at b) p = pipe_cmd q"
    using parse_pipe_ok [of q s sp0 "[]" 59 "32 # seq_text ?qs @ sp @ c # r"] 3 by (auto simp: spaces_def symbols_def parsed_def)
  let ?v = "alloc 12 (advance t)"
  have st: "skip_whitespaces t = Inr t" "cur t = Inr 59" using ahead_stop [OF t(2)] by (simp_all add: symbols_def)
  have av: "ahead ?v = [32] @ seq_text ?qs @ sp @ c # r" using ahead_Cons [OF t(2)] by simp
  have "parsed ?v (parse_seq ?v) (c # r) (seq_cmd ?qs)"
    using "3.IH" [OF _ _ av] "3.prems" by (simp add: spaces_def whitespace_def)
  then obtain x u where u: "parse_seq ?v = Inr (Some x, u)" "ahead u = c # r" "moved ?v u"
    "\<forall>b. take (sh_p u) b = take (sh_p u) (sh_buf u) \<longrightarrow> map_cmd (word_at b) x = seq_cmd ?qs" by (auto simp: parsed_def)
  have "moved t u" using moved_trans [OF moved_advance, of t u] u(3) by simp
  moreover have "parse_seq s = Inr (Some (SEQ (Some p) (Some x)), u)" using t(1) st u(1) by (subst parse_seq.simps) simp
  ultimately show ?case using t(3,4) u(2,4) moved_trans words_stay unfolding parsed_def
    by (intro exI [of _ "SEQ (Some p) (Some x)"] exI [of _ u]) auto
qed simp

section \<open>Reading a line\<close>

lemma sh_gets_loop_line:
  "sh_buf s = pre @ rest \<Longrightarrow> length pre = i \<Longrightarrow> length body < length rest \<Longrightarrow> i + length body < 511 \<Longrightarrow> 10 \<notin> set body \<Longrightarrow> 13 \<notin> set body \<Longrightarrow>
    sh_gets_loop i (body @ 10 # extra) s =
      (i + length body + 1, False, s\<lparr>sh_buf := pre @ body @ 10 # drop (length body + 1) rest\<rparr>)"
proof (induction body arbitrary: i pre rest s)
  case Nil
  then obtain x xs where "rest = x # xs" by (cases rest) auto
  then show ?case using Nil by (subst sh_gets_loop.simps) (simp add: list_update_append)
next
  case (Cons c body)
  then obtain x xs where r: "rest = x # xs" by (cases rest) auto
  let ?s = "s\<lparr>sh_buf := (pre @ [c]) @ xs\<rparr>"
  have "(sh_buf s)[i := c] = (pre @ [c]) @ xs" using Cons.prems(1,2) r by (simp add: list_update_append)
  then have "sh_gets_loop i ((c # body) @ 10 # extra) s = sh_gets_loop (i + 1) (body @ 10 # extra) ?s"
    using Cons.prems(4-6) by (subst sh_gets_loop.simps) auto
  also have "\<dots> = (i + 1 + length body + 1, False, ?s\<lparr>sh_buf := (pre @ [c]) @ body @ 10 # drop (length body + 1) xs\<rparr>)"
    using Cons.prems r by (intro Cons.IH) simp_all
  finally show ?case using r by simp
qed

lemma next_line_ok:
  assumes "sh_inp s = (body @ 10 # extra) # later" "length body \<le> 510" "set body \<inter> {0, 10, 13} = {}"
  shows "\<exists>t. next_line s = (True, t) \<and> ahead t = body @ 10 # replicate (511 - length body) 0 \<and> sh_p t = 0 \<and> sh_inp t = later"
proof -
  let ?c = "clear s"
  let ?b = "body @ 10 # replicate (511 - length body) 0"
  have c: "sh_buf ?c = replicate 512 0" "sh_inp ?c = (body @ 10 # extra) # later" "sh_p ?c = 0"
    using assms(1) by (simp_all add: clear_def free_heap_def Let_def)
  let ?d = "?c\<lparr>sh_inp := later\<rparr>"
  have "sh_gets_loop 0 [] ?c = sh_gets_loop 0 (body @ 10 # extra) ?d" using c(2) by (subst sh_gets_loop.simps) simp
  also have "\<dots> = (0 + length body + 1, False, ?d\<lparr>sh_buf := [] @ body @ 10 # drop (length body + 1) (replicate 512 0)\<rparr>)"
    using c(1) assms(2,3) by (intro sh_gets_loop_line) auto
  finally have g: "sh_gets_loop 0 [] ?c = (length body + 1, False, ?d\<lparr>sh_buf := ?b\<rparr>)" by simp
  have "?b[length body + 1 := 0] = ?b"
  proof (cases "length body = 510")
    case False
    then obtain k where "511 - length body = Suc k" using assms(2) by (metis Suc_diff_Suc add_2_eq_Suc' diff_add_inverse2 le_neq_implies_less less_Suc_eq numeral_eq_Suc pred_numeral_simps(3))
    then show ?thesis by (simp add: list_update_append)
  qed (simp add: list_update_append numeral_eq_Suc)
  then have n: "sh_gets ?c = (True, ?d\<lparr>sh_buf := ?b\<rparr>)" using g by (simp add: sh_gets_def Let_def)
  have "?b ! 0 \<noteq> 0" using assms(3) by (cases body) auto
  then have "next_line s = (True, ?d\<lparr>sh_buf := ?b\<rparr>)" using n by (simp add: next_line_def)
  then show ?thesis using c(3) by (simp add: ahead_def)
qed

lemma plain_text: "plain_word w \<Longrightarrow> set w \<inter> {0, 10, 13} = {}"
  by (auto simp: plain_word_def whitespace_def)

lemma exec_text_chars: "exec_ok ws \<Longrightarrow> set (exec_text ws) \<inter> {0, 10, 13} = {}"
  using plain_text by (auto simp: exec_ok_def exec_text_def)

lemma pipe_text_chars: "\<forall>e \<in> set es. exec_ok e \<Longrightarrow> set (pipe_text es) \<inter> {0, 10, 13} = {}"
  by (induction es rule: pipe_text.induct) (use exec_text_chars in \<open>auto simp: Int_Un_distrib2\<close>)

lemma seq_text_chars: "\<forall>q \<in> set qs. \<forall>e \<in> set q. exec_ok e \<Longrightarrow> set (seq_text qs) \<inter> {0, 10, 13} = {}"
  by (induction qs rule: seq_text.induct) (use pipe_text_chars in \<open>auto simp: Int_Un_distrib2\<close>)

lemma exec_text_first: "exec_ok ws \<Longrightarrow> \<exists>y ys. exec_text ws = y # ys \<and> y \<notin> set whitespace"
  by (cases ws; cases "hd ws") (auto simp: exec_ok_def exec_text_def plain_word_def)

lemma seq_text_first:
  assumes "qs \<noteq> []" "\<forall>q \<in> set qs. q \<noteq> [] \<and> (\<forall>e \<in> set q. exec_ok e)"
  shows "\<exists>y ys. seq_text qs = y # ys \<and> y \<notin> set whitespace"
proof -
  obtain e es qs' where q: "qs = (e # es) # qs'" "exec_ok e" using assms by (cases qs; cases "hd qs") auto
  obtain y ys where "exec_text e = y # ys" "y \<notin> set whitespace" using exec_text_first [OF q(2)] by blast
  then show ?thesis using q(1) by (cases es; cases qs') auto
qed

section \<open>Finding a character\<close>

text \<open>The shell tests characters with \<open>strchr\<close>; the model uses membership in the list.\<close>

lemma pbrk_inner_one: "m k = c \<Longrightarrow> m (k + 1) = 0 \<Longrightarrow> c \<noteq> 0 \<Longrightarrow> pbrk_inner m x k = Some (x = c)"
  by (subst pbrk_inner.simps, subst pbrk_inner.simps) auto

lemma pbrk_loop_one:
  assumes "cstr m s xs" "m k = c" "m (k + 1) = 0" "c \<noteq> 0"
  shows "pbrk_loop m s k = Some (if c \<in> set xs then s + of_nat (length (takeWhile (\<lambda>x. x \<noteq> c) xs)) else 0)"
  using assms(1)
proof (induction xs arbitrary: s)
  case Nil
  then show ?case by (subst pbrk_loop.simps) simp
next
  case (Cons x xs)
  have x: "m s = x" "x \<noteq> 0" "cstr m (s + 1) xs" using Cons.prems by simp_all
  then show ?case using pbrk_inner_one [OF assms(2-4), of x] Cons.IH [OF x(3)]
    by (subst pbrk_loop.simps) (auto simp: add.assoc)
qed

text \<open>C34: \<open>strchr\<close> for a character other than NUL, with its local array outside of the string, is the
  standard function: the address of the first occurrence, or the null pointer.\<close>

theorem strchr_first_occurrence:
  assumes "cstr m s xs" "c \<noteq> 0" "s \<noteq> 0" "b \<noteq> 0" "\<forall>i \<le> length xs. s + of_nat i \<noteq> b \<and> s + of_nat i \<noteq> b + 1"
  shows "strchr m b s (ucast c) = Some (if c \<in> set xs then s + of_nat (length (takeWhile (\<lambda>x. x \<noteq> c) xs)) else 0)"
proof -
  let ?m = "m(b := c, b + 1 := 0)"
  have "cstr ?m s xs" using assms(1,5) unfolding cstr_iff by (auto simp: less_imp_le)
  moreover have "ucast (ucast c :: u32) = c" by (simp add: unsigned_ucast_eq take_bit_word_eq_self)
  moreover have "b \<noteq> b + 1" by simp
  ultimately show ?thesis
    using pbrk_loop_one [of ?m s xs b c] assms(2-4) by (simp add: strchr_def strpbrk_def)
qed

theorem strchr_first_occurrence_witness:
  "strchr ((\<lambda>_. 0)(100 := 32, 101 := 9)) 200 100 9 = Some 101"
proof -
  have "cstr ((\<lambda>_. 0)(100 := 32, 101 := 9)) 100 [32, 9]" by simp
  moreover have "\<forall>i \<le> length [32 :: u8, 9]. (100 :: u32) + of_nat i \<noteq> 200 \<and> 100 + of_nat i \<noteq> (200 :: u32) + 1" by (auto simp: le_Suc_eq)
  ultimately show ?thesis using strchr_first_occurrence [of "(\<lambda>_. 0)(100 := 32, 101 := 9)" 100 "[32, 9]" 9 200] by simp
qed

section \<open>Properties\<close>

text \<open>C12: Parsing undoes printing.  A line of one or more pipelines separated by \<open>;\<close>, of commands
  separated by \<open>|\<close>, each of one to three words, with blanks around the operators and no longer than
  511 characters, is read by \<open>next_line\<close> and parsed by \<open>parse_cmd\<close> into the tree of exactly these commands; the
  arguments in the tree point to the words, each ended by a NUL in the line buffer.  Whatever the
  same \<open>read\<close> returned behind the newline is lost.\<close>

theorem shell_parses_line:
  assumes "qs \<noteq> []" "\<forall>q \<in> set qs. q \<noteq> [] \<and> (\<forall>e \<in> set q. exec_ok e)" "length (seq_text qs) \<le> 510"
    "sh_inp s = (seq_text qs @ 10 # extra) # later"
  shows "\<exists>t c u. next_line s = (True, t) \<and> parse_cmd t = Inr (Some c, u) \<and>
    map_cmd (word_at (sh_buf u)) c = seq_cmd qs \<and> sh_inp u = later"
proof -
  have "\<forall>q \<in> set qs. \<forall>e \<in> set q. exec_ok e" using assms(2) by blast
  then obtain t where t: "next_line s = (True, t)" "ahead t = seq_text qs @ 10 # replicate (511 - length (seq_text qs)) 0" "sh_inp t = later"
    using next_line_ok [OF assms(4,3)] seq_text_chars by blast
  obtain k where "511 - length (seq_text qs) = Suc k" using assms(3) by (metis Suc_diff_le eval_nat_numeral(3) semiring_norm(26) semiring_norm(27))
  then have a: "ahead t = [] @ seq_text qs @ [10] @ 0 # replicate k 0" using t(2) by simp
  obtain y ys where "seq_text qs = y # ys" "y \<notin> set whitespace" using seq_text_first [OF assms(1,2)] by blast
  then have "skip_whitespaces t = Inr t" using ahead_skip [of "[]" t y] a by (simp add: spaces_def)
  moreover have "parsed t (parse_seq t) (0 # replicate k 0) (seq_cmd qs)"
    by (rule parse_seq_ok [OF assms(1,2) a]) (simp_all add: spaces_def whitespace_def)
  ultimately obtain c u where u: "parse_cmd t = Inr (Some c, u)" "parse_seq t = Inr (Some c, u)" "map_cmd (word_at (sh_buf u)) c = seq_cmd qs"
    by (auto simp: parsed_def parse_cmd_def)
  then show ?thesis using t(1,3) parse_seq_grows [OF u(2)] by auto
qed

text \<open>A shell with one line of input.\<close>

definition shell0 :: "u8 list \<Rightarrow> shell" where
  "shell0 line = \<lparr>sh_buf = replicate 512 0, sh_p = 0, sh_allocated = 0, sh_brk = 0x3000, sh_inp = [line]\<rparr>"

theorem shell_parses_line_witness:
  "\<exists>t c u. next_line (shell0 [97, 32, 98, 32, 124, 32, 99, 32, 59, 32, 100, 32, 10]) = (True, t) \<and> parse_cmd t = Inr (Some c, u) \<and>
    map_cmd (word_at (sh_buf u)) c = SEQ (Some (PIPE (Some (EXEC [[97], [98]])) (Some (EXEC [[99]])))) (Some (EXEC [[100]]))"
proof -
  let ?qs = "[[[[97], [98]], [[99]]], [[[100]]]] :: u8 list list list list"
  have tx: "seq_text ?qs = [97, 32, 98, 32, 124, 32, 99, 32, 59, 32, 100, 32]" by (simp add: exec_text_def)
  have "\<forall>q \<in> set ?qs. q \<noteq> [] \<and> (\<forall>e \<in> set q. exec_ok e)" by (simp add: exec_ok_def plain_word_def whitespace_def symbols_def)
  moreover have "sh_inp (shell0 [97, 32, 98, 32, 124, 32, 99, 32, 59, 32, 100, 32, 10]) = (seq_text ?qs @ 10 # []) # []"
    unfolding tx by (simp add: shell0_def)
  ultimately show ?thesis using shell_parses_line [of ?qs "shell0 [97, 32, 98, 32, 124, 32, 99, 32, 59, 32, 100, 32, 10]" "[]" "[]"]
    by (auto simp: exec_text_def)
qed

text \<open>C33: An operator that follows a word at once is lost: the NUL that ends the word takes its place, and
  the command goes on with the next word.  So \<open>a|b\<close> is the command \<open>a\<close> with the argument \<open>b\<close>.\<close>

theorem shell_loses_operator:
  assumes "plain_word v" "plain_word w" "c \<in> set symbols" "length v + length w \<le> 509" "sh_inp s = [v @ c # w @ [10]]"
  shows "\<exists>t i j u. next_line s = (True, t) \<and> parse_cmd t = Inr (Some (EXEC [i, j]), u) \<and>
    word_at (sh_buf u) i = v \<and> word_at (sh_buf u) j = w"
proof -
  let ?l = "v @ c # w"
  have "set ?l \<inter> {0, 10, 13} = {}" using plain_text assms(1-3) by (auto simp: symbols_def)
  then obtain t where t: "next_line s = (True, t)" "ahead t = ?l @ 10 # replicate (511 - length ?l) 0"
    using next_line_ok [of s ?l "[]" "[]"] assms(4,5) by auto
  obtain k where "511 - length ?l = Suc k" using assms(4) by (cases "511 - length ?l") auto
  then have a: "ahead (alloc 16 t) = [] @ v @ c # w @ 10 # 0 # replicate k 0" using t(2) by simp
  obtain y ys z zs where y: "v = y # ys" "y \<notin> set whitespace" "w = z # zs" "z \<notin> set whitespace"
    using assms(1,2) by (cases v; cases w) (auto simp: plain_word_def)
  obtain i p where p: "exec_loop [] (alloc 16 t) = rbind (skip_whitespaces p) (exec_loop [i])" "ahead p = w @ 10 # 0 # replicate k 0"
    "\<forall>b. take (sh_p p) b = take (sh_p p) (sh_buf p) \<longrightarrow> word_at b i = v"
    using exec_word [OF a, of "[]"] assms(1,3) by (auto simp: spaces_def)
  have "skip_whitespaces p = Inr p" using ahead_skip [of "[]" p z] p(2) y by (simp add: spaces_def)
  moreover obtain j q where q: "exec_loop [i] p = rbind (skip_whitespaces q) (exec_loop [i, j])" "ahead q = 0 # replicate k 0" "moved p q"
    "\<forall>b. take (sh_p q) b = take (sh_p q) (sh_buf q) \<longrightarrow> word_at b j = w"
    using exec_word [of p "[]" w 10 "0 # replicate k 0" "[i]"] p(2) assms(2) by (auto simp: spaces_def whitespace_def)
  moreover have sq: "skip_whitespaces q = Inr q" "cur q = Inr 0" using ahead_stop [OF q(2)] by simp_all
  moreover have "exec_loop [i, j] q = Inr (Some (EXEC [i, j]), q)" using sq(2) by (subst exec_loop.simps) simp
  ultimately have "parse_exec t = Inr (Some (EXEC [i, j]), q)" using p(1) by (simp add: parse_exec_def)
  then have "parse_pipe t = Inr (Some (EXEC [i, j]), q)" using sq by (subst parse_pipe.simps) simp
  then have "parse_seq t = Inr (Some (EXEC [i, j]), q)" using sq by (subst parse_seq.simps) simp
  moreover have "skip_whitespaces t = Inr t" using ahead_skip [of "[]" t y] t(2) y by (simp add: spaces_def)
  moreover have "word_at (sh_buf q) i = v" "word_at (sh_buf q) j = w" using p(3) q(4) words_stay [OF q(3)] by blast+
  ultimately show ?thesis using t(1) by (auto simp: parse_cmd_def)
qed

theorem shell_loses_operator_witness:
  "\<exists>t i j u. next_line (shell0 [97, 124, 98, 10]) = (True, t) \<and> parse_cmd t = Inr (Some (EXEC [i, j]), u) \<and>
    word_at (sh_buf u) i = [97] \<and> word_at (sh_buf u) j = [98]"
  using shell_loses_operator [of "[97]" "[98]" 124 "shell0 [97, 124, 98, 10]"]
  by (simp add: plain_word_def whitespace_def symbols_def shell0_def)

text \<open>A fourth word is stored behind the three arguments of the command.\<close>

lemma shell_fourth_word_overruns:
  assumes "ahead s = sp @ w @ x # r" "spaces sp" "plain_word w" "x = 0 \<or> x \<in> set whitespace \<or> x \<in> set symbols" "length argv = NARGS"
  shows "exec_loop argv s = Inl OutOfBounds"
  using exec_first [OF assms(1-3)] ahead_parse_word [OF assms(1-4)] assms(5) by (subst exec_loop.simps) auto

end
