(* ===== verification/Fmt_Types.thy ===== *)
theory Fmt_Types
  imports Lib_Std
begin

text \<open>
  The types of format strings (lib/fmt.c).  \<open>format\<close> fetches its arguments as the specifiers demand and nothing checks
  them; \<open>fmt_types\<close> reads off a format string what it fetches, and a call is well typed when its arguments begin with
  values of these types.
\<close>

datatype ty = TInt | TStr

definition skip_flags :: "cstr \<Rightarrow> cstr" where
  "skip_flags = dropWhile (\<lambda>c. c = 35 \<or> c = 48 \<or> c = 45)"

definition spec_types :: "cstr \<Rightarrow> ty list \<times> cstr" where
  "spec_types p =
     (case p of
        [] \<Rightarrow> ([], [])
      | c # q \<Rightarrow>
          if c \<in> {100, 120, 88, 112, 99} then ([TInt], q)
          else if c = 115 then ([TStr], q)
          else ([], p))"

fun types_loop :: "nat \<Rightarrow> cstr \<Rightarrow> ty list" where
  "types_loop n [] = []"
| "types_loop 0 (c # p) = []"
| "types_loop (Suc n) (c # p) =
     (if c = 37
      then let (ts, q) = spec_types (fst (snd (strtol (skip_flags p)))) in ts @ types_loop n q
      else types_loop n p)"

definition fmt_types :: "cstr \<Rightarrow> ty list" where
  "fmt_types fmt = types_loop (length fmt) fmt"

fun fits :: "ty list \<Rightarrow> fmt_arg list \<Rightarrow> bool" where
  "fits [] as = True"
| "fits (TInt # ts) (AInt _ # as) = fits ts as"
| "fits (TStr # ts) (AStr _ # as) = fits ts as"
| "fits _ _ = False"

lemma fits_append: "fits (ts @ us) as \<longleftrightarrow> fits ts as \<and> fits us (drop (length ts) as)"
  by (induction ts as rule: fits.induct) auto

lemma snd_parse_flags: "snd (parse_flags fl p) = skip_flags p"
  by (induction fl p rule: parse_flags.induct) (auto simp: skip_flags_def)

lemma spec_types_le: "spec_types p = (ts, q) \<Longrightarrow> length q \<le> length p"
  by (auto simp: spec_types_def split: list.splits if_splits)

text \<open>A specifier consumes an argument of its type, or there is none.\<close>

definition typed :: "ty list \<Rightarrow> cstr \<Rightarrow> fmt_arg list \<Rightarrow> cstr \<Rightarrow> (cstr \<times> fmt_arg list \<times> cstr) res \<Rightarrow> bool" where
  "typed ts q args out r \<longleftrightarrow>
     (if fits ts args then \<exists>t. r = Inr (q, drop (length ts) args, out @ t) else r = Inl OutOfBounds)"

lemma typed_int:
  assumes "\<And>n. \<exists>t. f n = Inr (out @ t)"
  shows "typed [TInt] q args out (case args of AInt n # args \<Rightarrow> rbind (f n) (\<lambda>s. Inr (q, args, s)) | _ \<Rightarrow> Inl OutOfBounds)"
proof (cases args)
  case (Cons a as)
  show ?thesis
  proof (cases a)
    case (AInt n)
    obtain t where "f n = Inr (out @ t)" using assms by blast
    then show ?thesis by (simp add: Cons AInt typed_def)
  qed (simp add: Cons typed_def)
qed (simp add: typed_def)

lemma typed_str:
  assumes "\<And>x. \<exists>t. f x = Inr (out @ t)"
  shows "typed [TStr] q args out (case args of AStr x # args \<Rightarrow> rbind (f x) (\<lambda>s. Inr (q, args, s)) | _ \<Rightarrow> Inl OutOfBounds)"
proof (cases args)
  case (Cons a as)
  show ?thesis
  proof (cases a)
    case (AStr x)
    obtain t where "f x = Inr (out @ t)" using assms by blast
    then show ?thesis by (simp add: Cons AStr typed_def)
  qed (simp add: Cons typed_def)
qed (simp add: typed_def)

lemma typed_shift: "typed ts q args (out @ t) r \<Longrightarrow> typed ts q args out r"
  by (auto simp: typed_def split: if_splits)

lemma typed_hex:
  assumes "ctl \<in> {PCTL_d, PCTL_x, PCTL_X}"
  shows "typed [TInt] q args out (rbind (if b then write_string text_port [48, 120] out else Inr out) (\<lambda>s.
      case args of AInt n # args \<Rightarrow> rbind (print_padded text_port fl w ctl n s) (\<lambda>s. Inr (q, args, s)) | _ \<Rightarrow> Inl OutOfBounds))"
proof -
  have num: "typed [TInt] q args out (case args of AInt n # args \<Rightarrow> rbind (print_padded text_port fl w ctl n out) (\<lambda>s. Inr (q, args, s))
      | _ \<Rightarrow> Inl OutOfBounds)" for out
    by (rule typed_int) (rule print_padded_text [OF assms])
  show ?thesis using num [of out] typed_shift [OF num [of "out @ [48, 120]"]] by simp
qed

lemma typed_none: "typed [] q args out (Inr (q, args, out))"
  by (simp add: typed_def)

lemma specifier_typed:
  assumes "spec_types p = (ts, q)"
  shows "typed ts q args out (specifier text_port fl w p args out)"
proof (cases p)
  case Nil
  then show ?thesis using assms by (simp add: spec_types_def specifier_def typed_none)
next
  case (Cons c r)
  note hex = typed_hex [of _ r args out, unfolded insert_iff empty_iff]
  have pad: "\<exists>t. TRY_PAD text_port fl k (write_string text_port x) out = Inr (out @ t)"
    "\<exists>t. TRY_PAD text_port fl k (\<lambda>s. rbind (text_port [ucast n] s) (\<lambda>(_, s). Inr s)) out = Inr (out @ t)" for k x and n :: u32
    by (rule TRY_PAD_text; simp)+
  consider "c \<in> {100, 120, 88, 112, 99}" "ts = [TInt]" "q = r" | "c = 115" "ts = [TStr]" "q = r"
    | "c \<notin> {100, 120, 88, 112, 99, 115}" "ts = []" "q = p"
    using assms Cons by (auto simp: spec_types_def split: if_splits)
  then show ?thesis
  proof cases
    case 1
    from 1(1) consider "c = 100" | "c = 120" | "c = 88" | "c = 112" | "c = 99" by auto
    then have "typed [TInt] r args out (specifier text_port fl w (c # r) args out)"
    proof cases
      case 1
      then show ?thesis using hex [of PCTL_d False fl w] by (simp add: specifier_def)
    next
      case 2
      then show ?thesis using hex [of PCTL_x "alt_hex fl" fl w] by (simp add: specifier_def)
    next
      case 3
      then show ?thesis using hex [of PCTL_X "alt_hex fl" fl w] by (simp add: specifier_def)
    next
      case 4
      then show ?thesis using hex [of PCTL_X True fl w] by (simp add: specifier_def)
    next
      case 5
      then show ?thesis using typed_int [OF pad(2)] by (simp add: specifier_def)
    qed
    then show ?thesis using 1 Cons by simp
  next
    case 2
    then show ?thesis using typed_str [of "\<lambda>x. TRY_PAD text_port fl (w - of_nat (length x)) (write_string text_port x) out", OF pad(1)] Cons
      by (simp add: specifier_def)
  next
    case 3
    then show ?thesis using Cons by (simp add: specifier_def typed_none)
  qed
qed

lemma format_loop_typed:
  "length p \<le> n \<Longrightarrow>
     (if fits (types_loop n p) args then \<exists>t. format_loop text_port n fl (Some p) args out = Inr (out @ t)
      else format_loop text_port n fl (Some p) args out = Inl OutOfBounds)"
proof (induction n arbitrary: fl p args out)
  case (Suc n)
  show ?case
  proof (cases p)
    case (Cons c q)
    show ?thesis
    proof (cases "c = 37")
      case True
      obtain fl1 where f: "parse_flags fl q = (fl1, skip_flags q)" using snd_parse_flags [of fl q] by (metis prod.collapse)
      obtain w p2 e where t: "strtol (skip_flags q) = (w, p2, e)" by (metis prod.exhaust)
      obtain ts r where r: "spec_types p2 = (ts, r)" by fastforce
      have "length p2 \<le> n" using parse_flags_le [of fl q] strtol_le [of "skip_flags q"] f t Suc.prems Cons by simp
      then have le: "length r \<le> n" using spec_types_le [OF r] by simp
      have ty: "types_loop (Suc n) p = ts @ types_loop n r" using Cons True t r by simp
      have step: "format_loop text_port (Suc n) fl (Some p) args out =
          rbind (specifier text_port fl1 (word_of_int w) p2 args out) (\<lambda>(p, args, s). format_loop text_port n fl1 (Some p) args s)"
        using Cons True f t by simp
      show ?thesis
      proof (cases "fits ts args")
        case False
        then show ?thesis using specifier_typed [OF r, of args out fl1 "word_of_int w"] by (simp add: ty step fits_append typed_def)
      next
        case fit: True
        then obtain u where "specifier text_port fl1 (word_of_int w) p2 args out = Inr (r, drop (length ts) args, out @ u)"
          using specifier_typed [OF r, of args out fl1 "word_of_int w"] by (auto simp: typed_def)
        then show ?thesis using Suc.IH [OF le, of "drop (length ts) args" fl1 "out @ u"] fit
          by (auto simp: ty step fits_append split: if_splits)
      qed
    next
      case False
      then show ?thesis using Suc.IH [of q args fl "out @ [c]"] Suc.prems Cons by (auto split: if_splits)
    qed
  qed simp
qed simp

lemma format_fits: "fits (fmt_types fmt) args \<Longrightarrow> \<exists>t. format text_port fmt args [] = Inr t"
  using format_loop_typed [of fmt "length fmt" args "\<lparr>pad0 = False, leftpad = False, alt_hex = False\<rparr>" "[]"]
  by (simp add: format_def fmt_types_def)

lemma format_misfits: "\<not> fits (fmt_types fmt) args \<Longrightarrow> format text_port fmt args [] = Inl OutOfBounds"
  using format_loop_typed [of fmt "length fmt" args "\<lparr>pad0 = False, leftpad = False, alt_hex = False\<rparr>" "[]"]
  by (simp add: format_def fmt_types_def)

section \<open>Property\<close>

text \<open>C38: Well-typed calls do not go wrong, and only they: \<open>format\<close> prints to the end exactly if the arguments begin with values of the
  types that the specifiers of the format string demand; otherwise it fetches an argument that was not passed, or not of the type it
  is read as.\<close>

theorem format_well_typed:
  "if fits (fmt_types fmt) args then \<exists>t. format text_port fmt args [] = Inr t
   else format text_port fmt args [] = Inl OutOfBounds"
  using format_fits [of fmt args] format_misfits [of fmt args] by simp

end
