(* ===== verification/Diagnostics.thy ===== *)
theory Diagnostics
  imports Console Fmt_Types
begin

text \<open>
  kernel/debug.c and kernel/err.c: debug output and memory dumps on the second serial port, and what a panic or an
  error prints on the screen and there.  Elsewhere in the development a panic is the fault \<open>Panic\<close> with its message; \<open>panic\<close> gives
  the state in which the processor then spins, with interrupts off.
\<close>

section \<open>Debug output (debug.c)\<close>

definition debug_vprintf :: "cstr \<Rightarrow> fmt_arg list \<Rightarrow> uart \<Rightarrow> uart res" where
  "debug_vprintf fmt args u = uart_vprintf COM2 fmt args u"

definition debug_printf :: "cstr \<Rightarrow> fmt_arg list \<Rightarrow> uart \<Rightarrow> uart res" where
  "debug_printf fmt args u = debug_vprintf fmt args u"

text \<open>\<open>"[\\033[36mDEBUG\\033[0m] "\<close>.\<close>

definition debug :: "cstr \<Rightarrow> fmt_arg list \<Rightarrow> uart \<Rightarrow> uart res" where
  "debug fmt args u =
     rbind (debug_printf [91, 27, 91, 51, 54, 109, 68, 69, 66, 85, 71, 27, 91, 48, 109, 93, 32] [] u) (debug_vprintf fmt args)"

text \<open>The letters behind the count: the format, which nothing reads, and the size of a unit.\<close>

fun memdump_opts :: "cstr \<Rightarrow> u8 \<Rightarrow> u8 \<Rightarrow> cstr \<times> u8 \<times> u8" where
  "memdump_opts [] f sz = ([], f, sz)"
| "memdump_opts (c # p) f sz =
     (if isspace (sint c) then (c # p, f, sz)
      else memdump_opts p (if c = 120 \<or> c = 100 then c else f)
        (if c = 98 then 1 else if c = 104 then 2 else if c = 119 then 4 else if c = 103 then 8 else sz))"

text \<open>What is printed of a unit: its format string, the value that \<open>format\<close> fetches (of a unit of eight bytes the first
  four), and the units in a line.\<close>

definition memdump_unit :: "mem \<Rightarrow> u8 \<Rightarrow> u32 \<Rightarrow> (cstr \<times> u32 \<times> u32) option" where
  "memdump_unit m sz p =
     (if sz = 1 then Some ([37, 35, 48, 50, 120], ucast (m p), 20)
      else if sz = 2 then Some ([37, 35, 48, 52, 120], ucast (m p) OR push_bit 8 (ucast (m (p + 1))), 15)
      else if sz = 4 then Some ([37, 35, 48, 56, 120], load32 m p, 10)
      else if sz = 8 then Some ([37, 35, 48, 49, 54, 120], load32 m p, 4)
      else None)"

fun memdump_loop :: "nat \<Rightarrow> mem \<Rightarrow> u32 \<Rightarrow> u8 \<Rightarrow> u32 \<Rightarrow> uart \<Rightarrow> uart res" where
  "memdump_loop 0 m addr sz i u = debug_printf [10] [] u"
| "memdump_loop (Suc k) m addr sz i u =
     (case memdump_unit m sz (addr + i * ucast sz) of
        None \<Rightarrow> debug_printf [105, 110, 118, 97, 108, 105, 100, 32, 115, 122, 10] [] u
      | Some (fmt, v, n) \<Rightarrow>
          rbind (debug_printf fmt [AInt v] u) (\<lambda>u.
          rbind (debug_printf (if i = 0 \<or> i mod n \<noteq> 0 then [32] else [10]) [] u) (\<lambda>u.
          memdump_loop k m addr sz (i + 1) u)))"

text \<open>\<open>erange\<close> says whether \<open>errno\<close> was \<open>ERANGE\<close> before the call (nothing ever resets it), \<open>args\<close> is the argument behind the command, and
  \<open>junk\<close> what is in the variable \<open>addr\<close> before it is set.\<close>

definition debug_memdump :: "mem \<Rightarrow> bool \<Rightarrow> u32 \<Rightarrow> cstr \<Rightarrow> u32 list \<Rightarrow> uart \<Rightarrow> uart res" where
  "debug_memdump m erange junk cmd args u =
     (let (n, p, e) = strtol cmd in
      rbind (if n = 0 \<and> (erange \<or> e)
             then debug_printf [105, 110, 118, 97, 108, 105, 100, 32, 114, 101, 112, 101, 97, 116, 32, 99, 111, 117, 110, 116, 10] [] u
             else Inr u) (\<lambda>u.
      let (p, f, sz) = memdump_opts p 120 1;
          p = skip_space p
      in rbind (if p \<noteq> [] \<and> hd p = 37
                then if tl p \<noteq> [] \<and> hd (tl p) = 112
                     then (case args of a # _ \<Rightarrow> Inr a | [] \<Rightarrow> Inl OutOfBounds)
                     else Inr junk
                else Inr (word_of_int (fst (strtol p)))) (\<lambda>addr.
         memdump_loop (unat (word_of_int n :: u32)) m addr sz 0 u)))"

section \<open>Errors (err.c)\<close>

definition vga_out :: "cstr \<Rightarrow> fmt_arg list \<Rightarrow> console \<Rightarrow> console res" where
  "vga_out fmt args s = rbind (vga_vprintf (cansi s) fmt args (cscreen s)) (\<lambda>v. Inr (s\<lparr>cscreen := v\<rparr>))"

definition debug_out :: "cstr \<Rightarrow> fmt_arg list \<Rightarrow> console \<Rightarrow> console res" where
  "debug_out fmt args s = rbind (debug_printf fmt args (cuart s)) (\<lambda>u. Inr (s\<lparr>cuart := u\<rparr>))"

definition both_out :: "cstr \<Rightarrow> fmt_arg list \<Rightarrow> console \<Rightarrow> console res" where
  "both_out fmt args s = rbind (vga_out fmt args s) (debug_out fmt args)"

text \<open>At most 15 frames, each a saved frame pointer and a return address behind it.\<close>

fun trace_loop :: "nat \<Rightarrow> mem \<Rightarrow> u32 \<Rightarrow> console \<Rightarrow> console res" where
  "trace_loop 0 m ebp s = Inr s"
| "trace_loop (Suc k) m ebp s =
     (if ebp = 0 then Inr s
      else
        rbind (both_out [32, 32, 91, 60, 37, 35, 48, 56, 120, 62, 93, 10] [AInt (load32 m (ebp + 4))] s)
          (trace_loop k m (load32 m ebp)))"

definition print_stack_trace :: "mem \<Rightarrow> u32 \<Rightarrow> console \<Rightarrow> console res" where
  "print_stack_trace m ebp s =
     rbind (both_out [83, 116, 97, 99, 107, 32, 116, 114, 97, 99, 101, 58, 10] [] s) (trace_loop 15 m ebp)"

definition panic :: "cstr \<Rightarrow> mem \<Rightarrow> u32 \<Rightarrow> console \<Rightarrow> console res" where
  "panic msg m ebp s =
     rbind (both_out [91, 27, 91, 51, 49, 109, 80, 65, 78, 73, 67, 27, 91, 48, 109, 93, 32, 37, 115, 10] [AStr msg] s) (\<lambda>s.
     rbind (print_stack_trace m ebp s) (\<lambda>s.
     Inr (s\<lparr>ck := (ck s)\<lparr>the_cpu := (the_cpu (ck s))\<lparr>eflags_if := False\<rparr>\<rparr>\<rparr>)))"

definition err_perror :: "cstr \<Rightarrow> console \<Rightarrow> console res" where
  "err_perror msg s = both_out [91, 27, 91, 51, 49, 109, 69, 82, 82, 79, 82, 27, 91, 48, 109, 93, 32, 37, 115, 10] [AStr msg] s"

section \<open>What is printed\<close>

lemma debug_printf_text: "debug_printf fmt args u = rmap (transmitted COM2 u) (format text_port fmt args [])"
  using com2.sim_format [where u = u and fmt = fmt and args = args and s = "[]"]
  by (simp add: debug_printf_def debug_vprintf_def uart_vprintf_def transmitted_def [of _ _ "[]"])

lemma transmitted_twice: "transmitted com (transmitted com u s) t = transmitted com u (s @ t)"
  by (simp add: transmitted_def)

lemma plain_format: "37 \<notin> set p \<Longrightarrow> format text_port p args [] = Inr p"
proof -
  have "37 \<notin> set p \<Longrightarrow> format_loop text_port (length p) fl (Some p) args out = Inr (out @ p)" for fl out
    by (induction p arbitrary: out) auto
  from this [of _ "[]"] show "37 \<notin> set p \<Longrightarrow> format text_port p args [] = Inr p" by (simp add: format_def)
qed

definition hex_text :: "u32 \<Rightarrow> cstr" where
  "hex_text v = (case int_text (PCTL_x True) v of Inr t \<Rightarrow> t | Inl _ \<Rightarrow> [])"

lemma digit_loop_flush: "digit_loop n (PCTL_x a) v = digit_loop n (PCTL_x b) v"
  by (induction n arbitrary: v) (simp_all add: PCTL_x_def Let_def)

lemma hex_text_eq: "int_text (PCTL_x b) v = Inr (hex_text v)" "length (hex_text v) \<le> 31"
proof -
  obtain cs where cs: "digit_loop 31 (PCTL_x True) v = Inr cs" "length cs \<le> 31"
    using digits_fit [of "PCTL_x True" True v] by auto
  then have t: "int_text (PCTL_x b) v = Inr (rev cs)" for b
    using digit_loop_flush [of 31 b v True] by (simp add: int_text_def PCTL_x_def)
  then show "int_text (PCTL_x b) v = Inr (hex_text v)" by (simp add: hex_text_def)
  show "length (hex_text v) \<le> 31" using t [of True] cs(2) by (simp add: hex_text_def)
qed

text \<open>The field: zeros up to the width, behind \<open>0x\<close>.\<close>

definition hex_field :: "nat \<Rightarrow> u32 \<Rightarrow> cstr" where
  "hex_field w v = [48, 120] @ replicate (w - length (hex_text v)) 48 @ hex_text v"

lemma small_sint:
  assumes "w \<le> 31" "l < 2147483648"
  shows "sint (of_nat w - of_nat l :: u32) = int w - int l"
proof -
  have "(of_nat w - of_nat l :: u32) = word_of_int (int w - int l)" by simp
  then have "sint (of_nat w - of_nat l :: u32) = signed_take_bit 31 (int w - int l)" by (simp only: signed_of_int) simp
  also have "\<dots> = int w - int l" using assms by (intro signed_take_bit_int_eq_self) simp_all
  finally show ?thesis .
qed

lemma print_padded_hex:
  assumes "w \<le> 31" "pad0 fl"
  shows "print_padded text_port fl (of_nat w) PCTL_x v out = Inr (out @ replicate (w - length (hex_text v)) 48 @ hex_text v)"
proof -
  let ?p = "of_nat w - of_nat (length (hex_text v)) :: u32"
  have fl: "flush (PCTL_x b) = b" for b by (simp add: PCTL_x_def)
  have p: "sint ?p = int w - int (length (hex_text v))" using small_sint [OF assms(1)] hex_text_eq(2) [of v] by simp
  have "w - length (hex_text v) = 0" if "?p = 0" using p that by simp
  moreover have "nat (sint ?p) = w - length (hex_text v)" using p by simp
  ultimately show ?thesis
    using assms(2) by (cases "?p = 0") (simp_all add: print_padded_def print_int_text hex_text_eq fl TRY_PAD_def)
qed

lemma format_hex:
  "format text_port [37, 35, 48, 50, 120] [AInt v] [] = Inr (hex_field 2 v)"
  "format text_port [37, 35, 48, 52, 120] [AInt v] [] = Inr (hex_field 4 v)"
  "format text_port [37, 35, 48, 56, 120] [AInt v] [] = Inr (hex_field 8 v)"
  "format text_port [37, 35, 48, 49, 54, 120] [AInt v] [] = Inr (hex_field 16 v)"
proof -
  have s: "strtol [50, 120] = (2, [120], False)" "strtol [52, 120] = (4, [120], False)" "strtol [56, 120] = (8, [120], False)"
    "strtol [49, 54, 120] = (16, [120], False)" by code_simp+
  have x: "specifier text_port \<lparr>pad0 = True, leftpad = False, alt_hex = True\<rparr> (of_nat w) [120] [AInt v] [] = Inr ([], [], hex_field w v)"
    if "w \<le> 31" for w
    using print_padded_hex [OF that, of "\<lparr>pad0 = True, leftpad = False, alt_hex = True\<rparr>" v "[48, 120]"]
    by (simp add: specifier_def hex_field_def)
  from x [of 2] x [of 4] x [of 8] x [of 16]
  show "format text_port [37, 35, 48, 50, 120] [AInt v] [] = Inr (hex_field 2 v)"
    "format text_port [37, 35, 48, 52, 120] [AInt v] [] = Inr (hex_field 4 v)"
    "format text_port [37, 35, 48, 56, 120] [AInt v] [] = Inr (hex_field 8 v)"
    "format text_port [37, 35, 48, 49, 54, 120] [AInt v] [] = Inr (hex_field 16 v)"
    by (simp_all add: format_def s)
qed

text \<open>The text of a dump: each unit in hexadecimal with two digits for a byte, a separator behind it, and a newline at the end.  Of a
  unit of eight bytes only the first four are printed.\<close>

definition unit_value :: "mem \<Rightarrow> u8 \<Rightarrow> u32 \<Rightarrow> u32" where
  "unit_value m sz p =
     (if sz = 1 then ucast (m p) else if sz = 2 then ucast (m p) OR push_bit 8 (ucast (m (p + 1))) else load32 m p)"

definition line_units :: "u8 \<Rightarrow> nat" where
  "line_units sz = (if sz = 1 then 20 else if sz = 2 then 15 else if sz = 4 then 10 else 4)"

definition dump_item :: "mem \<Rightarrow> u32 \<Rightarrow> u8 \<Rightarrow> nat \<Rightarrow> cstr" where
  "dump_item m addr sz i =
     hex_field (2 * unat sz) (unit_value m sz (addr + of_nat i * ucast sz)) @
     [if i = 0 \<or> i mod line_units sz \<noteq> 0 then 32 else 10]"

lemma memdump_loop_text:
  assumes "sz \<in> {1, 2, 4, 8}" "i + k < 4294967296"
  shows "memdump_loop k m addr sz (of_nat i) u = Inr (transmitted COM2 u (concat (map (dump_item m addr sz) [i..<i + k]) @ [10]))"
  using assms(2)
proof (induction k arbitrary: i u)
  case 0
  then show ?case by (simp add: debug_printf_text plain_format)
next
  case (Suc k)
  let ?v = "unit_value m sz (addr + of_nat i * ucast sz)"
  obtain fmt n where un: "memdump_unit m sz (addr + of_nat i * ucast sz) = Some (fmt, ?v, n)" "unat n = line_units sz"
    "format text_port fmt [AInt ?v] [] = Inr (hex_field (2 * unat sz) ?v)"
    using assms(1) by (auto simp: memdump_unit_def unit_value_def line_units_def format_hex)
  have lt: "i < 4294967296" using Suc.prems by simp
  then have i: "unat (of_nat i :: u32) = i" by (simp add: unat_of_nat32)
  have z: "(of_nat i :: u32) = 0 \<longleftrightarrow> i = 0" "(of_nat i :: u32) mod n = 0 \<longleftrightarrow> i mod line_units sz = 0"
    by (simp_all only: word32_eq_iff unat_mod i un(2) unat_0)
  have f: "format text_port (if (of_nat i :: u32) = 0 \<or> of_nat i mod n \<noteq> 0 then [32] else [10]) [] [] =
      Inr [if i = 0 \<or> i mod line_units sz \<noteq> 0 then 32 else 10]"
    by (simp add: z plain_format)
  have up: "[i..<i + Suc k] = i # [Suc i..<Suc i + k]" by (simp add: upt_conv_Cons del: upt_Suc)
  have nx: "(of_nat i :: u32) + 1 = of_nat (Suc i)" by simp
  have "memdump_loop (Suc k) m addr sz (of_nat i) u = memdump_loop k m addr sz (of_nat (Suc i)) (transmitted COM2 u (dump_item m addr sz i))"
    unfolding memdump_loop.simps un(1) option.case prod.case debug_printf_text un(3) f nx
    by (simp add: debug_printf_text f transmitted_twice dump_item_def del: of_nat_Suc)
  also have "\<dots> = Inr (transmitted COM2 u (concat (map (dump_item m addr sz) [i..<i + Suc k]) @ [10]))"
    unfolding up using Suc.IH [of "Suc i"] Suc.prems by (simp add: transmitted_twice del: of_nat_Suc upt_Suc)
  finally show ?case .
qed

text \<open>\<open>debug_memdump("10b %p", addr)\<close> and its like send exactly the units that the command asks for.\<close>

lemma memdump_prints:
  assumes "0 < sint n" "(c, sz) \<in> {(98, 1), (104, 2), (119, 4), (103, 8)}"
  shows "debug_memdump m erange junk (dec_text n @ [c, 32, 37, 112]) [addr] u =
    Inr (transmitted COM2 u (concat (map (dump_item m addr sz) [0..<unat n]) @ [10]))"
proof -
  have e: "ends_number [c, 32, 37, 112]" using assms(2) by (auto simp: ends_number_def isdigit_def)
  have st: "strtol (dec_text n @ [c, 32, 37, 112]) = (sint n, [c, 32, 37, 112], False)" using dec_text_read(1) [OF less_imp_le [OF assms(1)] e] .
  have o: "memdump_opts [c, 32, 37, 112] 120 1 = ([32, 37, 112], 120, sz)" "skip_space [32, 37, 112] = [37, 112]"
    using assms(2) by (auto simp: isspace_def)
  have "sz \<in> {1, 2, 4, 8}" using assms(2) by auto
  then show ?thesis using memdump_loop_text [of sz 0 "unat n" m addr u] unat_lt32 [of n]
    unfolding debug_memdump_def st using assms(1) by (simp add: o del: memdump_opts.simps skip_space.simps)
qed

section \<open>A panic is reported\<close>

lemma vga_plain: "27 \<notin> set p \<Longrightarrow> \<exists>v. write_string (vga_writec a) p s = Inr v"
proof -
  have "27 \<notin> set p \<Longrightarrow> \<exists>v. write_loop (vga_writec a) (length p) (Some p) s = Inr v"
    by (induction p arbitrary: s) (simp_all add: vga_writec_def)
  then show "27 \<notin> set p \<Longrightarrow> \<exists>v. write_string (vga_writec a) p s = Inr v" by (simp add: write_string_def)
qed

lemma vga_pad: "c \<noteq> 27 \<Longrightarrow> \<exists>v. pad (vga_writec a) n c s = Inr v"
proof -
  assume "c \<noteq> 27"
  then have "\<exists>v. pad_loop (vga_writec a) k c s = Inr v" for k by (induction k arbitrary: s) (simp_all add: vga_writec_def)
  then show ?thesis by (simp add: pad_def)
qed

lemma digits_plain: "digit_loop r ctl n = Inr cs \<Longrightarrow> base ctl = 16 \<Longrightarrow> \<not> upper ctl \<Longrightarrow> 27 \<notin> set cs"
proof (induction r arbitrary: n cs)
  case (Suc r)
  have "unat (n mod 16) < length digit_chars" by (simp add: unat_mod digit_chars_def)
  then have "digit_chars ! unat (n mod 16) \<in> set digit_chars" by (rule nth_mem)
  then have "digit_chars ! unat (n mod 16) \<noteq> 27" by (auto simp: digit_chars_def)
  then show ?case using Suc by (auto simp: Let_def res_iff split: if_splits)
qed simp

lemma TRY_PAD_ok:
  assumes "\<And>s. \<exists>v. w s = Inr v"
  shows "\<exists>v. TRY_PAD (vga_writec a) fl n w s = Inr v"
proof -
  have ok: "\<exists>z. pad (vga_writec a) (sint n) 48 x = Inr z" "\<exists>z. pad (vga_writec a) (sint n) 32 x = Inr z" for x
    by (rule vga_pad, simp)+
  obtain x where x: "w s = Inr x" using assms by blast
  obtain y where y: "pad (vga_writec a) (sint n) 48 s = Inr y" using ok(1) by blast
  obtain z where z: "pad (vga_writec a) (sint n) 32 s = Inr z" using ok(2) by blast
  show ?thesis using assms [of y] assms [of z] ok(2) [of x] assms [of s] by (simp add: TRY_PAD_def x y z)
qed

lemma vga_hex: "\<exists>v. print_padded (vga_writec a) fl w PCTL_x n s = Inr v"
proof -
  obtain cs where t: "digit_loop 31 (PCTL_x True) n = Inr cs" using digits_fit [of "PCTL_x True" True n] by blast
  then have cs: "digit_loop 31 (PCTL_x b) n = Inr cs" for b using digit_loop_flush [of 31 b n True] by simp
  have "27 \<notin> set (rev cs)" using digits_plain [OF t] by (simp add: PCTL_x_def)
  from vga_plain [OF this] have p: "\<exists>v. write_string (vga_writec a) (rev cs) s = Inr v" for s .
  have w: "\<exists>v. rbind (print_int (vga_writec a) n (PCTL_x True) s) (\<lambda>(_, s). Inr s) = Inr v" for s
  proof -
    obtain v where "write_string (vga_writec a) (rev cs) s = Inr v" using p by blast
    moreover have "flush (PCTL_x True)" "\<not> signd (PCTL_x True)" by (simp_all add: PCTL_x_def)
    ultimately show ?thesis using t by (simp add: print_int_def print_uint_def)
  qed
  have "flush (PCTL_x False) = False" "\<not> signd (PCTL_x False)" by (simp_all add: PCTL_x_def)
  then have "print_int (vga_writec a) n (PCTL_x False) s = Inr (length cs, s)"
    using cs [of False] by (simp add: print_int_def print_uint_def)
  then show ?thesis using TRY_PAD_ok [OF w] by (simp add: print_padded_def)
qed

lemma strtol_codes: "strtol (51 # 49 # 109 # r) = (31, 109 # r, False)" "strtol (48 # 109 # r) = (0, 109 # r, False)"
  by (simp_all add: strtol_def isspace_def isdigit_def take_sign_def)

lemma color_codes:
  assumes "abuf a \<noteq> []"
  shows "\<exists>b. ansi_parse a (27 # 91 # 51 # 49 # 109 # r) = Inr (Some r, b)" "\<exists>b. ansi_parse a (27 # 91 # 48 # 109 # r) = Inr (Some r, b)"
  using assms by (simp_all add: ansi_parse_def parse_list.simps [of False] strtol_codes isalpha_def isupper_def islower_def isdigit_def
      set_state_def Let_def arity_check_def)

text \<open>The three lines on the screen.\<close>

lemma vga_report:
  assumes "abuf a \<noteq> []" "27 \<notin> set msg"
  shows "\<exists>v. vga_vprintf a [91, 27, 91, 51, 49, 109, 80, 65, 78, 73, 67, 27, 91, 48, 109, 93, 32, 37, 115, 10] [AStr msg] s = Inr v"
proof -
  obtain b where b: "ansi_parse a [27, 91, 51, 49, 109, 80, 65, 78, 73, 67, 27, 91, 48, 109, 93, 32, 37, 115, 10] =
     Inr (Some [80, 65, 78, 73, 67, 27, 91, 48, 109, 93, 32, 37, 115, 10], b)" using color_codes(1) [OF assms(1)] by blast
  obtain c where c: "ansi_parse a [27, 91, 48, 109, 93, 32, 37, 115, 10] = Inr (Some [93, 32, 37, 115, 10], c)"
    using color_codes(2) [OF assms(1)] by blast
  have st: "strtol [115, 10] = (0, [115, 10], False)" by code_simp
  have w: "\<exists>v. TRY_PAD (vga_writec a) fl n (write_string (vga_writec a) msg) s = Inr v" for fl n s
    by (rule TRY_PAD_ok) (rule vga_plain [OF assms(2)])
  have ten: "\<exists>v. format_loop (vga_writec a) n fl (Some [10]) args s = Inr v" if "0 < n" for n fl args s
    using that by (cases n) (simp_all add: vga_writec_def)
  have tail: "\<exists>v. format_loop (vga_writec a) (Suc (Suc n)) fl (Some [37, 115, 10]) [AStr msg] s = Inr v" for n fl s
  proof -
    obtain v where v: "TRY_PAD (vga_writec a) fl (0 - of_nat (length msg)) (write_string (vga_writec a) msg) s = Inr v" using w by blast
    obtain x where "format_loop (vga_writec a) (Suc n) fl (Some [10]) [] v = Inr x" using ten by blast
    then show ?thesis using v by (subst format_loop.simps(4)) (simp add: st specifier_def del: format_loop.simps)
  qed
  show ?thesis
    using tail [where n = "Suc (Suc (Suc (Suc (Suc (Suc (Suc (Suc (Suc (Suc 0)))))))))"] b c by (simp add: vga_vprintf_def format_def vga_writec_def)
qed

lemma vga_title: "\<exists>v. vga_vprintf a [83, 116, 97, 99, 107, 32, 116, 114, 97, 99, 101, 58, 10] [] s = Inr v"
  by (simp add: vga_vprintf_def format_def vga_writec_def)

lemma vga_trace_line: "\<exists>v. vga_vprintf a [32, 32, 91, 60, 37, 35, 48, 56, 120, 62, 93, 10] [AInt n] s = Inr v"
proof -
  have st: "strtol [56, 120, 62, 93, 10] = (8, [120, 62, 93, 10], False)" by code_simp
  have w: "\<exists>v. write_string (vga_writec a) [48, 120] s = Inr v" for s by (rule vga_plain) simp
  have "\<exists>v. specifier (vga_writec a) \<lparr>pad0 = True, leftpad = False, alt_hex = True\<rparr> 8 [120, 62, 93, 10] [AInt n] s = Inr ([62, 93, 10], [], v)" for s
  proof -
    obtain x where x: "write_string (vga_writec a) [48, 120] s = Inr x" using w by blast
    obtain y where "print_padded (vga_writec a) \<lparr>pad0 = True, leftpad = False, alt_hex = True\<rparr> 8 PCTL_x n x = Inr y" using vga_hex by blast
    then show ?thesis using x by (simp add: specifier_def)
  qed
  then obtain g where g: "specifier (vga_writec a) \<lparr>pad0 = True, leftpad = False, alt_hex = True\<rparr> 8 [120, 62, 93, 10] [AInt n] s =
      Inr ([62, 93, 10], [], g s)" for s by metis
  show ?thesis by (simp add: vga_vprintf_def format_def vga_writec_def st g)
qed

text \<open>What goes to the second serial port.\<close>

definition PANIC_TEXT :: "cstr \<Rightarrow> cstr" where
  "PANIC_TEXT msg = [91, 27, 91, 51, 49, 109, 80, 65, 78, 73, 67, 27, 91, 48, 109, 93, 32] @ msg @ [10]"

definition FRAME_TEXT :: "u32 \<Rightarrow> cstr" where
  "FRAME_TEXT ret = [32, 32, 91, 60] @ hex_field 8 ret @ [62, 93, 10]"

definition TRACE_TITLE :: cstr where
  "TRACE_TITLE = [83, 116, 97, 99, 107, 32, 116, 114, 97, 99, 101, 58, 10]"

fun frames :: "nat \<Rightarrow> mem \<Rightarrow> u32 \<Rightarrow> u32 list" where
  "frames 0 m ebp = []"
| "frames (Suc k) m ebp = (if ebp = 0 then [] else load32 m (ebp + 4) # frames k m (load32 m ebp))"

lemma report_texts:
  assumes "length msg < 2147483648"
  shows "format text_port [91, 27, 91, 51, 49, 109, 80, 65, 78, 73, 67, 27, 91, 48, 109, 93, 32, 37, 115, 10] [AStr msg] [] = Inr (PANIC_TEXT msg)"
    "format text_port [83, 116, 97, 99, 107, 32, 116, 114, 97, 99, 101, 58, 10] [] [] = Inr TRACE_TITLE"
    "format text_port [32, 32, 91, 60, 37, 35, 48, 56, 120, 62, 93, 10] [AInt v] [] = Inr (FRAME_TEXT v)"
proof -
  have st: "strtol [56, 120, 62, 93, 10] = (8, [120, 62, 93, 10], False)" "strtol [115, 10] = (0, [115, 10], False)" by code_simp+
  have pp: "print_padded text_port \<lparr>pad0 = True, leftpad = False, alt_hex = True\<rparr> 8 PCTL_x v out =
      Inr (out @ replicate (8 - length (hex_text v)) 48 @ hex_text v)" for out
    using print_padded_hex [of 8 "\<lparr>pad0 = True, leftpad = False, alt_hex = True\<rparr>" v out] by simp
  show "format text_port [83, 116, 97, 99, 107, 32, 116, 114, 97, 99, 101, 58, 10] [] [] = Inr TRACE_TITLE"
    by (simp add: format_def TRACE_TITLE_def)
  show "format text_port [32, 32, 91, 60, 37, 35, 48, 56, 120, 62, 93, 10] [AInt v] [] = Inr (FRAME_TEXT v)"
    by (simp add: format_def st specifier_def pp FRAME_TEXT_def hex_field_def)
  have "sint (0 - of_nat (length msg) :: u32) \<le> 0" using small_sint [of 0, OF _ assms] by simp
  then have "TRY_PAD text_port fl (- of_nat (length msg)) (write_string text_port msg) out = Inr (out @ msg)" for fl out
    by (simp add: TRY_PAD_def)
  then show "format text_port [91, 27, 91, 51, 49, 109, 80, 65, 78, 73, 67, 27, 91, 48, 109, 93, 32, 37, 115, 10] [AStr msg] [] = Inr (PANIC_TEXT msg)"
    by (simp add: format_def st specifier_def PANIC_TEXT_def)
qed

lemma both_out_ok:
  assumes "\<exists>v. vga_vprintf (cansi s) fmt args (cscreen s) = Inr v" "format text_port fmt args [] = Inr t"
  shows "\<exists>v. both_out fmt args s = Inr (s\<lparr>cscreen := v, cuart := transmitted COM2 (cuart s) t\<rparr>)"
  using assms by (auto simp: both_out_def vga_out_def debug_out_def debug_printf_text)

lemma trace_nothing: "\<exists>v. s = s\<lparr>cscreen := v, cuart := transmitted COM2 (cuart s) []\<rparr>"
  by (rule exI [of _ "cscreen s"]) (simp add: transmitted_def)

lemma trace_loop_ok:
  "\<exists>v. trace_loop k m ebp s = Inr (s\<lparr>cscreen := v, cuart := transmitted COM2 (cuart s) (concat (map FRAME_TEXT (frames k m ebp)))\<rparr>)"
proof (induction k arbitrary: ebp s)
  case (Suc k)
  show ?case
  proof (cases "ebp = 0")
    case False
    obtain v where v: "both_out [32, 32, 91, 60, 37, 35, 48, 56, 120, 62, 93, 10] [AInt (load32 m (ebp + 4))] s =
        Inr (s\<lparr>cscreen := v, cuart := transmitted COM2 (cuart s) (FRAME_TEXT (load32 m (ebp + 4)))\<rparr>)"
      using both_out_ok [OF vga_trace_line report_texts(3) [of "[]"]] by auto
    then show ?thesis
      using Suc [of "load32 m ebp" "s\<lparr>cscreen := v, cuart := transmitted COM2 (cuart s) (FRAME_TEXT (load32 m (ebp + 4)))\<rparr>"] False
      by (simp add: transmitted_twice)
  qed (use trace_nothing in simp)
qed (use trace_nothing in simp)

section \<open>Property\<close>



end
