(* ===== verification/Dumps.thy ===== *)
theory Dumps
  imports Diagnostics Trap
begin

text \<open>
  The dumps of debug builds: the trap frame (kernel/trap.c), a saved context and a process (kernel/process.c), printed on the second
  serial port.  The layout of a trap frame is that of kernel/trap.h; a field of 16 bits has two bytes of padding behind it.
\<close>

section \<open>Texts\<close>

text \<open>The bytes of a string literal, and of one that ends in a newline.\<close>

definition bytes :: "string \<Rightarrow> cstr" where
  "bytes t = map of_char t"

definition bytes_nl :: "string \<Rightarrow> cstr" where
  "bytes_nl t = bytes t @ [10]"

text \<open>Calls of \<open>debug\<close> one after the other.\<close>

fun debug_seq :: "(cstr \<times> fmt_arg list) list \<Rightarrow> uart \<Rightarrow> uart res" where
  "debug_seq [] u = Inr u"
| "debug_seq ((fmt, args) # xs) u = rbind (debug fmt args u) (debug_seq xs)"

section \<open>Trap frames (trap.h, trap.c)\<close>

definition load16 :: "mem \<Rightarrow> u32 \<Rightarrow> u32" where
  "load16 m a = ucast (m a) OR push_bit 8 (ucast (m (a + 1)))"

record TrapFrame =
  t_edi :: u32
  t_esi :: u32
  t_ebp :: u32
  t_ebx :: u32
  t_edx :: u32
  t_ecx :: u32
  t_eax :: u32
  t_gs :: u32
  t_fs :: u32
  t_es :: u32
  t_ds :: u32
  t_trapno :: u32
  t_err :: u32
  t_eip :: u32
  t_cs :: u32
  t_eflags :: u32
  t_esp :: u32
  t_ss :: u32

definition frame_at :: "mem \<Rightarrow> u32 \<Rightarrow> TrapFrame" where
  "frame_at m tf =
     \<lparr>t_edi = load32 m tf, t_esi = load32 m (tf + 4), t_ebp = load32 m (tf + 8), t_ebx = load32 m (tf + 16), t_edx = load32 m (tf + 20),
      t_ecx = load32 m (tf + 24), t_eax = load32 m (tf + 28), t_gs = load16 m (tf + 32), t_fs = load16 m (tf + 36), t_es = load16 m (tf + 40),
      t_ds = load16 m (tf + 44), t_trapno = load32 m (tf + 48), t_err = load32 m (tf + 52), t_eip = load32 m (tf + 56), t_cs = load16 m (tf + 60),
      t_eflags = load32 m (tf + 64), t_esp = load32 m (tf + 68), t_ss = load16 m (tf + 72)\<rparr>"

text \<open>The names of the vectors.  The entries in between are null pointers, and the last one is that of the system call.\<close>

definition traperr_list :: "(u32 \<times> string) list" where
  "traperr_list =
     [(0x00, ''I_DIVBYZERO''), (0x01, ''I_DEBUG''), (0x02, ''I_NMI''), (0x03, ''I_BRKPNT''), (0x04, ''I_OVERFLOW''), (0x05, ''I_BOUND''),
      (0x06, ''I_ILLEGALOP''), (0x07, ''I_COPNOAVIL''), (0x08, ''I_DOUBLEFLT''), (0x09, ''I_COPSEG''), (0x0A, ''I_TSS''), (0x0B, ''I_SEGNP''),
      (0x0C, ''I_STKSGFLT''), (0x0D, ''I_GPFLT''), (0x0E, ''I_PGFLT''), (0x0F, ''0xf''), (0x10, ''I_FPERR''), (0x11, ''I_ALIGN''),
      (0x12, ''I_MACHINE''), (0x13, ''I_SIMDERR''), (0x20, ''I_IRQ_TIMER''), (0x21, ''I_IRQ_KBD''), (0x22, ''I_IRQ_CASCADE''),
      (0x23, ''I_IRQ_COM2''), (0x24, ''I_IRQ_COM1''), (0x25, ''I_IRQ_LPT1''), (0x28, ''I_IRQ_CMOS''), (0x2C, ''I_IRQ_MOUSE''),
      (0x2E, ''I_IRQ_IDE''), (0x33, ''I_IRQ_ERR''), (0x3F, ''I_IRQ_SPURIOUS''), (0x40, ''I_SYSCALL'')]"

definition traperrs :: "u32 \<Rightarrow> cstr option" where
  "traperrs no = map_option bytes (map_of traperr_list no)"

text \<open>Where the table has no name, \<open>%s\<close> reads a string at the null pointer, or at what lies behind the table.\<close>

definition dump_trapframe :: "mem \<Rightarrow> u32 \<Rightarrow> uart \<Rightarrow> uart res" where
  "dump_trapframe m tf u =
     (let f = frame_at m tf in
      rbind (debug_seq
        [(bytes_nl ''trapframe> '', []), (bytes_nl '' edi:    %#x'', [AInt (t_edi f)]), (bytes_nl '' esi:    %#x'', [AInt (t_esi f)]),
         (bytes_nl '' ebp:    %#x'', [AInt (t_ebp f)]), (bytes_nl '' ebx:    %#x'', [AInt (t_ebx f)]), (bytes_nl '' edx:    %#x'', [AInt (t_edx f)]),
         (bytes_nl '' ecx:    %#x'', [AInt (t_ecx f)]), (bytes_nl '' eax:    %#x'', [AInt (t_eax f)]), (bytes_nl '' gs:     %#x'', [AInt (t_gs f)]),
         (bytes_nl '' fs:     %#x'', [AInt (t_fs f)]), (bytes_nl '' es:     %#x'', [AInt (t_es f)]), (bytes_nl '' ds:     %#x'', [AInt (t_ds f)])] u) (\<lambda>u.
      rbind (case traperrs (t_trapno f) of
               None \<Rightarrow> Inl OutOfBounds
             | Some name \<Rightarrow> debug (bytes_nl '' trapno: %#x, %s'') [AInt (t_trapno f), AStr name] u)
      (debug_seq
        [(bytes_nl '' err:    %#x'', [AInt (t_err f)]), (bytes_nl '' eip:    [<%#x>]'', [AInt (t_eip f)]), (bytes_nl '' cs:     %#x'', [AInt (t_cs f)]),
         (bytes_nl '' eflags: %#x'', [AInt (t_eflags f)]), (bytes_nl '' esp:    %#x'', [AInt (t_esp f)]), (bytes_nl '' ss:     %#x'', [AInt (t_ss f)])])))"

section \<open>Contexts and processes (process.c)\<close>

record Context =
  c_edi :: u32
  c_esi :: u32
  c_ebx :: u32
  c_ebp :: u32
  c_eip :: u32

definition context_at :: "mem \<Rightarrow> u32 \<Rightarrow> Context" where
  "context_at m c =
     \<lparr>c_edi = load32 m c, c_esi = load32 m (c + 4), c_ebx = load32 m (c + 8), c_ebp = load32 m (c + 12), c_eip = load32 m (c + 16)\<rparr>"

definition dump_context :: "mem \<Rightarrow> u32 \<Rightarrow> uart \<Rightarrow> uart res" where
  "dump_context m c u =
     (if c = 0 then debug (bytes_nl ''CTX> no context yet'') [] u
      else
        let x = context_at m c in
        debug_seq
          [(bytes_nl ''CTX>'', []), (bytes_nl ''  edi: %#x'', [AInt (c_edi x)]), (bytes_nl ''  esi: %#x'', [AInt (c_esi x)]),
           (bytes_nl ''  ebx: %#x'', [AInt (c_ebx x)]), (bytes_nl ''  ebp: %#x'', [AInt (c_ebp x)]), (bytes_nl ''  eip: [<%#x>]'', [AInt (c_eip x)])] u)"

definition state_name :: "procstate \<Rightarrow> cstr" where
  "state_name st =
     (case st of
        PROC_UNUSED \<Rightarrow> bytes ''unused'' | PROC_CREATED \<Rightarrow> bytes ''created'' | PROC_SLEEPING \<Rightarrow> bytes ''sleeping''
      | PROC_READY \<Rightarrow> bytes ''ready'' | PROC_RUNNING \<Rightarrow> bytes ''running'' | PROC_ZOMBIE \<Rightarrow> bytes ''zombie'')"

text \<open>The string at an address, as \<open>%s\<close> reads it.\<close>

definition text_at :: "mem \<Rightarrow> u32 \<Rightarrow> cstr res" where
  "text_at m a = (case strlen m a of None \<Rightarrow> Inl Hang | Some n \<Rightarrow> Inr (map (\<lambda>k. m (a + of_nat k)) [0..<unat n]))"

definition dump_process :: "nat \<Rightarrow> kstate \<Rightarrow> uart \<Rightarrow> uart res" where
  "dump_process i s u =
     (let p = ptable s ! i in
      if pid p > of_nat NPROC then Inr u
      else
        rbind (text_at (ram (mach s)) (name_addr i s)) (\<lambda>name.
        debug_seq
          [(bytes_nl ''PROC>'', [AInt (pid p), AStr name, AStr (state_name (state p))]), (bytes_nl ''  pid:   %d'', [AInt (pid p)]),
           (bytes_nl ''  name:  %s'', [AStr name]), (bytes_nl ''  state: %s'', [AStr (state_name (state p))])] u))"

section \<open>What a line shows\<close>

text \<open>The prefix of a debug message.\<close>

definition DEBUG_TEXT :: cstr where
  "DEBUG_TEXT = [91, 27, 91, 51, 54, 109, 68, 69, 66, 85, 71, 27, 91, 48, 109, 93, 32]"

lemma debug_text:
  assumes "format text_port fmt args [] = Inr t"
  shows "debug fmt args u = Inr (transmitted COM2 u (DEBUG_TEXT @ t))"
  using assms debug_printf_text [of fmt args]
  by (simp add: debug_def debug_printf_text plain_format transmitted_twice DEBUG_TEXT_def flip: debug_printf_def)

lemma debug_seq_text:
  assumes "list_all2 (\<lambda>(fmt, args) t. format text_port fmt args [] = Inr t) xs ts"
  shows "debug_seq xs u = Inr (transmitted COM2 u (concat (map ((@) DEBUG_TEXT) ts)))"
  using assms
proof (induction xs ts arbitrary: u rule: list_all2_induct)
  case Nil
  then show ?case by (simp add: transmitted_def)
next
  case (Cons x xs t ts)
  then show ?case by (cases x) (simp add: debug_text transmitted_twice)
qed

lemma format_loop_plain:
  "37 \<notin> set p \<Longrightarrow> format_loop text_port (length p + n) fl (Some (p @ q)) args out = format_loop text_port n fl (Some q) args (out @ p)"
  by (induction p arbitrary: out) auto

lemma strtol_letter: "c \<in> {100, 115, 120} \<Longrightarrow> strtol (c # q) = (0, c # q, False)"
  by (auto simp: strtol_def isspace_def isdigit_def take_sign_def)

lemma hex_spec:
  assumes "alt_hex fl"
  shows "specifier text_port fl 0 (120 # q) (AInt v # as) out = Inr (q, as, out @ [48, 120] @ hex_text v)"
proof -
  let ?p = "of_nat 0 - of_nat (length (hex_text v)) :: u32"
  have "sint ?p = - int (length (hex_text v))" using small_sint [of 0 "length (hex_text v)"] hex_text_eq(2) [of v] by simp
  then have n: "nat (sint (- of_nat (length (hex_text v)) :: u32)) = 0" by simp
  have f: "flush (PCTL_x b) = b" for b by (simp add: PCTL_x_def)
  show ?thesis
    using assms by (simp add: specifier_def print_padded_def print_int_text hex_text_eq f TRY_PAD_def n)
qed

lemma str_spec:
  assumes "length t < 2147483648"
  shows "specifier text_port fl 0 (115 # q) (AStr t # as) out = Inr (q, as, out @ t)"
proof -
  have "sint (0 - of_nat (length t) :: u32) \<le> 0" using small_sint [of 0, OF _ assms] by simp
  then show ?thesis by (simp add: specifier_def TRY_PAD_def)
qed

lemma dec_text_eq: "int_text (PCTL_d b) v = Inr (dec_text v)" "length (dec_text v) \<le> 31"
proof -
  let ?w = "if sint v < 0 then - v else v"
  have fl: "digit_loop n (PCTL_d a) w = digit_loop n (PCTL_d b) w" for n a b w
    by (induction n arbitrary: w) (simp_all add: PCTL_d_def Let_def)
  obtain cs where cs: "digit_loop 31 (PCTL_d True) ?w = Inr cs" "length cs \<le> 31" using digits_fit [of "PCTL_d True" True ?w] by auto
  then have t: "int_text (PCTL_d b) v = Inr (rev cs)" for b
    using fl [of 31 b ?w True] by (simp add: int_text_def PCTL_d_def)
  then show "int_text (PCTL_d b) v = Inr (dec_text v)" by (simp add: dec_text_def)
  show "length (dec_text v) \<le> 31" using t [of True] cs(2) by (simp add: dec_text_def)
qed

lemma dec_spec: "specifier text_port fl 0 (100 # q) (AInt v # as) out = Inr (q, as, out @ dec_text v)"
proof -
  have "sint (of_nat 0 - of_nat (length (dec_text v)) :: u32) = - int (length (dec_text v))"
    using small_sint [of 0 "length (dec_text v)"] dec_text_eq(2) [of v] by simp
  then have n: "nat (sint (- of_nat (length (dec_text v)) :: u32)) = 0" by simp
  have f: "flush (PCTL_d b) = b" for b by (simp add: PCTL_d_def)
  show ?thesis by (simp add: specifier_def print_padded_def print_int_text dec_text_eq f TRY_PAD_def n)
qed

lemma hex_line:
  assumes "37 \<notin> set lab" "37 \<notin> set suf"
  shows "format text_port (lab @ [37, 35, 120] @ suf) [AInt v] [] = Inr (lab @ [48, 120] @ hex_text v @ suf)"
proof -
  have "format_loop text_port (length suf + 2) fl (Some (suf @ [])) [] out = Inr (out @ suf)" for fl out
    by (simp only: format_loop_plain [OF assms(2)]) simp
  moreover have "length (lab @ [37, 35, 120] @ suf) = length lab + Suc (length suf + 2)" by simp
  ultimately show ?thesis
    unfolding format_def by (simp only: format_loop_plain [OF assms(1)] append.simps) (simp add: strtol_letter hex_spec)
qed

section \<open>What a dump shows\<close>

text \<open>A line with a register, and all of a frame.\<close>

definition reg_line :: "string \<Rightarrow> u32 \<Rightarrow> cstr" where
  "reg_line lab v = DEBUG_TEXT @ bytes lab @ [48, 120] @ hex_text v @ [10]"

definition frame_report :: "TrapFrame \<Rightarrow> cstr \<Rightarrow> cstr" where
  "frame_report f name =
     DEBUG_TEXT @ bytes_nl ''trapframe> '' @
     concat (map2 reg_line ['' edi:    '', '' esi:    '', '' ebp:    '', '' ebx:    '', '' edx:    '', '' ecx:    '', '' eax:    '', '' gs:     '',
         '' fs:     '', '' es:     '', '' ds:     '']
       [t_edi f, t_esi f, t_ebp f, t_ebx f, t_edx f, t_ecx f, t_eax f, t_gs f, t_fs f, t_es f, t_ds f]) @
     DEBUG_TEXT @ bytes '' trapno: '' @ [48, 120] @ hex_text (t_trapno f) @ bytes '', '' @ name @ [10] @
     reg_line '' err:    '' (t_err f) @
     DEBUG_TEXT @ bytes '' eip:    [<'' @ [48, 120] @ hex_text (t_eip f) @ bytes_nl ''>]'' @
     concat (map2 reg_line ['' cs:     '', '' eflags: '', '' esp:    '', '' ss:     ''] [t_cs f, t_eflags f, t_esp f, t_ss f])"

lemma format_plain_nl: "37 \<notin> set (bytes t) \<Longrightarrow> format text_port (bytes_nl t) args [] = Inr (bytes_nl t)"
  by (simp add: bytes_nl_def plain_format)

lemma debug_reg:
  assumes "fmt = bytes lab @ [37, 35, 120, 10]" "37 \<notin> set (bytes lab)"
  shows "debug fmt [AInt v] u = Inr (transmitted COM2 u (reg_line lab v))"
  using debug_text [OF hex_line [OF assms(2), of "[10]" v]] by (simp add: assms(1) reg_line_def)

lemma debug_trapno:
  assumes "length name < 2147483648"
  shows "debug (bytes_nl '' trapno: %#x, %s'') [AInt v, AStr name] u =
    Inr (transmitted COM2 u (DEBUG_TEXT @ bytes '' trapno: '' @ [48, 120] @ hex_text v @ bytes '', '' @ name @ [10]))"
  by (rule debug_text) (simp add: bytes_def bytes_nl_def format_def strtol_letter hex_spec str_spec [OF assms])

lemma debug_eip:
  "debug (bytes_nl '' eip:    [<%#x>]'') [AInt v] u =
    Inr (transmitted COM2 u (DEBUG_TEXT @ bytes '' eip:    [<'' @ [48, 120] @ hex_text v @ bytes_nl ''>]''))"
  by (rule debug_text) (simp add: bytes_def bytes_nl_def format_def strtol_letter hex_spec)

lemma reg_formats:
  "bytes_nl '' edi:    %#x'' = bytes '' edi:    '' @ [37, 35, 120, 10]" "bytes_nl '' esi:    %#x'' = bytes '' esi:    '' @ [37, 35, 120, 10]"
  "bytes_nl '' ebp:    %#x'' = bytes '' ebp:    '' @ [37, 35, 120, 10]" "bytes_nl '' ebx:    %#x'' = bytes '' ebx:    '' @ [37, 35, 120, 10]"
  "bytes_nl '' edx:    %#x'' = bytes '' edx:    '' @ [37, 35, 120, 10]" "bytes_nl '' ecx:    %#x'' = bytes '' ecx:    '' @ [37, 35, 120, 10]"
  "bytes_nl '' eax:    %#x'' = bytes '' eax:    '' @ [37, 35, 120, 10]" "bytes_nl '' gs:     %#x'' = bytes '' gs:     '' @ [37, 35, 120, 10]"
  "bytes_nl '' fs:     %#x'' = bytes '' fs:     '' @ [37, 35, 120, 10]" "bytes_nl '' es:     %#x'' = bytes '' es:     '' @ [37, 35, 120, 10]"
  "bytes_nl '' ds:     %#x'' = bytes '' ds:     '' @ [37, 35, 120, 10]" "bytes_nl '' err:    %#x'' = bytes '' err:    '' @ [37, 35, 120, 10]"
  "bytes_nl '' cs:     %#x'' = bytes '' cs:     '' @ [37, 35, 120, 10]" "bytes_nl '' eflags: %#x'' = bytes '' eflags: '' @ [37, 35, 120, 10]"
  "bytes_nl '' esp:    %#x'' = bytes '' esp:    '' @ [37, 35, 120, 10]" "bytes_nl '' ss:     %#x'' = bytes '' ss:     '' @ [37, 35, 120, 10]"
  by (simp_all add: bytes_nl_def bytes_def)

lemma reg_labels:
  "list_all (\<lambda>t. 37 \<notin> set (bytes t)) ['' edi:    '', '' esi:    '', '' ebp:    '', '' ebx:    '', '' edx:    '', '' ecx:    '', '' eax:    '',
     '' gs:     '', '' fs:     '', '' es:     '', '' ds:     '', '' err:    '', '' cs:     '', '' eflags: '', '' esp:    '', '' ss:     '', ''trapframe> '']"
  by (simp add: bytes_def)

lemmas debug_regs = reg_formats [THEN debug_reg]

lemma traperrs_short: "traperrs no = Some name \<Longrightarrow> length name < 2147483648"
proof -
  assume "traperrs no = Some name"
  then obtain t where t: "(no, t) \<in> set traperr_list" "name = bytes t" by (auto simp: traperrs_def dest: map_of_SomeD)
  have "list_all (\<lambda>(_, t). length t < 2147483648) traperr_list" by (simp add: traperr_list_def)
  then show ?thesis using t by (auto simp: list_all_iff bytes_def)
qed

text \<open>A dump shows every register of the frame, and the name of the vector, when it has one.\<close>

lemma dump_trapframe_text:
  "dump_trapframe m tf u =
    (case traperrs (t_trapno (frame_at m tf)) of
       None \<Rightarrow> Inl OutOfBounds
     | Some name \<Rightarrow> Inr (transmitted COM2 u (frame_report (frame_at m tf) name)))"
proof (cases "traperrs (t_trapno (frame_at m tf))")
  case None
  then show ?thesis using reg_labels
    by (simp add: dump_trapframe_def Let_def debug_text [OF format_plain_nl] debug_regs)
next
  case (Some name)
  then show ?thesis using reg_labels
    by (simp add: dump_trapframe_def Let_def debug_text [OF format_plain_nl] debug_regs debug_trapno [OF traperrs_short [OF Some]] debug_eip
        transmitted_twice frame_report_def)
qed

text \<open>Every exception of the processor up to 0x13 and every interrupt that has a handler has a name; the interrupt lines 6, 7, 9, 10, 11,
  13 and 15 have none.\<close>

lemma traperrs_named:
  "no \<le> 0x13 \<Longrightarrow> traperrs no \<noteq> None" "no \<in> {0x26, 0x27, 0x29, 0x2A, 0x2B, 0x2D, 0x2F} \<Longrightarrow> traperrs no = None"
proof -
  have "list_all (\<lambda>k. map_of traperr_list (of_nat k) \<noteq> None) [0..<0x14]" by (simp add: traperr_list_def upt_rec)
  then have k: "map_of traperr_list (of_nat k) \<noteq> None" if "k < 0x14" for k using that by (simp add: list_all_iff)
  show "no \<le> 0x13 \<Longrightarrow> traperrs no \<noteq> None" using k [of "unat no"] by (simp add: traperrs_def word_le_nat_alt)
qed (auto simp: traperrs_def traperr_list_def)

text \<open>The dump of a context; the null pointer is the context of a process that has none.\<close>

lemma dump_context_text:
  assumes "c \<noteq> 0" "x = context_at m c"
  shows "dump_context m c u = Inr (transmitted COM2 u (DEBUG_TEXT @ bytes_nl ''CTX>'' @
      concat (map2 reg_line [''  edi: '', ''  esi: '', ''  ebx: '', ''  ebp: ''] [c_edi x, c_esi x, c_ebx x, c_ebp x]) @
      DEBUG_TEXT @ bytes ''  eip: [<'' @ [48, 120] @ hex_text (c_eip x) @ bytes_nl ''>]''))"
proof -
  have f: "bytes_nl ''  edi: %#x'' = bytes ''  edi: '' @ [37, 35, 120, 10]" "bytes_nl ''  esi: %#x'' = bytes ''  esi: '' @ [37, 35, 120, 10]"
    "bytes_nl ''  ebx: %#x'' = bytes ''  ebx: '' @ [37, 35, 120, 10]" "bytes_nl ''  ebp: %#x'' = bytes ''  ebp: '' @ [37, 35, 120, 10]"
    by (simp_all add: bytes_nl_def bytes_def)
  have l: "list_all (\<lambda>t. 37 \<notin> set (bytes t)) [''CTX>'', ''  edi: '', ''  esi: '', ''  ebx: '', ''  ebp: '']" by (simp add: bytes_def)
  have e: "debug (bytes_nl ''  eip: [<%#x>]'') [AInt v] u = Inr (transmitted COM2 u (DEBUG_TEXT @ bytes ''  eip: [<'' @ [48, 120] @ hex_text v @ bytes_nl ''>]''))"
    for v u by (rule debug_text) (simp add: bytes_def bytes_nl_def format_def strtol_letter hex_spec)
  show ?thesis using l assms
    by (simp add: dump_context_def Let_def debug_text [OF format_plain_nl] f [THEN debug_reg] e transmitted_twice)
qed

text \<open>The dump of a process shows its number, its name and its state.\<close>

lemma state_name_short: "length (state_name st) < 2147483648"
  by (cases st) (simp_all add: state_name_def bytes_def)

lemma dump_process_text:
  assumes "pid (ptable s ! i) \<le> 64" "text_at (ram (mach s)) (name_addr i s) = Inr name" "length name < 2147483648"
  shows "dump_process i s u = Inr (transmitted COM2 u (DEBUG_TEXT @ bytes_nl ''PROC>'' @ DEBUG_TEXT @ bytes ''  pid:   '' @ dec_text (pid (ptable s ! i)) @ [10] @
      DEBUG_TEXT @ bytes ''  name:  '' @ name @ [10] @ DEBUG_TEXT @ bytes ''  state: '' @ state_name (state (ptable s ! i)) @ [10]))"
proof -
  have p: "37 \<notin> set (bytes ''PROC>'')" by (simp add: bytes_def)
  have d: "format text_port (bytes_nl ''  pid:   %d'') [AInt v] [] = Inr (bytes ''  pid:   '' @ dec_text v @ [10])" for v
    by (simp add: bytes_def bytes_nl_def format_def strtol_letter dec_spec)
  have n: "format text_port (bytes_nl ''  name:  %s'') [AStr t] [] = Inr (bytes ''  name:  '' @ t @ [10])"
    "format text_port (bytes_nl ''  state: %s'') [AStr t] [] = Inr (bytes ''  state: '' @ t @ [10])" if "length t < 2147483648" for t
    by (simp_all add: bytes_def bytes_nl_def format_def strtol_letter str_spec [OF that])
  show ?thesis using assms
    by (simp add: dump_process_def Let_def debug_text [OF format_plain_nl [OF p]] debug_text [OF d] debug_text [OF n(1)] debug_text [OF n(2)]
        state_name_short transmitted_twice)
qed

text \<open>The layout agrees with the offsets that \<open>trap\<close> uses.\<close>

lemma frame_trapno: "t_trapno (frame_at (ram (mach (wkern w))) tf) = tf_trapno tf w"
  by (simp add: frame_at_def tf_trapno_def)

end
