(* ===== verification/User.thy ===== *)
theory User
  imports Fmt_Types
begin

text \<open>
  The first user program and the library of the user programs (melon/init.c, melib/melon.c).  A user program sees the kernel
  only through system calls, so it is a tree of calls with a continuation for each answer; it need not end.  The shell is in the theory
  \<open>Shell\<close>, and the rest of \<open>ls\<close> is commented out.
\<close>

section \<open>System calls\<close>

datatype ucall =
    Open cstr int | Mknod cstr int int | Dup int | Fork | Write int cstr | Exec cstr "cstr list" | Exit | Wait

codatatype uprog = Done | Call ucall "int \<Rightarrow> uprog"

text \<open>Running a program on the answers of the kernel: the calls that were answered, and what is left of the program.\<close>

fun run :: "uprog \<Rightarrow> int list \<Rightarrow> ucall list \<times> uprog" where
  "run p [] = ([], p)"
| "run p (a # as) = (case p of Done \<Rightarrow> ([], Done) | Call c k \<Rightarrow> let (cs, q) = run (k a) as in (c # cs, q))"

section \<open>init (init.c)\<close>

abbreviation (input) O_RDWR :: int where "O_RDWR \<equiv> 2"

definition CONSOLE :: cstr where "CONSOLE = [47, 99, 111, 110, 115, 111, 108, 101]"
definition SH :: cstr where "SH = [47, 115, 104]"
definition init_argv :: "cstr list" where "init_argv = [[115, 104]]"
definition ZOMBIE :: cstr where "ZOMBIE = [122, 111, 109, 98, 105, 101, 10]"
definition FORK_MSG :: cstr where "FORK_MSG = [105, 110, 105, 116, 58, 32, 102, 111, 114, 107, 10, 0]"

text \<open>The places of the last loop: at \<open>wait\<close>, at \<open>write\<close>, behind it.\<close>

datatype place = AtWait | AtWrite | AtEnd

primcorec init_loop :: "place \<Rightarrow> int \<Rightarrow> uprog" where
  "init_loop pl pid =
     (if pl = AtWait then Call Wait (\<lambda>wpid. init_loop (if wpid \<ge> 0 \<and> pid \<noteq> wpid then AtWrite else AtEnd) pid)
      else if pl = AtWrite then Call (Write 1 ZOMBIE) (\<lambda>_. init_loop AtWait pid)
      else Done)"

definition init_fork :: uprog where
  "init_fork =
     Call (Dup 0) (\<lambda>_. Call (Dup 0) (\<lambda>_. Call Fork (\<lambda>pid.
       if pid < 0 then Call (Write 1 FORK_MSG) (\<lambda>_. Call Exit (\<lambda>_. Done))
       else if pid = 0 then Call (Exec SH init_argv) (\<lambda>_. Call Exit (\<lambda>_. Done))
       else init_loop AtWait pid)))"

definition init_main :: uprog where
  "init_main =
     Call (Open CONSOLE O_RDWR) (\<lambda>r.
       if r < 0 then Call (Mknod CONSOLE 1 1) (\<lambda>_. Call (Open CONSOLE O_RDWR) (\<lambda>_. init_fork)) else init_fork)"

section \<open>Printing (melon.c)\<close>

definition user_putc :: "u8 \<Rightarrow> ucall list \<Rightarrow> ucall list" where
  "user_putc c tr = tr @ [Write 2 [c]]"

fun user_putchar :: "ucall list putchar" where
  "user_putchar [] tr = Inr (None, user_putc 0 tr)"
| "user_putchar (c # p) tr = Inr (Some p, user_putc c tr)"

definition user_vprintf :: "cstr \<Rightarrow> fmt_arg list \<Rightarrow> ucall list \<Rightarrow> ucall list res" where
  "user_vprintf fmt args tr = format user_putchar fmt args tr"

definition user_printf :: "cstr \<Rightarrow> fmt_arg list \<Rightarrow> ucall list \<Rightarrow> ucall list res" where
  "user_printf fmt args tr = user_vprintf fmt args tr"

interpretation up: port_refinement text_port user_putchar "\<lambda>t. tr @ map (\<lambda>c. Write 2 [c]) t" for tr
  by unfold_locales (auto simp: neq_Nil_conv user_putc_def)

lemma user_printf_text: "user_printf fmt args tr = rmap (\<lambda>t. tr @ map (\<lambda>c. Write 2 [c]) t) (format text_port fmt args [])"
  using up.sim_format [of fmt args tr "[]"] by (simp add: user_printf_def user_vprintf_def)

section \<open>The calls of init\<close>

lemma init_loop_code:
  "init_loop AtWait pid = Call Wait (\<lambda>w. init_loop (if w \<ge> 0 \<and> pid \<noteq> w then AtWrite else AtEnd) pid)"
  "init_loop AtWrite pid = Call (Write 1 ZOMBIE) (\<lambda>_. init_loop AtWait pid)" "init_loop AtEnd pid = Done"
  by (subst init_loop.code, simp)+

lemma init_loop_run:
  assumes "\<forall>(w, x) \<in> set ws. 0 \<le> w \<and> w \<noteq> pid" "e < 0 \<or> e = pid"
  shows "run (init_loop AtWait pid) (concat (map (\<lambda>(w, x). [w, x]) ws) @ [e]) =
    (concat (map (\<lambda>_. [Wait, Write 1 ZOMBIE]) ws) @ [Wait], Done)"
  using assms(1)
proof (induction ws)
  case Nil
  then show ?case using assms(2) by (auto simp: init_loop_code)
next
  case (Cons a ws)
  then show ?case by (cases a) (auto simp: init_loop_code)
qed

text \<open>Opening the console, with the answers \<open>r\<close>, \<open>a\<close> and \<open>b\<close>.\<close>

definition console_calls :: "int \<Rightarrow> ucall list" where
  "console_calls r = (if r < 0 then [Open CONSOLE O_RDWR, Mknod CONSOLE 1 1, Open CONSOLE O_RDWR] else [Open CONSOLE O_RDWR])"

definition console_answers :: "int \<Rightarrow> int \<Rightarrow> int \<Rightarrow> int list" where
  "console_answers r a b = (if r < 0 then [r, a, b] else [r])"

lemma run_init: "run init_main (console_answers r a b @ as) = (let (cs, q) = run init_fork as in (console_calls r @ cs, q))"
  by (simp add: init_main_def console_answers_def console_calls_def case_prod_beta)

section \<open>Property\<close>

text \<open>C40: What init does.  It opens the console, making the device first when that fails, and copies the descriptor twice.  In the new
  process it runs the shell, and ends if the shell cannot be run.  In the old one it waits, and goes on waiting after each process that is not
  the shell, with a line for each; when the shell has ended, or there is nothing to wait for, it returns
  from \<open>main\<close>, with no call of \<open>exit\<close>.  If \<open>fork\<close> fails it says so and ends.\<close>

theorem init_protocol:
  assumes "0 < pid" "\<forall>(w, x) \<in> set ws. 0 \<le> w \<and> w \<noteq> pid" "e < 0 \<or> e = pid" "f < 0"
  shows "run init_main (console_answers r a b @ [d1, d2, pid] @ concat (map (\<lambda>(w, x). [w, x]) ws) @ [e]) =
      (console_calls r @ [Dup 0, Dup 0, Fork] @ concat (map (\<lambda>_. [Wait, Write 1 ZOMBIE]) ws) @ [Wait], Done) \<and>
    run init_main (console_answers r a b @ [d1, d2, 0, x, y]) =
      (console_calls r @ [Dup 0, Dup 0, Fork, Exec SH init_argv, Exit], Done) \<and>
    run init_main (console_answers r a b @ [d1, d2, f, x, y]) =
      (console_calls r @ [Dup 0, Dup 0, Fork, Write 1 FORK_MSG, Exit], Done)"
  using assms init_loop_run [OF assms(2,3)] by (simp add: run_init init_fork_def)

theorem init_protocol_witness:
  "run init_main [-1, 0, 0, 1, 2, 5, 9, 7, 5] =
    ([Open CONSOLE 2, Mknod CONSOLE 1 1, Open CONSOLE 2, Dup 0, Dup 0, Fork, Wait, Write 1 ZOMBIE, Wait], Done)"
  using init_protocol [of 5 "[(9, 7)]" 5 "-1" "-1" 0 0 1 2] by (simp add: console_answers_def console_calls_def)

end
