(* ===== verification/Spec2Isabelle.thy ===== *)
theory Spec2Isabelle
  imports Kmain Boot Shell Dumps User
begin

text \<open>
  A verification development for melonOS, a Unix-like kernel for one i386 processor.

  \<^bold>\<open>The program.\<close>  The kernel (src/kernel, with src/lib and src/i386) manages physical pages and
  two-level page tables, runs processes round robin on one processor, keeps a file system on an
  ATA disk behind a buffer cache, and talks to the user through a console on a serial port, a
  keyboard and a text screen.  User programs enter it by system calls and are left by interrupts;
  both go through \<open>trap\<close>.  The boot loader (src/boot) reads the kernel from the disk; the tool
  src/mkfs makes the disk image with the user programs (src/melon, with the library src/melib), of
  which the first is \<open>init\<close> and the second the shell.

  \<^bold>\<open>The theories\<close>, in the order of their imports, and what they model:

  \<^item> \<open>Melon_Prelude\<close>: results (\<open>Inl\<close> a fault: a panic with its message, an access outside of an
    object, or a wait that never ends; \<open>Inr\<close> a value), byte memory with 32-bit addresses,
    little-endian words in it, lemmas on words and lists.
  \<^item> \<open>Lib_String\<close> (lib/string.c) and \<open>Lib_Std\<close> (lib/ctype.c, lib/stdlib.c, lib/fmt.c).
  \<^item> \<open>Mmu\<close> (i386/mem.h, i386/mmu.h), \<open>Palloc\<close> (memory/palloc.c), \<open>Pgtbl\<close> (memory/pgtbl.c),
    \<open>Vmem\<close> (memory/vmem.c), \<open>Segments\<close> (memory/gdt.c, trap/idt.c, \<open>trap_init\<close>): memory.
    The record \<open>machine\<close> is the memory with the head of the list of free pages; page tables are
    words in that memory.
  \<^item> \<open>Lock\<close> (trap/ncli.c, process/spinlock.c), \<open>Process\<close> (process.c, the process parts of vmem.c
    and file.c), \<open>Process_Inv\<close>, \<open>Scheduler\<close> and \<open>Process_Ops\<close> (its invariant, its step relation
    and the effect of each operation), \<open>Mutex\<close> (process/mutex.c), \<open>Pipe\<close> (pipe.c).  The record
    \<open>kstate\<close> is the machine, the processor, the process table and the table of open files.
    Code that gives up the processor ends there; the field \<open>kont\<close> of a process says what runs when
    it is switched to again.
  \<^item> \<open>Ide\<close> (driver/ide.c against a drive), \<open>Fs_Defs\<close> (fs/fdefs.h), \<open>Bcache\<close> (fs/disk.c,
    fs/bcache.c), \<open>Block\<close> (fs/block.c), \<open>Inode\<close> (fs/inode.c), \<open>File_Data\<close> (inodes as sequences of
    bytes), \<open>Dir\<close> (fs/dir.c, fs.c).  The record \<open>fs\<close> is the drive, the request queue, the buffers,
    the cached superblock and the inode cache.
  \<^item> \<open>Screen\<close> (lib/ansi.c, driver/vga.c), \<open>Serial\<close> (driver/uart.c), \<open>Devices\<close> (driver/ps2.c,
    driver/kbd.c, driver/pic.c), \<open>Console\<close> (dev/console.c, print.c).
  \<^item> \<open>Filesys\<close> (the rest of fs/file.c, \<open>pipe_allocate\<close>, inode locks), \<open>Syscall\<close> (sys/syscall.c),
    \<open>Exec\<close> (exec.c, lib/elf.h), \<open>Trap\<close> (trap.c).  The record \<open>sys\<close> joins process layer, file
    system and pipes; \<open>world\<close> adds console, timer and interrupt controllers.
  \<^item> \<open>Kvm_Pages\<close> (the page tables that \<open>kvm_allocate\<close> takes for the kernel map), \<open>Init_Process\<close>
    (\<open>init_pid1\<close> of process.c), \<open>Kmain\<close> (kmain.c, dev.c): the start of the kernel, from the machine
    that the boot loader leaves to the first step of the scheduler.
  \<^item> \<open>Mkfs\<close> (mkfs/mkfs.c, on an image kept as a list of blocks), \<open>Dir_Lookup\<close> (path resolution in a
    directory of the image), \<open>Mount\<close> (\<open>fs_init\<close> on an image), \<open>Boot\<close> (boot/boot.c).
  \<^item> \<open>Shell\<close> (melon/sh.c: line buffer, parser, heap and loop) and \<open>User\<close> (melon/init.c, melib/melon.c).
    \<open>init\<close> is a tree of system calls with a continuation for each answer, a codatatype because it
    need not end.
  \<^item> \<open>Fmt_Types\<close> (the types of format strings), \<open>Diagnostics\<close> (err.c, debug.c) and \<open>Dumps\<close> (the dumps
    of trap.c and process.c, with the layout of trap.h).

  \<^bold>\<open>Interfaces.\<close>  What one component relies on in another is a locale, interpreted on the model:
  \<open>page_allocator\<close>, a stack of pages (\<open>palloc\<close>, \<open>pfree\<close>), for paging; \<open>block_cache\<close>, sessions of
  reading, changing and releasing a block, for inodes and directories; \<open>byte_queue\<close>, bounded queues
  of bytes, for pipes and for the buffers of serial ports and keyboard; \<open>port_refinement\<close>, output
  routines that refine an abstract port, for formatted output on text, on the serial ports and by
  \<open>write\<close> from user programs.

  \<^bold>\<open>What is shown.\<close>
  \<^item> Memory: the free list refines a stack; \<open>map_pages\<close> changes the abstract translation exactly
    as asked; growing, shrinking and freeing an address space maps, unmaps and returns exactly its
    frames; the kernel map; the descriptor tables.
  \<^item> Processes: an invariant of every sequence of scheduler rounds and process operations, by rule
    induction; the scheduler reaches a ready process; what \<open>fork\<close>, \<open>exit\<close>, \<open>wait\<close>, mutexes and
    pipes do, with the blocking cases; preemption and the end of faulting programs.
  \<^item> File system: reading and writing refine operations on a sequence of bytes, over the cache and
    the disk; inodes survive flushing and loading; the free map is a set of bits; what happens when
    blocks run out and when a file grows beyond its direct blocks.
  \<^item> Input, output and libraries: \<open>memmove\<close>, \<open>strrev\<close>, \<open>strtok_r\<close>, formatted output and its
    inverse, the serial buffers, a console session, the screen and the escape codes.  A call of
    \<open>format\<close> succeeds exactly when its arguments have the types that the format string asks for.
  \<^item> Start: the boot loader places every segment of the kernel and maps two windows; \<open>kmain\<close> gets to the
    scheduler, which runs \<open>init\<close>; \<open>mkfs\<close> writes a consistent image, and the kernel finds and reads
    back each program on it (below), although it misreads its map of free blocks.
  \<^item> User programs: a printed command line is parsed back by the shell; the system calls that
    \<open>init\<close> makes, whatever the answers.
  \<^item> Diagnostics: a panic is reported and leaves interrupts off; dumps show what they are asked to.
  \<^item> Several theorems state what the code does where that differs from what it seems to be meant
    to do; they describe the code as it is.

  \<^bold>\<open>Bounds and fuel.\<close>  Loops over a counter are structural recursion; other loops have a
  termination proof, or are \<^theory_text>\<open>partial_function (option)\<close> where the source may run for ever
  (scans for a NUL byte).  Where a loop is bounded by data, its fuel is the number of rounds the
  data allow plus one (entries of a directory, rounds of the scheduler over the 64 slots,
  arguments of \<open>exec\<close>), and running out is the fault \<open>Hang\<close>; the theorems show that it does not
  occur.  Machine integers are words of their width.

  \<^bold>\<open>Not modelled.\<close>  Inline assembly (i386/i386.h) and the assembly files (context switch, trap
  entry, boot sector, entry of user programs), whose effect is part of the processor and device states
  of the components that use them.  The progress messages of the start, the messages of \<open>mkfs\<close>, and the traces that
  debug builds print between other steps; \<open>dump_cmd\<close> of the shell, which prints arguments that the parser has
  not set.  Section headers of ELF files and the unused fields of the task state segment, which no
  code reads.  The program \<open>ls\<close> is commented out in the source.
\<close>

section \<open>The kernel on a disk of the image tool\<close>

text \<open>C8: From the image to a running program.  Let \<open>mkfs\<close> make an image of the programs \<open>fs\<close>, and let
  the kernel start on that disk.  Then \<open>fs_init\<close> succeeds, and \<open>dir_abspath\<close> finds the path
  \<open>/w\<close> of a program with the (shortened) name \<open>w\<close>: reading the inode that it returns gives back the
  bytes of the first program of that name, up to its end, as long as it fits into the direct blocks.\<close>

theorem image_program_readable:
  assumes "progs_ok byt fs" "length fs \<le> 131" "21 + blocks_for (28 * (length fs + 2)) + prog_blocks fs \<le> 1001"
    and "make_image byt (map (\<lambda>(path, bs). (path, Some bs)) fs) = Inr t" "booted t s"
    and "k < length fs" "prog_name byt (fst (fs ! k)) = w" "\<And>l. l < k \<Longrightarrow> prog_name byt (fst (fs ! l)) \<noteq> w"
    and "length (snd (fs ! k)) \<le> 6144" "w \<noteq> [46]" "path_ready m slash loc path w" "unat n < 2147483648"
  shows "\<exists>u m' v i x. fs_init s = Inr u \<and> dir_abspath dr slash loc path False m u = Inr (Some i, m', v) \<and>
    inode_read dr i 0 n v = Inr (int (min (unat n) (length (snd (fs ! k)))), take (unat n) (snd (fs ! k)), x)"
proof -
  let ?j = "of_nat (k + 2) :: u32"
  have t: "image_ok t" "img_file t 1 = root_dir byt fs" "\<forall>k < length fs. img_file t (2 + of_nat k) = snd (fs ! k) \<and> file_type t (2 + of_nat k) = F_FILE"
    "file_type t 1 = F_DIR" "unat (freeino t) = 2 + length fs"
    using make_image_ok [OF assms(1-3)] assms(4) by (auto simp: root_dir_def)
  have j: "img_file t ?j = snd (fs ! k)" "file_type t ?j = F_FILE" using t(3) assms(6) by (simp_all add: add.commute)
  have jj: "1 \<le> ?j" "?j < freeino t" using t(5) assms(2,6) by (auto simp: word32_cmp unat_add32 unat_of_nat32)
  obtain u where u: "fs_init s = Inr u" "mounted t u" "icache u = (replicate NINODES inode0)[0 := root_ref]"
    using booted_init [OF assms(5) t(1)] by blast
  obtain m' v where v: "dir_abspath dr slash loc path False m u = Inr (Some 1, m', v)" "mounted t v" "length (icache v) = NINODES"
    "i_read (icache v ! 1)" "i_inum (icache v ! 1) = ?j" "ino_d v 1 = disk_inode (img t) ?j"
    using abspath_program [OF u(2,3) assms(11) t(2,4) assms(2) t(5) assms(6,7,10,8) j(2), of dr] by blast
  have op: "open_file v 1" "mapped v 1 (unat (d_size (ino_d v 1)))" "file_bytes v 1 = snd (fs ! k)"
    using image_open [OF v(2) _ v(4,5,6) jj] v(3) j assms(9) by simp_all
  then show ?thesis using read_ok [OF op(1) _ op(2), of 0 n dr] u(1) v(1) assms(12) by (auto simp: min.commute)
qed

definition path_mem :: mem where
  "path_mem = (\<lambda>_. 0)(0x5000 := 47, 0x5001 := 105, 0x6000 := 47)"

theorem image_program_readable_witness:
  "\<exists>t s u m' v i x. make_image 0 [([47, 105, 95], Some [1, 2, 3])] = Inr t \<and> fs_init s = Inr u \<and>
    dir_abspath (\<lambda>_. None) 0x6000 0x1000 0x5000 False path_mem u = Inr (Some i, m', v) \<and>
    inode_read (\<lambda>_. None) i 0 100 v = Inr (3, [1, 2, 3], x)"
proof -
  obtain t s where t: "make_image 0 (map (\<lambda>(path, bs). (path, Some bs)) one_prog) = Inr t" "booted t s" using one_prog_booted by blast
  have "path_ready path_mem 0x6000 0x1000 0x5000 [105]"
    by (simp add: path_ready_def path_mem_def) (auto simp: le_Suc_eq)
  then show ?thesis
    using image_program_readable [OF one_prog_ok(1-3) t, of 0 "[105]" path_mem "0x6000" "0x1000" "0x5000" 100 "\<lambda>_. None"]
      one_prog_ok(4) t(1) by (fastforce simp: one_prog_def)
qed

text \<open>C13: The free map of an image is not the one that the kernel reads.  The tool sets the bits of all
  used blocks counted from block 0 and from the least significant bit of each byte; the kernel counts
  from the first data block and from the most significant bit.  So it takes block \<open>n\<close> for used
  when another block, number \<open>8 * ((n - 21) div 8) + (7 - (n - 21) mod 8)\<close>, is; and its first
  allocation gives out block 29, also when that block belongs to a program of the image.\<close>

theorem kernel_misreads_map:
  assumes "progs_ok byt fs" "length fs \<le> 131" "21 + blocks_for (28 * (length fs + 2)) + prog_blocks fs \<le> 1001"
    and "make_image byt (map (\<lambda>(path, bs). (path, Some bs)) fs) = Inr t" "booted t s"
  shows "\<exists>u v. fs_init s = Inr u \<and> block_alloc ROOTDEV u = Inr (29, v) \<and>
    (\<forall>n. 21 \<le> n \<and> n \<le> 1000 \<longrightarrow> (used_bit u (of_nat n) \<longleftrightarrow>
       8 * ((n - 21) div 8) + (7 - (n - 21) mod 8) < 21 + blocks_for (28 * (length fs + 2)) + prog_blocks fs))"
proof -
  have t: "image_ok t" "unat (freeblock t) = 21 + blocks_for (28 * (length fs + 2)) + prog_blocks fs"
    "img t ! 20 = set_bits_below (unat (freeblock t)) zeros"
    using make_image_ok [OF assms(1-3)] assms(4) by auto
  obtain u where u: "fs_init s = Inr u" "mounted t u" using booted_init [OF assms(5) t(1)] by blast
  obtain v where "block_alloc ROOTDEV u = Inr (29, v)" using mounted_alloc [OF u(2) t(3)] by blast
  then show ?thesis using u(1) mounted_map(3) [OF u(2) t(3)] t(2) by (intro exI [of _ u] exI [of _ v]) simp
qed

theorem kernel_misreads_map_witness:
  "\<exists>t s u v. make_image 0 [([47, 105, 95], Some [1, 2, 3])] = Inr t \<and> fs_init s = Inr u \<and>
    block_alloc ROOTDEV u = Inr (29, v) \<and> used_bit u 40 \<and> \<not> used_bit u 37"
proof -
  obtain t s where t: "make_image 0 (map (\<lambda>(path, bs). (path, Some bs)) one_prog) = Inr t" "booted t s" using one_prog_booted by blast
  have b: "prog_blocks one_prog = 1" "blocks_for (28 * (length one_prog + 2)) = 1" by (simp_all add: prog_blocks_def blocks_for_def one_prog_def)
  obtain u v where u: "fs_init s = Inr u" "block_alloc ROOTDEV u = Inr (29, v)"
    "\<forall>n. 21 \<le> n \<and> n \<le> 1000 \<longrightarrow> (used_bit u (of_nat n) \<longleftrightarrow> 8 * ((n - 21) div 8) + (7 - (n - 21) mod 8) < 23)"
    using kernel_misreads_map [OF one_prog_ok(1-3) t] unfolding b by auto
  have "used_bit u 40" "\<not> used_bit u 37" using spec [OF u(3), of 40] spec [OF u(3), of 37] by simp_all
  then show ?thesis using t(1) u(1,2) by (auto simp: one_prog_def)
qed

end
